(* ===== verification/PJ_Prelude.thy ===== *)
theory PJ_Prelude
  imports Main "HOL-Library.Word" "HOL-Library.Multiset"
begin

text \<open>
  Shared vocabulary of the development: the width-annotated integer types of
  \<^verbatim>\<open>pjlib/include/pj/types.h\<close>, the status codes that the modelled functions return,
  C's truncating division, and the generic facts about lists and words that several
  components use. Facts that the component proofs hand to \<open>simp\<close> and \<open>auto\<close>
  as a group live in the named collections declared here.
\<close>

unbundle bit_operations_syntax

named_theorems pj_defs \<open>definitions that component proofs unfold together\<close>
named_theorems pj_frame \<open>which fields an operation leaves unchanged\<close>

section \<open>Machine integers and pointers\<close>

type_synonym pj_uint8_t = "8 word"
type_synonym pj_uint16_t = "16 word"
type_synonym pj_uint32_t = "32 word"
type_synonym bytes = "pj_uint8_t list"

text \<open>An address. Structures that the code shares by pointer live in a store indexed by it.\<close>

type_synonym ptr = nat

section \<open>Status codes\<close>

text \<open>
  The \<^verbatim>\<open>pj_status_t\<close> values returned by the modelled functions. \<open>PJ_EUNNAMED\<close> is the
  literal \<^verbatim>\<open>-1\<close> that a few functions return in place of a named code, and \<open>PJ_ECODE\<close> any code
  that the modelled functions only pass on.
\<close>

datatype pj_status_t =
    PJ_SUCCESS | PJ_EINVAL | PJ_ENOMEM | PJ_ENOTFOUND | PJ_EINVALIDOP | PJ_ETOOSMALL
  | PJ_ETOOMANY | PJ_ETOOBIG | PJ_EEXISTS | PJ_EPENDING | PJ_ECANCELLED | PJ_EIGNORED
  | PJ_EUNNAMED | PJ_EBUG | PJ_EBUSY | PJ_EUNKNOWN | PJ_ERESOLVE | PJLIB_UTIL_EDNS_NXDOMAIN
  | PJSIP_EMISSINGHDR | PJSIP_ENOTREQUESTMSG | PJSIP_ENOTRESPONSEMSG | PJSIP_EINVALIDHDR
  | PJSIP_EINVALIDMETHOD | PJ_ECODE nat

section \<open>C division\<close>

text \<open>Signed division and remainder of C round towards zero.\<close>

definition c_div :: "int \<Rightarrow> int \<Rightarrow> int" where
  "c_div a b = sgn a * sgn b * (\<bar>a\<bar> div \<bar>b\<bar>)"

definition c_mod :: "int \<Rightarrow> int \<Rightarrow> int" where
  "c_mod a b = a - c_div a b * b"

lemma c_div_nonneg: "0 \<le> a \<Longrightarrow> 0 < b \<Longrightarrow> c_div a b = a div b"
  by (cases "a = 0") (auto simp: c_div_def)

lemma c_mod_nonneg: "0 \<le> a \<Longrightarrow> 0 < b \<Longrightarrow> c_mod a b = a mod b"
  by (simp add: c_mod_def c_div_nonneg minus_div_mult_eq_mod)

section \<open>Lists\<close>

lemma set_take_conv_nth: "n \<le> length xs \<Longrightarrow> set (take n xs) = {xs ! i |i. i < n}"
  by (force simp: in_set_conv_nth)

lemma take_Suc_last: "n < length xs \<Longrightarrow> take (Suc n) xs = take n xs @ [xs ! n]"
  by (rule take_Suc_conv_app_nth)

lemma nth_list_update_if: "i < length xs \<Longrightarrow> xs[i := v] ! j = (if i = j then v else xs ! j)"
  by (simp add: nth_list_update)

lemma nth_list_update_outside: "i \<in> A \<Longrightarrow> j \<notin> A \<Longrightarrow> xs[i := v] ! j = xs ! j"
  by (metis nth_list_update_neq)

lemma nth_update_at: "j < length xs \<Longrightarrow> xs[i := v] ! j = (if i = j then v else xs ! j)"
  by (cases "i = j") auto

lemma list_all_update: "list_all P xs \<Longrightarrow> P v \<Longrightarrow> list_all P (xs[i := v])"
  by (simp add: list_all_length nth_update_at)

lemma length_filter_update:
  "i < length xs \<Longrightarrow>
   length (filter P (xs[i := v])) + (if P (xs ! i) then 1 else 0) = length (filter P xs) + (if P v then 1 else 0)"
proof (induction xs arbitrary: i)
  case (Cons x xs)
  then show ?case using Cons.IH [of "i - 1"] by (cases i) auto
qed simp

lemma mset_take_list_update:
  assumes "i < n" "n \<le> length xs"
  shows "mset (take n (xs[i := v])) = add_mset v (mset (take n xs) - {#xs ! i#})"
proof -
  have "take n (xs[i := v]) = (take n xs)[i := v]" by (simp add: take_update_swap)
  with assms show ?thesis by (simp add: mset_update)
qed

section \<open>Words\<close>

lemma sint_small: "unat (x :: pj_uint32_t) < 2 ^ 31 \<Longrightarrow> sint x = int (unat x)"
proof -
  assume "unat x < 2 ^ 31"
  then have "unat x < 2147483648" by simp
  moreover have u: "uint x = int (unat x)" by simp
  ultimately have "uint x < 2147483648" by linarith
  moreover have "- 2147483648 \<le> uint x" by (rule order_trans [of _ 0]) simp_all
  ultimately have "signed_take_bit 31 (uint x) = uint x" by (intro signed_take_bit_int_eq_self) simp_all
  then show ?thesis by (simp add: sint_uint)
qed

section \<open>Bytes\<close>

lemma all_bytes: "(\<forall>c :: pj_uint8_t. P c) \<longleftrightarrow> list_all (\<lambda>n. P (of_nat n)) [0..<256]"
proof
  assume P: "list_all (\<lambda>n. P (of_nat n)) [0..<256]"
  show "\<forall>c. P c"
  proof
    fix c :: pj_uint8_t
    have "unat c < 2 ^ LENGTH(8)" by (rule unsigned_less)
    then have "unat c < 256" by simp
    with P show "P c" by (auto simp: list_all_iff dest!: bspec [of _ _ "unat c"])
  qed
qed (simp add: list_all_iff)

end
