(* ===== verification/PJ_Time.thy ===== *)
theory PJ_Time
  imports PJ_Prelude
begin

text \<open>
  Time values: \<^verbatim>\<open>pj_time_val\<close> with the comparison, addition and subtraction macros of
  \<^verbatim>\<open>pjlib/include/pj/types.h\<close> and \<^verbatim>\<open>pj_time_val_normalize\<close> of \<^verbatim>\<open>pjlib/src/pj/types.c\<close>.
  The two \<^verbatim>\<open>long\<close> fields are unbounded integers here: signed overflow of a \<^verbatim>\<open>long\<close> is
  undefined in C and is not modelled. The comparison macros are the lexicographic order on
  the two fields, and the type is made an instance of \<open>linorder\<close> by them.
\<close>

section \<open>The structure and its macros\<close>

datatype pj_time_val = Time_val (sec: int) (msec: int)

definition PJ_TIME_VAL_MSEC :: "pj_time_val \<Rightarrow> int" where
  "PJ_TIME_VAL_MSEC t = sec t * 1000 + msec t"

definition PJ_TIME_VAL_EQ :: "pj_time_val \<Rightarrow> pj_time_val \<Rightarrow> bool" where
  "PJ_TIME_VAL_EQ t1 t2 \<longleftrightarrow> sec t1 = sec t2 \<and> msec t1 = msec t2"

definition PJ_TIME_VAL_GT :: "pj_time_val \<Rightarrow> pj_time_val \<Rightarrow> bool" where
  "PJ_TIME_VAL_GT t1 t2 \<longleftrightarrow> sec t1 > sec t2 \<or> (sec t1 = sec t2 \<and> msec t1 > msec t2)"

definition PJ_TIME_VAL_GTE :: "pj_time_val \<Rightarrow> pj_time_val \<Rightarrow> bool" where
  "PJ_TIME_VAL_GTE t1 t2 \<longleftrightarrow> PJ_TIME_VAL_GT t1 t2 \<or> PJ_TIME_VAL_EQ t1 t2"

definition PJ_TIME_VAL_LT :: "pj_time_val \<Rightarrow> pj_time_val \<Rightarrow> bool" where
  "PJ_TIME_VAL_LT t1 t2 \<longleftrightarrow> \<not> PJ_TIME_VAL_GTE t1 t2"

definition PJ_TIME_VAL_LTE :: "pj_time_val \<Rightarrow> pj_time_val \<Rightarrow> bool" where
  "PJ_TIME_VAL_LTE t1 t2 \<longleftrightarrow> \<not> PJ_TIME_VAL_GT t1 t2"

text \<open>The \<^verbatim>\<open>do \<dots> while (t->msec <= -1000)\<close> loop of the normalisation.\<close>

function normalize_neg_loop :: "int \<Rightarrow> int \<Rightarrow> int \<times> int" where
  "normalize_neg_loop s ms =
     (let s' = s - 1; ms' = ms + 1000
      in if ms' \<le> -1000 then normalize_neg_loop s' ms' else (s', ms'))"
  by pat_completeness auto
termination
  by (relation "measure (\<lambda>(s, ms). nat (- ms))") auto

declare normalize_neg_loop.simps [simp del]

definition pj_time_val_normalize :: "pj_time_val \<Rightarrow> pj_time_val" where
  "pj_time_val_normalize t =
     (let (s, ms) =
        (if msec t \<ge> 1000 then (sec t + c_div (msec t) 1000, c_mod (msec t) 1000)
         else if msec t \<le> -1000 then normalize_neg_loop (sec t) (msec t)
         else (sec t, msec t))
      in if s \<ge> 1 \<and> ms < 0 then Time_val (s - 1) (ms + 1000)
         else if s < 0 \<and> ms > 0 then Time_val (s + 1) (ms - 1000)
         else Time_val s ms)"

definition PJ_TIME_VAL_ADD :: "pj_time_val \<Rightarrow> pj_time_val \<Rightarrow> pj_time_val" where
  "PJ_TIME_VAL_ADD t1 t2 =
     pj_time_val_normalize (Time_val (sec t1 + sec t2) (msec t1 + msec t2))"

definition PJ_TIME_VAL_SUB :: "pj_time_val \<Rightarrow> pj_time_val \<Rightarrow> pj_time_val" where
  "PJ_TIME_VAL_SUB t1 t2 =
     pj_time_val_normalize (Time_val (sec t1 - sec t2) (msec t1 - msec t2))"

section \<open>The comparison macros are a linear order\<close>

instantiation pj_time_val :: linorder
begin

definition less_eq_pj_time_val :: "pj_time_val \<Rightarrow> pj_time_val \<Rightarrow> bool" where
  "less_eq_pj_time_val t1 t2 \<longleftrightarrow> PJ_TIME_VAL_LTE t1 t2"

definition less_pj_time_val :: "pj_time_val \<Rightarrow> pj_time_val \<Rightarrow> bool" where
  "less_pj_time_val t1 t2 \<longleftrightarrow> PJ_TIME_VAL_LT t1 t2"

instance
proof
  fix x y z :: pj_time_val
  note defs = less_eq_pj_time_val_def less_pj_time_val_def PJ_TIME_VAL_LTE_def
    PJ_TIME_VAL_LT_def PJ_TIME_VAL_GTE_def PJ_TIME_VAL_GT_def PJ_TIME_VAL_EQ_def
  show "x < y \<longleftrightarrow> x \<le> y \<and> \<not> y \<le> x" unfolding defs by linarith
  show "x \<le> x" by (simp add: defs)
  show "x \<le> y \<Longrightarrow> y \<le> z \<Longrightarrow> x \<le> z" unfolding defs by linarith
  show "x \<le> y \<Longrightarrow> y \<le> x \<Longrightarrow> x = y"
    unfolding defs by (rule pj_time_val.expand) linarith
  show "x \<le> y \<or> y \<le> x" unfolding defs by linarith
qed

end

text \<open>The macros read as order relations; the proofs below use only these.\<close>

lemma time_val_order [simp]:
  "PJ_TIME_VAL_LT a b \<longleftrightarrow> a < b"
  "PJ_TIME_VAL_LTE a b \<longleftrightarrow> a \<le> b"
  by (simp_all add: less_pj_time_val_def less_eq_pj_time_val_def)

lemma time_val_order_gt [simp]:
  "PJ_TIME_VAL_GT a b \<longleftrightarrow> b < a"
  "PJ_TIME_VAL_GTE a b \<longleftrightarrow> b \<le> a"
  by (metis PJ_TIME_VAL_LTE_def less_eq_pj_time_val_def not_le)
     (metis PJ_TIME_VAL_LT_def less_pj_time_val_def not_le)

section \<open>Normal form\<close>

definition time_val_normal :: "pj_time_val \<Rightarrow> bool" where
  "time_val_normal t \<longleftrightarrow>
     -1000 < msec t \<and> msec t < 1000 \<and> (sec t > 0 \<longrightarrow> msec t \<ge> 0) \<and> (sec t < 0 \<longrightarrow> msec t \<le> 0)"

lemma normalize_neg_loop_props:
  assumes "ms \<le> -1000" "normalize_neg_loop s ms = (s', ms')"
  shows "s' * 1000 + ms' = s * 1000 + ms \<and> -1000 < ms' \<and> ms' \<le> 0"
  using assms
proof (induction s ms rule: normalize_neg_loop.induct)
  case (1 s ms)
  show ?case
  proof (cases "ms + 1000 \<le> -1000")
    case True
    with 1 show ?thesis
      by (auto simp: normalize_neg_loop.simps [of s ms] Let_def)
  next
    case False
    with 1 show ?thesis
      by (auto simp: normalize_neg_loop.simps [of s ms] Let_def)
  qed
qed

lemma normalize_props:
  "PJ_TIME_VAL_MSEC (pj_time_val_normalize t) = PJ_TIME_VAL_MSEC t \<and>
   time_val_normal (pj_time_val_normalize t)"
proof -
  consider "msec t \<ge> 1000" | "msec t \<le> -1000" | "-1000 < msec t" "msec t < 1000" by linarith
  then show ?thesis
  proof cases
    case 1
    have "msec t = 1000 * (msec t div 1000) + msec t mod 1000" by simp
    moreover have "0 \<le> msec t mod 1000" "msec t mod 1000 < 1000" by simp_all
    ultimately show ?thesis using 1
      by (auto simp: pj_time_val_normalize_def PJ_TIME_VAL_MSEC_def time_val_normal_def
          c_div_nonneg c_mod_nonneg Let_def)
  next
    case 2
    obtain s ms where sm: "normalize_neg_loop (sec t) (msec t) = (s, ms)" by fastforce
    with 2 normalize_neg_loop_props [OF 2 sm] show ?thesis
      by (auto simp: pj_time_val_normalize_def PJ_TIME_VAL_MSEC_def time_val_normal_def Let_def)
  next
    case 3
    then show ?thesis
      by (auto simp: pj_time_val_normalize_def PJ_TIME_VAL_MSEC_def time_val_normal_def Let_def)
  qed
qed

lemma normalize_msec [simp]:
  "PJ_TIME_VAL_MSEC (pj_time_val_normalize t) = PJ_TIME_VAL_MSEC t"
  by (simp add: normalize_props)

lemma normalize_normal [simp]: "time_val_normal (pj_time_val_normalize t)"
  by (simp add: normalize_props)

lemma add_msec [simp]:
  "PJ_TIME_VAL_MSEC (PJ_TIME_VAL_ADD a b) = PJ_TIME_VAL_MSEC a + PJ_TIME_VAL_MSEC b"
  by (simp add: PJ_TIME_VAL_ADD_def) (simp add: PJ_TIME_VAL_MSEC_def)

lemma sub_msec [simp]:
  "PJ_TIME_VAL_MSEC (PJ_TIME_VAL_SUB a b) = PJ_TIME_VAL_MSEC a - PJ_TIME_VAL_MSEC b"
  by (simp add: PJ_TIME_VAL_SUB_def) (simp add: PJ_TIME_VAL_MSEC_def)

text \<open>On normal values the comparison macros compare milliseconds.\<close>

lemma time_val_le_iff_msec:
  assumes "time_val_normal a" "time_val_normal b"
  shows "a \<le> b \<longleftrightarrow> PJ_TIME_VAL_MSEC a \<le> PJ_TIME_VAL_MSEC b"
  using assms
  by (auto simp: less_eq_pj_time_val_def PJ_TIME_VAL_LTE_def PJ_TIME_VAL_GT_def
      time_val_normal_def PJ_TIME_VAL_MSEC_def simp del: time_val_order time_val_order_gt)

end
