(* ===== verification/PJ_Timer.thy ===== *)
theory PJ_Timer
  imports PJ_Time
begin

text \<open>
  The timer heap of \<^verbatim>\<open>pjlib/src/pj/timer.c\<close>. Timer entries are shared by pointer between the
  application and the heap, so they live in a store \<open>ents\<close> indexed by address; the heap
  holds addresses. \<open>grp_refs\<close> counts the references that the code takes on group locks with
  \<^verbatim>\<open>pj_grp_lock_add_ref\<close> and \<^verbatim>\<open>pj_grp_lock_dec_ref\<close>. Each public function runs under the heap's
  lock and is one atomic step here. The clock value read by \<^verbatim>\<open>pj_gettickcount\<close> is an argument
  (\<open>now\<close>), and the callback that a poll runs with the lock released is an argument too:
  it may change the whole state. \<^verbatim>\<open>PJ_ASSERT_RETURN\<close> returns its error value, \<^verbatim>\<open>pj_assert\<close> does
  nothing, and \<^verbatim>\<open>PJ_TIMER_DEBUG\<close> is off. Storage that \<^verbatim>\<open>pj_pool_alloc\<close> leaves uninitialised
  holds address 0; nothing reads it.

  The lemmas show that the array of entry pointers stays a heap ordered by expiry, that
  \<open>timer_ids\<close> is at all times the inverse of the heap array on the scheduled entries and a
  linked list of the free ids elsewhere, and that the heap refines a finite map from entries to
  expiry times.
\<close>

section \<open>State\<close>

record pj_timer_entry =
  user_data :: ptr
  id :: int
  cb :: "ptr option"
  timer_id :: int
  timer_value :: pj_time_val
  grp_lock :: "ptr option"

record pj_timer_heap_t =
  max_size :: nat
  cur_size :: nat
  max_entries_per_poll :: nat
  lock :: "ptr option"
  auto_delete_lock :: bool
  heap :: "ptr list"
  timer_ids :: "int list"
  timer_ids_freelist :: int

record timer_world =
  ht :: pj_timer_heap_t
  ents :: "ptr \<Rightarrow> pj_timer_entry"
  grp_refs :: "ptr \<Rightarrow> int"

definition DEFAULT_MAX_TIMED_OUT_PER_POLL :: nat where
  "DEFAULT_MAX_TIMED_OUT_PER_POLL = 64"

definition PJ_MAXINT32 :: int where
  "PJ_MAXINT32 = 2147483647"

section \<open>Internal operations on the two arrays\<close>

definition HEAP_PARENT :: "nat \<Rightarrow> nat" where
  "HEAP_PARENT X = (if X = 0 then 0 else (X - 1) div 2)"

definition HEAP_LEFT :: "nat \<Rightarrow> nat" where
  "HEAP_LEFT X = (X + X) + 1"

definition copy_node ::
  "(ptr \<Rightarrow> pj_timer_entry) \<Rightarrow> pj_timer_heap_t \<Rightarrow> nat \<Rightarrow> ptr \<Rightarrow> pj_timer_heap_t" where
  "copy_node es h slot moved_node =
     h\<lparr>heap := (heap h)[slot := moved_node],
       timer_ids := (timer_ids h)[nat (timer_id (es moved_node)) := int slot]\<rparr>"

definition pop_freelist :: "pj_timer_heap_t \<Rightarrow> int \<times> pj_timer_heap_t" where
  "pop_freelist h =
     (let new_id = timer_ids_freelist h
      in (new_id, h\<lparr>timer_ids_freelist := - (timer_ids h ! nat (timer_ids_freelist h))\<rparr>))"

definition push_freelist :: "pj_timer_heap_t \<Rightarrow> int \<Rightarrow> pj_timer_heap_t" where
  "push_freelist h old_id =
     h\<lparr>timer_ids := (timer_ids h)[nat old_id := - timer_ids_freelist h],
       timer_ids_freelist := old_id\<rparr>"

lemma copy_node_frame [simp]:
  "max_size (copy_node es h s m) = max_size h"
  "cur_size (copy_node es h s m) = cur_size h"
  "max_entries_per_poll (copy_node es h s m) = max_entries_per_poll h"
  "lock (copy_node es h s m) = lock h"
  "auto_delete_lock (copy_node es h s m) = auto_delete_lock h"
  "timer_ids_freelist (copy_node es h s m) = timer_ids_freelist h"
  "heap (copy_node es h s m) = (heap h)[s := m]"
  "timer_ids (copy_node es h s m) = (timer_ids h)[nat (timer_id (es m)) := int s]"
  by (simp_all add: copy_node_def)

function reheap_down ::
  "(ptr \<Rightarrow> pj_timer_entry) \<Rightarrow> pj_timer_heap_t \<Rightarrow> ptr \<Rightarrow> nat \<Rightarrow> nat \<Rightarrow> pj_timer_heap_t" where
  "reheap_down es h moved_node slot child =
     (if child < cur_size h then
        let child = (if child + 1 < cur_size h \<and>
                        PJ_TIME_VAL_LT (timer_value (es (heap h ! (child + 1))))
                                       (timer_value (es (heap h ! child)))
                     then child + 1 else child)
        in if PJ_TIME_VAL_LT (timer_value (es (heap h ! child))) (timer_value (es moved_node))
           then reheap_down es (copy_node es h slot (heap h ! child)) moved_node
                  child (HEAP_LEFT child)
           else copy_node es h slot moved_node
      else copy_node es h slot moved_node)"
  by pat_completeness auto
termination
  by (relation "measure (\<lambda>(es, h, m, s, c). cur_size h - c)") (auto simp: HEAP_LEFT_def)

function reheap_up ::
  "(ptr \<Rightarrow> pj_timer_entry) \<Rightarrow> pj_timer_heap_t \<Rightarrow> ptr \<Rightarrow> nat \<Rightarrow> nat \<Rightarrow> pj_timer_heap_t" where
  "reheap_up es h moved_node slot parent =
     (if slot > 0 then
        if PJ_TIME_VAL_LT (timer_value (es moved_node)) (timer_value (es (heap h ! parent)))
        then reheap_up es (copy_node es h slot (heap h ! parent)) moved_node
               parent (HEAP_PARENT parent)
        else copy_node es h slot moved_node
      else copy_node es h slot moved_node)"
  by pat_completeness auto
termination
  by (relation "measure (\<lambda>(es, h, m, s, p). if s = 0 then 0 else p + 1)")
    (auto simp: HEAP_PARENT_def)

declare reheap_down.simps [simp del] reheap_up.simps [simp del]

text \<open>\<^verbatim>\<open>remove_node\<close> also writes the removed entry, so it takes and returns the store.\<close>

definition remove_node ::
  "(ptr \<Rightarrow> pj_timer_entry) \<Rightarrow> pj_timer_heap_t \<Rightarrow> nat \<Rightarrow>
   ptr \<times> (ptr \<Rightarrow> pj_timer_entry) \<times> pj_timer_heap_t" where
  "remove_node es h slot =
     (let removed_node = heap h ! slot;
          h = push_freelist h (timer_id (es removed_node));
          h = h\<lparr>cur_size := cur_size h - 1\<rparr>;
          es = es(removed_node := (es removed_node)\<lparr>timer_id := -1\<rparr>)
      in if slot < cur_size h then
           let moved_node = heap h ! cur_size h;
               h = copy_node es h slot moved_node;
               parent = HEAP_PARENT slot
           in if PJ_TIME_VAL_GTE (timer_value (es moved_node)) (timer_value (es (heap h ! parent)))
              then (removed_node, es, reheap_down es h moved_node slot (HEAP_LEFT slot))
              else (removed_node, es, reheap_up es h moved_node slot parent)
         else (removed_node, es, h))"

definition grow_heap :: "pj_timer_heap_t \<Rightarrow> pj_timer_heap_t" where
  "grow_heap h =
     (let new_size = max_size h * 2
      in h\<lparr>heap := take (max_size h) (heap h) @ replicate (new_size - max_size h) 0,
           timer_ids := take (max_size h) (timer_ids h) @
             map (\<lambda>i. - (int i + 1)) [max_size h ..< new_size],
           max_size := new_size\<rparr>)"

definition insert_node ::
  "(ptr \<Rightarrow> pj_timer_entry) \<Rightarrow> pj_timer_heap_t \<Rightarrow> ptr \<Rightarrow> pj_timer_heap_t" where
  "insert_node es h new_node =
     (let h = (if cur_size h + 2 \<ge> max_size h then grow_heap h else h);
          h = reheap_up es h new_node (cur_size h) (HEAP_PARENT (cur_size h))
      in h\<lparr>cur_size := cur_size h + 1\<rparr>)"

definition schedule_entry ::
  "timer_world \<Rightarrow> ptr \<Rightarrow> pj_time_val \<Rightarrow> pj_status_t \<times> timer_world" where
  "schedule_entry w entry future_time =
     (if cur_size (ht w) < max_size (ht w) then
        let (new_id, h) = pop_freelist (ht w);
            es = (ents w)(entry := (ents w entry)\<lparr>timer_id := new_id\<rparr>);
            es = es(entry := (es entry)\<lparr>timer_value := future_time\<rparr>);
            h = insert_node es h entry
        in (PJ_SUCCESS, w\<lparr>ht := h, ents := es\<rparr>)
      else (PJ_EUNNAMED, w))"

text \<open>
  \<^verbatim>\<open>cancel\<close> with \<^verbatim>\<open>F_DONT_CALL\<close>, the only way the public functions call it. Its range check
  admits \<open>timer_id = max_size\<close>, one past the end of \<open>timer_ids\<close>; that read is outside
  the array and the result is \<open>None\<close>.
\<close>

definition cancel :: "timer_world \<Rightarrow> ptr \<Rightarrow> (int \<times> timer_world) option" where
  "cancel w entry =
     (let tid = timer_id (ents w entry);
          unset = w\<lparr>ents := (ents w)(entry := (ents w entry)\<lparr>timer_id := -1\<rparr>)\<rparr>
      in if tid < 0 \<or> nat tid > max_size (ht w) then Some (0, unset)
         else if nat tid \<ge> length (timer_ids (ht w)) then None
         else let timer_node_slot = timer_ids (ht w) ! nat tid
              in if timer_node_slot < 0 then Some (0, unset)
                 else if entry \<noteq> heap (ht w) ! nat timer_node_slot then Some (0, unset)
                 else let (_, es, h) = remove_node (ents w) (ht w) (nat timer_node_slot)
                      in Some (1, w\<lparr>ht := h, ents := es\<rparr>))"

section \<open>Public operations\<close>

text \<open>\<open>alloc k\<close> says whether the \<open>k\<close>-th allocation from the pool succeeds.\<close>

definition pj_timer_heap_create ::
  "(nat \<Rightarrow> bool) \<Rightarrow> nat \<Rightarrow> pj_status_t + pj_timer_heap_t" where
  "pj_timer_heap_create alloc cnt =
     (let sz = cnt + 2
      in if \<not> alloc 0 then Inl PJ_ENOMEM
         else if \<not> alloc 1 then Inl PJ_ENOMEM
         else if \<not> alloc 2 then Inl PJ_ENOMEM
         else Inr \<lparr>max_size = sz, cur_size = 0,
                   max_entries_per_poll = DEFAULT_MAX_TIMED_OUT_PER_POLL,
                   lock = None, auto_delete_lock = False,
                   heap = replicate sz 0,
                   timer_ids = map (\<lambda>i. - (int i + 1)) [0 ..< sz],
                   timer_ids_freelist = 1\<rparr>)"

text \<open>\<^verbatim>\<open>pj_lock_destroy\<close> is reported as the list of locks that the call destroys.\<close>

definition pj_timer_heap_destroy :: "pj_timer_heap_t \<Rightarrow> ptr list \<times> pj_timer_heap_t" where
  "pj_timer_heap_destroy h =
     (case lock h of
        Some l \<Rightarrow> if auto_delete_lock h then ([l], h\<lparr>lock := None\<rparr>) else ([], h)
      | None \<Rightarrow> ([], h))"

definition pj_timer_heap_set_lock ::
  "pj_timer_heap_t \<Rightarrow> ptr option \<Rightarrow> bool \<Rightarrow> ptr list \<times> pj_timer_heap_t" where
  "pj_timer_heap_set_lock h l auto_del =
     (case lock h of
        Some l' \<Rightarrow> if auto_delete_lock h then [l'] else []
      | None \<Rightarrow> [], h\<lparr>lock := l, auto_delete_lock := auto_del\<rparr>)"

definition pj_timer_heap_set_max_timed_out_per_poll ::
  "pj_timer_heap_t \<Rightarrow> nat \<Rightarrow> nat \<times> pj_timer_heap_t" where
  "pj_timer_heap_set_max_timed_out_per_poll h cnt =
     (max_entries_per_poll h, h\<lparr>max_entries_per_poll := cnt\<rparr>)"

definition pj_timer_entry_init ::
  "pj_timer_entry \<Rightarrow> int \<Rightarrow> ptr \<Rightarrow> ptr option \<Rightarrow> pj_timer_entry" where
  "pj_timer_entry_init e i ud c =
     e\<lparr>timer_id := -1, id := i, user_data := ud, cb := c, grp_lock := None\<rparr>"

definition pj_timer_entry_running :: "pj_timer_entry \<Rightarrow> bool" where
  "pj_timer_entry_running e \<longleftrightarrow> timer_id e \<ge> 1"

definition grp_add_ref :: "ptr option \<Rightarrow> (ptr \<Rightarrow> int) \<Rightarrow> (ptr \<Rightarrow> int)" where
  "grp_add_ref g r = (case g of None \<Rightarrow> r | Some l \<Rightarrow> r(l := r l + 1))"

definition grp_dec_ref :: "ptr option \<Rightarrow> (ptr \<Rightarrow> int) \<Rightarrow> (ptr \<Rightarrow> int)" where
  "grp_dec_ref g r = (case g of None \<Rightarrow> r | Some l \<Rightarrow> r(l := r l - 1))"

definition schedule_w_grp_lock ::
  "timer_world \<Rightarrow> ptr \<Rightarrow> pj_time_val \<Rightarrow> bool \<Rightarrow> int \<Rightarrow> ptr option \<Rightarrow> pj_time_val \<Rightarrow>
   pj_status_t \<times> timer_world" where
  "schedule_w_grp_lock w entry delay set_id id_val g now =
     (if cb (ents w entry) = None then (PJ_EINVAL, w)
      else if \<not> timer_id (ents w entry) < 1 then (PJ_EINVALIDOP, w)
      else
        let expires = PJ_TIME_VAL_ADD now delay;
            (status, w) = schedule_entry w entry expires
        in if status = PJ_SUCCESS then
             let e = ents w entry;
                 e = (if set_id then e\<lparr>id := id_val\<rparr> else e);
                 e = e\<lparr>grp_lock := g\<rparr>
             in (status, w\<lparr>ents := (ents w)(entry := e), grp_refs := grp_add_ref g (grp_refs w)\<rparr>)
           else (status, w))"

definition pj_timer_heap_schedule ::
  "timer_world \<Rightarrow> ptr \<Rightarrow> pj_time_val \<Rightarrow> pj_time_val \<Rightarrow> pj_status_t \<times> timer_world" where
  "pj_timer_heap_schedule w entry delay now = schedule_w_grp_lock w entry delay False 1 None now"

definition pj_timer_heap_schedule_w_grp_lock ::
  "timer_world \<Rightarrow> ptr \<Rightarrow> pj_time_val \<Rightarrow> int \<Rightarrow> ptr option \<Rightarrow> pj_time_val \<Rightarrow>
   pj_status_t \<times> timer_world" where
  "pj_timer_heap_schedule_w_grp_lock w entry delay id_val g now =
     schedule_w_grp_lock w entry delay True id_val g now"

definition cancel_timer ::
  "timer_world \<Rightarrow> ptr \<Rightarrow> bool \<Rightarrow> int \<Rightarrow> (int \<times> timer_world) option" where
  "cancel_timer w entry set_id id_val =
     (case cancel w entry of
        None \<Rightarrow> None
      | Some (cnt, w) \<Rightarrow>
          let e = ents w entry;
              e = (if set_id then e\<lparr>id := id_val\<rparr> else e);
              g = grp_lock e;
              e = (if g \<noteq> None then e\<lparr>grp_lock := None\<rparr> else e)
          in Some (cnt, w\<lparr>ents := (ents w)(entry := e), grp_refs := grp_dec_ref g (grp_refs w)\<rparr>))"

definition pj_timer_heap_cancel :: "timer_world \<Rightarrow> ptr \<Rightarrow> (int \<times> timer_world) option" where
  "pj_timer_heap_cancel w entry = cancel_timer w entry False 0"

definition pj_timer_heap_cancel_if_active ::
  "timer_world \<Rightarrow> ptr \<Rightarrow> int \<Rightarrow> (int \<times> timer_world) option" where
  "pj_timer_heap_cancel_if_active w entry id_val = cancel_timer w entry True id_val"

text \<open>
  The expiry loop of \<^verbatim>\<open>pj_timer_heap_poll\<close> and its body. \<open>callback p node w\<close> is what the
  function at address \<open>p\<close> does to the state when it is called for \<open>node\<close>. The third
  component of the result records which entries fired and with which expiry, in order. The limit
  per poll is read again in every round, and a callback may raise it, so the loop need not end:
  \<open>None\<close> stands for that.
\<close>

definition poll_fire ::
  "(ptr \<Rightarrow> ptr \<Rightarrow> timer_world \<Rightarrow> timer_world) \<Rightarrow> timer_world \<Rightarrow> (ptr \<times> pj_time_val) \<times> timer_world" where
  "poll_fire callback w =
     (let (node, es, h) = remove_node (ents w) (ht w) 0;
          g = grp_lock (es node);
          es = es(node := (es node)\<lparr>grp_lock := None\<rparr>);
          w = w\<lparr>ht := h, ents := es\<rparr>;
          w = (case cb (es node) of None \<Rightarrow> w | Some p \<Rightarrow> callback p node w)
      in ((node, timer_value (es node)), w\<lparr>grp_refs := grp_dec_ref g (grp_refs w)\<rparr>))"

partial_function (option) poll_loop ::
  "(ptr \<Rightarrow> ptr \<Rightarrow> timer_world \<Rightarrow> timer_world) \<Rightarrow> pj_time_val \<Rightarrow> nat \<Rightarrow> timer_world \<Rightarrow>
   (ptr \<times> pj_time_val) list \<Rightarrow> (nat \<times> timer_world \<times> (ptr \<times> pj_time_val) list) option" where
  "poll_loop callback now cnt w fired =
     (if cur_size (ht w) \<noteq> 0 \<and>
         PJ_TIME_VAL_LTE (timer_value (ents w (heap (ht w) ! 0))) now \<and>
         cnt < max_entries_per_poll (ht w)
      then let (f, w) = poll_fire callback w
           in poll_loop callback now (cnt + 1) w (fired @ [f])
      else Some (cnt, w, fired))"

declare poll_loop.simps [code]

text \<open>
  \<^verbatim>\<open>next_delay\<close> is an optional out parameter: \<open>want\<close> says whether it is given, and the
  second component of the result is what is stored there.
\<close>

definition poll_next_delay :: "timer_world \<Rightarrow> pj_time_val \<Rightarrow> pj_time_val" where
  "poll_next_delay w now =
     (if cur_size (ht w) \<noteq> 0 then
        let d = PJ_TIME_VAL_SUB (timer_value (ents w (heap (ht w) ! 0))) now
        in if sec d < 0 \<or> msec d < 0 then Time_val 0 0 else d
      else Time_val PJ_MAXINT32 PJ_MAXINT32)"

definition pj_timer_heap_poll ::
  "(ptr \<Rightarrow> ptr \<Rightarrow> timer_world \<Rightarrow> timer_world) \<Rightarrow> bool \<Rightarrow> pj_time_val \<Rightarrow> timer_world \<Rightarrow>
   (nat \<times> pj_time_val option \<times> timer_world \<times> (ptr \<times> pj_time_val) list) option" where
  "pj_timer_heap_poll callback want now w =
     (if cur_size (ht w) = 0 \<and> want
      then Some (0, Some (Time_val PJ_MAXINT32 PJ_MAXINT32), w, [])
      else case poll_loop callback now 0 w [] of
             None \<Rightarrow> None
           | Some (cnt, w, fired) \<Rightarrow>
               Some (cnt, if want then Some (poll_next_delay w now) else None, w, fired))"

definition pj_timer_heap_count :: "timer_world \<Rightarrow> nat" where
  "pj_timer_heap_count w = cur_size (ht w)"

definition pj_timer_heap_earliest_time :: "timer_world \<Rightarrow> pj_status_t + pj_time_val" where
  "pj_timer_heap_earliest_time w =
     (if cur_size (ht w) = 0 then Inl PJ_ENOTFOUND
      else Inr (timer_value (ents w (heap (ht w) ! 0))))"

section \<open>Moving the hole\<close>

text \<open>
  Both reheap loops carry a hole at \<open>slot\<close> into which \<open>moved_node\<close> is finally
  written. The array as it would be with \<open>moved_node\<close> in the hole is \<open>vheap\<close>; one
  loop step swaps two of its elements.
\<close>

definition vheap :: "pj_timer_heap_t \<Rightarrow> nat \<Rightarrow> ptr \<Rightarrow> ptr list" where
  "vheap h s m = (heap h)[s := m]"

lemma vheap_step:
  "s \<noteq> q \<Longrightarrow> vheap (copy_node es h s (heap h ! q)) q m = (vheap h s m)[s := vheap h s m ! q, q := m]"
  by (simp add: vheap_def)

lemma HEAP_PARENT_less: "0 < i \<Longrightarrow> HEAP_PARENT i < i"
  by (auto simp: HEAP_PARENT_def)

lemma HEAP_PARENT_le: "HEAP_PARENT i \<le> i"
  by (auto simp: HEAP_PARENT_def)

lemma HEAP_PARENT_child: "0 < i \<Longrightarrow> HEAP_PARENT i = p \<longleftrightarrow> i = HEAP_LEFT p \<or> i = HEAP_LEFT p + 1"
  unfolding HEAP_PARENT_def HEAP_LEFT_def by presburger

lemma HEAP_PARENT_LEFT [simp]:
  "HEAP_PARENT (HEAP_LEFT p) = p" "HEAP_PARENT (Suc (HEAP_LEFT p)) = p"
  by (auto simp: HEAP_PARENT_def HEAP_LEFT_def)

text \<open>What every step of a loop keeps, the whole loop keeps.\<close>

lemma reheap_up_rule:
  assumes "P h s" "s < n"
    and step: "\<And>h s q. P h s \<Longrightarrow> s < n \<Longrightarrow> q < n \<Longrightarrow> q \<noteq> s \<Longrightarrow> P (copy_node es h s (heap h ! q)) q"
    and stop: "\<And>h s. P h s \<Longrightarrow> s < n \<Longrightarrow> Q (copy_node es h s m)"
  shows "Q (reheap_up es h m s (HEAP_PARENT s))"
  using assms(1,2)
proof (induction s arbitrary: h rule: less_induct)
  case (less s)
  show ?case
  proof (cases "0 < s \<and> PJ_TIME_VAL_LT (timer_value (es m)) (timer_value (es (heap h ! HEAP_PARENT s)))")
    case True
    with HEAP_PARENT_less [of s] less.prems
    have "Q (reheap_up es (copy_node es h s (heap h ! HEAP_PARENT s)) m (HEAP_PARENT s)
            (HEAP_PARENT (HEAP_PARENT s)))"
      by (intro less.IH step) auto
    with True show ?thesis by (subst reheap_up.simps) simp
  next
    case False
    with less.prems show ?thesis by (subst reheap_up.simps) (auto intro: stop)
  qed
qed

lemma reheap_down_rule:
  assumes "P h s" "s < c" "s < n" "cur_size h = n"
    and step: "\<And>h s q. P h s \<Longrightarrow> s < n \<Longrightarrow> q < n \<Longrightarrow> q \<noteq> s \<Longrightarrow> P (copy_node es h s (heap h ! q)) q"
    and stop: "\<And>h s. P h s \<Longrightarrow> s < n \<Longrightarrow> Q (copy_node es h s m)"
  shows "Q (reheap_down es h m s c)"
  using assms(1-4)
proof (induction "n - c" arbitrary: h s c rule: less_induct)
  case less
  let ?c = "if c + 1 < n \<and> timer_value (es (heap h ! (c + 1))) < timer_value (es (heap h ! c))
            then c + 1 else c"
  show ?case
  proof (cases "c < n \<and> timer_value (es (heap h ! ?c)) < timer_value (es m)")
    case True
    then have c: "?c < n" "?c \<noteq> s" using less.prems by auto
    have "Q (reheap_down es (copy_node es h s (heap h ! ?c)) m ?c (HEAP_LEFT ?c))"
    proof (rule less.hyps)
      show "n - HEAP_LEFT ?c < n - c" using True by (auto simp: HEAP_LEFT_def)
      show "P (copy_node es h s (heap h ! ?c)) ?c" using less.prems c by (intro step)
    qed (use less.prems c in \<open>auto simp: HEAP_LEFT_def\<close>)
    with True less.prems show ?thesis by (subst reheap_down.simps) (auto simp: Let_def)
  next
    case False
    with less.prems show ?thesis
      by (subst reheap_down.simps) (auto simp: Let_def intro: stop)
  qed
qed

subsection \<open>The heap order\<close>

definition heap_order :: "('a \<Rightarrow> 'k::linorder) \<Rightarrow> 'a list \<Rightarrow> nat \<Rightarrow> bool" where
  "heap_order key xs n \<longleftrightarrow> (\<forall>i<n. 0 < i \<longrightarrow> key (xs ! HEAP_PARENT i) \<le> key (xs ! i))"

text \<open>Ordered but for slot \<open>s\<close> against its parent, respectively against its children.\<close>

definition up_ok :: "('a \<Rightarrow> 'k::linorder) \<Rightarrow> 'a list \<Rightarrow> nat \<Rightarrow> nat \<Rightarrow> bool" where
  "up_ok key xs n s \<longleftrightarrow>
     (\<forall>i<n. 0 < i \<and> i \<noteq> s \<longrightarrow> key (xs ! HEAP_PARENT i) \<le> key (xs ! i)) \<and>
     (\<forall>i<n. 0 < i \<and> HEAP_PARENT i = s \<and> 0 < s \<longrightarrow> key (xs ! HEAP_PARENT s) \<le> key (xs ! i))"

definition down_ok :: "('a \<Rightarrow> 'k::linorder) \<Rightarrow> 'a list \<Rightarrow> nat \<Rightarrow> nat \<Rightarrow> bool" where
  "down_ok key xs n s \<longleftrightarrow>
     (\<forall>i<n. 0 < i \<and> HEAP_PARENT i \<noteq> s \<longrightarrow> key (xs ! HEAP_PARENT i) \<le> key (xs ! i)) \<and>
     (\<forall>i<n. 0 < i \<and> HEAP_PARENT i = s \<and> 0 < s \<longrightarrow> key (xs ! HEAP_PARENT s) \<le> key (xs ! i))"

lemma heap_order_root_least:
  assumes "heap_order key xs n" "i < n"
  shows "key (xs ! 0) \<le> key (xs ! i)"
  using assms(2)
proof (induction i rule: less_induct)
  case (less i)
  show ?case
  proof (cases "i = 0")
    case False
    then have "key (xs ! 0) \<le> key (xs ! HEAP_PARENT i)"
      using less HEAP_PARENT_less [of i] by auto
    also have "\<dots> \<le> key (xs ! i)" using assms(1) less.prems False by (auto simp: heap_order_def)
    finally show ?thesis .
  qed simp
qed

lemma heap_order_cong:
  assumes "\<And>i. i < n \<Longrightarrow> key (xs ! i) = key' (ys ! i)"
  shows "heap_order key xs n \<longleftrightarrow> heap_order key' ys n"
proof -
  have "key (xs ! HEAP_PARENT i) = key' (ys ! HEAP_PARENT i)" if "i < n" for i
    using assms [of "HEAP_PARENT i"] HEAP_PARENT_le [of i] that by simp
  with assms show ?thesis by (simp add: heap_order_def)
qed

lemma up_ok_step:
  assumes ok: "up_ok key xs n s" and s: "0 < s" "s < n" "n \<le> length xs"
    and lt: "key (xs ! s) < key (xs ! HEAP_PARENT s)"
  shows "up_ok key (xs[s := xs ! HEAP_PARENT s, HEAP_PARENT s := xs ! s]) n (HEAP_PARENT s)"
proof -
  let ?p = "HEAP_PARENT s"
  let ?ys = "xs[s := xs ! ?p, ?p := xs ! s]"
  have p: "?p < s" using s by (simp add: HEAP_PARENT_less)
  have nth: "?ys ! j = (if j = ?p then xs ! s else if j = s then xs ! ?p else xs ! j)" for j
    using s p by (simp add: nth_list_update)
  have 1: "key (xs ! HEAP_PARENT i) \<le> key (xs ! i)" if "i < n" "0 < i" "i \<noteq> s" for i
    using ok that by (auto simp: up_ok_def)
  have 2: "key (xs ! ?p) \<le> key (xs ! i)" if "i < n" "0 < i" "HEAP_PARENT i = s" for i
    using ok that s by (auto simp: up_ok_def)
  show ?thesis unfolding up_ok_def
  proof (intro conjI allI impI)
    fix i assume i: "i < n" "0 < i \<and> i \<noteq> ?p"
    show "key (?ys ! HEAP_PARENT i) \<le> key (?ys ! i)"
      using i 1 [of i] 2 [of i] lt HEAP_PARENT_less [of i] less_imp_le [OF lt]
      by (auto simp: nth intro: order_trans)
  next
    fix i assume i: "i < n" "0 < i \<and> HEAP_PARENT i = ?p \<and> 0 < ?p"
    then have "key (xs ! HEAP_PARENT ?p) \<le> key (xs ! ?p)" using 1 [of ?p] p s by auto
    then show "key (?ys ! HEAP_PARENT ?p) \<le> key (?ys ! i)"
      using i 1 [of i] p HEAP_PARENT_less [of ?p] HEAP_PARENT_less [of i] by (auto simp: nth)
  qed
qed

lemma up_ok_stop:
  assumes "up_ok key xs n s" "s = 0 \<or> key (xs ! HEAP_PARENT s) \<le> key (xs ! s)"
  shows "heap_order key xs n"
  using assms by (auto simp: up_ok_def heap_order_def)

lemma down_ok_step:
  assumes ok: "down_ok key xs n s" and c: "c < n" "0 < c" "HEAP_PARENT c = s" "n \<le> length xs"
    and small: "\<And>i. i < n \<Longrightarrow> 0 < i \<Longrightarrow> HEAP_PARENT i = s \<Longrightarrow> key (xs ! c) \<le> key (xs ! i)"
    and lt: "key (xs ! c) < key (xs ! s)"
  shows "down_ok key (xs[s := xs ! c, c := xs ! s]) n c"
proof -
  let ?ys = "xs[s := xs ! c, c := xs ! s]"
  have s: "s < c" using c HEAP_PARENT_less by blast
  have nth: "?ys ! j = (if j = c then xs ! s else if j = s then xs ! c else xs ! j)" for j
    using s c by (simp add: nth_list_update)
  have 1: "key (xs ! HEAP_PARENT i) \<le> key (xs ! i)" if "i < n" "0 < i" "HEAP_PARENT i \<noteq> s" for i
    using ok that by (auto simp: down_ok_def)
  have 2: "key (xs ! HEAP_PARENT s) \<le> key (xs ! c)" if "0 < s"
    using ok that c by (auto simp: down_ok_def)
  show ?thesis unfolding down_ok_def
  proof (intro conjI allI impI)
    fix i assume i: "i < n" "0 < i \<and> HEAP_PARENT i \<noteq> c"
    show "key (?ys ! HEAP_PARENT i) \<le> key (?ys ! i)"
      using i 1 [of i] 2 small [of i] s c less_imp_le [OF lt] HEAP_PARENT_less [of i] HEAP_PARENT_less [of s]
      by (auto simp: nth)
  next
    fix i assume i: "i < n" "0 < i \<and> HEAP_PARENT i = c \<and> 0 < c"
    then show "key (?ys ! HEAP_PARENT c) \<le> key (?ys ! i)"
      using 1 [of i] s c HEAP_PARENT_less [of i] by (auto simp: nth)
  qed
qed

lemma down_ok_stop:
  assumes "down_ok key xs n s"
    and "\<And>i. i < n \<Longrightarrow> 0 < i \<Longrightarrow> HEAP_PARENT i = s \<Longrightarrow> key (xs ! s) \<le> key (xs ! i)"
  shows "heap_order key xs n"
  using assms by (auto simp: down_ok_def heap_order_def)

abbreviation expiry :: "(ptr \<Rightarrow> pj_timer_entry) \<Rightarrow> ptr \<Rightarrow> pj_time_val" where
  "expiry es \<equiv> (\<lambda>p. timer_value (es p))"

lemma reheap_up_order:
  assumes "up_ok (expiry es) (vheap h s m) n s" "s < n" "n \<le> length (heap h)"
  shows "heap_order (expiry es) (heap (reheap_up es h m s (HEAP_PARENT s))) n"
  using assms
proof (induction s arbitrary: h rule: less_induct)
  case (less s)
  let ?p = "HEAP_PARENT s"
  show ?case
  proof (cases "0 < s \<and> timer_value (es m) < timer_value (es (heap h ! ?p))")
    case True
    then have p: "?p < s" by (simp add: HEAP_PARENT_less)
    have "up_ok (expiry es) (vheap (copy_node es h s (heap h ! ?p)) ?p m) n ?p"
      using up_ok_step [OF less.prems(1)] True p less.prems by (simp add: vheap_def)
    with True p less show ?thesis by (subst reheap_up.simps) simp
  next
    case False
    have "s = 0 \<or> expiry es (vheap h s m ! ?p) \<le> expiry es (vheap h s m ! s)"
      using less.prems False HEAP_PARENT_less [of s]
      by (cases "s = 0") (auto simp: vheap_def not_less)
    with less.prems(1) have "heap_order (expiry es) (vheap h s m) n" by (rule up_ok_stop)
    with False show ?thesis by (subst reheap_up.simps) (auto simp: vheap_def)
  qed
qed

lemma reheap_down_order:
  assumes "down_ok (expiry es) (vheap h s m) n s" "s < n" "n \<le> length (heap h)"
    and "cur_size h = n"
  shows "heap_order (expiry es) (heap (reheap_down es h m s (HEAP_LEFT s))) n"
  using assms
proof (induction "n - s" arbitrary: h s rule: less_induct)
  case less
  let ?c = "HEAP_LEFT s"
  let ?d = "if ?c + 1 < n \<and> timer_value (es (heap h ! (?c + 1))) < timer_value (es (heap h ! ?c))
            then ?c + 1 else ?c"
  have sc: "s < ?c" by (simp add: HEAP_LEFT_def)
  have small: "timer_value (es (heap h ! ?d)) \<le> timer_value (es (heap h ! i))"
    if "i < n" "0 < i" "HEAP_PARENT i = s" for i
    using that by (auto simp: HEAP_PARENT_child not_less)
  show ?case
  proof (cases "?c < n \<and> timer_value (es (heap h ! ?d)) < timer_value (es m)")
    case True
    then have d: "?d < n" "HEAP_PARENT ?d = s" "s < ?d" "0 < ?d" using sc by auto
    have "down_ok (expiry es) (vheap (copy_node es h s (heap h ! ?d)) ?d m) n ?d"
      using down_ok_step [OF less.prems(1) d(1,4,2)] small d True less.prems HEAP_PARENT_less
      by (fastforce simp: vheap_def nth_list_update)
    then have "heap_order (expiry es)
        (heap (reheap_down es (copy_node es h s (heap h ! ?d)) m ?d (HEAP_LEFT ?d))) n"
      using less.prems d by (intro less.hyps) auto
    with True less.prems show ?thesis by (subst reheap_down.simps) (simp add: Let_def)
  next
    case False
    have "timer_value (es m) \<le> timer_value (es (heap h ! i))"
      if i: "i < n" "0 < i" "HEAP_PARENT i = s" for i
    proof -
      have "?c < n" using i by (auto simp: HEAP_PARENT_child)
      with False show ?thesis using small [OF i] by (auto simp: not_less intro: order_trans)
    qed
    then have "heap_order (expiry es) (vheap h s m) n"
      using less.prems HEAP_PARENT_less
      by (intro down_ok_stop [OF less.prems(1)]) (auto simp: vheap_def nth_list_update)
    with False less.prems show ?thesis by (subst reheap_down.simps) (auto simp: Let_def vheap_def)
  qed
qed

subsection \<open>The parallel id array\<close>

definition ids_ok :: "(ptr \<Rightarrow> pj_timer_entry) \<Rightarrow> pj_timer_heap_t \<Rightarrow> nat \<Rightarrow> bool" where
  "ids_ok es h n \<longleftrightarrow>
     (\<forall>i<n. 1 \<le> timer_id (es (heap h ! i)) \<and>
            nat (timer_id (es (heap h ! i))) < length (timer_ids h) \<and>
            timer_ids h ! nat (timer_id (es (heap h ! i))) = int i)"

definition hole_ok :: "(ptr \<Rightarrow> pj_timer_entry) \<Rightarrow> pj_timer_heap_t \<Rightarrow> ptr \<Rightarrow> nat \<Rightarrow> nat \<Rightarrow> bool" where
  "hole_ok es h m n s \<longleftrightarrow>
     n \<le> length (heap h) \<and>
     1 \<le> timer_id (es m) \<and> nat (timer_id (es m)) < length (timer_ids h) \<and>
     (\<forall>i<n. i \<noteq> s \<longrightarrow>
        1 \<le> timer_id (es (vheap h s m ! i)) \<and>
        nat (timer_id (es (vheap h s m ! i))) < length (timer_ids h) \<and>
        timer_id (es (vheap h s m ! i)) \<noteq> timer_id (es m) \<and>
        timer_ids h ! nat (timer_id (es (vheap h s m ! i))) = int i)"

lemma hole_ok_step:
  assumes ok: "hole_ok es h m n s" and q: "s < n" "q < n" "q \<noteq> s"
  shows "hole_ok es (copy_node es h s (heap h ! q)) m n q"
proof -
  have dis: "nat (timer_id (es (heap h ! i))) \<noteq> nat (timer_id (es (heap h ! q)))"
    if "i < n" "i \<noteq> s" "i \<noteq> q" for i
  proof -
    have "timer_ids h ! nat (timer_id (es (heap h ! j))) = int j" if "j < n" "j \<noteq> s" for j
      using ok that by (auto simp: hole_ok_def vheap_def)
    from this [of i] this [of q] that q show ?thesis by auto
  qed
  show ?thesis using ok q
    by (auto simp: hole_ok_def vheap_def nth_list_update dest: dis [symmetric])
qed

lemma hole_ok_stop: "hole_ok es h m n s \<Longrightarrow> s < n \<Longrightarrow> ids_ok es (copy_node es h s m) n"
  by (auto simp: hole_ok_def ids_ok_def vheap_def nth_list_update)

lemma mset_vheap_step:
  assumes "s < n" "q < n" "q \<noteq> s" "n \<le> length (heap h)"
  shows "mset (take n (vheap (copy_node es h s (heap h ! q)) q m)) = mset (take n (vheap h s m))"
proof -
  have "take n (vheap (copy_node es h s (heap h ! q)) q m) =
        (take n (vheap h s m))[s := take n (vheap h s m) ! q, q := take n (vheap h s m) ! s]"
    using assms by (simp add: vheap_def take_update_swap)
  also have "mset \<dots> = mset (take n (vheap h s m))"
    using assms by (intro mset_swap) (auto simp: vheap_def)
  finally show ?thesis .
qed

text \<open>
  What a reheap keeps: \<open>same_but_arrays\<close> says that only the two arrays changed, and
  \<open>rearranged\<close> that it permuted the first \<open>n\<close> entries and wrote only their ids.
\<close>

definition same_but_arrays :: "pj_timer_heap_t \<Rightarrow> pj_timer_heap_t \<Rightarrow> bool" where
  "same_but_arrays h h' \<longleftrightarrow>
     h'\<lparr>heap := [], timer_ids := []\<rparr> = h\<lparr>heap := [], timer_ids := []\<rparr> \<and>
     length (heap h') = length (heap h) \<and> length (timer_ids h') = length (timer_ids h)"

definition used_ids :: "(ptr \<Rightarrow> pj_timer_entry) \<Rightarrow> ptr list \<Rightarrow> nat set" where
  "used_ids es ps = (\<lambda>p. nat (timer_id (es p))) ` set ps"

definition rearranged ::
  "(ptr \<Rightarrow> pj_timer_entry) \<Rightarrow> nat \<Rightarrow> ptr list \<Rightarrow> pj_timer_heap_t \<Rightarrow> pj_timer_heap_t \<Rightarrow> bool" where
  "rearranged es n ps h h' \<longleftrightarrow>
     same_but_arrays h h' \<and> ids_ok es h' n \<and> mset (take n (heap h')) = mset ps \<and>
     (\<forall>j. j \<notin> used_ids es ps \<longrightarrow> timer_ids h' ! j = timer_ids h ! j)"

lemma same_but_arrays_fields:
  assumes "same_but_arrays h h'"
  shows "max_size h' = max_size h" "cur_size h' = cur_size h"
    "max_entries_per_poll h' = max_entries_per_poll h" "lock h' = lock h"
    "auto_delete_lock h' = auto_delete_lock h" "timer_ids_freelist h' = timer_ids_freelist h"
    "length (heap h') = length (heap h)" "length (timer_ids h') = length (timer_ids h)"
proof -
  obtain hd ti where h: "h' = h\<lparr>heap := hd, timer_ids := ti\<rparr>"
    using assms by (cases h; cases h') (auto simp: same_but_arrays_def)
  then show "max_size h' = max_size h" "cur_size h' = cur_size h"
    "max_entries_per_poll h' = max_entries_per_poll h" "lock h' = lock h"
    "auto_delete_lock h' = auto_delete_lock h" "timer_ids_freelist h' = timer_ids_freelist h"
    by simp_all
  show "length (heap h') = length (heap h)" "length (timer_ids h') = length (timer_ids h)"
    using assms by (simp_all add: same_but_arrays_def)
qed

definition reheap_inv ::
  "(ptr \<Rightarrow> pj_timer_entry) \<Rightarrow> nat \<Rightarrow> ptr \<Rightarrow> ptr list \<Rightarrow> pj_timer_heap_t \<Rightarrow> pj_timer_heap_t \<Rightarrow> nat \<Rightarrow> bool"
  where "reheap_inv es n m ps h0 h s \<longleftrightarrow>
     hole_ok es h m n s \<and> same_but_arrays h0 h \<and> mset (take n (vheap h s m)) = mset ps \<and>
     (\<forall>j. j \<notin> used_ids es ps \<longrightarrow> timer_ids h ! j = timer_ids h0 ! j)"

lemma used_ids_cong_mset: "mset ps = mset qs \<Longrightarrow> used_ids es ps = used_ids es qs"
  by (metis mset_eq_setD used_ids_def)

lemma used_ids_nth:
  "mset (take n v) = mset ps \<Longrightarrow> i < n \<Longrightarrow> n \<le> length v \<Longrightarrow> nat (timer_id (es (v ! i))) \<in> used_ids es ps"
proof -
  assume a: "mset (take n v) = mset ps" "i < n" "n \<le> length v"
  then have "v ! i \<in> set (take n v)" by (auto simp: set_take_conv_nth)
  with mset_eq_setD [OF a(1)] show ?thesis by (auto simp: used_ids_def)
qed

lemma same_but_arrays_copy: "same_but_arrays h0 h \<Longrightarrow> same_but_arrays h0 (copy_node es h s p)"
  by (simp add: same_but_arrays_def copy_node_def)

lemma reheap_inv_step:
  assumes inv: "reheap_inv es n m ps h0 h s" and q: "s < n" "q < n" "q \<noteq> s"
  shows "reheap_inv es n m ps h0 (copy_node es h s (heap h ! q)) q"
proof -
  have len: "n \<le> length (heap h)" using inv by (simp add: reheap_inv_def hole_ok_def)
  have "nat (timer_id (es (heap h ! q))) \<in> used_ids es ps"
    using used_ids_nth [of n "vheap h s m" ps q es] inv q len by (auto simp: reheap_inv_def vheap_def)
  then have "timer_ids (copy_node es h s (heap h ! q)) ! j = timer_ids h ! j"
    if "j \<notin> used_ids es ps" for j
    using that by (simp add: nth_list_update_outside)
  with inv q len show ?thesis
    by (simp add: reheap_inv_def hole_ok_step mset_vheap_step same_but_arrays_copy
        del: copy_node_frame)
qed

lemma reheap_inv_stop:
  assumes inv: "reheap_inv es n m ps h0 h s" and s: "s < n"
  shows "rearranged es n ps h0 (copy_node es h s m)"
proof -
  have len: "n \<le> length (heap h)" using inv by (simp add: reheap_inv_def hole_ok_def)
  have "nat (timer_id (es m)) \<in> used_ids es ps"
    using used_ids_nth [of n "vheap h s m" ps s es] inv s len by (auto simp: reheap_inv_def vheap_def)
  then have "timer_ids (copy_node es h s m) ! j = timer_ids h ! j" if "j \<notin> used_ids es ps" for j
    using that by (simp add: nth_list_update_outside)
  moreover have "mset (take n (heap (copy_node es h s m))) = mset ps"
    using inv by (simp add: reheap_inv_def vheap_def)
  ultimately show ?thesis using inv s
    by (simp add: reheap_inv_def rearranged_def hole_ok_stop same_but_arrays_copy
        del: copy_node_frame)
qed

lemma reheap_inv_start:
  "hole_ok es h m n s \<Longrightarrow> reheap_inv es n m (take n (vheap h s m)) h h s"
  by (simp add: reheap_inv_def same_but_arrays_def)

text \<open>Writing the moved node into the hole early, as \<^verbatim>\<open>remove_node\<close> does, changes nothing.\<close>

lemma reheap_inv_fill:
  assumes inv: "reheap_inv es n m ps h0 h s" and s: "s < n"
  shows "reheap_inv es n m ps h0 (copy_node es h s m) s"
proof -
  have re: "rearranged es n ps h0 (copy_node es h s m)" using reheap_inv_stop [OF inv s] .
  have v: "vheap (copy_node es h s m) s m = vheap h s m" by (simp add: vheap_def)
  have "hole_ok es (copy_node es h s m) m n s"
    using inv by (auto simp: reheap_inv_def hole_ok_def v nth_list_update)
  with re inv v show ?thesis by (simp add: reheap_inv_def rearranged_def del: copy_node_frame)
qed

lemma reheap_up_rearranged:
  assumes "reheap_inv es n m ps h0 h s" "s < n"
  shows "rearranged es n ps h0 (reheap_up es h m s (HEAP_PARENT s))"
  by (rule reheap_up_rule [where P = "reheap_inv es n m ps h0"])
    (use assms in \<open>auto intro: reheap_inv_step reheap_inv_stop\<close>)

lemma reheap_down_rearranged:
  assumes "reheap_inv es n m ps h0 h s" "s < n" "cur_size h = n"
  shows "rearranged es n ps h0 (reheap_down es h m s (HEAP_LEFT s))"
  by (rule reheap_down_rule [where P = "reheap_inv es n m ps h0"])
    (use assms in \<open>auto intro: reheap_inv_step reheap_inv_stop simp: HEAP_LEFT_def\<close>)

section \<open>The free list of timer ids\<close>

text \<open>
  The free ids form a linked list threaded through \<open>timer_ids\<close> with negated links; its end
  is the link to \<open>max_size\<close>, the id that the next growth adds.
\<close>

fun free_chain :: "int list \<Rightarrow> nat \<Rightarrow> int \<Rightarrow> nat list \<Rightarrow> bool" where
  "free_chain ids N start [] \<longleftrightarrow> start = int N"
| "free_chain ids N start (f # fl) \<longleftrightarrow> start = int f \<and> f < N \<and> free_chain ids N (- (ids ! f)) fl"

lemma free_chain_cong:
  "(\<And>j. j \<in> set fl \<Longrightarrow> ids ! j = ids' ! j) \<Longrightarrow> free_chain ids N s fl \<longleftrightarrow> free_chain ids' N s fl"
  by (induction fl arbitrary: s) auto

lemma free_chain_set: "free_chain ids N s fl \<Longrightarrow> set fl \<subseteq> {..<N}"
  by (induction fl arbitrary: s) auto

lemma free_chain_interval:
  assumes "\<And>j. a \<le> j \<Longrightarrow> j < b \<Longrightarrow> ids ! j = - (int j + 1)" "a \<le> b"
  shows "free_chain ids b (int a) [a ..< b]"
  using assms
proof (induction "b - a" arbitrary: a)
  case (Suc d)
  then have ab: "a < b" by simp
  moreover have "free_chain ids b (int (Suc a)) [Suc a ..< b]" using Suc ab by (intro Suc.hyps) auto
  ultimately show ?case using Suc.prems by (simp add: upt_conv_Cons)
qed simp

lemma free_chain_grow:
  assumes "free_chain ids N s fl" "length ids = N" "N \<le> M"
  shows "free_chain (ids @ map (\<lambda>i. - (int i + 1)) [N ..< M]) M s (fl @ [N ..< M])"
  using assms
proof (induction fl arbitrary: s)
  case Nil
  then show ?case by (auto intro!: free_chain_interval simp: nth_append)
qed (auto simp: nth_append)

section \<open>The invariant and the abstract view\<close>

definition timer_inv :: "(ptr \<Rightarrow> pj_timer_entry) \<Rightarrow> pj_timer_heap_t \<Rightarrow> bool" where
  "timer_inv es h \<longleftrightarrow>
     length (heap h) = max_size h \<and> length (timer_ids h) = max_size h \<and>
     cur_size h + 2 \<le> max_size h \<and> timer_ids h ! 0 < 0 \<and>
     ids_ok es h (cur_size h) \<and> heap_order (expiry es) (heap h) (cur_size h) \<and>
     (\<exists>fl. free_chain (timer_ids h) (max_size h) (timer_ids_freelist h) fl \<and> distinct fl \<and>
           set fl = {1 ..< max_size h} - used_ids es (take (cur_size h) (heap h))) \<and>
     (\<forall>p. p \<notin> set (take (cur_size h) (heap h)) \<longrightarrow> timer_id (es p) < 1)"

text \<open>The abstract state: which entries are scheduled, and when they expire.\<close>

definition scheduled :: "(ptr \<Rightarrow> pj_timer_entry) \<Rightarrow> pj_timer_heap_t \<Rightarrow> ptr \<Rightarrow> pj_time_val option" where
  "scheduled es h p =
     (if p \<in> set (take (cur_size h) (heap h)) then Some (timer_value (es p)) else None)"

lemma ids_ok_inj:
  "ids_ok es h n \<Longrightarrow> i < n \<Longrightarrow> j < n \<Longrightarrow>
   timer_id (es (heap h ! i)) = timer_id (es (heap h ! j)) \<longleftrightarrow> i = j"
  by (metis ids_ok_def of_nat_eq_iff)

lemma ids_ok_distinct: "ids_ok es h n \<Longrightarrow> n \<le> length (heap h) \<Longrightarrow> distinct (take n (heap h))"
  by (auto simp: distinct_conv_nth dest: ids_ok_inj)

lemma ids_ok_inj_on:
  "ids_ok es h n \<Longrightarrow> n \<le> length (heap h) \<Longrightarrow> inj_on (\<lambda>p. nat (timer_id (es p))) (set (take n (heap h)))"
  by (auto simp: inj_on_def set_take_conv_nth ids_ok_def) (metis of_nat_eq_iff)

lemma used_ids_card:
  assumes "ids_ok es h n" "n \<le> length (heap h)"
  shows "card (used_ids es (take n (heap h))) = n"
  using assms by (simp add: used_ids_def card_image ids_ok_inj_on distinct_card ids_ok_distinct)

lemma used_ids_range:
  "ids_ok es h n \<Longrightarrow> n \<le> length (heap h) \<Longrightarrow> used_ids es (take n (heap h)) \<subseteq> {1 ..< length (timer_ids h)}"
  by (auto simp: used_ids_def set_take_conv_nth ids_ok_def)

text \<open>There is always a free id to hand out.\<close>

lemma free_list_nonempty:
  assumes "timer_inv es h"
  obtains f fl where "free_chain (timer_ids h) (max_size h) (timer_ids_freelist h) (f # fl)"
    "distinct (f # fl)" "set (f # fl) = {1 ..< max_size h} - used_ids es (take (cur_size h) (heap h))"
proof -
  from assms obtain fl where fl:
    "free_chain (timer_ids h) (max_size h) (timer_ids_freelist h) fl" "distinct fl"
    "set fl = {1 ..< max_size h} - used_ids es (take (cur_size h) (heap h))"
    by (auto simp: timer_inv_def)
  have "used_ids es (take (cur_size h) (heap h)) \<subseteq> {1 ..< max_size h}"
    "card (used_ids es (take (cur_size h) (heap h))) = cur_size h"
    using assms used_ids_range [of es h "cur_size h"] used_ids_card [of es h "cur_size h"]
    by (auto simp: timer_inv_def)
  then have "card (set fl) = max_size h - 1 - cur_size h"
    using fl(3) by (simp add: card_Diff_subset finite_subset)
  with assms have "fl \<noteq> []" by (auto simp: timer_inv_def)
  with fl that show ?thesis by (cases fl) auto
qed

lemma create_inv:
  assumes "pj_timer_heap_create alloc cnt = Inr h" "\<And>p. timer_id (es p) < 1"
  shows "timer_inv es h \<and> scheduled es h = Map.empty"
proof -
  have h: "max_size h = cnt + 2" "cur_size h = 0" "heap h = replicate (cnt + 2) 0"
    "timer_ids h = map (\<lambda>i. - (int i + 1)) [0 ..< cnt + 2]" "timer_ids_freelist h = 1"
    using assms(1) by (auto simp: pj_timer_heap_create_def Let_def split: if_splits)
  have "free_chain (timer_ids h) (cnt + 2) (int 1) [1 ..< cnt + 2]"
    by (rule free_chain_interval) (auto simp: h simp del: upt_Suc)
  then show ?thesis using assms(2)
    by (auto simp: timer_inv_def ids_ok_def heap_order_def scheduled_def h used_ids_def
        simp del: upt_Suc intro!: exI [of _ "[1 ..< cnt + 2]"])
qed

section \<open>Insertion\<close>

text \<open>
  The state between \<^verbatim>\<open>pop_freelist\<close> and \<^verbatim>\<open>insert_node\<close>: the invariant, except that id \<open>f\<close>
  has left the free list and is not yet used.
\<close>

definition popped :: "(ptr \<Rightarrow> pj_timer_entry) \<Rightarrow> pj_timer_heap_t \<Rightarrow> nat \<Rightarrow> bool" where
  "popped es h f \<longleftrightarrow>
     length (heap h) = max_size h \<and> length (timer_ids h) = max_size h \<and>
     cur_size h < max_size h \<and> timer_ids h ! 0 < 0 \<and> 1 \<le> f \<and> f < max_size h \<and>
     ids_ok es h (cur_size h) \<and> heap_order (expiry es) (heap h) (cur_size h) \<and>
     f \<notin> used_ids es (take (cur_size h) (heap h)) \<and>
     (\<exists>fl. free_chain (timer_ids h) (max_size h) (timer_ids_freelist h) fl \<and> distinct fl \<and>
           set fl = {1 ..< max_size h} - used_ids es (take (cur_size h) (heap h)) - {f})"

lemma popped_grow:
  assumes "popped es h f"
  shows "popped es (grow_heap h) f \<and> max_size (grow_heap h) = 2 * max_size h \<and>
    cur_size (grow_heap h) = cur_size h \<and>
    take (cur_size h) (heap (grow_heap h)) = take (cur_size h) (heap h)"
proof -
  let ?N = "max_size h" and ?n = "cur_size h"
  have h: "length (heap h) = ?N" "length (timer_ids h) = ?N" "?n < ?N" "1 \<le> f" "f < ?N"
    "timer_ids h ! 0 < 0"
    and ids: "ids_ok es h ?n" and ord: "heap_order (expiry es) (heap h) ?n"
    and f: "f \<notin> used_ids es (take ?n (heap h))"
    using assms by (auto simp: popped_def)
  obtain fl where fl: "free_chain (timer_ids h) ?N (timer_ids_freelist h) fl" "distinct fl"
    "set fl = {1 ..< ?N} - used_ids es (take ?n (heap h)) - {f}"
    using assms by (auto simp: popped_def)
  have hg: "heap (grow_heap h) = heap h @ replicate ?N 0"
    "timer_ids (grow_heap h) = timer_ids h @ map (\<lambda>i. - (int i + 1)) [?N ..< 2 * ?N]"
    "max_size (grow_heap h) = 2 * ?N" "cur_size (grow_heap h) = ?n"
    "timer_ids_freelist (grow_heap h) = timer_ids_freelist h"
    using h by (auto simp: grow_heap_def Let_def mult.commute)
  have tk: "take ?n (heap (grow_heap h)) = take ?n (heap h)" using h by (simp add: hg)
  have used: "used_ids es (take ?n (heap h)) \<subseteq> {1 ..< ?N}"
    using used_ids_range [OF ids] h by simp
  have chain: "free_chain (timer_ids (grow_heap h)) (2 * ?N) (timer_ids_freelist h) (fl @ [?N ..< 2 * ?N])"
    unfolding hg by (rule free_chain_grow) (use fl h in auto)
  have set_fl: "set (fl @ [?N ..< 2 * ?N]) = {1 ..< 2 * ?N} - used_ids es (take ?n (heap h)) - {f}"
    using fl(3) used h by auto
  have dis: "distinct (fl @ [?N ..< 2 * ?N])" using fl(2) free_chain_set [OF fl(1)] by auto
  have "ids_ok es (grow_heap h) ?n" using ids h by (auto simp: ids_ok_def hg nth_append)
  moreover have "heap_order (expiry es) (heap (grow_heap h)) ?n"
    by (rule iffD2 [OF heap_order_cong ord]) (use h in \<open>simp add: hg nth_append\<close>)
  moreover have "timer_ids (grow_heap h) ! 0 < 0" using h by (auto simp: hg nth_append)
  moreover have "\<exists>fl. free_chain (timer_ids (grow_heap h)) (2 * ?N) (timer_ids_freelist h) fl \<and>
      distinct fl \<and> set fl = {1 ..< 2 * ?N} - used_ids es (take ?n (heap h)) - {f}"
    using chain dis set_fl by blast
  ultimately show ?thesis
    using h f unfolding popped_def hg(3,4,5) tk by (simp add: hg(1,2))
qed

lemma popped_insert:
  assumes p: "popped es h f" and room: "cur_size h + 3 \<le> max_size h"
    and e: "timer_id (es e) = int f"
    and out: "\<And>p. p \<notin> set (take (cur_size h) (heap h)) \<Longrightarrow> p \<noteq> e \<Longrightarrow> timer_id (es p) < 1"
  defines "h' \<equiv> reheap_up es h e (cur_size h) (HEAP_PARENT (cur_size h))"
  shows "timer_inv es (h'\<lparr>cur_size := cur_size h' + 1\<rparr>) \<and>
    set (take (cur_size h + 1) (heap h')) = insert e (set (take (cur_size h) (heap h)))"
proof -
  let ?n = "cur_size h" and ?N = "max_size h"
  have h: "length (heap h) = ?N" "length (timer_ids h) = ?N" "?n < ?N" "1 \<le> f" "f < ?N"
    "timer_ids h ! 0 < 0"
    and ids: "ids_ok es h ?n" and ord: "heap_order (expiry es) (heap h) ?n"
    and f: "f \<notin> used_ids es (take ?n (heap h))"
    using p by (auto simp: popped_def)
  have tk: "take (?n + 1) (vheap h ?n e) = take ?n (heap h) @ [e]"
    using h by (simp add: vheap_def take_Suc_last)
  have fr: "timer_id (es (heap h ! i)) \<noteq> int f" if "i < ?n" for i
    using used_ids_nth [OF refl that, of "heap h" es] f h by auto
  have hole: "hole_ok es h e (?n + 1) ?n"
    using ids h e fr by (auto simp: hole_ok_def ids_ok_def vheap_def)
  from reheap_up_rearranged [OF reheap_inv_start [OF hole]]
  have re: "rearranged es (?n + 1) (take ?n (heap h) @ [e]) h h'" unfolding h'_def tk by simp
  note fields = same_but_arrays_fields [OF re [unfolded rearranged_def, THEN conjunct1]]
  have up: "up_ok (expiry es) (vheap h ?n e) (?n + 1) ?n"
    unfolding up_ok_def
  proof (intro conjI allI impI)
    fix i assume i: "i < ?n + 1" "0 < i \<and> i \<noteq> ?n"
    then have "HEAP_PARENT i < ?n" "i < ?n" using HEAP_PARENT_less [of i] by auto
    with i ord show "expiry es (vheap h ?n e ! HEAP_PARENT i) \<le> expiry es (vheap h ?n e ! i)"
      by (simp add: heap_order_def vheap_def)
  next
    fix i assume "i < ?n + 1" "0 < i \<and> HEAP_PARENT i = ?n \<and> 0 < ?n"
    then show "expiry es (vheap h ?n e ! HEAP_PARENT ?n) \<le> expiry es (vheap h ?n e ! i)"
      using HEAP_PARENT_less [of i] by auto
  qed
  have order: "heap_order (expiry es) (heap h') (?n + 1)"
    unfolding h'_def by (rule reheap_up_order [OF up]) (use h in auto)
  have mset: "mset (take (?n + 1) (heap h')) = mset (take ?n (heap h) @ [e])"
    and idsr: "\<And>j. j \<notin> used_ids es (take ?n (heap h) @ [e]) \<Longrightarrow> timer_ids h' ! j = timer_ids h ! j"
    and ids': "ids_ok es h' (?n + 1)"
    using re by (auto simp: rearranged_def)
  have set': "set (take (?n + 1) (heap h')) = insert e (set (take ?n (heap h)))"
    using mset_eq_setD [OF mset] by simp
  have used': "used_ids es (take (?n + 1) (heap h')) = insert f (used_ids es (take ?n (heap h)))"
    unfolding used_ids_def set' using e by simp
  obtain fl where fl: "free_chain (timer_ids h) ?N (timer_ids_freelist h) fl" "distinct fl"
    "set fl = {1 ..< ?N} - used_ids es (take ?n (heap h)) - {f}"
    using p by (auto simp: popped_def)
  have un: "used_ids es (take ?n (heap h) @ [e]) = insert f (used_ids es (take ?n (heap h)))"
    using e by (simp add: used_ids_def)
  have "timer_ids h' ! j = timer_ids h ! j" if "j \<in> set fl" for j
    by (rule idsr) (use that in \<open>simp add: un fl(3)\<close>)
  then have "free_chain (timer_ids h') ?N (timer_ids_freelist h) fl"
    by (rule iffD2 [OF free_chain_cong fl(1)])
  moreover have "0 \<notin> used_ids es (take ?n (heap h))" using used_ids_range [OF ids] h by force
  then have "timer_ids h' ! 0 < 0" using h idsr [of 0] by (simp add: un)
  moreover have "set fl = {1 ..< ?N} - used_ids es (take (?n + 1) (heap h'))"
    unfolding fl(3) used' by blast
  moreover have "ids_ok es (h'\<lparr>cur_size := ?n + 1\<rparr>) (?n + 1)" using ids' by (simp add: ids_ok_def)
  moreover have "timer_id (es p) < 1" if "p \<notin> set (take (?n + 1) (heap h'))" for p
    using that out [of p] unfolding set' by auto
  ultimately show ?thesis
    unfolding timer_inv_def using fields h room order set' fl(2) by auto
qed

lemma insert_node_correct:
  assumes p: "popped es h f" and room: "cur_size h + 2 \<le> max_size h"
    and e: "timer_id (es e) = int f"
    and out: "\<And>p. p \<notin> set (take (cur_size h) (heap h)) \<Longrightarrow> p \<noteq> e \<Longrightarrow> timer_id (es p) < 1"
  shows "timer_inv es (insert_node es h e) \<and> cur_size (insert_node es h e) = cur_size h + 1 \<and>
    set (take (cur_size (insert_node es h e)) (heap (insert_node es h e))) =
      insert e (set (take (cur_size h) (heap h)))"
proof -
  define h1 where "h1 = (if cur_size h + 2 \<ge> max_size h then grow_heap h else h)"
  have h1: "popped es h1 f" "cur_size h1 = cur_size h" "cur_size h1 + 3 \<le> max_size h1"
    "take (cur_size h) (heap h1) = take (cur_size h) (heap h)"
    using p room popped_grow [OF p] by (auto simp: h1_def)
  let ?h' = "reheap_up es h1 e (cur_size h1) (HEAP_PARENT (cur_size h1))"
  have cur: "cur_size ?h' = cur_size h1"
    by (rule reheap_up_rule [where P = "\<lambda>h s. cur_size h = cur_size h1" and n = "Suc (cur_size h1)"])
      simp_all
  have "insert_node es h e = ?h'\<lparr>cur_size := cur_size ?h' + 1\<rparr>"
    by (simp add: insert_node_def h1_def Let_def)
  moreover have "timer_inv es (?h'\<lparr>cur_size := cur_size ?h' + 1\<rparr>) \<and>
    set (take (cur_size h1 + 1) (heap ?h')) = insert e (set (take (cur_size h1) (heap h1)))"
    by (rule popped_insert [OF h1(1,3) e]) (use out h1 in auto)
  ultimately show ?thesis using h1 cur by simp
qed

text \<open>\<^verbatim>\<open>timer_inv\<close> reads only the id and the expiry of an entry.\<close>

lemma timer_inv_cong:
  assumes "\<And>p. timer_id (es p) = timer_id (es' p)" "\<And>p. timer_value (es p) = timer_value (es' p)"
  shows "timer_inv es h \<longleftrightarrow> timer_inv es' h" "scheduled es h = scheduled es' h"
  using assms by (simp_all add: timer_inv_def ids_ok_def used_ids_def scheduled_def fun_eq_iff)

lemma schedule_entry_correct:
  assumes inv: "timer_inv (ents w) (ht w)" and e: "timer_id (ents w e) < 1"
  obtains w' k where "schedule_entry w e t = (PJ_SUCCESS, w')" "timer_inv (ents w') (ht w')"
    "scheduled (ents w') (ht w') = (scheduled (ents w) (ht w))(e \<mapsto> t)"
    "cur_size (ht w') = cur_size (ht w) + 1" "grp_refs w' = grp_refs w"
    "ents w' = (ents w)(e := (ents w e)\<lparr>timer_id := k, timer_value := t\<rparr>)"
proof -
  let ?h = "ht w" and ?n = "cur_size (ht w)"
  have lens: "length (heap ?h) = max_size ?h" "length (timer_ids ?h) = max_size ?h" "?n + 2 \<le> max_size ?h"
    "timer_ids ?h ! 0 < 0" and ids: "ids_ok (ents w) ?h ?n"
    and ord: "heap_order (expiry (ents w)) (heap ?h) ?n"
    and out: "\<And>p. p \<notin> set (take ?n (heap ?h)) \<Longrightarrow> timer_id (ents w p) < 1"
    using inv by (auto simp: timer_inv_def)
  obtain f fl where fl: "free_chain (timer_ids ?h) (max_size ?h) (timer_ids_freelist ?h) (f # fl)"
    "distinct (f # fl)" "set (f # fl) = {1 ..< max_size ?h} - used_ids (ents w) (take ?n (heap ?h))"
    using free_list_nonempty [OF inv] .
  have f: "1 \<le> f" "f < max_size ?h" "f \<notin> used_ids (ents w) (take ?n (heap ?h))"
    using fl(3) by (auto simp: set_eq_iff)
  have fl': "set fl = {1 ..< max_size ?h} - used_ids (ents w) (take ?n (heap ?h)) - {f}"
    using fl(2,3) by auto
  define es where "es = (ents w)(e := (ents w e)\<lparr>timer_id := int f, timer_value := t\<rparr>)"
  define h where "h = ?h\<lparr>timer_ids_freelist := - (timer_ids ?h ! f)\<rparr>"
  have e_out: "e \<notin> set (take ?n (heap ?h))"
    using e ids lens by (fastforce simp: set_take_conv_nth ids_ok_def)
  have same: "es (heap ?h ! i) = ents w (heap ?h ! i)" if "i < ?n" for i
    using that e_out lens by (auto simp: es_def set_take_conv_nth)
  have used: "used_ids es (take ?n (heap ?h)) = used_ids (ents w) (take ?n (heap ?h))"
    using e_out by (auto simp: used_ids_def es_def)
  have "heap_order (expiry es) (heap ?h) ?n"
    by (rule iffD2 [OF heap_order_cong ord]) (simp add: same)
  then have pop: "popped es h f"
    using fl fl' f lens ids same used by (auto simp: popped_def h_def ids_ok_def)
  have out': "timer_id (es p) < 1" if "p \<notin> set (take (cur_size h) (heap h))" "p \<noteq> e" for p
    using out that by (simp add: es_def h_def)
  have "cur_size h + 2 \<le> max_size h" "timer_id (es e) = int f" using lens by (simp_all add: h_def es_def)
  note ins = insert_node_correct [OF pop this out']
  have eq: "schedule_entry w e t = (PJ_SUCCESS, w\<lparr>ht := insert_node es h e, ents := es\<rparr>)"
    using lens fl(1) by (simp add: schedule_entry_def pop_freelist_def es_def h_def Let_def)
  have "scheduled es (insert_node es h e) = (scheduled (ents w) ?h)(e \<mapsto> t)"
    unfolding scheduled_def fun_eq_iff using conjunct2 [OF conjunct2 [OF ins]]
    by (simp add: h_def) (simp add: es_def)
  with that [OF eq, of "int f"] ins show ?thesis by (simp add: h_def) (simp add: es_def)
qed

section \<open>Removal\<close>

lemma remove_order_ok:
  assumes ord: "heap_order key xs (Suc n)" and s: "s < n" "n < length xs"
  defines "ys \<equiv> xs[s := xs ! n]"
  shows "key (ys ! HEAP_PARENT s) \<le> key (xs ! n) \<Longrightarrow> down_ok key ys n s"
    and "key (xs ! n) < key (ys ! HEAP_PARENT s) \<Longrightarrow> up_ok key ys n s"
proof -
  have nth: "ys ! j = (if j = s then xs ! n else xs ! j)" for j
    using s by (simp add: ys_def nth_list_update)
  have o: "key (xs ! HEAP_PARENT i) \<le> key (xs ! i)" if "i < n" "0 < i" for i
    using ord that by (simp add: heap_order_def)
  have gp: "key (xs ! HEAP_PARENT s) \<le> key (xs ! i)" if "i < n" "0 < i" "HEAP_PARENT i = s" "0 < s" for i
    using o [of s] o [of i] that s by (auto intro: order_trans)
  note par = HEAP_PARENT_less
  show "down_ok key ys n s" if "key (ys ! HEAP_PARENT s) \<le> key (xs ! n)"
    unfolding down_ok_def
  proof (intro conjI allI impI)
    fix i assume i: "i < n" "0 < i \<and> HEAP_PARENT i \<noteq> s"
    show "key (ys ! HEAP_PARENT i) \<le> key (ys ! i)"
      using that i o [of i] by (cases "i = s") (auto simp: nth)
  next
    fix i assume i: "i < n" "0 < i \<and> HEAP_PARENT i = s \<and> 0 < s"
    then show "key (ys ! HEAP_PARENT s) \<le> key (ys ! i)"
      using gp [of i] par [of s] par [of i] by (auto simp: nth)
  qed
  show "up_ok key ys n s" if lt: "key (xs ! n) < key (ys ! HEAP_PARENT s)"
  proof -
    have s0: "0 < s" using lt by (auto simp: nth HEAP_PARENT_def split: if_splits)
    then have lt': "key (xs ! n) < key (xs ! HEAP_PARENT s)" using lt par [OF s0] by (simp add: nth)
    show ?thesis unfolding up_ok_def
    proof (intro conjI allI impI)
      fix i assume i: "i < n" "0 < i \<and> i \<noteq> s"
      show "key (ys ! HEAP_PARENT i) \<le> key (ys ! i)"
        using i o [of i] lt' gp [of i] s0 by (auto simp: nth)
    next
      fix i assume i: "i < n" "0 < i \<and> HEAP_PARENT i = s \<and> 0 < s"
      then show "key (ys ! HEAP_PARENT s) \<le> key (ys ! i)"
        using gp [of i] par [of s] par [of i] by (auto simp: nth)
    qed
  qed
qed

text \<open>Taking slot \<open>s\<close> out: the array afterwards holds the other entries, in heap order.\<close>

lemma remove_node_rearranged:
  assumes lens: "length (heap h) = max_size h" "length (timer_ids h) = max_size h"
      "cur_size h = Suc n" "cur_size h \<le> max_size h"
    and ids: "ids_ok es h (Suc n)" and ord: "heap_order (expiry es) (heap h) (Suc n)" and s: "s \<le> n"
  defines "r \<equiv> heap h ! s"
  defines "es' \<equiv> es(r := (es r)\<lparr>timer_id := -1\<rparr>)"
    and "h1 \<equiv> (push_freelist h (timer_id (es r)))\<lparr>cur_size := n\<rparr>"
  shows "\<exists>h2. remove_node es h s = (r, es', h2) \<and>
    rearranged es' n (take n ((heap h)[s := heap h ! n])) h1 h2 \<and>
    heap_order (expiry es') (heap h2) n"
proof -
  have h1: "heap h1 = heap h" "timer_ids h1 = (timer_ids h)[nat (timer_id (es r)) := - timer_ids_freelist h]"
    "cur_size h1 = n" by (simp_all add: h1_def push_freelist_def)
  have tid_r: "nat (timer_id (es r)) < length (timer_ids h)" using ids s by (simp add: ids_ok_def r_def)
  have key: "timer_value (es' x) = timer_value (es x)" for x by (simp add: es'_def)
  have push: "cur_size (push_freelist h t) = cur_size h" "heap (push_freelist h t) = heap h" for t
    by (simp_all add: push_freelist_def)
  have other: "heap h ! i \<noteq> r \<and> 1 \<le> timer_id (es (heap h ! i)) \<and>
      nat (timer_id (es (heap h ! i))) < length (timer_ids h) \<and>
      timer_ids h1 ! nat (timer_id (es (heap h ! i))) = int i" if "i \<le> n" "i \<noteq> s" for i
  proof -
    have "timer_id (es (heap h ! i)) \<noteq> timer_id (es r)"
      using ids_ok_inj [OF ids, of i s] that s by (auto simp: r_def)
    moreover have "1 \<le> timer_id (es (heap h ! i))" "1 \<le> timer_id (es r)"
      "nat (timer_id (es (heap h ! i))) < length (timer_ids h)"
      "timer_ids h ! nat (timer_id (es (heap h ! i))) = int i"
      using ids that s by (auto simp: ids_ok_def r_def)
    ultimately show ?thesis by (auto simp: h1 nth_list_update_neq)
  qed
  show ?thesis
  proof (cases "s < n")
    case False
    with s have sn: "s = n" by simp
    then have tk: "take n ((heap h)[s := heap h ! n]) = take n (heap h)" by simp
    have "ids_ok es' h1 n" using other sn by (auto simp: ids_ok_def h1 es'_def)
    moreover have "heap_order (expiry es') (heap h1) n"
      unfolding key using ord by (simp add: h1 heap_order_def)
    moreover have "remove_node es h s = (r, es', h1)"
      using lens False by (simp add: remove_node_def Let_def r_def es'_def h1_def push_freelist_def)
    ultimately show ?thesis by (auto simp: tk rearranged_def same_but_arrays_def h1)
  next
    case True
    let ?m = "heap h ! n" and ?ys = "(heap h)[s := heap h ! n]"
    let ?h2 = "copy_node es' h1 s ?m"
    have v: "vheap h1 s ?m = ?ys" "vheap ?h2 s ?m = ?ys" "heap ?h2 = ?ys"
      by (simp_all add: vheap_def h1)
    have m_r: "?m \<noteq> r" using other [of n] True by simp
    have inj: "timer_id (es (heap h ! i)) \<noteq> timer_id (es ?m)" if "i < n" for i
      using ids_ok_inj [OF ids, of i n] that by simp
    have hole: "hole_ok es' h1 ?m n s"
      using other [of n] other inj m_r True lens
      by (auto simp: hole_ok_def v es'_def h1 nth_list_update)
    have inv: "reheap_inv es' n ?m (take n ?ys) h1 ?h2 s"
      using reheap_inv_fill [OF reheap_inv_start [OF hole] True] unfolding v(1) .
    note od = remove_order_ok [OF ord True]
    show ?thesis
    proof (cases "expiry es (?ys ! HEAP_PARENT s) \<le> expiry es ?m")
      case le: True
      have "remove_node es h s = (r, es', reheap_down es' ?h2 ?m s (HEAP_LEFT s))"
        using True le by (simp add: remove_node_def Let_def lens(3) push key h1(1) del: fun_upd_apply
            flip: r_def es'_def h1_def)
      moreover have "heap_order (expiry es') (heap (reheap_down es' ?h2 ?m s (HEAP_LEFT s))) n"
        by (rule reheap_down_order) (use od(1) le True lens in \<open>simp_all add: v key h1\<close>)
      ultimately show ?thesis using reheap_down_rearranged [OF inv True] by (simp add: h1)
    next
      case gt: False
      have "remove_node es h s = (r, es', reheap_up es' ?h2 ?m s (HEAP_PARENT s))"
        using True gt by (simp add: remove_node_def Let_def lens(3) push key h1(1) del: fun_upd_apply
            flip: r_def es'_def h1_def)
      moreover have "heap_order (expiry es') (heap (reheap_up es' ?h2 ?m s (HEAP_PARENT s))) n"
        by (rule reheap_up_order) (use od(2) gt True lens in \<open>simp_all add: v key h1 not_le\<close>)
      ultimately show ?thesis using reheap_up_rearranged [OF inv True] by (simp add: h1)
    qed
  qed
qed

text \<open>After a removal the freed id heads the free list, and the rest of the list is as before.\<close>

lemma push_free_chain:
  assumes fl: "free_chain ids N start fl" "distinct fl" "set fl = {1 ..< N} - U"
    and t: "t \<in> U" "t < N" "1 \<le> t" "length ids = N"
    and same: "\<And>j. j \<notin> U - {t} \<Longrightarrow> ids' ! j = ids[t := - start] ! j"
  shows "\<exists>fl'. free_chain ids' N (int t) fl' \<and> distinct fl' \<and> set fl' = {1 ..< N} - (U - {t})"
proof -
  have "ids' ! j = ids ! j" if "j \<in> set fl" for j
  proof -
    have "j \<notin> U" using that unfolding fl(3) by simp
    with same [of j] t(1) show ?thesis by (simp add: nth_list_update_outside)
  qed
  then have "free_chain ids' N start fl" by (rule iffD2 [OF free_chain_cong fl(1)])
  moreover have "ids' ! t = - start" using same [of t] t by simp
  ultimately have "free_chain ids' N (int t) (t # fl)" using t by simp
  moreover have "t \<notin> set fl" using fl(3) t(1) by blast
  moreover have "set (t # fl) = {1 ..< N} - (U - {t})" unfolding list.set fl(3) using t by auto
  ultimately show ?thesis using fl(2) by (intro exI [of _ "t # fl"]) simp
qed

lemma mset_take_removed:
  assumes dist: "distinct (take (Suc n) xs)" and n: "n < length xs" "s \<le> n"
  shows "mset (take n (xs[s := xs ! n])) = mset (take (Suc n) xs) - {#xs ! s#}"
proof (cases "s = n")
  case True
  then show ?thesis using n by (simp add: take_Suc_last)
next
  case False
  then have "xs ! s \<in> set (take n xs)" using n by (auto simp: set_take_conv_nth)
  with dist n have "xs ! n \<noteq> xs ! s" by (auto simp: take_Suc_last)
  with False n show ?thesis
    using mset_take_list_update [of s n xs "xs ! n"] by (simp add: take_Suc_last diff_add_mset_swap)
qed

lemma remove_node_correct:
  assumes inv: "timer_inv es h" and s: "s < cur_size h"
  obtains es' h' where "remove_node es h s = (heap h ! s, es', h')" "timer_inv es' h'"
    "es' = es(heap h ! s := (es (heap h ! s))\<lparr>timer_id := -1\<rparr>)"
    "scheduled es' h' = (scheduled es h)(heap h ! s := None)"
    "cur_size h' = cur_size h - 1" "max_entries_per_poll h' = max_entries_per_poll h"
proof -
  obtain n where n: "cur_size h = Suc n" using s by (cases "cur_size h") auto
  let ?N = "max_size h" and ?r = "heap h ! s"
  let ?t = "nat (timer_id (es ?r))" and ?U = "used_ids es (take (Suc n) (heap h))"
  let ?ps = "take n ((heap h)[s := heap h ! n])"
  define es' where "es' = es(?r := (es ?r)\<lparr>timer_id := -1\<rparr>)"
  define h1 where "h1 = (push_freelist h (timer_id (es ?r)))\<lparr>cur_size := n\<rparr>"
  have lens: "length (heap h) = ?N" "length (timer_ids h) = ?N" "cur_size h + 2 \<le> ?N" "timer_ids h ! 0 < 0"
    and ids: "ids_ok es h (Suc n)" and ord: "heap_order (expiry es) (heap h) (Suc n)"
    and out: "\<And>p. p \<notin> set (take (Suc n) (heap h)) \<Longrightarrow> timer_id (es p) < 1"
    using inv n by (auto simp: timer_inv_def)
  obtain fl where fl: "free_chain (timer_ids h) ?N (timer_ids_freelist h) fl" "distinct fl"
    "set fl = {1 ..< ?N} - ?U"
    using inv n by (auto simp: timer_inv_def)
  obtain h2 where rem: "remove_node es h s = (?r, es', h2)"
    and re: "rearranged es' n ?ps h1 h2" and ord': "heap_order (expiry es') (heap h2) n"
    using remove_node_rearranged [OF lens(1,2) n _ ids ord, of s] s n lens
    unfolding es'_def h1_def by auto
  note fields = same_but_arrays_fields [OF re [unfolded rearranged_def, THEN conjunct1]]
  have h1: "timer_ids h1 = (timer_ids h)[?t := - timer_ids_freelist h]" "timer_ids_freelist h1 = timer_id (es ?r)"
    "max_size h1 = ?N" "cur_size h1 = n" "length (heap h1) = ?N" "max_entries_per_poll h1 = max_entries_per_poll h"
    using lens by (simp_all add: h1_def push_freelist_def)
  have dist: "distinct (take (Suc n) (heap h))" using ids_ok_distinct [OF ids] lens n by simp
  have ms: "mset (take n (heap h2)) = mset (take (Suc n) (heap h)) - {#?r#}"
    using re mset_take_removed [OF dist, of s] lens s n by (simp add: rearranged_def)
  then have set2: "set (take n (heap h2)) = set (take (Suc n) (heap h)) - {?r}"
    using dist by (metis set_mset_mset mset_remove1 set_remove1_eq)
  have r_in: "?r \<in> set (take (Suc n) (heap h))" using s n lens by (auto simp: set_take_conv_nth)
  have t: "?t < ?N" "1 \<le> timer_id (es ?r)" "?t \<in> ?U"
    using ids s n lens r_in by (auto simp: ids_ok_def used_ids_def)
  have used2: "used_ids es' (take n (heap h2)) = ?U - {?t}"
    unfolding used_ids_def set2 using ids_ok_inj_on [OF ids] lens n r_in
    by (auto simp: es'_def inj_on_def)
  have usedp: "used_ids es' ?ps = ?U - {?t}"
    unfolding used2 [symmetric] by (rule used_ids_cong_mset) (use re in \<open>simp add: rearranged_def\<close>)
  have ids2: "timer_ids h2 ! j = timer_ids h1 ! j" if "j \<notin> ?U - {?t}" for j
    using re that unfolding rearranged_def usedp by blast
  have chain: "\<exists>fl. free_chain (timer_ids h2) ?N (timer_ids_freelist h2) fl \<and> distinct fl \<and>
      set fl = {1 ..< ?N} - used_ids es' (take n (heap h2))"
    using push_free_chain [OF fl t(3,1) _ lens(2) ids2 [unfolded h1(1)]] t(2)
    unfolding used2 fields h1 by simp
  have "0 \<notin> ?U" using used_ids_range [OF ids] lens n by force
  then have z: "timer_ids h2 ! 0 < 0" using ids2 [of 0] t lens by (simp add: h1)
  have "timer_id (es' p) < 1" if "p \<notin> set (take n (heap h2))" for p
    using that out [of p] unfolding set2 by (auto simp: es'_def)
  then have inv': "timer_inv es' h2"
    unfolding timer_inv_def fields h1 using chain [unfolded fields h1] z ord' re lens n by (auto simp: rearranged_def)
  have "scheduled es' h2 = (scheduled es h)(?r := None)"
    unfolding scheduled_def fields h1 set2 n by (auto simp: es'_def fun_eq_iff)
  from that [OF rem inv' es'_def this] show ?thesis by (simp add: fields h1 n)
qed

section \<open>The public operations on the abstract view\<close>

definition world_inv :: "timer_world \<Rightarrow> bool" where
  "world_inv w \<longleftrightarrow> timer_inv (ents w) (ht w)"

definition sched :: "timer_world \<Rightarrow> ptr \<Rightarrow> pj_time_val option" where
  "sched w = scheduled (ents w) (ht w)"

lemma sched_iff: "p \<in> set (take (cur_size (ht w)) (heap (ht w))) \<longleftrightarrow> sched w p \<noteq> None"
  by (simp add: sched_def scheduled_def)

text \<open>An entry's own id field tells whether the heap holds it.\<close>

lemma running_iff:
  assumes "world_inv w"
  shows "1 \<le> timer_id (ents w p) \<longleftrightarrow> sched w p \<noteq> None"
proof (cases "p \<in> set (take (cur_size (ht w)) (heap (ht w)))")
  case True
  with assms have "1 \<le> timer_id (ents w p)"
    by (auto simp: world_inv_def timer_inv_def ids_ok_def set_take_conv_nth)
  with True show ?thesis using sched_iff [of p w] by simp
next
  case False
  with assms have "timer_id (ents w p) < 1" by (simp add: world_inv_def timer_inv_def)
  with False show ?thesis using sched_iff [of p w] by simp
qed

lemma running_slot:
  assumes inv: "world_inv w" and p: "sched w p \<noteq> None"
  shows "nat (timer_id (ents w p)) < length (timer_ids (ht w))"
    and "\<exists>i < cur_size (ht w). timer_ids (ht w) ! nat (timer_id (ents w p)) = int i \<and> heap (ht w) ! i = p"
proof -
  from p have "p \<in> set (take (cur_size (ht w)) (heap (ht w)))" by (simp add: sched_iff)
  with inv obtain i where i: "i < cur_size (ht w)" "heap (ht w) ! i = p"
    by (auto simp: world_inv_def timer_inv_def set_take_conv_nth)
  with inv show "nat (timer_id (ents w p)) < length (timer_ids (ht w))"
    "\<exists>i < cur_size (ht w). timer_ids (ht w) ! nat (timer_id (ents w p)) = int i \<and> heap (ht w) ! i = p"
    by (auto simp: world_inv_def timer_inv_def ids_ok_def intro!: exI [of _ i])
qed

lemma world_cong:
  assumes "ht w' = ht w" "\<And>p. timer_id (ents w' p) = timer_id (ents w p)"
    "\<And>p. timer_value (ents w' p) = timer_value (ents w p)"
  shows "world_inv w' = world_inv w" "sched w' = sched w"
  using timer_inv_cong [of "ents w'" "ents w", OF assms(2,3)] assms(1)
  by (simp_all add: world_inv_def sched_def)

lemma schedule_correct:
  assumes inv: "world_inv w" and cb: "cb (ents w p) \<noteq> None" and idle: "sched w p = None"
  obtains w' where "schedule_w_grp_lock w p delay set_id i g now = (PJ_SUCCESS, w')" "world_inv w'"
    "sched w' = (sched w)(p \<mapsto> PJ_TIME_VAL_ADD now delay)"
    "cur_size (ht w') = cur_size (ht w) + 1"
    "\<And>q. cb (ents w' q) = cb (ents w q)" "\<And>q. q \<noteq> p \<Longrightarrow> grp_lock (ents w' q) = grp_lock (ents w q)"
    "grp_lock (ents w' p) = g" "grp_refs w' = grp_add_ref g (grp_refs w)"
    "id (ents w' p) = (if set_id then i else id (ents w p))"
proof -
  have e: "timer_id (ents w p) < 1" using running_iff [OF inv, of p] idle by auto
  obtain w1 k where w1: "schedule_entry w p (PJ_TIME_VAL_ADD now delay) = (PJ_SUCCESS, w1)"
    "timer_inv (ents w1) (ht w1)"
    "scheduled (ents w1) (ht w1) = (scheduled (ents w) (ht w))(p \<mapsto> PJ_TIME_VAL_ADD now delay)"
    "cur_size (ht w1) = cur_size (ht w) + 1" "grp_refs w1 = grp_refs w"
    "ents w1 = (ents w)(p := (ents w p)\<lparr>timer_id := k, timer_value := PJ_TIME_VAL_ADD now delay\<rparr>)"
    using schedule_entry_correct [OF inv [unfolded world_inv_def] e] .
  let ?e = "(if set_id then (ents w1 p)\<lparr>id := i\<rparr> else ents w1 p)\<lparr>grp_lock := g\<rparr>"
  let ?w' = "w1\<lparr>ents := (ents w1)(p := ?e), grp_refs := grp_add_ref g (grp_refs w1)\<rparr>"
  have eq: "schedule_w_grp_lock w p delay set_id i g now = (PJ_SUCCESS, ?w')"
    using cb e w1(1) by (simp add: schedule_w_grp_lock_def Let_def)
  have cong: "world_inv ?w' = world_inv w1" "sched ?w' = sched w1"
    by (rule world_cong; simp)+
  have flds: "cb (ents w1 q) = cb (ents w q)" "grp_lock (ents w1 q) = grp_lock (ents w q)"
    "id (ents w1 q) = id (ents w q)" for q
    by (simp_all add: w1(6))
  show ?thesis
  proof (rule that [OF eq])
    show "world_inv ?w'" unfolding cong using w1(2) by (simp add: world_inv_def)
    show "sched ?w' = (sched w)(p \<mapsto> PJ_TIME_VAL_ADD now delay)"
      unfolding cong using w1(3) by (simp add: sched_def)
  qed (simp_all add: flds w1(4,5))
qed

text \<open>Clearing the id of an entry that is not in the heap changes nothing.\<close>

lemma world_inv_unset:
  assumes inv: "world_inv w" and idle: "sched w p = None"
  defines "w1 \<equiv> w\<lparr>ents := (ents w)(p := (ents w p)\<lparr>timer_id := -1\<rparr>)\<rparr>"
  shows "world_inv w1" "sched w1 = (sched w)(p := None)"
proof -
  let ?ps = "take (cur_size (ht w)) (heap (ht w))"
  have "p \<notin> set ?ps" using idle by (simp add: sched_iff)
  then have same: "ents w1 q = ents w q" if "q \<in> set ?ps" for q
    using that by (auto simp: w1_def)
  have nth: "ents w1 (heap (ht w) ! j) = ents w (heap (ht w) ! j)" if "j < cur_size (ht w)" for j
    using inv that by (intro same) (auto simp: world_inv_def timer_inv_def set_take_conv_nth)
  have "heap_order (expiry (ents w1)) (heap (ht w)) (cur_size (ht w)) \<longleftrightarrow>
      heap_order (expiry (ents w)) (heap (ht w)) (cur_size (ht w))"
    by (rule heap_order_cong) (simp add: nth)
  moreover have "used_ids (ents w1) ?ps = used_ids (ents w) ?ps"
    unfolding used_ids_def using same by (intro image_cong) auto
  moreover have "ids_ok (ents w1) (ht w) (cur_size (ht w)) = ids_ok (ents w) (ht w) (cur_size (ht w))"
    using nth by (simp add: ids_ok_def)
  moreover have "timer_id (ents w1 q) < 1" if "q \<notin> set ?ps" for q
    using inv that by (simp add: world_inv_def timer_inv_def w1_def)
  moreover have "ht w1 = ht w" by (simp add: w1_def)
  ultimately show "world_inv w1" using inv by (simp add: world_inv_def timer_inv_def)
  show "sched w1 = (sched w)(p := None)"
    using idle by (auto simp: sched_def scheduled_def fun_eq_iff w1_def split: if_splits)
qed

lemma cancel_entry_correct:
  assumes inv: "world_inv w"
  obtains w1 where "cancel w p = Some (if sched w p = None then 0 else 1, w1)" "world_inv w1"
    "sched w1 = (sched w)(p := None)" "grp_refs w1 = grp_refs w"
    "ents w1 = (ents w)(p := (ents w p)\<lparr>timer_id := -1\<rparr>)"
    "max_entries_per_poll (ht w1) = max_entries_per_poll (ht w)"
proof (cases "sched w p = None")
  case True
  let ?w1 = "w\<lparr>ents := (ents w)(p := (ents w p)\<lparr>timer_id := -1\<rparr>)\<rparr>"
  have e: "timer_id (ents w p) < 1" using running_iff [OF inv, of p] True by auto
  have "cancel w p = Some (0, ?w1)"
  proof (cases "timer_id (ents w p) < 0")
    case False
    with e have "timer_id (ents w p) = 0" by simp
    with inv show ?thesis by (auto simp: cancel_def Let_def world_inv_def timer_inv_def)
  qed (simp add: cancel_def Let_def)
  then show ?thesis using that [of ?w1] True world_inv_unset [OF inv True] by simp
next
  case False
  obtain j where j: "j < cur_size (ht w)" "timer_ids (ht w) ! nat (timer_id (ents w p)) = int j"
    "heap (ht w) ! j = p" using running_slot(2) [OF inv False] by blast
  obtain es' h' where rm: "remove_node (ents w) (ht w) j = (heap (ht w) ! j, es', h')" "timer_inv es' h'"
    "es' = (ents w)(heap (ht w) ! j := (ents w (heap (ht w) ! j))\<lparr>timer_id := -1\<rparr>)"
    "scheduled es' h' = (scheduled (ents w) (ht w))(heap (ht w) ! j := None)"
    "max_entries_per_poll h' = max_entries_per_poll (ht w)"
    using remove_node_correct [OF inv [unfolded world_inv_def] j(1)] .
  have "1 \<le> timer_id (ents w p)" using running_iff [OF inv, of p] False by simp
  then have "cancel w p = Some (1, w\<lparr>ht := h', ents := es'\<rparr>)"
    using running_slot(1) [OF inv False] inv j rm(1)
    by (auto simp: cancel_def Let_def world_inv_def timer_inv_def)
  then show ?thesis using that [of "w\<lparr>ht := h', ents := es'\<rparr>"] rm j False
    by (simp add: world_inv_def sched_def)
qed

lemma cancel_correct:
  assumes inv: "world_inv w"
  obtains w' where "cancel_timer w p set_id i = Some (if sched w p = None then 0 else 1, w')" "world_inv w'"
    "sched w' = (sched w)(p := None)" "\<And>q. cb (ents w' q) = cb (ents w q)"
    "\<And>q. q \<noteq> p \<Longrightarrow> grp_lock (ents w' q) = grp_lock (ents w q)" "grp_lock (ents w' p) = None"
    "grp_refs w' = grp_dec_ref (grp_lock (ents w p)) (grp_refs w)"
    "max_entries_per_poll (ht w') = max_entries_per_poll (ht w)"
proof -
  obtain w1 where w1: "cancel w p = Some (if sched w p = None then 0 else 1, w1)" "world_inv w1"
    "sched w1 = (sched w)(p := None)" "grp_refs w1 = grp_refs w"
    "ents w1 = (ents w)(p := (ents w p)\<lparr>timer_id := -1\<rparr>)"
    "max_entries_per_poll (ht w1) = max_entries_per_poll (ht w)"
    using cancel_entry_correct [OF inv] .
  define e where "e = (let e = ents w1 p; e = (if set_id then e\<lparr>id := i\<rparr> else e)
      in if grp_lock e \<noteq> None then e\<lparr>grp_lock := None\<rparr> else e)"
  let ?w' = "w1\<lparr>ents := (ents w1)(p := e), grp_refs := grp_dec_ref (grp_lock (ents w p)) (grp_refs w1)\<rparr>"
  have g: "grp_lock (ents w1 p) = grp_lock (ents w p)" by (simp add: w1(5))
  have e: "timer_id e = timer_id (ents w1 p)" "timer_value e = timer_value (ents w1 p)"
    "cb e = cb (ents w1 p)" "grp_lock e = None"
    by (auto simp: e_def Let_def)
  have eq: "cancel_timer w p set_id i = Some (if sched w p = None then 0 else 1, ?w')"
    using w1(1) g by (auto simp: cancel_timer_def e_def Let_def)
  have cong: "world_inv ?w' = world_inv w1" "sched ?w' = sched w1"
    by (rule world_cong; simp add: e)+
  show ?thesis
    by (rule that [OF eq]) (use cong w1 e in \<open>auto simp: w1(5)\<close>)
qed

subsection \<open>Polling\<close>

lemma root_least:
  assumes inv: "world_inv w" and "cur_size (ht w) \<noteq> 0"
  shows "sched w (heap (ht w) ! 0) = Some (timer_value (ents w (heap (ht w) ! 0)))"
    and "sched w p = Some t \<Longrightarrow> timer_value (ents w (heap (ht w) ! 0)) \<le> t"
proof -
  have len: "cur_size (ht w) \<le> length (heap (ht w))"
    and ord: "heap_order (expiry (ents w)) (heap (ht w)) (cur_size (ht w))"
    using inv by (auto simp: world_inv_def timer_inv_def)
  show "sched w (heap (ht w) ! 0) = Some (timer_value (ents w (heap (ht w) ! 0)))"
    using assms(2) len by (auto simp: sched_def scheduled_def set_take_conv_nth)
  show "timer_value (ents w (heap (ht w) ! 0)) \<le> t" if p: "sched w p = Some t"
  proof -
    from p len obtain i where "i < cur_size (ht w)" "heap (ht w) ! i = p" "timer_value (ents w p) = t"
      by (auto simp: sched_def scheduled_def set_take_conv_nth split: if_splits)
    with heap_order_root_least [OF ord, of i] show ?thesis by simp
  qed
qed

lemma sched_empty: "cur_size (ht w) = 0 \<Longrightarrow> sched w p = None"
  by (simp add: sched_def scheduled_def)

text \<open>One round: the root leaves the heap, then its callback runs on the state without it.\<close>

lemma poll_fire_correct:
  assumes inv: "world_inv w" and ne: "cur_size (ht w) \<noteq> 0"
  defines "r \<equiv> heap (ht w) ! 0"
  obtains w1 where "world_inv w1" "sched w1 = (sched w)(r := None)"
    "max_entries_per_poll (ht w1) = max_entries_per_poll (ht w)" "grp_refs w1 = grp_refs w"
    "\<And>q. q \<noteq> r \<Longrightarrow> grp_lock (ents w1 q) = grp_lock (ents w q)" "grp_lock (ents w1 r) = None"
    "poll_fire callback w =
       ((r, timer_value (ents w r)),
        (let w2 = (case cb (ents w r) of None \<Rightarrow> w1 | Some p \<Rightarrow> callback p r w1)
         in w2\<lparr>grp_refs := grp_dec_ref (grp_lock (ents w r)) (grp_refs w2)\<rparr>))"
proof -
  obtain es' h' where rm: "remove_node (ents w) (ht w) 0 = (r, es', h')" "timer_inv es' h'"
    "es' = (ents w)(r := (ents w r)\<lparr>timer_id := -1\<rparr>)"
    "scheduled es' h' = (scheduled (ents w) (ht w))(r := None)"
    "max_entries_per_poll h' = max_entries_per_poll (ht w)"
    unfolding r_def using remove_node_correct [OF inv [unfolded world_inv_def]] ne by blast
  have f: "cb (es' r) = cb (ents w r)" "grp_lock (es' r) = grp_lock (ents w r)"
    "timer_value (es' r) = timer_value (ents w r)" by (simp_all add: rm(3))
  let ?w0 = "w\<lparr>ht := h', ents := es'\<rparr>"
  let ?w1 = "w\<lparr>ht := h', ents := es'(r := (es' r)\<lparr>grp_lock := None\<rparr>)\<rparr>"
  have "world_inv ?w1 = world_inv ?w0" "sched ?w1 = sched ?w0" by (rule world_cong; simp)+
  then have "world_inv ?w1" "sched ?w1 = (sched w)(r := None)"
    using rm by (simp_all add: world_inv_def sched_def)
  moreover have "poll_fire callback w = ((r, timer_value (ents w r)),
        (let w2 = (case cb (ents w r) of None \<Rightarrow> ?w1 | Some p \<Rightarrow> callback p r ?w1)
         in w2\<lparr>grp_refs := grp_dec_ref (grp_lock (ents w r)) (grp_refs w2)\<rparr>))"
    using f by (simp add: poll_fire_def rm(1) Let_def)
  ultimately show ?thesis using that [of ?w1] rm by (simp add: rm(3))
qed

lemma world_refs [simp]:
  "world_inv (w\<lparr>grp_refs := r\<rparr>) = world_inv w" "sched (w\<lparr>grp_refs := r\<rparr>) = sched w"
  by (simp_all add: world_inv_def sched_def)

text \<open>What the callbacks must respect: they may use the timer functions, nothing else.\<close>

definition callback_ok :: "(ptr \<Rightarrow> ptr \<Rightarrow> timer_world \<Rightarrow> timer_world) \<Rightarrow> bool" where
  "callback_ok callback \<longleftrightarrow>
     (\<forall>p node w. world_inv w \<longrightarrow> world_inv (callback p node w) \<and>
        max_entries_per_poll (ht (callback p node w)) = max_entries_per_poll (ht w))"

lemma poll_fire_inv:
  assumes inv: "world_inv w" and ne: "cur_size (ht w) \<noteq> 0" and ok: "callback_ok callback"
  obtains w' where "poll_fire callback w = ((heap (ht w) ! 0, timer_value (ents w (heap (ht w) ! 0))), w')"
    "world_inv w'" "max_entries_per_poll (ht w') = max_entries_per_poll (ht w)"
  by (rule poll_fire_correct [OF inv ne, where callback = callback])
    (use ok that in \<open>auto simp: Let_def callback_ok_def split: option.splits\<close>)

lemma poll_loop_stop:
  assumes "\<not> (cur_size (ht w) \<noteq> 0 \<and> timer_value (ents w (heap (ht w) ! 0)) \<le> now \<and>
     cnt < max_entries_per_poll (ht w))"
  shows "poll_loop callback now cnt w fired = Some (cnt, w, fired)"
  using assms by (subst poll_loop.simps) auto

lemma poll_loop_step:
  assumes "cur_size (ht w) \<noteq> 0" "timer_value (ents w (heap (ht w) ! 0)) \<le> now"
    "cnt < max_entries_per_poll (ht w)" "poll_fire callback w = (f, w')"
  shows "poll_loop callback now cnt w fired = poll_loop callback now (cnt + 1) w' (fired @ [f])"
  using assms by (subst poll_loop.simps) auto

lemma not_due:
  assumes "world_inv w" "\<not> (cur_size (ht w) \<noteq> 0 \<and> timer_value (ents w (heap (ht w) ! 0)) \<le> now)"
    "sched w p = Some t"
  shows "now < t"
proof -
  have ne: "cur_size (ht w) \<noteq> 0" using assms(3) sched_empty [of w p] by auto
  with assms(2) have "now < timer_value (ents w (heap (ht w) ! 0))" by auto
  with root_least(2) [OF assms(1) ne assms(3)] show ?thesis by simp
qed

lemma poll_loop_correct:
  assumes "world_inv w" "callback_ok callback" "cnt \<le> max_entries_per_poll (ht w)"
  shows "\<exists>cnt' w' fs. poll_loop callback now cnt w fired = Some (cnt', w', fired @ fs) \<and> world_inv w' \<and>
    cnt' = cnt + length fs \<and> cnt' \<le> max_entries_per_poll (ht w) \<and> (\<forall>(p, t) \<in> set fs. t \<le> now) \<and>
    (cnt' = max_entries_per_poll (ht w) \<or> (\<forall>p t. sched w' p = Some t \<longrightarrow> now < t))"
  using assms
proof (induction "max_entries_per_poll (ht w) - cnt" arbitrary: cnt w fired)
  case 0
  then have "cnt = max_entries_per_poll (ht w)" by simp
  with 0 show ?case by (simp add: poll_loop_stop)
next
  case (Suc d)
  let ?r = "heap (ht w) ! 0"
  show ?case
  proof (cases "cur_size (ht w) \<noteq> 0 \<and> timer_value (ents w ?r) \<le> now")
    case True
    obtain w1 where w1: "poll_fire callback w = ((?r, timer_value (ents w ?r)), w1)"
      "world_inv w1" "max_entries_per_poll (ht w1) = max_entries_per_poll (ht w)"
      using poll_fire_inv [OF Suc.prems(1) _ Suc.prems(2)] True by blast
    have lt: "cnt < max_entries_per_poll (ht w)" using Suc.hyps(2) by simp
    have d: "d = max_entries_per_poll (ht w1) - (cnt + 1)" using Suc.hyps(2) w1(3) by simp
    obtain cnt' w' fs where r:
      "poll_loop callback now (cnt + 1) w1 (fired @ [(?r, timer_value (ents w ?r))]) =
         Some (cnt', w', (fired @ [(?r, timer_value (ents w ?r))]) @ fs)" "world_inv w'"
      "cnt' = cnt + 1 + length fs" "cnt' \<le> max_entries_per_poll (ht w)" "\<forall>(p, t) \<in> set fs. t \<le> now"
      "cnt' = max_entries_per_poll (ht w) \<or> (\<forall>p t. sched w' p = Some t \<longrightarrow> now < t)"
      using Suc.hyps(1) [OF d w1(2) Suc.prems(2), of "fired @ [(?r, timer_value (ents w ?r))]"] w1(3) lt
      by auto
    then show ?thesis using True lt w1
      by (intro exI [of _ cnt'] exI [of _ w'] exI [of _ "(?r, timer_value (ents w ?r)) # fs"])
        (simp add: poll_loop_step)
  next
    case False
    with not_due [OF Suc.prems(1) False] Suc.prems show ?thesis
      by (auto simp: poll_loop_stop)
  qed
qed

text \<open>
  Order of expiry, for callbacks that leave the timers alone: entries fire in the order of
  their expiry times, each once, and an entry that stays expires no earlier than any that fired.
\<close>

definition callback_passive :: "(ptr \<Rightarrow> ptr \<Rightarrow> timer_world \<Rightarrow> timer_world) \<Rightarrow> bool" where
  "callback_passive callback \<longleftrightarrow>
     callback_ok callback \<and> (\<forall>p node w. world_inv w \<longrightarrow> sched (callback p node w) = sched w)"

lemma poll_fire_passive:
  assumes inv: "world_inv w" and ne: "cur_size (ht w) \<noteq> 0" and ok: "callback_passive callback"
  obtains w' where "poll_fire callback w = ((heap (ht w) ! 0, timer_value (ents w (heap (ht w) ! 0))), w')"
    "world_inv w'" "max_entries_per_poll (ht w') = max_entries_per_poll (ht w)"
    "sched w' = (sched w)(heap (ht w) ! 0 := None)"
  by (rule poll_fire_correct [OF inv ne, where callback = callback])
    (use ok that in \<open>auto simp: Let_def callback_passive_def callback_ok_def split: option.splits\<close>)

definition fired_in_order ::
  "(ptr \<Rightarrow> pj_time_val option) \<Rightarrow> (ptr \<times> pj_time_val) list \<Rightarrow> (ptr \<Rightarrow> pj_time_val option) \<Rightarrow> bool" where
  "fired_in_order m fs m' \<longleftrightarrow>
     sorted (map snd fs) \<and> distinct (map fst fs) \<and> (\<forall>(p, t) \<in> set fs. m p = Some t) \<and>
     m' = m |` (- fst ` set fs) \<and> (\<forall>(p, t) \<in> set fs. \<forall>q u. m' q = Some u \<longrightarrow> t \<le> u)"

lemma fired_in_order_Cons:
  assumes least: "\<And>q u. m q = Some u \<Longrightarrow> t \<le> u" and r: "m r = Some t"
    and rest: "fired_in_order (m(r := None)) fs m'"
  shows "fired_in_order m ((r, t) # fs) m'"
proof -
  have in_m: "m p = Some u" "p \<noteq> r" if "(p, u) \<in> set fs" for p u
    using rest that by (auto simp: fired_in_order_def split: if_splits)
  have m': "m' = m |` (- insert r (fst ` set fs))"
    using rest by (auto simp: fired_in_order_def restrict_map_def fun_eq_iff)
  have "t \<le> u" if "(p, u) \<in> set fs" for p u using least [OF in_m(1) [OF that]] .
  then have "sorted (t # map snd fs)" using rest by (auto simp: fired_in_order_def)
  moreover have "r \<notin> fst ` set fs" using in_m by fastforce
  moreover have "t \<le> u" if "m' q = Some u" for q u
    using that least unfolding m' by (auto simp: restrict_map_def split: if_splits)
  ultimately show ?thesis
    using rest in_m r m' by (auto simp: fired_in_order_def)
qed

lemma poll_loop_order:
  assumes "world_inv w" "callback_passive callback"
    and "poll_loop callback now cnt w fired = Some (cnt', w', fired @ fs)"
  shows "fired_in_order (sched w) fs (sched w')"
  using assms
proof (induction "max_entries_per_poll (ht w) - cnt" arbitrary: cnt w fired fs)
  case 0
  then have "w' = w" "fs = []" by (auto simp: poll_loop_stop)
  then show ?case by (simp add: fired_in_order_def restrict_map_def)
next
  case (Suc d)
  let ?r = "heap (ht w) ! 0"
  let ?t = "timer_value (ents w ?r)"
  show ?case
  proof (cases "cur_size (ht w) \<noteq> 0 \<and> ?t \<le> now")
    case True
    obtain w1 where w1: "poll_fire callback w = ((?r, ?t), w1)"
      "world_inv w1" "max_entries_per_poll (ht w1) = max_entries_per_poll (ht w)"
      "sched w1 = (sched w)(?r := None)"
      using poll_fire_passive [OF Suc.prems(1) _ Suc.prems(2)] True by blast
    have lt: "cnt < max_entries_per_poll (ht w)" using Suc.hyps(2) by simp
    have d: "d = max_entries_per_poll (ht w1) - (cnt + 1)" using Suc.hyps(2) w1(3) by simp
    have run: "poll_loop callback now (cnt + 1) w1 (fired @ [(?r, ?t)]) = Some (cnt', w', fired @ fs)"
      using Suc.prems(3) True lt w1 by (simp add: poll_loop_step)
    obtain gs where fs: "fs = (?r, ?t) # gs"
    proof -
      have "callback_ok callback" "cnt + 1 \<le> max_entries_per_poll (ht w1)"
        using Suc.prems(2) lt w1 by (auto simp: callback_passive_def)
      from poll_loop_correct [OF w1(2) this, of now "fired @ [(?r, ?t)]"] run that show ?thesis by auto
    qed
    have "fired_in_order (sched w1) gs (sched w')"
      using Suc.hyps(1) [OF d w1(2) Suc.prems(2), of "fired @ [(?r, ?t)]" gs] run fs by simp
    with root_least [OF Suc.prems(1)] True show ?thesis
      unfolding fs w1(4) by (intro fired_in_order_Cons) auto
  next
    case False
    with Suc.prems have "w' = w" "fs = []" by (auto simp: poll_loop_stop)
    then show ?thesis by (simp add: fired_in_order_def restrict_map_def)
  qed
qed

subsection \<open>Group lock references\<close>

text \<open>
  Every scheduled entry that carries a group lock holds one reference on it: the counters are
  those of \<open>base\<close> plus one for each such entry.
\<close>

definition grp_held :: "timer_world \<Rightarrow> ptr \<Rightarrow> ptr set" where
  "grp_held w l = {p. sched w p \<noteq> None \<and> grp_lock (ents w p) = Some l}"

definition grp_balanced :: "(ptr \<Rightarrow> int) \<Rightarrow> timer_world \<Rightarrow> bool" where
  "grp_balanced base w \<longleftrightarrow>
     (\<forall>l. grp_refs w l = base l + int (card (grp_held w l))) \<and>
     (\<forall>p. sched w p = None \<longrightarrow> grp_lock (ents w p) = None)"

lemma grp_held_finite [simp]: "finite (grp_held w l)"
proof -
  have "grp_held w l \<subseteq> set (take (cur_size (ht w)) (heap (ht w)))"
    by (auto simp: grp_held_def sched_iff)
  then show ?thesis by (rule finite_subset) simp
qed

lemma grp_held_unsched:
  assumes "sched w' = (sched w)(p := None)" "\<And>q. q \<noteq> p \<Longrightarrow> grp_lock (ents w' q) = grp_lock (ents w q)"
  shows "grp_held w' l = grp_held w l - {p}"
  using assms by (auto simp: grp_held_def)

lemma grp_balanced_unsched:
  assumes bal: "grp_balanced base w" and s: "sched w' = (sched w)(p := None)"
    and g: "\<And>q. q \<noteq> p \<Longrightarrow> grp_lock (ents w' q) = grp_lock (ents w q)" "grp_lock (ents w' p) = None"
    and r: "grp_refs w' = grp_refs w"
  shows "grp_balanced (grp_add_ref (grp_lock (ents w p)) base) w'"
proof -
  have "int (card (grp_held w l)) = int (card (grp_held w' l)) + (if grp_lock (ents w p) = Some l then 1 else 0)" for l
  proof (cases "grp_lock (ents w p) = Some l")
    case True
    with bal have "p \<in> grp_held w l" by (auto simp: grp_balanced_def grp_held_def)
    with True show ?thesis
      using grp_held_unsched [OF s g(1), of l] card_Suc_Diff1 [of "grp_held w l" p] by simp
  next
    case False
    then have "p \<notin> grp_held w l" by (simp add: grp_held_def)
    with False show ?thesis using grp_held_unsched [OF s g(1), of l] by simp
  qed
  moreover have "sched w' q = None \<Longrightarrow> grp_lock (ents w' q) = None" for q
    using bal s g by (cases "q = p") (auto simp: grp_balanced_def)
  ultimately show ?thesis using bal r
    by (auto simp: grp_balanced_def grp_add_ref_def split: option.splits)
qed

lemma grp_balanced_dec:
  "grp_balanced (grp_add_ref g base) w \<Longrightarrow> grp_balanced base (w\<lparr>grp_refs := grp_dec_ref g (grp_refs w)\<rparr>)"
  by (auto simp: grp_balanced_def grp_held_def grp_add_ref_def grp_dec_ref_def split: option.splits)

lemma cancel_balanced:
  assumes inv: "world_inv w" and bal: "grp_balanced base w"
    and run: "cancel_timer w p set_id i = Some (n, w')"
  shows "grp_balanced base w'"
proof -
  obtain w1 where w1: "cancel_timer w p set_id i = Some (if sched w p = None then 0 else 1, w1)"
    "sched w1 = (sched w)(p := None)" "\<And>q. q \<noteq> p \<Longrightarrow> grp_lock (ents w1 q) = grp_lock (ents w q)"
    "grp_lock (ents w1 p) = None" "grp_refs w1 = grp_dec_ref (grp_lock (ents w p)) (grp_refs w)"
    using cancel_correct [OF inv] by metis
  let ?v = "w1\<lparr>grp_refs := grp_refs w\<rparr>"
  have "grp_balanced (grp_add_ref (grp_lock (ents w p)) base) ?v"
    by (rule grp_balanced_unsched [OF bal]) (use w1 in auto)
  moreover have "w1\<lparr>grp_refs := grp_dec_ref (grp_lock (ents w p)) (grp_refs w)\<rparr> = w1"
    using w1(5) by (cases w1) simp
  ultimately show ?thesis using grp_balanced_dec [of _ base ?v] w1(1) run by fastforce
qed

lemma schedule_balanced:
  assumes inv: "world_inv w" and bal: "grp_balanced base w"
    and cb: "cb (ents w p) \<noteq> None" and idle: "sched w p = None"
    and run: "schedule_w_grp_lock w p delay set_id i g now = (st, w')"
  shows "grp_balanced base w'"
proof -
  obtain w1 where w1: "schedule_w_grp_lock w p delay set_id i g now = (PJ_SUCCESS, w1)"
    "sched w1 = (sched w)(p \<mapsto> PJ_TIME_VAL_ADD now delay)"
    "\<And>q. q \<noteq> p \<Longrightarrow> grp_lock (ents w1 q) = grp_lock (ents w q)"
    "grp_lock (ents w1 p) = g" "grp_refs w1 = grp_add_ref g (grp_refs w)"
    using schedule_correct [OF inv cb idle] by metis
  have "grp_held w1 l = (if g = Some l then insert p (grp_held w l) else grp_held w l)" for l
    using w1 idle by (auto simp: grp_held_def)
  moreover have "p \<notin> grp_held w l" for l using idle by (simp add: grp_held_def)
  moreover have "sched w1 q = None \<Longrightarrow> grp_lock (ents w1 q) = None" for q
    using bal w1(2,3) by (cases "q = p") (auto simp: grp_balanced_def)
  moreover have "w1 = w'" using w1(1) run by simp
  ultimately show ?thesis using bal w1(5)
    by (auto simp: grp_balanced_def grp_add_ref_def split: option.splits)
qed

lemma poll_fire_balanced:
  assumes inv: "world_inv w" and ne: "cur_size (ht w) \<noteq> 0" and bal: "grp_balanced base w"
    and cbb: "\<And>base p node w. world_inv w \<Longrightarrow> grp_balanced base w \<Longrightarrow> grp_balanced base (callback p node w)"
  shows "grp_balanced base (snd (poll_fire callback w))"
proof (rule poll_fire_correct [OF inv ne, where callback = callback])
  fix w1
  let ?r = "heap (ht w) ! 0"
  let ?w2 = "case cb (ents w ?r) of None \<Rightarrow> w1 | Some p \<Rightarrow> callback p ?r w1"
  assume w1: "world_inv w1" "sched w1 = (sched w)(?r := None)" "grp_refs w1 = grp_refs w"
    "\<And>q. q \<noteq> ?r \<Longrightarrow> grp_lock (ents w1 q) = grp_lock (ents w q)" "grp_lock (ents w1 ?r) = None"
    and eq: "poll_fire callback w = ((?r, timer_value (ents w ?r)),
      (let w2 = ?w2 in w2\<lparr>grp_refs := grp_dec_ref (grp_lock (ents w ?r)) (grp_refs w2)\<rparr>))"
  have "grp_balanced (grp_add_ref (grp_lock (ents w ?r)) base) w1"
    by (rule grp_balanced_unsched [OF bal]) (use w1 in auto)
  then have "grp_balanced (grp_add_ref (grp_lock (ents w ?r)) base) ?w2"
    using cbb [OF w1(1)] by (auto split: option.splits)
  from grp_balanced_dec [OF this] show ?thesis by (simp add: eq Let_def)
qed

section \<open>The timer service as an interface\<close>

text \<open>
  What the protocol layers rely on: starting an idle timer succeeds and sets its expiry, starting
  a running one is refused and changes nothing, stopping reports whether the timer was running
  and leaves it idle. \<open>ready\<close> says that the entry has been given a callback.
\<close>

datatype timer_op = Start ptr pj_time_val pj_time_val | Stop ptr

primrec timer_spec :: "timer_op \<Rightarrow> (ptr \<Rightarrow> pj_time_val option) \<Rightarrow> ptr \<Rightarrow> pj_time_val option" where
  "timer_spec (Start p delay now) m = (if m p = None then m(p \<mapsto> PJ_TIME_VAL_ADD now delay) else m)"
| "timer_spec (Stop p) m = m(p := None)"

locale timer_service =
  fixes inv :: "'s \<Rightarrow> bool" and ready :: "'s \<Rightarrow> ptr \<Rightarrow> bool"
    and pending :: "'s \<Rightarrow> ptr \<Rightarrow> pj_time_val option"
    and start :: "'s \<Rightarrow> ptr \<Rightarrow> pj_time_val \<Rightarrow> pj_time_val \<Rightarrow> pj_status_t \<times> 's"
    and stop :: "'s \<Rightarrow> ptr \<Rightarrow> (int \<times> 's) option"
  assumes start_idle: "inv s \<Longrightarrow> ready s p \<Longrightarrow> pending s p = None \<Longrightarrow>
      \<exists>s'. start s p d now = (PJ_SUCCESS, s') \<and> inv s' \<and> ready s' = ready s \<and>
        pending s' = (pending s)(p \<mapsto> PJ_TIME_VAL_ADD now d)"
    and start_running: "inv s \<Longrightarrow> ready s p \<Longrightarrow> pending s p \<noteq> None \<Longrightarrow> start s p d now = (PJ_EINVALIDOP, s)"
    and stop_any: "inv s \<Longrightarrow> \<exists>s'. stop s p = Some (if pending s p = None then 0 else 1, s') \<and> inv s' \<and>
        ready s' = ready s \<and> pending s' = (pending s)(p := None)"
begin

definition perform :: "timer_op \<Rightarrow> 's \<Rightarrow> 's" where
  "perform oper s =
     (case oper of Start p d now \<Rightarrow> snd (start s p d now)
      | Stop p \<Rightarrow> (case stop s p of Some (_, s') \<Rightarrow> s' | None \<Rightarrow> s))"

lemma perform_refines:
  assumes "inv s" "\<And>p. ready s p"
  shows "inv (perform oper s)" "ready (perform oper s) = ready s"
    "pending (perform oper s) = timer_spec oper (pending s)"
proof -
  have "inv (perform oper s) \<and> ready (perform oper s) = ready s \<and>
    pending (perform oper s) = timer_spec oper (pending s)"
  proof (cases oper)
    case (Start p d now)
    then show ?thesis
      using start_idle [OF assms(1) assms(2), of p d now] start_running [OF assms(1) assms(2), of p d now] assms(1)
      by (cases "pending s p = None") (auto simp: perform_def)
  next
    case (Stop p)
    then show ?thesis using stop_any [OF assms(1), of p] by (auto simp: perform_def)
  qed
  then show "inv (perform oper s)" "ready (perform oper s) = ready s"
    "pending (perform oper s) = timer_spec oper (pending s)" by auto
qed

lemma run_refines:
  assumes "inv s" "\<And>p. ready s p"
  shows "inv (fold perform ops s) \<and> pending (fold perform ops s) = fold timer_spec ops (pending s)"
  using assms
proof (induction ops arbitrary: s)
  case (Cons oper ops)
  from perform_refines [OF Cons.prems, of oper] Cons.prems(2) Cons.IH [of "perform oper s"]
  show ?case by simp
qed simp

text \<open>Stopping and starting again always succeeds, whatever the state of the timer was.\<close>

lemma restart:
  assumes "inv s" "ready s p"
  shows "\<exists>k s1 s2. stop s p = Some (k, s1) \<and> start s1 p d now = (PJ_SUCCESS, s2) \<and> inv s2 \<and>
    pending s2 = (pending s)(p \<mapsto> PJ_TIME_VAL_ADD now d)"
proof -
  obtain s1 where s1: "stop s p = Some (if pending s p = None then 0 else 1, s1)" "inv s1"
    "ready s1 = ready s" "pending s1 = (pending s)(p := None)" using stop_any [OF assms(1)] by blast
  from start_idle [OF s1(2), of p d now] s1 assms(2) show ?thesis by auto
qed

end

interpretation th: timer_service world_inv "\<lambda>w p. cb (ents w p) \<noteq> None" sched
  pj_timer_heap_schedule pj_timer_heap_cancel
proof
  fix s :: timer_world and p d now
  assume inv: "world_inv s" and rd: "cb (ents s p) \<noteq> None"
  show "\<exists>s'. pj_timer_heap_schedule s p d now = (PJ_SUCCESS, s') \<and> world_inv s' \<and>
      (\<lambda>p. cb (ents s' p) \<noteq> None) = (\<lambda>p. cb (ents s p) \<noteq> None) \<and>
      sched s' = (sched s)(p \<mapsto> PJ_TIME_VAL_ADD now d)" if "sched s p = None"
    using schedule_correct [OF inv rd that] unfolding pj_timer_heap_schedule_def by metis
  show "pj_timer_heap_schedule s p d now = (PJ_EINVALIDOP, s)" if "sched s p \<noteq> None"
    using running_iff [OF inv, of p] that rd
    by (auto simp: pj_timer_heap_schedule_def schedule_w_grp_lock_def)
next
  fix s :: timer_world and p
  assume "world_inv s"
  then show "\<exists>s'. pj_timer_heap_cancel s p = Some (if sched s p = None then 0 else 1, s') \<and> world_inv s' \<and>
      (\<lambda>p. cb (ents s' p) \<noteq> None) = (\<lambda>p. cb (ents s p) \<noteq> None) \<and> sched s' = (sched s)(p := None)"
    using cancel_correct unfolding pj_timer_heap_cancel_def by metis
qed

section \<open>Properties\<close>

text \<open>
  A run of the timer API as the clients see it, over the model's own functions.
\<close>

definition timer_api :: "timer_op \<Rightarrow> timer_world \<Rightarrow> timer_world" where
  "timer_api oper w =
     (case oper of Start p d now \<Rightarrow> snd (pj_timer_heap_schedule w p d now)
      | Stop p \<Rightarrow> (case pj_timer_heap_cancel w p of Some (_, w') \<Rightarrow> w' | None \<Rightarrow> w))"

text \<open>
  C4: any sequence of schedule and cancel calls keeps the timer heap's invariant (heap order,
  the id array as inverse of the heap array, the threaded free list) and acts on the set of
  scheduled entries exactly as the sequence of abstract map operations: schedule sets the expiry
  of an idle entry to now plus the delay and is refused on a running one, cancel removes the entry.
\<close>

theorem timer_heap_refines_map:
  assumes "world_inv w" and "\<And>p. cb (ents w p) \<noteq> None"
  shows "world_inv (fold timer_api ops w) \<and> sched (fold timer_api ops w) = fold timer_spec ops (sched w)"
proof -
  have "timer_api = th.perform" by (simp add: fun_eq_iff timer_api_def th.perform_def)
  with th.run_refines [OF assms] show ?thesis by simp
qed

definition demo_entry :: pj_timer_entry where
  "demo_entry = \<lparr>user_data = 0, id = 0, cb = Some 7, timer_id = -1, timer_value = Time_val 0 0,
     grp_lock = None\<rparr>"

definition demo_heap :: pj_timer_heap_t where
  "demo_heap = \<lparr>max_size = 3, cur_size = 0, max_entries_per_poll = 64, lock = None,
     auto_delete_lock = False, heap = [0, 0, 0], timer_ids = [-1, -2, -3], timer_ids_freelist = 1\<rparr>"

definition demo_world :: timer_world where
  "demo_world = \<lparr>ht = demo_heap, ents = (\<lambda>_. demo_entry), grp_refs = (\<lambda>_. 1)\<rparr>"

lemma demo_create: "pj_timer_heap_create (\<lambda>_. True) 1 = Inr demo_heap"
  by (simp add: pj_timer_heap_create_def demo_heap_def DEFAULT_MAX_TIMED_OUT_PER_POLL_def
      numeral_3_eq_3 upt_rec)

lemma demo_inv: "world_inv demo_world" "sched demo_world = Map.empty" "cb (ents demo_world p) \<noteq> None"
  using create_inv [OF demo_create, of "\<lambda>_. demo_entry"]
  by (simp_all add: world_inv_def sched_def demo_world_def demo_entry_def)

theorem timer_heap_refines_map_witness:
  "sched (fold timer_api [Start 5 (Time_val 1 0) (Time_val 10 0), Start 6 (Time_val 0 500) (Time_val 10 0),
       Start 4 (Time_val 0 700) (Time_val 10 0), Stop 5] demo_world) =
   [6 \<mapsto> Time_val 10 500, 4 \<mapsto> Time_val 10 700]"
  using timer_heap_refines_map [OF demo_inv(1,3), of "[Start 5 (Time_val 1 0) (Time_val 10 0),
       Start 6 (Time_val 0 500) (Time_val 10 0), Start 4 (Time_val 0 700) (Time_val 10 0), Stop 5]"]
  by (auto simp: demo_inv(2) PJ_TIME_VAL_ADD_def pj_time_val_normalize_def)

text \<open>The delay reported by a poll, in milliseconds.\<close>

lemma poll_next_delay_msec:
  assumes "cur_size (ht w) \<noteq> 0"
  shows "PJ_TIME_VAL_MSEC (poll_next_delay w now) =
    max 0 (PJ_TIME_VAL_MSEC (timer_value (ents w (heap (ht w) ! 0))) - PJ_TIME_VAL_MSEC now)"
proof -
  let ?d = "PJ_TIME_VAL_SUB (timer_value (ents w (heap (ht w) ! 0))) now"
  have "time_val_normal ?d" by (simp add: PJ_TIME_VAL_SUB_def)
  then have "(sec ?d < 0 \<or> msec ?d < 0) \<longleftrightarrow> PJ_TIME_VAL_MSEC ?d < 0"
    by (auto simp: time_val_normal_def PJ_TIME_VAL_MSEC_def)
  with assms show ?thesis
    using sub_msec [of "timer_value (ents w (heap (ht w) ! 0))" now]
    by (auto simp: poll_next_delay_def Let_def max_def) (simp_all add: PJ_TIME_VAL_MSEC_def)
qed

lemma poll_unfold:
  assumes "pj_timer_heap_poll callback want now w = Some (cnt, d, w', fired)"
  shows "(cur_size (ht w) = 0 \<and> cnt = 0 \<and> w' = w \<and> fired = []) \<or>
    poll_loop callback now 0 w [] = Some (cnt, w', fired)"
  using assms by (auto simp: pj_timer_heap_poll_def split: if_splits option.splits)

text \<open>
  C20: polling terminates and is complete when the callbacks use the heap through its functions:
  the poll returns, keeps the invariant, fires at most the configured number of entries, fires
  only entries whose expiry has been reached, and unless it stopped at that limit no entry that is
  still scheduled is due. The delay it reports is the time until the earliest remaining expiry,
  zero if that has passed, and the maximum when nothing is scheduled.
\<close>

theorem timer_poll_fires_due:
  assumes inv: "world_inv w" and ok: "callback_ok callback"
  shows "\<exists>cnt d w' fired. pj_timer_heap_poll callback True now w = Some (cnt, Some d, w', fired) \<and>
    world_inv w' \<and> cnt = length fired \<and> cnt \<le> max_entries_per_poll (ht w) \<and>
    (\<forall>(p, t) \<in> set fired. t \<le> now) \<and>
    (cnt = max_entries_per_poll (ht w) \<or> (\<forall>p t. sched w' p = Some t \<longrightarrow> now < t)) \<and>
    (if cur_size (ht w') = 0 then d = Time_val PJ_MAXINT32 PJ_MAXINT32
     else PJ_TIME_VAL_MSEC d =
       max 0 (PJ_TIME_VAL_MSEC (timer_value (ents w' (heap (ht w') ! 0))) - PJ_TIME_VAL_MSEC now))"
proof (cases "cur_size (ht w) = 0")
  case True
  then show ?thesis using inv by (auto simp: pj_timer_heap_poll_def sched_empty)
next
  case False
  obtain cnt w' fs where r: "poll_loop callback now 0 w [] = Some (cnt, w', [] @ fs)" "world_inv w'"
    "cnt = 0 + length fs" "cnt \<le> max_entries_per_poll (ht w)" "\<forall>(p, t) \<in> set fs. t \<le> now"
    "cnt = max_entries_per_poll (ht w) \<or> (\<forall>p t. sched w' p = Some t \<longrightarrow> now < t)"
    using poll_loop_correct [OF inv ok, of 0 now "[]"] by auto
  show ?thesis
    by (intro exI [of _ cnt] exI [of _ "poll_next_delay w' now"] exI [of _ w'] exI [of _ fs])
      (use False r in \<open>simp add: pj_timer_heap_poll_def poll_next_delay_msec,
        simp add: poll_next_delay_def\<close>)
qed

definition demo_running :: timer_world where
  "demo_running =
     \<lparr>ht = \<lparr>max_size = 6, cur_size = 2, max_entries_per_poll = 64, lock = None, auto_delete_lock = False,
           heap = [6, 5, 0, 0, 0, 0], timer_ids = [-1, 1, 0, -4, -5, -6], timer_ids_freelist = 3\<rparr>,
      ents = (\<lambda>_. demo_entry)
        (5 := demo_entry\<lparr>timer_id := 1, timer_value := Time_val 11 0\<rparr>,
         6 := demo_entry\<lparr>timer_id := 2, timer_value := Time_val 10 500\<rparr>),
      grp_refs = (\<lambda>_. 1)\<rparr>"

lemma demo_running_inv: "world_inv demo_running" "sched demo_running = [5 \<mapsto> Time_val 11 0, 6 \<mapsto> Time_val 10 500]"
proof -
  let ?h = "ht demo_running" and ?es = "ents demo_running"
  have "ids_ok ?es ?h 2" "heap_order (expiry ?es) (heap ?h) 2" "used_ids ?es (take 2 (heap ?h)) = {1, 2}"
    by (auto simp: demo_running_def demo_entry_def ids_ok_def heap_order_def used_ids_def less_Suc_eq
        numeral_2_eq_2 HEAP_PARENT_def less_eq_pj_time_val_def PJ_TIME_VAL_LTE_def PJ_TIME_VAL_GT_def
        simp del: time_val_order time_val_order_gt)
  moreover have "free_chain (timer_ids ?h) 6 3 [3, 4, 5]" by (simp add: demo_running_def)
  moreover have "set [3, 4, 5] = {1 ..< 6} - {1, 2 :: nat}" by auto
  ultimately have "\<exists>fl. free_chain (timer_ids ?h) 6 3 fl \<and> distinct fl \<and>
      set fl = {1 ..< 6} - used_ids ?es (take 2 (heap ?h))"
    by (intro exI [of _ "[3, 4, 5]"]) simp
  with \<open>ids_ok ?es ?h 2\<close> \<open>heap_order (expiry ?es) (heap ?h) 2\<close> show "world_inv demo_running"
    by (simp add: world_inv_def timer_inv_def demo_running_def demo_entry_def)
  show "sched demo_running = [5 \<mapsto> Time_val 11 0, 6 \<mapsto> Time_val 10 500]"
    by (auto simp: sched_def scheduled_def demo_running_def demo_entry_def fun_eq_iff)
qed

lemma idle_callback: "callback_passive (\<lambda>p node w. w)"
  by (simp add: callback_passive_def callback_ok_def)

definition poll_report ::
  "(nat \<times> pj_time_val option \<times> timer_world \<times> (ptr \<times> pj_time_val) list) option \<Rightarrow>
   (nat \<times> pj_time_val option \<times> (ptr \<times> pj_time_val) list) option" where
  "poll_report r = map_option (\<lambda>(c, d, w, f). (c, d, f)) r"

lemma demo_poll:
  "poll_report (pj_timer_heap_poll (\<lambda>p node w. w) True (Time_val 10 600) demo_running) =
     Some (1, Some (Time_val 0 400), [(6, Time_val 10 500)])"
  by code_simp

theorem timer_poll_fires_due_witness:
  "\<exists>w'. pj_timer_heap_poll (\<lambda>p node w. w) True (Time_val 10 600) demo_running =
     Some (1, Some (Time_val 0 400), w', [(6, Time_val 10 500)]) \<and> world_inv w' \<and>
     \<not> (\<exists>p t. sched w' p = Some t \<and> t \<le> Time_val 10 600)"
proof -
  have "callback_ok (\<lambda>p node w. w)" using idle_callback by (simp add: callback_passive_def)
  from timer_poll_fires_due [OF demo_running_inv(1) this, of "Time_val 10 600"] demo_poll
  show ?thesis by (fastforce simp: poll_report_def demo_running_def not_le)
qed

text \<open>
  C21: when the callbacks leave the timers alone, a poll fires entries in the order of their expiry
  times, each at most once and only entries that were scheduled with that expiry; exactly the fired
  entries leave the heap, and none of those that stay expires before one that fired.
\<close>

theorem timer_poll_in_order:
  assumes "world_inv w" and "callback_passive callback"
    and "pj_timer_heap_poll callback want now w = Some (cnt, d, w', fired)"
  shows "sorted (map snd fired) \<and> distinct (map fst fired) \<and> (\<forall>(p, t) \<in> set fired. sched w p = Some t) \<and>
    sched w' = sched w |` (- fst ` set fired) \<and>
    (\<forall>(p, t) \<in> set fired. \<forall>q u. sched w' q = Some u \<longrightarrow> t \<le> u)"
proof -
  consider "w' = w" "fired = []" | "poll_loop callback now 0 w [] = Some (cnt, w', [] @ fired)"
    using poll_unfold [OF assms(3)] by auto
  then show ?thesis
  proof cases
    case 1
    then show ?thesis by (simp add: restrict_map_def)
  next
    case 2
    from poll_loop_order [OF assms(1,2) 2] show ?thesis unfolding fired_in_order_def .
  qed
qed

theorem timer_poll_in_order_witness:
  "\<exists>w'. pj_timer_heap_poll (\<lambda>p node w. w) True (Time_val 10 600) demo_running =
     Some (1, Some (Time_val 0 400), w', [(6, Time_val 10 500)]) \<and> sched w' = [5 \<mapsto> Time_val 11 0]"
proof -
  obtain w' where r: "pj_timer_heap_poll (\<lambda>p node w. w) True (Time_val 10 600) demo_running =
     Some (1, Some (Time_val 0 400), w', [(6, Time_val 10 500)])"
    using demo_poll by (auto simp: poll_report_def)
  from timer_poll_in_order [OF demo_running_inv(1) idle_callback r]
  have "sched w' = [5 \<mapsto> Time_val 11 0]"
    by (auto simp: demo_running_inv(2) restrict_map_def fun_eq_iff)
  with r show ?thesis by blast
qed

text \<open>
  C24: group lock references are balanced. If every scheduled entry that carries a group lock
  accounts for one reference on it, the same holds after scheduling an idle entry, after
  cancelling any entry, and after a round of the poll loop whose callback respects it: no
  reference is lost and none is released twice.
\<close>

theorem timer_grp_refs_balanced:
  assumes "world_inv w" and "grp_balanced base w"
    and "cb (ents w p) \<noteq> None" and "sched w p = None" and "cur_size (ht w) \<noteq> 0"
    and "\<And>base p node w. world_inv w \<Longrightarrow> grp_balanced base w \<Longrightarrow> grp_balanced base (callback p node w)"
  shows "grp_balanced base (snd (pj_timer_heap_schedule_w_grp_lock w p delay i g now)) \<and>
    (\<forall>q n w'. pj_timer_heap_cancel w q = Some (n, w') \<longrightarrow> grp_balanced base w') \<and>
    grp_balanced base (snd (poll_fire callback w))"
proof (intro conjI allI impI)
  show "grp_balanced base (snd (pj_timer_heap_schedule_w_grp_lock w p delay i g now))"
    unfolding pj_timer_heap_schedule_w_grp_lock_def
    by (rule schedule_balanced [OF assms(1-4)]) (rule prod.collapse [symmetric])
  show "grp_balanced base w'" if "pj_timer_heap_cancel w q = Some (n, w')" for q n w'
    using cancel_balanced [OF assms(1,2)] that unfolding pj_timer_heap_cancel_def by blast
  show "grp_balanced base (snd (poll_fire callback w))"
    by (rule poll_fire_balanced [OF assms(1,5,2,6)])
qed

theorem timer_grp_refs_balanced_witness:
  "grp_balanced (\<lambda>_. 1) (snd (pj_timer_heap_schedule_w_grp_lock demo_running 9 (Time_val 1 0) 3 (Some 2) (Time_val 10 0)))
   \<and> grp_balanced (\<lambda>_. 1) (snd (poll_fire (\<lambda>p node w. w) demo_running))"
proof -
  have "grp_lock (ents demo_running p) = None" for p by (simp add: demo_running_def demo_entry_def)
  then have bal: "grp_balanced (\<lambda>_. 1) demo_running"
    by (simp add: grp_balanced_def grp_held_def) (simp add: demo_running_def)
  have "cb (ents demo_running 9) \<noteq> None" "sched demo_running 9 = None" "cur_size (ht demo_running) \<noteq> 0"
    unfolding demo_running_inv(2) by (simp_all add: demo_running_def demo_entry_def)
  from timer_grp_refs_balanced [OF demo_running_inv(1) bal this, of "\<lambda>p node w. w"]
  show ?thesis by blast
qed

text \<open>
  the earliest expiry reported is the least of all scheduled expiry times, and the error is
  reported exactly when nothing is scheduled.
\<close>

theorem timer_earliest_is_least:
  assumes "world_inv w"
  shows "(pj_timer_heap_earliest_time w = Inl PJ_ENOTFOUND \<and> sched w = Map.empty) \<or>
    (\<exists>t. pj_timer_heap_earliest_time w = Inr t \<and> (\<exists>p. sched w p = Some t) \<and>
         (\<forall>p u. sched w p = Some u \<longrightarrow> t \<le> u))"
proof (cases "cur_size (ht w) = 0")
  case True
  then show ?thesis by (auto simp: pj_timer_heap_earliest_time_def sched_empty fun_eq_iff)
next
  case False
  with root_least [OF assms False] show ?thesis by (auto simp: pj_timer_heap_earliest_time_def)
qed

theorem timer_earliest_is_least_witness:
  "pj_timer_heap_earliest_time demo_running = Inr (Time_val 10 500) \<and>
   \<not> (\<exists>p u. sched demo_running p = Some u \<and> u < Time_val 10 500)"
proof -
  have "pj_timer_heap_earliest_time demo_running = Inr (Time_val 10 500)"
    by (simp add: pj_timer_heap_earliest_time_def demo_running_def demo_entry_def)
  with timer_earliest_is_least [OF demo_running_inv(1)] show ?thesis by (auto simp: not_less)
qed

text \<open>
  the range check of \<^verbatim>\<open>cancel\<close> is off by one: an entry whose id field equals
  \<^verbatim>\<open>max_size\<close> passes it and \<^verbatim>\<open>timer_ids\<close> is read one element past its end. (No sequence of calls on
  initialised entries gives an entry that id.)\<close>

theorem timer_cancel_reads_past_end:
  "timer_id (ents w p) = int (length (timer_ids (ht w))) \<Longrightarrow> length (timer_ids (ht w)) = max_size (ht w) \<Longrightarrow>
   pj_timer_heap_cancel w p = None"
  by (simp add: pj_timer_heap_cancel_def cancel_timer_def cancel_def Let_def)

theorem timer_cancel_reads_past_end_witness:
  "pj_timer_heap_cancel (demo_world\<lparr>ents := (\<lambda>_. demo_entry\<lparr>timer_id := 3\<rparr>)\<rparr>) 9 = None"
  by (rule timer_cancel_reads_past_end) (simp_all add: demo_world_def demo_heap_def)

end
