(* ===== verification/PJ_String.thy ===== *)
theory PJ_String
  imports PJ_Prelude
begin

text \<open>
  Strings, from \<^verbatim>\<open>pjlib/src/pj/string.c\<close> and \<^verbatim>\<open>pjlib/include/pj/string_i.h\<close>: comparison, with and
  without regard to case, and conversion of decimal numbers. A \<^verbatim>\<open>pj_str_t\<close> is the list of its
  bytes. The C functions that the code relies on (\<^verbatim>\<open>memcmp\<close>, \<^verbatim>\<open>strncasecmp\<close>, \<^verbatim>\<open>tolower\<close>) are those of
  the C locale, and \<^verbatim>\<open>unsigned long\<close> is 64 bits wide. Text literals are lists of character codes.
\<close>

abbreviation str :: "string \<Rightarrow> bytes" where
  "str s \<equiv> map of_char s"

section \<open>Comparison\<close>

definition pj_tolower :: "pj_uint8_t \<Rightarrow> pj_uint8_t" where
  "pj_tolower c = (if 65 \<le> c \<and> c \<le> 90 then c + 32 else c)"

text \<open>\<^verbatim>\<open>strncasecmp(a, b, n) == 0\<close>: compares at most \<open>n\<close> bytes and stops at a NUL.\<close>

fun strnicmp_eq :: "nat \<Rightarrow> bytes \<Rightarrow> bytes \<Rightarrow> bool" where
  "strnicmp_eq 0 as bs = True"
| "strnicmp_eq (Suc n) (a # as) (b # bs) =
     (pj_tolower a = pj_tolower b \<and> (a = 0 \<or> strnicmp_eq n as bs))"
| "strnicmp_eq (Suc n) as bs = False"

lemma strnicmp_eq_iff:
  "length as = n \<Longrightarrow> length bs = n \<Longrightarrow> 0 \<notin> set (butlast as) \<Longrightarrow>
   strnicmp_eq n as bs \<longleftrightarrow> map pj_tolower as = map pj_tolower bs"
  by (induction n as bs rule: strnicmp_eq.induct) (auto split: if_splits)

text \<open>The sign of \<^verbatim>\<open>memcmp\<close> and of \<^verbatim>\<open>strncasecmp\<close> on \<open>n\<close> bytes that both strings have.\<close>

fun memcmp_sgn :: "nat \<Rightarrow> bytes \<Rightarrow> bytes \<Rightarrow> int" where
  "memcmp_sgn (Suc n) (a # as) (b # bs) = (if a < b then -1 else if b < a then 1 else memcmp_sgn n as bs)"
| "memcmp_sgn n as bs = 0"

fun strnicmp_sgn :: "nat \<Rightarrow> bytes \<Rightarrow> bytes \<Rightarrow> int" where
  "strnicmp_sgn (Suc n) (a # as) (b # bs) =
     (if pj_tolower a < pj_tolower b then -1 else if pj_tolower b < pj_tolower a then 1
      else if a = 0 then 0 else strnicmp_sgn n as bs)"
| "strnicmp_sgn n as bs = 0"

definition pj_strcmp :: "bytes \<Rightarrow> bytes \<Rightarrow> int" where
  "pj_strcmp str1 str2 =
     (if length str1 = 0 then if length str2 = 0 then 0 else -1
      else if length str2 = 0 then 1
      else let min = (if length str1 < length str2 then length str1 else length str2);
               res = memcmp_sgn min str1 str2
           in if res = 0 then if length str1 < length str2 then -1 else if length str1 = length str2 then 0 else 1
              else res)"

definition pj_stricmp :: "bytes \<Rightarrow> bytes \<Rightarrow> int" where
  "pj_stricmp str1 str2 =
     (if length str1 = 0 then if length str2 = 0 then 0 else -1
      else if length str2 = 0 then 1
      else let min = (if length str1 < length str2 then length str1 else length str2);
               res = strnicmp_sgn min str1 str2
           in if res = 0 then if length str1 < length str2 then -1 else if length str1 = length str2 then 0 else 1
              else res)"

lemma memcmp_sgn_eq: "length as = n \<Longrightarrow> length bs = n \<Longrightarrow> memcmp_sgn n as bs = 0 \<longleftrightarrow> as = bs"
  by (induction n as bs rule: memcmp_sgn.induct) auto

lemma strcmp_eq_0 [simp]: "pj_strcmp a b = 0 \<longleftrightarrow> a = b"
  using memcmp_sgn_eq [of a "length a" b] by (auto simp: pj_strcmp_def Let_def split: if_splits)

lemma strnicmp_sgn_eq: "length as = n \<Longrightarrow> length bs = n \<Longrightarrow> strnicmp_sgn n as bs = 0 \<longleftrightarrow> strnicmp_eq n as bs"
  by (induction n as bs rule: strnicmp_sgn.induct) auto

lemma stricmp_eq_0: "pj_stricmp a b = 0 \<longleftrightarrow> length a = length b \<and> strnicmp_eq (length a) a b"
  using strnicmp_sgn_eq [of a "length a" b] by (auto simp: pj_stricmp_def Let_def split: if_splits)

lemma lower_zero: "pj_tolower c = 0 \<longleftrightarrow> c = 0"
proof -
  have "\<forall>c :: pj_uint8_t. pj_tolower c = 0 \<longleftrightarrow> c = 0" unfolding all_bytes by code_simp
  then show ?thesis by blast
qed

lemma strnicmp_eq_refl: "strnicmp_eq (length a) a a"
  by (induction a) auto

lemma stricmp_refl [simp]: "pj_stricmp a a = 0"
  by (simp add: stricmp_eq_0 strnicmp_eq_refl)

lemma stricmp_sym: "pj_stricmp a b = 0 \<Longrightarrow> pj_stricmp b a = 0"
proof -
  have "strnicmp_eq n as bs \<Longrightarrow> strnicmp_eq n bs as" for n and as bs :: bytes
  proof (induction n as bs rule: strnicmp_eq.induct)
    case (2 n a as b bs)
    then show ?case using lower_zero [of a] lower_zero [of b] by auto
  qed auto
  then show "pj_stricmp a b = 0 \<Longrightarrow> pj_stricmp b a = 0" by (auto simp: stricmp_eq_0)
qed

lemma stricmp_trans: "pj_stricmp a b = 0 \<Longrightarrow> pj_stricmp b c = 0 \<Longrightarrow> pj_stricmp a c = 0"
proof -
  have "strnicmp_eq n as bs \<Longrightarrow> strnicmp_eq n bs cs \<Longrightarrow> strnicmp_eq n as cs" for n and as bs cs :: bytes
  proof (induction n as bs arbitrary: cs rule: strnicmp_eq.induct)
    case (2 n a as b bs)
    then show ?case by (cases cs) (auto, metis lower_zero)
  qed auto
  then show "pj_stricmp a b = 0 \<Longrightarrow> pj_stricmp b c = 0 \<Longrightarrow> pj_stricmp a c = 0" by (auto simp: stricmp_eq_0)
qed

section \<open>Decimal numbers\<close>

text \<open>The digit loop of \<^verbatim>\<open>pj_utoa_pad\<close> yields the least significant digit first.\<close>

fun utoa_digits :: "nat \<Rightarrow> bytes" where
  "utoa_digits val =
     (let digval = of_nat (val mod 10) + 48
      in if val div 10 > 0 then digval # utoa_digits (val div 10) else [digval])"

declare utoa_digits.simps [simp del]

definition pj_utoa_pad :: "nat \<Rightarrow> nat \<Rightarrow> pj_uint8_t \<Rightarrow> bytes" where
  "pj_utoa_pad val min_dig pad =
     (let digits = utoa_digits val
      in rev (digits @ replicate (min_dig - length digits) pad))"

definition pj_utoa :: "nat \<Rightarrow> bytes" where
  "pj_utoa val = pj_utoa_pad val 0 0"

lemma utoa_digits_nonempty: "utoa_digits n \<noteq> []"
  by (subst utoa_digits.simps) (simp add: Let_def)

lemma length_utoa_digits: "n < 10 ^ k \<Longrightarrow> 0 < k \<Longrightarrow> length (utoa_digits n) \<le> k"
proof (induction k arbitrary: n)
  case (Suc k)
  show ?case
  proof (cases "n div 10 > 0")
    case True
    then have "0 < k" using Suc.prems by (cases k) auto
    moreover have "n div 10 < 10 ^ k" using Suc.prems(1) by (simp add: div_less_iff_less_mult mult.commute)
    ultimately show ?thesis using Suc.IH [of "n div 10"] True by (subst utoa_digits.simps) simp
  qed (subst utoa_digits.simps, simp)
qed simp

lemma utoa_digits_range: "c \<in> set (utoa_digits n) \<Longrightarrow> 48 \<le> unat c \<and> unat c \<le> 57"
proof (induction n rule: utoa_digits.induct)
  case (1 n)
  have d: "unat (of_nat (n mod 10) + 48 :: pj_uint8_t) = n mod 10 + 48"
    by (simp add: unat_word_ariths unsigned_of_nat take_bit_nat_eq_self)
  have "n mod 10 < 10" by simp
  with d have "48 \<le> unat (of_nat (n mod 10) + 48 :: pj_uint8_t) \<and> unat (of_nat (n mod 10) + 48 :: pj_uint8_t) \<le> 57"
    by linarith
  with 1 show ?case by (subst (asm) (2) utoa_digits.simps) (auto simp: Let_def split: if_splits)
qed

lemma length_pj_utoa: "n < 10 ^ k \<Longrightarrow> 0 < k \<Longrightarrow> length (pj_utoa n) \<le> k"
  by (simp add: pj_utoa_def pj_utoa_pad_def length_utoa_digits)

lemma pj_utoa_hd: "\<exists>c cs. pj_utoa n = c # cs \<and> 48 \<le> unat c \<and> unat c \<le> 57"
proof -
  obtain c cs where c: "pj_utoa n = c # cs"
    using utoa_digits_nonempty [of n] by (cases "pj_utoa n") (auto simp: pj_utoa_def pj_utoa_pad_def)
  then have "c \<in> set (utoa_digits n)"
    by (metis list.set_intros(1) pj_utoa_def pj_utoa_pad_def add_0 append_Nil2 diff_0_eq_0 replicate_0 set_rev)
  with c utoa_digits_range show ?thesis by blast
qed

definition pj_isdigit :: "pj_uint8_t \<Rightarrow> bool" where
  "pj_isdigit c \<longleftrightarrow> 48 \<le> c \<and> c \<le> 57"

fun strtoul_loop :: "nat \<Rightarrow> bytes \<Rightarrow> nat" where
  "strtoul_loop value [] = value"
| "strtoul_loop value (c # cs) =
     (if \<not> pj_isdigit c then value else strtoul_loop ((value * 10 + (unat c - 48)) mod 2 ^ 64) cs)"

definition pj_strtoul :: "bytes \<Rightarrow> nat" where
  "pj_strtoul s = strtoul_loop 0 s"

text \<open>\<^verbatim>\<open>pj_strtoul2\<close> in base 10 (its only use in the modelled code), where a digit is tested by subtraction.\<close>

fun strtoul2_loop :: "nat \<Rightarrow> bytes \<Rightarrow> nat" where
  "strtoul2_loop value [] = value"
| "strtoul2_loop value (c # cs) =
     (let d = (int (unat c) - 48) mod 2 ^ 32
      in if d \<ge> 10 then value else strtoul2_loop ((value * 10 + nat d) mod 2 ^ 64) cs)"

definition pj_strtoul2_base10 :: "bytes \<Rightarrow> nat" where
  "pj_strtoul2_base10 s = strtoul2_loop 0 s"

lemma strtoul2_eq: "pj_strtoul2_base10 s = pj_strtoul s"
proof -
  have digit: "pj_isdigit c \<longleftrightarrow> (int (unat c) - 48) mod 2 ^ 32 < 10" "pj_isdigit c \<Longrightarrow> (int (unat c) - 48) mod 2 ^ 32 = int (unat c - 48)" for c
  proof -
    have "list_all (\<lambda>n. (pj_isdigit (of_nat n) \<longleftrightarrow> (int (unat (of_nat n :: pj_uint8_t)) - 48) mod 2 ^ 32 < 10) \<and>
      (pj_isdigit (of_nat n) \<longrightarrow> (int (unat (of_nat n :: pj_uint8_t)) - 48) mod 2 ^ 32 = int (unat (of_nat n :: pj_uint8_t) - 48))) [0..<256]"
      by code_simp
    then have "\<forall>c. (pj_isdigit c \<longleftrightarrow> (int (unat c) - 48) mod 2 ^ 32 < 10) \<and>
      (pj_isdigit c \<longrightarrow> (int (unat c) - 48) mod 2 ^ 32 = int (unat c - 48))" by (simp only: all_bytes)
    then show "pj_isdigit c \<longleftrightarrow> (int (unat c) - 48) mod 2 ^ 32 < 10" "pj_isdigit c \<Longrightarrow> (int (unat c) - 48) mod 2 ^ 32 = int (unat c - 48)"
      by blast+
  qed
  have "strtoul2_loop v s = strtoul_loop v s" for v
  proof (induction s arbitrary: v)
    case (Cons c s)
    show ?case
    proof (cases "pj_isdigit c")
      case True
      then show ?thesis using Cons.IH digit [of c] by (simp add: Let_def)
    next
      case False
      then show ?thesis using digit(1) [of c] by (simp add: Let_def)
    qed
  qed simp
  then show ?thesis by (simp add: pj_strtoul_def pj_strtoul2_base10_def)
qed

lemma pj_utoa_digits: "pj_utoa n = rev (utoa_digits n)"
  by (simp add: pj_utoa_def pj_utoa_pad_def)

lemma utoa_isdigit: "c \<in> set (pj_utoa n) \<Longrightarrow> pj_isdigit c"
  using utoa_digits_range [of c n] by (simp add: pj_utoa_digits pj_isdigit_def word_le_nat_alt)

lemma strtoul_loop_utoa:
  "v * 10 ^ length (utoa_digits n) + n < 2 ^ 64 \<Longrightarrow>
   strtoul_loop v (rev (utoa_digits n) @ rest) = strtoul_loop (v * 10 ^ length (utoa_digits n) + n) rest"
proof (induction n arbitrary: rest rule: utoa_digits.induct)
  case (1 n)
  have d: "unat (of_nat (n mod 10) + 48 :: pj_uint8_t) = n mod 10 + 48"
    by (simp add: unat_word_ariths unsigned_of_nat take_bit_nat_eq_self)
  then have isd: "pj_isdigit (of_nat (n mod 10) + 48)" by (simp add: pj_isdigit_def word_le_nat_alt)
  show ?case
  proof (cases "n div 10 > 0")
    case True
    have digits: "utoa_digits n = (of_nat (n mod 10) + 48) # utoa_digits (n div 10)" using True by (subst utoa_digits.simps) simp
    let ?w = "v * 10 ^ length (utoa_digits (n div 10)) + n div 10"
    have w: "?w * 10 + n mod 10 = v * 10 ^ length (utoa_digits n) + n" by (simp add: digits algebra_simps)
    have "?w \<le> ?w * 10 + n mod 10" by simp
    then have "?w < 2 ^ 64" unfolding w using 1(2) by (rule le_less_trans)
    then show ?thesis using 1(1) [OF refl True, of "(of_nat (n mod 10) + 48) # rest"] 1(2) isd d w
      by (simp add: digits algebra_simps)
  next
    case False
    have digits: "utoa_digits n = [of_nat (n mod 10) + 48]" using False by (subst utoa_digits.simps) simp
    then show ?thesis using 1(2) isd d False by (simp add: digits algebra_simps)
  qed
qed

text \<open>Reading back a printed number, with anything but a digit behind it.\<close>

lemma strtoul_utoa:
  assumes "n < 2 ^ 64" "rest \<noteq> [] \<Longrightarrow> \<not> pj_isdigit (hd rest)"
  shows "pj_strtoul (pj_utoa n @ rest) = n"
proof -
  have "strtoul_loop n rest = n" using assms(2) by (cases rest) auto
  then show ?thesis using strtoul_loop_utoa [of 0 n rest] assms(1) by (simp add: pj_strtoul_def pj_utoa_digits)
qed

end
