(* ===== verification/PJ_Hash.thy ===== *)
theory PJ_Hash
  imports PJ_String
begin

text \<open>
  The hash table of \<^verbatim>\<open>pjlib/src/pj/hash.c\<close>. A key is the sequence of bytes that the code reads
  through the key pointer (\<open>mem\<close>): up to the NUL for \<^verbatim>\<open>PJ_HASH_KEY_STRING\<close>, \<open>keylen\<close> bytes
  otherwise. A bucket's linked list is the list of its entries, and an entry pointer-to-pointer
  is a bucket number with a position in the list. Values are addresses and 0 is \<^verbatim>\<open>NULL\<close>; whether a
  pool or an entry buffer was given are Booleans. Entries whose key is not copied (no pool) are
  taken to keep their key bytes. \<^verbatim>\<open>tolower\<close> and \<^verbatim>\<open>strncasecmp\<close> are those of the C locale.

  The lemmas show that the table refines a finite map from keys (from lower-cased keys for the
  \<^verbatim>\<open>_lower\<close> functions) to values, that the entry count is the size of that map, and that the
  iterator visits every entry exactly once.
\<close>

section \<open>Hash values\<close>

definition PJ_HASH_MULTIPLIER :: pj_uint32_t where
  "PJ_HASH_MULTIPLIER = 33"

definition PJ_HASH_KEY_STRING :: pj_uint32_t where
  "PJ_HASH_KEY_STRING = -1"

definition key_bytes :: "pj_uint32_t \<Rightarrow> bytes \<Rightarrow> bytes" where
  "key_bytes keylen mem =
     (if keylen = PJ_HASH_KEY_STRING then takeWhile (\<lambda>b. b \<noteq> 0) mem else take (unat keylen) mem)"

definition pj_hash_calc :: "pj_uint32_t \<Rightarrow> bytes \<Rightarrow> pj_uint32_t \<Rightarrow> pj_uint32_t" where
  "pj_hash_calc hash mem keylen =
     foldl (\<lambda>h b. h * PJ_HASH_MULTIPLIER + ucast b) hash (key_bytes keylen mem)"

text \<open>
  \<^verbatim>\<open>pj_hash_calc_tolower\<close>: \<open>own\<close> is the build option \<^verbatim>\<open>PJ_HASH_USE_OWN_TOLOWER\<close>. The lowered
  character is a (signed) \<^verbatim>\<open>char\<close> when it is added to the hash. The second result is the string
  written to \<^verbatim>\<open>result\<close>.
\<close>

definition calc_lower_char :: "bool \<Rightarrow> pj_uint8_t \<Rightarrow> pj_uint8_t" where
  "calc_lower_char own c = (if own then if c AND 64 \<noteq> 0 then c OR 32 else c else pj_tolower c)"

definition pj_hash_calc_tolower :: "bool \<Rightarrow> pj_uint32_t \<Rightarrow> bytes \<Rightarrow> pj_uint32_t \<times> bytes" where
  "pj_hash_calc_tolower own hval key =
     (foldl (\<lambda>h c. h * PJ_HASH_MULTIPLIER + scast (calc_lower_char own c)) hval key,
      map (calc_lower_char own) key)"

section \<open>The table\<close>

record pj_hash_entry =
  key :: bytes
  hash :: pj_uint32_t
  keylen :: pj_uint32_t
  "value" :: ptr

record pj_hash_table_t =
  table :: "pj_hash_entry list list"
  hcount :: nat
  rows :: pj_uint32_t

text \<open>
  The sizing loop of \<^verbatim>\<open>pj_hash_create\<close> shifts a 32-bit value and does not end for sizes above
  \<^verbatim>\<open>2^31\<close>; \<open>None\<close> stands for that.
\<close>

partial_function (option) create_loop :: "pj_uint32_t \<Rightarrow> pj_uint32_t \<Rightarrow> pj_uint32_t option" where
  "create_loop table_size size' =
     (let ts = push_bit 1 table_size in if ts < size' then create_loop ts size' else Some ts)"

definition pj_hash_create :: "pj_uint32_t \<Rightarrow> pj_hash_table_t option" where
  "pj_hash_create size' =
     map_option (\<lambda>table_size. let table_size = table_size - 1
        in \<lparr>table = replicate (unat table_size + 1) [], hcount = 0, rows = table_size\<rparr>)
       (create_loop 8 size')"

definition entry_matches :: "bool \<Rightarrow> pj_uint32_t \<Rightarrow> bytes \<Rightarrow> pj_hash_entry \<Rightarrow> bool" where
  "entry_matches lower h k e \<longleftrightarrow>
     hash e = h \<and> keylen e = of_nat (length k) \<and>
     ((lower \<and> strnicmp_eq (length k) (key e) k) \<or> (\<not> lower \<and> take (length k) (key e) = k))"

definition find_hash :: "bool \<Rightarrow> pj_uint32_t option \<Rightarrow> bytes \<Rightarrow> pj_uint32_t" where
  "find_hash lower hval k =
     (case hval of
        Some hv \<Rightarrow> if hv \<noteq> 0 then hv
          else foldl (\<lambda>h b. h * PJ_HASH_MULTIPLIER + ucast (if lower then pj_tolower b else b)) 0 k
      | None \<Rightarrow> foldl (\<lambda>h b. h * PJ_HASH_MULTIPLIER + ucast (if lower then pj_tolower b else b)) 0 k)"

text \<open>
  \<^verbatim>\<open>find_entry\<close> gives the hash it used (reported back through \<^verbatim>\<open>hval\<close>), the bucket and the
  position of \<^verbatim>\<open>p_entry\<close>, and the table. Position equal to the length of the bucket means that
  \<^verbatim>\<open>*p_entry\<close> is \<^verbatim>\<open>NULL\<close>. \<open>None\<close> is the \<^verbatim>\<open>NULL\<close> result when an entry is needed and neither a pool
  nor an entry buffer is given.
\<close>

fun find_pos :: "(pj_hash_entry \<Rightarrow> bool) \<Rightarrow> pj_hash_entry list \<Rightarrow> nat" where
  "find_pos P [] = 0"
| "find_pos P (e # es) = (if P e then 0 else Suc (find_pos P es))"

definition find_entry ::
  "bool \<Rightarrow> pj_hash_table_t \<Rightarrow> bytes \<Rightarrow> pj_uint32_t \<Rightarrow> ptr \<Rightarrow> pj_uint32_t option \<Rightarrow> bool \<Rightarrow> bool \<Rightarrow>
   (pj_uint32_t \<times> nat \<times> nat \<times> pj_hash_table_t) option" where
  "find_entry pool t mem klen val hval entry_buf lower =
     (let k = key_bytes klen mem;
          h = find_hash lower hval k;
          b = unat (h AND rows t);
          j = find_pos (entry_matches lower h k) (table t ! b)
      in if j < length (table t ! b) \<or> val = 0 then Some (h, b, j, t)
         else if \<not> entry_buf \<and> \<not> pool then None
         else let e = \<lparr>key = k, hash = h, keylen = of_nat (length k), value = val\<rparr>
              in Some (h, b, j,
                   t\<lparr>table := (table t)[b := table t ! b @ [e]], hcount := hcount t + 1\<rparr>))"

definition pj_hash_get_gen ::
  "bool \<Rightarrow> pj_hash_table_t \<Rightarrow> bytes \<Rightarrow> pj_uint32_t \<Rightarrow> pj_uint32_t option \<Rightarrow> ptr" where
  "pj_hash_get_gen lower t mem klen hval =
     (case find_entry False t mem klen 0 hval False lower of
        Some (h, b, j, t) \<Rightarrow> if j < length (table t ! b) then value (table t ! b ! j) else 0
      | None \<Rightarrow> 0)"

definition pj_hash_get :: "pj_hash_table_t \<Rightarrow> bytes \<Rightarrow> pj_uint32_t \<Rightarrow> pj_uint32_t option \<Rightarrow> ptr" where
  "pj_hash_get t mem klen hval = pj_hash_get_gen False t mem klen hval"

definition pj_hash_get_lower :: "pj_hash_table_t \<Rightarrow> bytes \<Rightarrow> pj_uint32_t \<Rightarrow> pj_uint32_t option \<Rightarrow> ptr" where
  "pj_hash_get_lower t mem klen hval = pj_hash_get_gen True t mem klen hval"

text \<open>In \<^verbatim>\<open>hash_set\<close>, \<open>None\<close> is the read through the \<^verbatim>\<open>NULL\<close> that \<^verbatim>\<open>find_entry\<close> returned.\<close>

definition remove_nth :: "nat \<Rightarrow> 'a list \<Rightarrow> 'a list" where
  "remove_nth j xs = take j xs @ drop (Suc j) xs"

definition hash_set ::
  "bool \<Rightarrow> pj_hash_table_t \<Rightarrow> bytes \<Rightarrow> pj_uint32_t \<Rightarrow> pj_uint32_t \<Rightarrow> ptr \<Rightarrow> bool \<Rightarrow> bool \<Rightarrow>
   pj_hash_table_t option" where
  "hash_set pool t mem klen hval val entry_buf lower =
     (case find_entry pool t mem klen val (Some hval) entry_buf lower of
        None \<Rightarrow> None
      | Some (h, b, j, t) \<Rightarrow>
          if j < length (table t ! b) then
            if val = 0 then
              Some (t\<lparr>table := (table t)[b := remove_nth j (table t ! b)], hcount := hcount t - 1\<rparr>)
            else
              Some (t\<lparr>table := (table t)[b := (table t ! b)[j := (table t ! b ! j)\<lparr>value := val\<rparr>]]\<rparr>)
          else Some t)"

definition pj_hash_set ::
  "bool \<Rightarrow> pj_hash_table_t \<Rightarrow> bytes \<Rightarrow> pj_uint32_t \<Rightarrow> pj_uint32_t \<Rightarrow> ptr \<Rightarrow> pj_hash_table_t option" where
  "pj_hash_set pool t mem klen hval val = hash_set pool t mem klen hval val False False"

definition pj_hash_set_lower ::
  "bool \<Rightarrow> pj_hash_table_t \<Rightarrow> bytes \<Rightarrow> pj_uint32_t \<Rightarrow> pj_uint32_t \<Rightarrow> ptr \<Rightarrow> pj_hash_table_t option" where
  "pj_hash_set_lower pool t mem klen hval val = hash_set pool t mem klen hval val False True"

definition pj_hash_set_np ::
  "pj_hash_table_t \<Rightarrow> bytes \<Rightarrow> pj_uint32_t \<Rightarrow> pj_uint32_t \<Rightarrow> ptr \<Rightarrow> pj_hash_table_t option" where
  "pj_hash_set_np t mem klen hval val = hash_set False t mem klen hval val True False"

definition pj_hash_set_np_lower ::
  "pj_hash_table_t \<Rightarrow> bytes \<Rightarrow> pj_uint32_t \<Rightarrow> pj_uint32_t \<Rightarrow> ptr \<Rightarrow> pj_hash_table_t option" where
  "pj_hash_set_np_lower t mem klen hval val = hash_set False t mem klen hval val True True"

definition pj_hash_count :: "pj_hash_table_t \<Rightarrow> nat" where
  "pj_hash_count t = hcount t"

section \<open>Iteration\<close>

text \<open>
  An iterator is a bucket number and the position of its entry in that bucket; \<open>None\<close> is the
  \<^verbatim>\<open>NULL\<close> that ends an iteration.
\<close>

type_synonym pj_hash_iterator_t = "nat \<times> nat"

function scan_buckets :: "pj_hash_table_t \<Rightarrow> nat \<Rightarrow> pj_hash_iterator_t option" where
  "scan_buckets t index =
     (if index \<le> unat (rows t) then
        if table t ! index \<noteq> [] then Some (index, 0) else scan_buckets t (Suc index)
      else None)"
  by pat_completeness auto
termination
  by (relation "measure (\<lambda>(t, i). Suc (unat (rows t)) - i)") auto

declare scan_buckets.simps [simp del]

definition pj_hash_first :: "pj_hash_table_t \<Rightarrow> pj_hash_iterator_t option" where
  "pj_hash_first t = scan_buckets t 0"

definition pj_hash_next :: "pj_hash_table_t \<Rightarrow> pj_hash_iterator_t \<Rightarrow> pj_hash_iterator_t option" where
  "pj_hash_next t it =
     (let (index, pos) = it
      in if Suc pos < length (table t ! index) then Some (index, Suc pos)
         else scan_buckets t (Suc index))"

definition pj_hash_this :: "pj_hash_table_t \<Rightarrow> pj_hash_iterator_t \<Rightarrow> ptr" where
  "pj_hash_this t it = (let (index, pos) = it in value (table t ! index ! pos))"

section \<open>Keys up to case\<close>

definition norm :: "bool \<Rightarrow> bytes \<Rightarrow> bytes" where
  "norm lower k = (if lower then map pj_tolower k else k)"

definition key_hash :: "bool \<Rightarrow> bytes \<Rightarrow> pj_uint32_t" where
  "key_hash lower k = foldl (\<lambda>h b. h * PJ_HASH_MULTIPLIER + ucast b) 0 (norm lower k)"

text \<open>
  Keys that a caller may use: shorter than \<^verbatim>\<open>2^32\<close>, and for the case-insensitive functions free
  of NUL bytes, at which \<^verbatim>\<open>strncasecmp\<close> would stop, except for the last byte.
\<close>

definition key_ok :: "bool \<Rightarrow> bytes \<Rightarrow> bool" where
  "key_ok lower k \<longleftrightarrow> length k < 2 ^ 32 \<and> (lower \<longrightarrow> 0 \<notin> set (butlast k))"

text \<open>The precomputed hash passed by a caller is absent, zero, or the right one.\<close>

definition hval_ok :: "bool \<Rightarrow> pj_uint32_t option \<Rightarrow> bytes \<Rightarrow> bool" where
  "hval_ok lower hval k \<longleftrightarrow> (hval = None \<or> hval = Some 0 \<or> hval = Some (key_hash lower k))"

lemma length_norm [simp]: "length (norm lower k) = length k"
  by (simp add: norm_def)

lemma find_hash_key: "hval_ok lower hval k \<Longrightarrow> find_hash lower hval k = key_hash lower k"
  by (cases lower) (auto simp: find_hash_def hval_ok_def key_hash_def norm_def foldl_map)

lemma pj_hash_calc_key: "pj_hash_calc 0 mem klen = key_hash False (key_bytes klen mem)"
  by (simp add: pj_hash_calc_def key_hash_def norm_def)

section \<open>Buckets\<close>

definition entry_ok :: "bool \<Rightarrow> pj_hash_entry \<Rightarrow> bool" where
  "entry_ok lower e \<longleftrightarrow>
     key_ok lower (key e) \<and> keylen e = of_nat (length (key e)) \<and> hash e = key_hash lower (key e) \<and> value e \<noteq> 0"

lemma word32_of_nat_eq: "a < 2 ^ 32 \<Longrightarrow> b < 2 ^ 32 \<Longrightarrow> (of_nat a :: pj_uint32_t) = of_nat b \<longleftrightarrow> a = b"
  by (simp add: word_of_nat_eq_iff take_bit_nat_eq_self)

lemma entry_matches_iff:
  assumes "entry_ok lower e" "key_ok lower k"
  shows "entry_matches lower (key_hash lower k) k e \<longleftrightarrow> norm lower (key e) = norm lower k"
proof -
  have len: "keylen e = of_nat (length k) \<longleftrightarrow> length (key e) = length k"
    using assms by (auto simp: entry_ok_def key_ok_def intro: word32_of_nat_eq [THEN iffD1])
  have "length (key e) = length k" if "norm lower (key e) = norm lower k"
    using arg_cong [OF that, of length] by simp
  moreover have "hash e = key_hash lower k" if "norm lower (key e) = norm lower k"
    using assms(1) that by (simp add: entry_ok_def key_hash_def)
  ultimately show ?thesis
    using assms len unfolding entry_matches_def
    by (auto simp: norm_def strnicmp_eq_iff entry_ok_def key_ok_def)
qed

definition kv :: "bool \<Rightarrow> pj_hash_entry list \<Rightarrow> (bytes \<times> ptr) list" where
  "kv lower es = map (\<lambda>e. (norm lower (key e), value e)) es"

lemma find_pos_cong: "(\<And>e. e \<in> set es \<Longrightarrow> P e = Q e) \<Longrightarrow> find_pos P es = find_pos Q es"
  by (induction es) auto

lemma find_pos_le: "find_pos P es \<le> length es"
  by (induction es) auto

lemma find_pos_lookup:
  "map_of (kv lower es) nk =
     (let j = find_pos (\<lambda>e. norm lower (key e) = nk) es
      in if j < length es then Some (value (es ! j)) else None)"
  by (induction es) (auto simp: kv_def Let_def)

lemma find_pos_update:
  "find_pos (\<lambda>e. norm lower (key e) = nk) es = j \<Longrightarrow> j < length es \<Longrightarrow>
   map_of (kv lower (es[j := (es ! j)\<lparr>value := v\<rparr>])) = (map_of (kv lower es))(nk \<mapsto> v)"
  by (induction es arbitrary: j) (auto simp: kv_def fun_eq_iff split: if_splits)

lemma find_pos_remove:
  "find_pos (\<lambda>e. norm lower (key e) = nk) es = j \<Longrightarrow> j < length es \<Longrightarrow> distinct (map fst (kv lower es)) \<Longrightarrow>
   map_of (kv lower (remove_nth j es)) = (map_of (kv lower es))(nk := None)"
proof (induction es arbitrary: j)
  case (Cons e es)
  show ?case
  proof (cases "norm lower (key e) = nk")
    case True
    moreover have "map_of (kv lower es) nk = None"
      using Cons.prems(3) True by (auto simp: map_of_eq_None_iff kv_def)
    ultimately show ?thesis using Cons.prems by (auto simp: remove_nth_def kv_def fun_eq_iff)
  next
    case False
    then obtain i where "j = Suc i" "find_pos (\<lambda>e. norm lower (key e) = nk) es = i"
      using Cons.prems(1) by auto
    with Cons False show ?thesis by (auto simp: remove_nth_def kv_def fun_eq_iff)
  qed
qed simp

lemma kv_append: "map_of (kv lower (es @ [e])) nk =
    (case map_of (kv lower es) nk of None \<Rightarrow> if norm lower (key e) = nk then Some (value e) else None | Some v \<Rightarrow> Some v)"
  by (auto simp: kv_def map_add_def split: option.splits)

lemma remove_nth_subset: "set (remove_nth j es) \<subseteq> set es"
  by (auto simp: remove_nth_def dest: in_set_takeD in_set_dropD)

lemma distinct_remove_nth: "distinct (map f es) \<Longrightarrow> distinct (map f (remove_nth j es))"
proof (induction es arbitrary: j)
  case (Cons e es)
  show ?case
  proof (cases j)
    case (Suc i)
    with Cons remove_nth_subset [of i es] show ?thesis by (auto simp: remove_nth_def)
  qed (use Cons in \<open>simp add: remove_nth_def\<close>)
qed (simp add: remove_nth_def)

section \<open>The table as a map\<close>

definition bucket :: "bool \<Rightarrow> pj_hash_table_t \<Rightarrow> bytes \<Rightarrow> nat" where
  "bucket lower t k = unat (key_hash lower k AND rows t)"

definition bucket_ok :: "bool \<Rightarrow> pj_hash_table_t \<Rightarrow> nat \<Rightarrow> pj_hash_entry list \<Rightarrow> bool" where
  "bucket_ok lower t b es \<longleftrightarrow>
     (\<forall>e \<in> set es. entry_ok lower e \<and> bucket lower t (key e) = b) \<and> distinct (map fst (kv lower es))"

definition hash_inv :: "bool \<Rightarrow> pj_hash_table_t \<Rightarrow> bool" where
  "hash_inv lower t \<longleftrightarrow>
     length (table t) = unat (rows t) + 1 \<and>
     (\<forall>b < length (table t). bucket_ok lower t b (table t ! b)) \<and>
     hcount t = sum_list (map length (table t))"

definition hash_map :: "bool \<Rightarrow> pj_hash_table_t \<Rightarrow> bytes \<Rightarrow> ptr option" where
  "hash_map lower t k = map_of (kv lower (table t ! bucket lower t k)) (norm lower k)"

lemma bucket_less: "hash_inv lower t \<Longrightarrow> bucket lower t k < length (table t)"
proof -
  assume "hash_inv lower t"
  then have "length (table t) = unat (rows t) + 1" by (simp add: hash_inv_def)
  moreover have "unat (key_hash lower k AND rows t) \<le> unat (rows t)"
    using word_and_le1 [of "key_hash lower k" "rows t"] by (simp add: word_le_nat_alt)
  ultimately show ?thesis by (simp add: bucket_def)
qed

lemma bucket_norm: "norm lower k = norm lower k' \<Longrightarrow> bucket lower t k = bucket lower t k'"
  by (simp add: bucket_def key_hash_def)

lemma find_pos_bucket:
  assumes "hash_inv lower t" "key_ok lower k"
  shows "find_pos (entry_matches lower (key_hash lower k) k) (table t ! bucket lower t k) =
    find_pos (\<lambda>e. norm lower (key e) = norm lower k) (table t ! bucket lower t k)"
proof (rule find_pos_cong)
  fix e assume "e \<in> set (table t ! bucket lower t k)"
  with assms(1) bucket_less [OF assms(1), of k] have "entry_ok lower e"
    unfolding hash_inv_def bucket_ok_def by blast
  then show "entry_matches lower (key_hash lower k) k e = (norm lower (key e) = norm lower k)"
    using assms(2) by (rule entry_matches_iff)
qed

lemma get_correct:
  assumes "hash_inv lower t" "key_ok lower (key_bytes klen mem)" "hval_ok lower hval (key_bytes klen mem)"
  shows "pj_hash_get_gen lower t mem klen hval =
    (case hash_map lower t (key_bytes klen mem) of Some v \<Rightarrow> v | None \<Rightarrow> 0)"
  using find_pos_bucket [OF assms(1,2)] find_hash_key [OF assms(3)]
  by (auto simp: pj_hash_get_gen_def find_entry_def Let_def hash_map_def find_pos_lookup
      bucket_def [symmetric])

text \<open>Replacing the bucket of one key.\<close>

lemma bucket_update:
  assumes inv: "hash_inv lower t" and b: "b = bucket lower t k"
    and ok: "bucket_ok lower t b es"
    and cnt: "n + length (table t ! b) = hcount t + length es"
    and upd: "map_of (kv lower es) = (map_of (kv lower (table t ! b)))(norm lower k := v)"
  defines "t' \<equiv> t\<lparr>table := (table t)[b := es], hcount := n\<rparr>"
  shows "hash_inv lower t'" "hash_map lower t' k' = (if norm lower k' = norm lower k then v else hash_map lower t k')"
proof -
  have bl: "b < length (table t)" using bucket_less [OF inv] b by simp
  have bk: "bucket lower t' = bucket lower t" by (simp add: t'_def bucket_def fun_eq_iff)
  then have bo: "bucket_ok lower t' = bucket_ok lower t" by (simp add: bucket_ok_def fun_eq_iff)
  have "length (table t ! b) \<le> sum_list (map length (table t))"
    using bl by (intro member_le_sum_list) simp_all
  then have "sum_list (map length ((table t)[b := es])) = sum_list (map length (table t)) + length es - length (table t ! b)"
    using bl sum_list_update [of b "map length (table t)" "length es"] by (simp add: map_update)
  with inv cnt have "n = sum_list (map length ((table t)[b := es]))" by (simp add: hash_inv_def)
  then show "hash_inv lower t'" using inv ok bl bo
    by (auto simp: hash_inv_def t'_def nth_list_update)
  show "hash_map lower t' k' = (if norm lower k' = norm lower k then v else hash_map lower t k')"
  proof (cases "bucket lower t k' = b")
    case True
    then show ?thesis using bl upd by (simp add: hash_map_def bk) (simp add: t'_def)
  next
    case False
    then have "norm lower k' \<noteq> norm lower k" using b bucket_norm [of lower k' k t] by auto
    with False show ?thesis by (simp add: hash_map_def bk) (simp add: t'_def)
  qed
qed

lemma set_correct:
  assumes inv: "hash_inv lower t" and ok: "key_ok lower (key_bytes klen mem)"
    and hv: "hval_ok lower (Some hval) (key_bytes klen mem)" and st: "val = 0 \<or> pool \<or> entry_buf"
  obtains t' where "hash_set pool t mem klen hval val entry_buf lower = Some t'" "hash_inv lower t'"
    "\<And>k. hash_map lower t' k =
      (if norm lower k = norm lower (key_bytes klen mem) then if val = 0 then None else Some val
       else hash_map lower t k)"
proof -
  let ?k = "key_bytes klen mem"
  let ?b = "bucket lower t ?k"
  let ?es = "table t ! ?b"
  let ?j = "find_pos (\<lambda>e. norm lower (key e) = norm lower ?k) ?es"
  have bl: "?b < length (table t)" by (rule bucket_less [OF inv])
  then have es: "bucket_ok lower t ?b ?es" and cnt: "hcount t = sum_list (map length (table t))"
    using inv by (auto simp: hash_inv_def)
  have sz: "length ?es \<le> hcount t"
    unfolding cnt using bl by (intro member_le_sum_list) simp_all
  note find = find_hash_key [OF hv] find_pos_bucket [OF inv ok]
  note run = hash_set_def find_entry_def Let_def find bucket_def [symmetric]
  show ?thesis
  proof (cases "?j < length ?es")
    case True
    note lk = find_pos_lookup [of lower ?es "norm lower ?k", unfolded Let_def]
    show ?thesis
    proof (cases "val = 0")
      case v0: True
      have ok': "bucket_ok lower t ?b (remove_nth ?j ?es)"
        using es remove_nth_subset [of ?j ?es] distinct_remove_nth [of "\<lambda>e. norm lower (key e)" ?es ?j]
        by (auto simp: bucket_ok_def kv_def o_def)
      have "length (remove_nth ?j ?es) = length ?es - 1" using True by (auto simp: remove_nth_def)
      then have "hcount t - 1 + length ?es = hcount t + length (remove_nth ?j ?es)" using sz True by linarith
      from bucket_update [OF inv refl ok' this, of None] find_pos_remove [OF refl True] es
        that [of "t\<lparr>table := (table t)[?b := remove_nth ?j ?es], hcount := hcount t - 1\<rparr>"] True v0
      show ?thesis by (auto simp: run bucket_ok_def)
    next
      case v1: False
      let ?es' = "?es[?j := (?es ! ?j)\<lparr>value := val\<rparr>]"
      have keys: "map fst (kv lower ?es') = map fst (kv lower ?es)"
        using True by (auto simp: kv_def list_eq_iff_nth_eq nth_list_update)
      have ok': "bucket_ok lower t ?b ?es'"
        using es True v1 nth_mem [OF True] unfolding bucket_ok_def keys
        by (auto simp: entry_ok_def dest!: subsetD [OF set_update_subset_insert])
      have "hcount t + length ?es = hcount t + length ?es'" by simp
      from bucket_update [OF inv refl ok' this, of "Some val"] find_pos_update [OF refl True, of val]
        that [of "t\<lparr>table := (table t)[?b := ?es'], hcount := hcount t\<rparr>"] True v1
      show ?thesis by (auto simp: run)
    qed
  next
    case False
    then have none: "map_of (kv lower ?es) (norm lower ?k) = None" by (simp add: find_pos_lookup Let_def)
    show ?thesis
    proof (cases "val = 0")
      case v0: True
      have "hash_map lower t k = None" if "norm lower k = norm lower ?k" for k
        using none that bucket_norm [OF that, of t] by (simp add: hash_map_def)
      with False v0 inv that [of t] show ?thesis by (simp add: run)
    next
      case v1: False
      define e where "e = \<lparr>key = ?k, hash = key_hash lower ?k, keylen = of_nat (length ?k), value = val\<rparr>"
      have jl: "?j = length ?es" using False find_pos_le [of _ ?es] by (metis le_neq_implies_less)
      have eo: "entry_ok lower e" "key e = ?k" using ok v1 by (simp_all add: entry_ok_def e_def)
      have "norm lower ?k \<notin> set (map fst (kv lower ?es))" using none by (simp add: map_of_eq_None_iff)
      then have ok': "bucket_ok lower t ?b (?es @ [e])"
        using es eo by (auto simp: bucket_ok_def kv_def)
      have upd: "map_of (kv lower (?es @ [e])) = (map_of (kv lower ?es))(norm lower ?k := Some val)"
        using none eo(2) by (auto simp: fun_eq_iff kv_append e_def split: option.splits)
      have "hcount t + 1 + length ?es = hcount t + length (?es @ [e])" by simp
      note bu = bucket_update [OF inv refl ok' this upd]
      have "e\<lparr>value := val\<rparr> = e" by (simp add: e_def)
      then have "hash_set pool t mem klen hval val entry_buf lower =
          Some (t\<lparr>table := (table t)[?b := ?es @ [e]], hcount := hcount t + 1\<rparr>)"
        using False v1 st bl jl by (auto simp: run simp flip: e_def)
      from that [OF this bu(1)] bu(2) v1 show ?thesis by auto
    qed
  qed
qed

section \<open>Creation\<close>

lemma unat_pow2: "n < 32 \<Longrightarrow> unat (2 ^ n :: pj_uint32_t) = 2 ^ n"
proof -
  assume "n < 32"
  then have "(2::nat) ^ n < 2 ^ 32" by (intro power_strict_increasing) simp_all
  with \<open>n < 32\<close> have "unat (of_nat (2 ^ n) :: pj_uint32_t) = 2 ^ n"
    unfolding unsigned_of_nat by (simp add: take_bit_nat_eq_self)
  then show ?thesis by simp
qed

lemma create_loop_double:
  "create_loop (2 ^ n) size' =
     (if 2 ^ Suc n < size' then create_loop (2 ^ Suc n) size' else Some (2 ^ Suc n))"
  by (subst create_loop.simps) (simp add: push_bit_eq_mult mult.commute)

lemma create_loop_pow2:
  assumes "n + m = 30" "unat size' \<le> 2 ^ 31"
  shows "\<exists>e. n < e \<and> e \<le> 31 \<and> create_loop (2 ^ n) size' = Some (2 ^ e) \<and> unat size' \<le> 2 ^ e \<and>
    (e = Suc n \<or> 2 ^ (e - 1) < unat size')"
  using assms
proof (induction m arbitrary: n)
  case 0
  then have "\<not> (push_bit 1 (2 ^ n) :: pj_uint32_t) < size'"
    by (simp add: word_less_nat_alt push_bit_eq_mult unat_pow2)
  with 0 show ?case
    by (intro exI [of _ 31]) (simp add: create_loop.simps [of 1073741824] push_bit_eq_mult)
next
  case (Suc m)
  have u: "unat (2 ^ Suc n :: pj_uint32_t) = 2 ^ Suc n" using Suc.prems by (intro unat_pow2) simp
  show ?case
  proof (cases "(2 ^ Suc n :: pj_uint32_t) < size'")
    case True
    then have lt: "2 ^ Suc n < unat size'" using u by (metis word_less_nat_alt)
    from Suc.IH [of "Suc n"] Suc.prems obtain e where "Suc n < e" "e \<le> 31"
      "create_loop (2 ^ Suc n) size' = Some (2 ^ e)" "unat size' \<le> 2 ^ e" "e = Suc (Suc n) \<or> 2 ^ (e - 1) < unat size'"
      by auto
    with True lt show ?thesis
      by (intro exI [of _ e]) (auto simp: create_loop_double [of n] simp del: power_Suc)
  next
    case False
    then have "unat size' \<le> 2 ^ Suc n" using u by (metis not_less word_le_nat_alt)
    with False Suc.prems show ?thesis
      by (intro exI [of _ "Suc n"]) (auto simp: create_loop_double [of n] simp del: power_Suc)
  qed
qed

lemma empty_table_inv: "hash_inv lower \<lparr>table = replicate (unat r + 1) [], hcount = 0, rows = r\<rparr>"
proof -
  have "replicate (unat r + 1) [] ! b = ([] :: pj_hash_entry list)" if "b < unat r + 1" for b
    using that by (rule nth_replicate)
  then show ?thesis by (simp add: hash_inv_def bucket_ok_def kv_def sum_list_replicate del: replicate_Suc)
qed

lemma empty_table_map: "hash_map lower \<lparr>table = replicate (unat r + 1) [], hcount = 0, rows = r\<rparr> k = None"
  using bucket_less [OF empty_table_inv [of lower r], of k]
  by (simp add: hash_map_def kv_def del: replicate.simps)

lemma pj_hash_create_ok:
  assumes "unat size' \<le> 2 ^ 31"
  obtains t e where "pj_hash_create size' = Some t" "4 \<le> e" "e \<le> 31" "length (table t) = 2 ^ e" "unat size' \<le> 2 ^ e"
    "e = 4 \<or> 2 ^ (e - 1) < unat size'" "\<forall>lower. hash_inv lower t" "\<forall>lower k. hash_map lower t k = None" "pj_hash_count t = 0"
proof -
  from create_loop_pow2 [of 3 27 size'] assms obtain e where e: "3 < e" "e \<le> 31"
    "create_loop 8 size' = Some (2 ^ e)" "unat size' \<le> 2 ^ e" "e = Suc 3 \<or> 2 ^ (e - 1) < unat size'" by auto
  have "unat ((2 ^ e :: pj_uint32_t) - 1) = 2 ^ e - 1"
    using e by (subst unat_minus_one) (auto simp: unat_pow2)
  moreover have "(1::nat) \<le> 2 ^ e" by simp
  ultimately have len: "unat ((2 ^ e :: pj_uint32_t) - 1) + 1 = 2 ^ e" by simp
  define t :: pj_hash_table_t where "t = \<lparr>table = replicate (unat ((2 ^ e :: pj_uint32_t) - 1) + 1) [], hcount = 0, rows = 2 ^ e - 1\<rparr>"
  have "pj_hash_create size' = Some t" using e(3) by (simp add: pj_hash_create_def t_def Let_def)
  moreover have "length (table t) = 2 ^ e" using len by (simp add: t_def)
  moreover have "pj_hash_count t = 0" by (simp add: t_def pj_hash_count_def)
  ultimately show ?thesis
    using e that [of t e] empty_table_inv [of _ "2 ^ e - 1", folded t_def]
      empty_table_map [of _ "2 ^ e - 1", folded t_def] by auto
qed

section \<open>Visiting the entries\<close>

text \<open>
  The usage pattern of the iterator: take the first entry, then step until \<^verbatim>\<open>NULL\<close>. The
  visited values, in order.
\<close>

partial_function (option) iterate :: "pj_hash_table_t \<Rightarrow> pj_hash_iterator_t option \<Rightarrow> ptr list option" where
  "iterate t it =
     (case it of
        None \<Rightarrow> Some []
      | Some i \<Rightarrow> Option.bind (iterate t (pj_hash_next t i)) (\<lambda>vs. Some (pj_hash_this t i # vs)))"

declare iterate.simps [code]
declare create_loop.simps [code]

lemma iterate_scan:
  assumes len: "length (table t) = unat (rows t) + 1"
  shows "index \<le> length (table t) \<Longrightarrow>
     iterate t (scan_buckets t index) = Some (map value (concat (drop index (table t))))"
proof (induction "length (table t) - index" arbitrary: index)
  case 0
  then have "scan_buckets t index = None" using len by (subst scan_buckets.simps) simp
  then show ?case using 0 by (simp add: iterate.simps [of t None])
next
  case (Suc n)
  then have il: "index < length (table t)" by simp
  have tail: "iterate t (scan_buckets t (Suc index)) = Some (map value (concat (drop (Suc index) (table t))))"
    using Suc il by simp
  have row: "pos < length (table t ! index) \<Longrightarrow> iterate t (Some (index, pos)) =
      Some (map value (drop pos (table t ! index) @ concat (drop (Suc index) (table t))))" for pos
  proof (induction "length (table t ! index) - pos" arbitrary: pos)
    case (Suc m)
    then show ?case using tail
      by (cases "Suc pos < length (table t ! index)")
        (auto simp: iterate.simps [of t "Some (index, pos)"] pj_hash_next_def pj_hash_this_def
          Cons_nth_drop_Suc [symmetric])
  qed simp
  show ?case
  proof (cases "table t ! index = []")
    case True
    then show ?thesis using il len tail
      by (simp add: scan_buckets.simps [of t index] Cons_nth_drop_Suc [symmetric])
  next
    case False
    then show ?thesis using il len row [of 0]
      by (simp add: scan_buckets.simps [of t index] Cons_nth_drop_Suc [symmetric])
  qed
qed

lemma iterate_first:
  "hash_inv lower t \<Longrightarrow> iterate t (pj_hash_first t) = Some (map value (concat (table t)))"
  using iterate_scan [of t 0] by (simp add: hash_inv_def pj_hash_first_def)

lemma norm_idem [simp]: "norm lower (norm lower k) = norm lower k"
  by (auto simp: norm_def pj_tolower_def word_le_nat_alt unat_word_ariths)

lemma hash_map_Some:
  assumes inv: "hash_inv lower t"
  shows "hash_map lower t k = Some v \<longleftrightarrow>
    (\<exists>e \<in> set (concat (table t)). norm lower (key e) = norm lower k \<and> value e = v)"
proof
  assume "hash_map lower t k = Some v"
  then show "\<exists>e \<in> set (concat (table t)). norm lower (key e) = norm lower k \<and> value e = v"
    using nth_mem [OF bucket_less [OF inv, of k]]
    by (force simp: hash_map_def kv_def dest!: map_of_SomeD)
next
  assume "\<exists>e \<in> set (concat (table t)). norm lower (key e) = norm lower k \<and> value e = v"
  then obtain e b where e: "b < length (table t)" "e \<in> set (table t ! b)" "norm lower (key e) = norm lower k"
    "value e = v" by (auto simp: in_set_conv_nth [of _ "table t"])
  with inv have "bucket lower t (key e) = b" and d: "distinct (map fst (kv lower (table t ! b)))"
    by (auto simp: hash_inv_def bucket_ok_def)
  then have "bucket lower t k = b" using bucket_norm [OF e(3), of t] by simp
  moreover have "(norm lower k, v) \<in> set (kv lower (table t ! b))" using e by (force simp: kv_def)
  ultimately show "hash_map lower t k = Some v" using d by (simp add: hash_map_def)
qed

lemma distinct_concat_by:
  assumes "\<And>b. b < length tbs \<Longrightarrow> distinct (map g (tbs ! b)) \<and> (\<forall>e \<in> set (tbs ! b). f (g e) = b + n)"
  shows "distinct (map g (concat tbs))"
  using assms
proof (induction tbs arbitrary: n)
  case (Cons es tbs)
  have hd: "distinct (map g es)" "\<And>e. e \<in> set es \<Longrightarrow> f (g e) = n"
    using Cons.prems [of 0] by auto
  have tl: "b < length tbs \<Longrightarrow> distinct (map g (tbs ! b)) \<and> (\<forall>e \<in> set (tbs ! b). f (g e) = b + Suc n)" for b
    using Cons.prems [of "Suc b"] by simp
  then have "n < f (g e)" if "e \<in> set (concat tbs)" for e
    using that by (auto simp: in_set_conv_nth [of _ tbs])
  then have "g ` set es \<inter> g ` set (concat tbs) = {}" using hd(2) by fastforce
  with hd(1) Cons.IH [OF tl] show ?case by simp
qed simp

lemma bucket_norm_key: "bucket lower t (norm lower k) = bucket lower t k"
  by (rule bucket_norm) simp

lemma distinct_keys:
  assumes inv: "hash_inv lower t"
  shows "distinct (map (\<lambda>e. norm lower (key e)) (concat (table t)))"
  by (rule distinct_concat_by [where f = "bucket lower t" and n = 0])
    (use inv in \<open>simp add: hash_inv_def bucket_ok_def kv_def o_def bucket_norm_key\<close>)

section \<open>The dictionary contract\<close>

text \<open>
  What the clients of the table rely on: a set succeeds and keeps the table usable, and a lookup
  returns the value last set under an equivalent key, with \<^verbatim>\<open>NULL\<close> standing for no value. A key
  is what a caller passes to identify an entry.
\<close>

fun upds :: "('s \<Rightarrow> 'k \<Rightarrow> ptr \<Rightarrow> 's option) \<Rightarrow> 's \<Rightarrow> ('k \<times> ptr) list \<Rightarrow> 's option" where
  "upds upd s [] = Some s"
| "upds upd s ((k, v) # kvs) = (case upd s k v of None \<Rightarrow> None | Some s' \<Rightarrow> upds upd s' kvs)"

definition last_write :: "('k \<Rightarrow> 'k \<Rightarrow> bool) \<Rightarrow> ('k \<times> ptr) list \<Rightarrow> 'k \<Rightarrow> ptr option" where
  "last_write eq kvs k' = map_option snd (find (\<lambda>(k, v). eq k k') (rev kvs))"

lemma find_append: "find P (xs @ ys) = (case find P xs of None \<Rightarrow> find P ys | Some x \<Rightarrow> Some x)"
  by (induction xs) auto

lemma last_write_Cons:
  "last_write eq ((k, v) # kvs) k' =
    (case last_write eq kvs k' of None \<Rightarrow> if eq k k' then Some v else None | Some w \<Rightarrow> Some w)"
  by (auto simp: last_write_def find_append split: option.splits)

locale pj_dict =
  fixes inv :: "'s \<Rightarrow> bool"
    and get :: "'s \<Rightarrow> 'k \<Rightarrow> ptr"
    and upd :: "'s \<Rightarrow> 'k \<Rightarrow> ptr \<Rightarrow> 's option"
    and key_eq :: "'k \<Rightarrow> 'k \<Rightarrow> bool"
    and legal :: "'k \<Rightarrow> bool"
  assumes upd_ok: "inv s \<Longrightarrow> legal k \<Longrightarrow> \<exists>s'. upd s k v = Some s' \<and> inv s'"
    and get_upd: "inv s \<Longrightarrow> legal k \<Longrightarrow> legal k' \<Longrightarrow> upd s k v = Some s' \<Longrightarrow>
      get s' k' = (if key_eq k k' then v else get s k')"
begin

lemma upds_get:
  assumes "inv s" "\<And>k v. (k, v) \<in> set kvs \<Longrightarrow> legal k" "legal k'"
  shows "\<exists>s'. upds upd s kvs = Some s' \<and> inv s' \<and>
    get s' k' = (case last_write key_eq kvs k' of Some v \<Rightarrow> v | None \<Rightarrow> get s k')"
  using assms(1,2)
proof (induction kvs arbitrary: s)
  case (Cons kv kvs)
  obtain k v where kv: "kv = (k, v)" by (cases kv)
  have k: "legal k" using Cons.prems(2) [of k v] kv by simp
  from upd_ok [OF Cons.prems(1) k] obtain s1 where s1: "upd s k v = Some s1" "inv s1" by blast
  from Cons.IH [OF s1(2)] Cons.prems(2) obtain s' where s': "upds upd s1 kvs = Some s'" "inv s'"
    "get s' k' = (case last_write key_eq kvs k' of Some v \<Rightarrow> v | None \<Rightarrow> get s1 k')" by auto
  have "get s1 k' = (if key_eq k k' then v else get s k')"
    by (rule get_upd [OF Cons.prems(1) k assms(3) s1(1)])
  with s1 s' kv show ?case by (auto simp: last_write_Cons split: option.splits)
qed (simp add: last_write_def)

end

text \<open>
  A key as a caller passes it: memory, length and the precomputed hash (0 to have it computed).
\<close>

type_synonym hkey = "bytes \<times> pj_uint32_t \<times> pj_uint32_t"

definition hkey_norm :: "bool \<Rightarrow> hkey \<Rightarrow> bytes" where
  "hkey_norm lower hk = (case hk of (mem, klen, hval) \<Rightarrow> norm lower (key_bytes klen mem))"

definition hkey_ok :: "bool \<Rightarrow> hkey \<Rightarrow> bool" where
  "hkey_ok lower hk = (case hk of (mem, klen, hval) \<Rightarrow>
     key_ok lower (key_bytes klen mem) \<and> hval_ok lower (Some hval) (key_bytes klen mem))"

definition hkey_eq :: "bool \<Rightarrow> hkey \<Rightarrow> hkey \<Rightarrow> bool" where
  "hkey_eq lower hk hk' \<longleftrightarrow> hkey_norm lower hk = hkey_norm lower hk'"

lemma hash_dict:
  assumes "pool \<or> entry_buf"
  shows "pj_dict (hash_inv lower)
    (\<lambda>t hk. case hk of (mem, klen, hval) \<Rightarrow> pj_hash_get_gen lower t mem klen (Some hval))
    (\<lambda>t hk v. case hk of (mem, klen, hval) \<Rightarrow> hash_set pool t mem klen hval v entry_buf lower) (hkey_eq lower) (hkey_ok lower)"
proof (unfold_locales, goal_cases)
  case (1 t hk v)
  obtain mem klen hval where hk: "hk = (mem, klen, hval)" by (cases hk)
  with 1 have ok: "key_ok lower (key_bytes klen mem)" "hval_ok lower (Some hval) (key_bytes klen mem)"
    by (simp_all add: hkey_ok_def)
  from set_correct [OF 1(1) ok, of v pool entry_buf] assms hk show ?case by auto
next
  case (2 t hk hk' v t')
  obtain mem klen hval mem' klen' hval' where hk: "hk = (mem, klen, hval)" "hk' = (mem', klen', hval')"
    by (cases hk, cases hk')
  with 2 have ok: "key_ok lower (key_bytes klen mem)" "hval_ok lower (Some hval) (key_bytes klen mem)"
    and ok': "key_ok lower (key_bytes klen' mem')" "hval_ok lower (Some hval') (key_bytes klen' mem')"
    by (simp_all add: hkey_ok_def)
  from assms have "v = 0 \<or> pool \<or> entry_buf" by simp
  from set_correct [OF 2(1) ok this] hk 2(4) have t': "hash_inv lower t'"
    "hash_map lower t' (key_bytes klen' mem') =
      (if norm lower (key_bytes klen' mem') = norm lower (key_bytes klen mem) then if v = 0 then None else Some v
       else hash_map lower t (key_bytes klen' mem'))" by (metis case_prod_conv option.inject)+
  show ?case using hk t'(2) get_correct [OF 2(1) ok'] get_correct [OF t'(1) ok']
    by (auto simp: hkey_eq_def hkey_norm_def)
qed

definition hget :: "pj_hash_table_t \<Rightarrow> hkey \<Rightarrow> ptr" where
  "hget t hk = (case hk of (mem, klen, hval) \<Rightarrow> pj_hash_get t mem klen (Some hval))"

definition hset :: "pj_hash_table_t \<Rightarrow> hkey \<Rightarrow> ptr \<Rightarrow> pj_hash_table_t option" where
  "hset t hk v = (case hk of (mem, klen, hval) \<Rightarrow> pj_hash_set True t mem klen hval v)"

definition hget_lower :: "pj_hash_table_t \<Rightarrow> hkey \<Rightarrow> ptr" where
  "hget_lower t hk = (case hk of (mem, klen, hval) \<Rightarrow> pj_hash_get_lower t mem klen (Some hval))"

definition hset_np_lower :: "pj_hash_table_t \<Rightarrow> hkey \<Rightarrow> ptr \<Rightarrow> pj_hash_table_t option" where
  "hset_np_lower t hk v = (case hk of (mem, klen, hval) \<Rightarrow> pj_hash_set_np_lower t mem klen hval v)"

lemmas dict_ops = hget_def hset_def hget_lower_def hset_np_lower_def pj_hash_get_def pj_hash_set_def
  pj_hash_get_lower_def pj_hash_set_np_lower_def

interpretation hash_exact: pj_dict "hash_inv False" hget hset "hkey_eq False" "hkey_ok False"
  unfolding dict_ops [abs_def] by (rule hash_dict) simp

interpretation hash_lower: pj_dict "hash_inv True" hget_lower hset_np_lower "hkey_eq True" "hkey_ok True"
  unfolding dict_ops [abs_def] by (rule hash_dict) simp

section \<open>Correctness of the table\<close>

lemma calc_lower_char_agrees:
  assumes "c < 128" "own \<Longrightarrow> c \<noteq> 64 \<and> \<not> (91 \<le> c \<and> c \<le> 95)"
  shows "(scast (calc_lower_char own c) :: pj_uint32_t) = ucast (pj_tolower c)"
proof -
  have "\<forall>c :: pj_uint8_t. c < 128 \<longrightarrow> (scast (calc_lower_char False c) :: pj_uint32_t) = ucast (pj_tolower c)"
    unfolding all_bytes by code_simp
  moreover have "\<forall>c :: pj_uint8_t. c < 128 \<longrightarrow> c \<noteq> 64 \<and> \<not> (91 \<le> c \<and> c \<le> 95) \<longrightarrow>
      (scast (calc_lower_char True c) :: pj_uint32_t) = ucast (pj_tolower c)"
    unfolding all_bytes by code_simp
  ultimately show ?thesis using assms by (cases own) auto
qed

lemmas witness_defs = hkey_ok_def key_ok_def hval_ok_def hkey_eq_def hkey_norm_def last_write_def
  key_bytes_def PJ_HASH_KEY_STRING_def key_hash_def norm_def pj_tolower_def PJ_HASH_MULTIPLIER_def

lemma calc_tolower_fold:
  assumes "\<And>c. c \<in> set k \<Longrightarrow> (scast (calc_lower_char own c) :: pj_uint32_t) = ucast (pj_tolower c)"
  shows "fst (pj_hash_calc_tolower own hval k) =
    foldl (\<lambda>h b. h * PJ_HASH_MULTIPLIER + ucast b) hval (map pj_tolower k)"
  using assms
proof (induction k arbitrary: hval)
  case (Cons c k)
  from Cons.IH [of "hval * PJ_HASH_MULTIPLIER + ucast (pj_tolower c)"] Cons.prems show ?case
    by (simp add: pj_hash_calc_tolower_def)
qed (simp add: pj_hash_calc_tolower_def)

text \<open>
  C5: after any sequence of \<^verbatim>\<open>pj_hash_set\<close> calls on a new table, \<^verbatim>\<open>pj_hash_get\<close> returns the value
  last set under the same key bytes, and \<^verbatim>\<open>NULL\<close> when that was \<^verbatim>\<open>NULL\<close> or there was none. A key may be
  given with its length or as a NUL-terminated string, with the right hash or with 0.\<close>

theorem hash_last_set_wins:
  assumes "unat size' \<le> 2 ^ 31" "\<And>k v. (k, v) \<in> set kvs \<Longrightarrow> hkey_ok False k" "hkey_ok False k'"
  shows "\<exists>t t'. pj_hash_create size' = Some t \<and> upds hset t kvs = Some t' \<and>
    hget t' k' = (case last_write (hkey_eq False) kvs k' of Some v \<Rightarrow> v | None \<Rightarrow> 0)"
proof -
  obtain t e where t: "pj_hash_create size' = Some t" "4 \<le> e" "e \<le> 31" "length (table t) = 2 ^ e" "unat size' \<le> 2 ^ e"
    "e = 4 \<or> 2 ^ (e - 1) < unat size'" "\<forall>lower. hash_inv lower t" "\<forall>lower k. hash_map lower t k = None" "pj_hash_count t = 0"
    by (rule pj_hash_create_ok [OF assms(1)])
  have "hget t k' = 0"
    using assms(3) get_correct [OF t(7) [rule_format]] t(8) by (cases k') (simp add: dict_ops hkey_ok_def)
  with hash_exact.upds_get [OF t(7) [rule_format], of kvs k'] assms(2,3) t(1) show ?thesis
    by (auto split: option.splits)
qed

theorem hash_last_set_wins_witness:
  "\<exists>t t'. pj_hash_create 31 = Some t \<and>
     upds hset t [(([65, 66], 2, 0), 11), (([65, 66, 0], -1, 2211), 12), (([97], 1, 0), 13)] = Some t' \<and>
     hget t' ([65, 66, 67], 2, 2211) = 12"
proof -
  let ?kvs = "[(([65, 66], 2, 0), 11), (([65, 66, 0], -1, 2211), 12), (([97], 1, 0), 13)] :: (hkey \<times> ptr) list"
  have "hkey_ok False k" if "(k, v) \<in> set ?kvs" for k v
    using that by (auto simp: witness_defs)
  moreover have "hkey_ok False ([65, 66, 67], 2, 2211)" by (simp add: witness_defs)
  moreover have "last_write (hkey_eq False) ?kvs ([65, 66, 67], 2, 2211) = Some 12" by (simp add: witness_defs)
  ultimately show ?thesis
    using hash_last_set_wins [of 31 ?kvs "([65, 66, 67], 2, 2211)"] by simp
qed

text \<open>
  the \<^verbatim>\<open>_lower\<close> functions make the table a dictionary up to ASCII case: after any sequence of
  \<^verbatim>\<open>pj_hash_set_np_lower\<close> calls, \<^verbatim>\<open>pj_hash_get_lower\<close> returns the value last set under a key that
  differs at most in case. Keys contain no NUL byte, except possibly as their last.\<close>

theorem hash_lower_last_set_wins:
  assumes "unat size' \<le> 2 ^ 31" "\<And>k v. (k, v) \<in> set kvs \<Longrightarrow> hkey_ok True k" "hkey_ok True k'"
  shows "\<exists>t t'. pj_hash_create size' = Some t \<and> upds hset_np_lower t kvs = Some t' \<and>
    hget_lower t' k' = (case last_write (hkey_eq True) kvs k' of Some v \<Rightarrow> v | None \<Rightarrow> 0)"
proof -
  obtain t e where t: "pj_hash_create size' = Some t" "4 \<le> e" "e \<le> 31" "length (table t) = 2 ^ e" "unat size' \<le> 2 ^ e"
    "e = 4 \<or> 2 ^ (e - 1) < unat size'" "\<forall>lower. hash_inv lower t" "\<forall>lower k. hash_map lower t k = None" "pj_hash_count t = 0"
    by (rule pj_hash_create_ok [OF assms(1)])
  have "hget_lower t k' = 0"
    using assms(3) get_correct [OF t(7) [rule_format]] t(8) by (cases k') (simp add: dict_ops hkey_ok_def)
  with hash_lower.upds_get [OF t(7) [rule_format], of kvs k'] assms(2,3) t(1) show ?thesis
    by (auto split: option.splits)
qed

theorem hash_lower_last_set_wins_witness:
  "\<exists>t t'. pj_hash_create 20 = Some t \<and>
     upds hset_np_lower t [(([65, 98], 2, 0), 11), (([97, 66], 2, 0), 12), (([65], 1, 0), 13)] = Some t' \<and>
     hget_lower t' ([65, 66], 2, 0) = 12"
proof -
  let ?kvs = "[(([65, 98], 2, 0), 11), (([97, 66], 2, 0), 12), (([65], 1, 0), 13)] :: (hkey \<times> ptr) list"
  have "hkey_ok True k" if "(k, v) \<in> set ?kvs" for k v
    using that by (auto simp: witness_defs)
  moreover have "hkey_ok True ([65, 66], 2, 0)" by (simp add: witness_defs)
  moreover have "last_write (hkey_eq True) ?kvs ([65, 66], 2, 0) = Some 12" by (simp add: witness_defs)
  ultimately show ?thesis
    using hash_lower_last_set_wins [of 20 ?kvs "([65, 66], 2, 0)"] by simp
qed

text \<open>
  C25: walking a table with \<^verbatim>\<open>pj_hash_first\<close>, \<^verbatim>\<open>pj_hash_next\<close> and \<^verbatim>\<open>pj_hash_this\<close> ends after exactly
  \<^verbatim>\<open>pj_hash_count\<close> steps, which is the number of different keys in the table, and yields
  exactly the values stored in it.\<close>

theorem hash_iteration_complete:
  assumes inv: "hash_inv lower t"
  shows "\<exists>vs. iterate t (pj_hash_first t) = Some vs \<and> length vs = pj_hash_count t \<and>
    set vs = {v. \<exists>k. hash_map lower t k = Some v} \<and>
    pj_hash_count t = card {norm lower k |k. hash_map lower t k \<noteq> None}"
proof -
  let ?es = "concat (table t)"
  have n: "pj_hash_count t = length ?es"
    using inv by (simp add: pj_hash_count_def hash_inv_def length_concat)
  have "set (map value ?es) = {v. \<exists>k. hash_map lower t k = Some v}"
    unfolding hash_map_Some [OF inv] by auto
  moreover have "{norm lower k |k. hash_map lower t k \<noteq> None} = set (map (\<lambda>e. norm lower (key e)) ?es)"
    using hash_map_Some [OF inv] by (auto simp: image_iff) metis+
  then have "card {norm lower k |k. hash_map lower t k \<noteq> None} = length ?es"
    using distinct_card [OF distinct_keys [OF inv]] by simp
  ultimately show ?thesis using iterate_first [OF inv] n by simp
qed

theorem hash_iteration_complete_witness:
  "\<exists>t vs. Option.bind (pj_hash_create 16) (\<lambda>t. upds hset t [(([65], 1, 0), 11), (([66], 1, 0), 12)]) = Some t \<and>
     iterate t (pj_hash_first t) = Some vs \<and> length vs = pj_hash_count t"
proof -
  let ?kvs = "[(([65], 1, 0), 11), (([66], 1, 0), 12)] :: (hkey \<times> ptr) list"
  obtain t where t: "pj_hash_create 16 = Some t" "hash_inv False t"
    using create_loop_double [of 3 16] empty_table_inv [of False 15]
    by (auto simp: pj_hash_create_def pj_hash_count_def simp flip: replicate_Suc)
  have "hkey_ok False k" if "(k, v) \<in> set ?kvs" for k v
    using that by (auto simp: witness_defs)
  moreover have "hkey_ok False ([65], 1, 0)" by (simp add: witness_defs)
  ultimately obtain t' where t': "upds hset t ?kvs = Some t'" "hash_inv False t'"
    using hash_exact.upds_get [OF t(2), of ?kvs] by blast
  from hash_iteration_complete [OF t'(2)] obtain vs where vs: "iterate t' (pj_hash_first t') = Some vs"
    "length vs = pj_hash_count t'" by blast
  with t(1) t'(1) vs show ?thesis by simp
qed

text \<open>
  for a size of at most \<^verbatim>\<open>2^31\<close>, \<^verbatim>\<open>pj_hash_create\<close> returns an empty table whose number of
  buckets is the least power of two that is at least the requested size and at least 16.\<close>

theorem hash_create_buckets:
  assumes "unat size' \<le> 2 ^ 31"
  shows "\<exists>t. pj_hash_create size' = Some t \<and> pj_hash_count t = 0 \<and> pj_hash_first t = None \<and>
    length (table t) = Suc (unat (rows t)) \<and>
    length (table t) = (LEAST n. max 16 (unat size') \<le> n \<and> (\<exists>e. n = 2 ^ e))"
proof -
  obtain t e where t: "pj_hash_create size' = Some t" "4 \<le> e" "e \<le> 31" "length (table t) = 2 ^ e" "unat size' \<le> 2 ^ e"
    "e = 4 \<or> 2 ^ (e - 1) < unat size'" "\<forall>lower. hash_inv lower t" "\<forall>lower k. hash_map lower t k = None" "pj_hash_count t = 0"
    by (rule pj_hash_create_ok [OF assms])
  have "(LEAST n. max 16 (unat size') \<le> n \<and> (\<exists>e. n = 2 ^ e)) = 2 ^ e"
  proof (rule Least_equality)
    have "(2::nat) ^ 4 \<le> 2 ^ e" using t(2) by (intro power_increasing) simp_all
    then show "max 16 (unat size') \<le> 2 ^ e \<and> (\<exists>e'. (2::nat) ^ e = 2 ^ e')" using t(5) by auto
  next
    fix n assume n: "max 16 (unat size') \<le> n \<and> (\<exists>e. n = 2 ^ e)"
    then obtain e' where e': "n = 2 ^ e'" by auto
    show "2 ^ e \<le> n"
    proof (rule ccontr)
      assume "\<not> 2 ^ e \<le> n"
      then have "e' < e" using e' by (metis linorder_not_le one_le_numeral power_increasing)
      then have "(2::nat) ^ e' \<le> 2 ^ (e - 1)" by (intro power_increasing) simp_all
      with n e' have "max 16 (unat size') \<le> 2 ^ (e - 1)" by (meson le_trans)
      with t(6) show False by auto
    qed
  qed
  moreover have "pj_hash_first t = None"
  proof (cases "pj_hash_first t")
    case (Some i)
    with iterate_first [OF t(7) [rule_format, of False]] have "concat (table t) \<noteq> []"
      by (auto simp: iterate.simps [of t "Some i"] bind_eq_Some_conv simp del: concat_eq_Nil_conv)
    moreover have "length (concat (table t)) = 0"
      using t(7) [rule_format, of False] t(9) by (simp add: hash_inv_def pj_hash_count_def length_concat)
    ultimately show ?thesis by simp
  qed
  ultimately show ?thesis using t(1,4,9) t(7) [rule_format, of False] by (simp add: hash_inv_def)
qed

theorem hash_create_buckets_witness:
  "\<exists>t. pj_hash_create 31 = Some t \<and> length (table t) = (LEAST n. max 16 31 \<le> n \<and> (\<exists>e. n = 2 ^ e))"
  using hash_create_buckets [of 31] by auto

text \<open>
  a hash precomputed with \<^verbatim>\<open>pj_hash_calc_tolower\<close> is the one that the \<^verbatim>\<open>_lower\<close> functions compute
  for themselves when they are given 0, for ASCII keys; with \<^verbatim>\<open>PJ_HASH_USE_OWN_TOLOWER\<close> the key must
  also avoid the characters \<^verbatim>\<open>@ [ \ ] ^ _\<close>.\<close>

theorem calc_tolower_agrees:
  assumes "\<And>c. c \<in> set k \<Longrightarrow> c < 128" "\<And>c. own \<Longrightarrow> c \<in> set k \<Longrightarrow> c \<noteq> 64 \<and> \<not> (91 \<le> c \<and> c \<le> 95)"
  shows "fst (pj_hash_calc_tolower own 0 k) = find_hash True (Some 0) k"
proof -
  have "fst (pj_hash_calc_tolower own 0 k) = key_hash True k"
    unfolding key_hash_def norm_def using assms
    by (simp add: calc_tolower_fold calc_lower_char_agrees)
  then show ?thesis by (simp add: find_hash_key hval_ok_def)
qed

theorem calc_tolower_agrees_witness:
  "fst (pj_hash_calc_tolower True 0 [122, 57, 104, 71]) = find_hash True (Some 0) [122, 57, 104, 71]"
  by (rule calc_tolower_agrees) auto

text \<open>
  With \<^verbatim>\<open>PJ_HASH_USE_OWN_TOLOWER\<close>, an entry set with a precomputed hash is not found by a lookup
  that lets the table compute it, when the key has an underscore.
\<close>

lemma calc_tolower_mismatch:
  "fst (pj_hash_calc_tolower True 0 [95]) \<noteq> find_hash True (Some 0) [95]"
  by code_simp

end
