(* ===== verification/PJ_TsxKey.thy ===== *)
theory PJ_TsxKey
  imports PJ_Hash
begin

text \<open>
  Transaction keys, from the first part of \<^verbatim>\<open>pjsip/src/pjsip/sip_transaction.c\<close>: the string under
  which a transaction is registered in the transaction layer's hash table and by which incoming
  messages find it. Characters are bytes; a received message is reduced to the header fields the
  key is built from. \<^verbatim>\<open>unsigned long\<close> is 64 bits wide.

  The lemmas show when two keys are equal, and exactly when the key of an RFC 2543 message is
  written past the end of the buffer that was allocated for it.
\<close>

section \<open>Methods and received messages\<close>

datatype pjsip_method_e =
    PJSIP_INVITE_METHOD | PJSIP_CANCEL_METHOD | PJSIP_ACK_METHOD | PJSIP_BYE_METHOD
  | PJSIP_REGISTER_METHOD | PJSIP_OPTIONS_METHOD | PJSIP_OTHER_METHOD

record pjsip_method =
  method_id :: pjsip_method_e
  name :: bytes

datatype pjsip_role_e = PJSIP_ROLE_UAC | PJSIP_ROLE_UAS

text \<open>
  The fields of \<^verbatim>\<open>rdata->msg_info\<close> that the key generation reads: host, port and branch of the
  topmost Via, the From tag, the Call-ID and the CSeq number.
\<close>

record rdata_info =
  via_host :: bytes
  via_port :: int
  via_branch :: bytes
  from_tag :: bytes
  cid_id :: bytes
  cseq_num :: int

section \<open>Decimal numbers\<close>

definition unsigned_long :: "int \<Rightarrow> nat" where
  "unsigned_long i = nat (i mod 2 ^ 64)"

section \<open>Keys\<close>

definition SEPARATOR :: pj_uint8_t where
  "SEPARATOR = 36"

definition role_char :: "pjsip_role_e \<Rightarrow> pj_uint8_t" where
  "role_char role = (if role = PJSIP_ROLE_UAC then 99 else 115)"

definition method_part :: "pjsip_method \<Rightarrow> bytes" where
  "method_part method =
     (if method_id method \<noteq> PJSIP_INVITE_METHOD \<and> method_id method \<noteq> PJSIP_ACK_METHOD
      then name method @ [36] else [])"

text \<open>
  \<^verbatim>\<open>create_tsx_key_2543\<close>: the size of the buffer, the bytes written to it, and the key, which is
  \<open>None\<close> when more bytes are written than the buffer has room for.
\<close>

definition key_2543_len_required :: "rdata_info \<Rightarrow> nat" where
  "key_2543_len_required rdata =
     9 + length (from_tag rdata) + length (cid_id rdata) + length (via_host rdata) + 9 + 16"

definition key_2543_written :: "pjsip_role_e \<Rightarrow> pjsip_method \<Rightarrow> rdata_info \<Rightarrow> bytes" where
  "key_2543_written role method rdata =
     [role_char role, SEPARATOR] @ method_part method @
     pj_utoa (unsigned_long (cseq_num rdata)) @ [SEPARATOR] @
     from_tag rdata @ [SEPARATOR] @ cid_id rdata @ [SEPARATOR] @
     via_host rdata @ [58] @ pj_utoa (unsigned_long (via_port rdata)) @ [SEPARATOR] @ [0]"

definition create_tsx_key_2543 :: "pjsip_role_e \<Rightarrow> pjsip_method \<Rightarrow> rdata_info \<Rightarrow> bytes option" where
  "create_tsx_key_2543 role method rdata =
     (let key = key_2543_written role method rdata
      in if length key \<le> key_2543_len_required rdata then Some key else None)"

definition create_tsx_key_3261 :: "pjsip_role_e \<Rightarrow> pjsip_method \<Rightarrow> bytes \<Rightarrow> bytes" where
  "create_tsx_key_3261 role method branch =
     [role_char role, SEPARATOR] @ method_part method @ branch"

definition PJSIP_RFC3261_BRANCH_ID :: bytes where
  "PJSIP_RFC3261_BRANCH_ID = [122, 57, 104, 71, 52, 98, 75]"

definition is_3261_branch :: "bytes \<Rightarrow> bool" where
  "is_3261_branch branch \<longleftrightarrow>
     map pj_tolower (take 7 branch) = map pj_tolower PJSIP_RFC3261_BRANCH_ID"

definition pjsip_tsx_create_key :: "pjsip_role_e \<Rightarrow> pjsip_method \<Rightarrow> rdata_info \<Rightarrow> bytes option" where
  "pjsip_tsx_create_key role method rdata =
     (if is_3261_branch (via_branch rdata)
      then Some (create_tsx_key_3261 role method (via_branch rdata))
      else create_tsx_key_2543 role method rdata)"

section \<open>Correctness of the keys\<close>

lemma key_2543_length:
  "length (key_2543_written role method rdata) =
     8 + length (method_part method) + length (pj_utoa (unsigned_long (cseq_num rdata))) +
     length (pj_utoa (unsigned_long (via_port rdata))) +
     length (from_tag rdata) + length (cid_id rdata) + length (via_host rdata)"
  by (simp add: key_2543_written_def)

lemma unsigned_long_nonneg: "0 \<le> i \<Longrightarrow> i < 2 ^ 64 \<Longrightarrow> unsigned_long i = nat i"
  by (simp add: unsigned_long_def)

text \<open>
  C26: the key of an RFC 2543 message is written within its buffer exactly when the method part and
  the two numbers take at most 26 characters; the buffer size does not account for the method name,
  which a sender chooses freely.\<close>

theorem key_2543_overrun_iff:
  "create_tsx_key_2543 role method rdata = None \<longleftrightarrow>
     26 < length (method_part method) + length (pj_utoa (unsigned_long (cseq_num rdata))) +
       length (pj_utoa (unsigned_long (via_port rdata)))"
  by (auto simp: create_tsx_key_2543_def Let_def key_2543_length key_2543_len_required_def)

lemma key_2543_overrun_long_method:
  assumes "method_id method = PJSIP_OTHER_METHOD" "24 \<le> length (name method)"
  shows "create_tsx_key_2543 role method rdata = None"
proof -
  obtain a b where "length (pj_utoa (unsigned_long (cseq_num rdata))) = Suc a"
    "length (pj_utoa (unsigned_long (via_port rdata))) = Suc b"
    using pj_utoa_hd [of "unsigned_long (cseq_num rdata)"] pj_utoa_hd [of "unsigned_long (via_port rdata)"] by auto
  with assms show ?thesis
    unfolding create_tsx_key_2543_def Let_def key_2543_length key_2543_len_required_def
    by (simp add: method_part_def)
qed

text \<open>
  for methods with names of at most 10 characters, sequence numbers below \<^verbatim>\<open>2^31\<close> and valid port
  numbers the RFC 2543 key is written within its buffer, so that a key is always produced.\<close>

theorem key_2543_fits:
  assumes "length (name method) \<le> 10" "0 \<le> cseq_num rdata" "cseq_num rdata < 2 ^ 31"
    "0 \<le> via_port rdata" "via_port rdata < 2 ^ 16"
  shows "create_tsx_key_2543 role method rdata = Some (key_2543_written role method rdata)"
proof -
  have "length (pj_utoa (unsigned_long (cseq_num rdata))) \<le> 10"
    using assms by (intro length_pj_utoa) (auto simp: unsigned_long_nonneg)
  moreover have "length (pj_utoa (unsigned_long (via_port rdata))) \<le> 5"
    using assms by (intro length_pj_utoa) (auto simp: unsigned_long_nonneg)
  ultimately show ?thesis using assms(1)
    by (simp add: create_tsx_key_2543_def Let_def key_2543_length key_2543_len_required_def method_part_def)
qed

theorem key_2543_fits_witness:
  "create_tsx_key_2543 PJSIP_ROLE_UAS \<lparr>method_id = PJSIP_BYE_METHOD, name = [66, 89, 69]\<rparr>
     \<lparr>via_host = [104], via_port = 5060, via_branch = [], from_tag = [116], cid_id = [105], cseq_num = 314\<rparr> \<noteq> None"
  by (subst key_2543_fits) simp_all

lemma lower_no_separator: "pj_tolower c = 36 \<Longrightarrow> c = 36"
proof -
  have "\<forall>c :: pj_uint8_t. pj_tolower c = 36 \<longrightarrow> c = 36" unfolding all_bytes by code_simp
  then show "pj_tolower c = 36 \<Longrightarrow> c = 36" by blast
qed

text \<open>A method name as it can appear in a message, and not mimicking a branch.\<close>

definition method_ok :: "pjsip_method \<Rightarrow> bool" where
  "method_ok m \<longleftrightarrow> 36 \<notin> set (name m) \<and> 0 \<notin> set (name m) \<and> \<not> is_3261_branch (name m)"

definition has_method_part :: "pjsip_method \<Rightarrow> bool" where
  "has_method_part m \<longleftrightarrow> method_id m \<noteq> PJSIP_INVITE_METHOD \<and> method_id m \<noteq> PJSIP_ACK_METHOD"

abbreviation lows :: "bytes \<Rightarrow> bytes" where
  "lows \<equiv> map pj_tolower"

lemma append_sep_eq:
  "x \<notin> set xs \<Longrightarrow> x \<notin> set xs' \<Longrightarrow> xs @ x # ys = xs' @ x # ys' \<Longrightarrow> xs = xs' \<and> ys = ys'"
proof (induction xs arbitrary: xs')
  case Nil
  then show ?case by (cases xs') auto
next
  case (Cons a xs)
  then show ?case by (cases xs') auto
qed

lemma lows_split:
  assumes "lows xs @ 36 # lows ys = lows xs' @ 36 # lows ys'" "36 \<notin> set xs" "36 \<notin> set xs'"
  shows "lows xs = lows xs' \<and> lows ys = lows ys'"
proof -
  have "36 \<notin> set (lows xs)" "36 \<notin> set (lows xs')" using assms(2,3) lower_no_separator by force+
  with assms(1) show ?thesis by (intro append_sep_eq)
qed

lemma branch_not_method:
  assumes "is_3261_branch b" "36 \<notin> set n" "\<not> is_3261_branch n"
  shows "lows b \<noteq> lows n @ 36 # ys"
proof
  assume eq: "lows b = lows n @ 36 # ys"
  have "take 7 (lows b) = [122, 57, 104, 103, 52, 98, 107]"
    using assms(1) by (simp add: is_3261_branch_def PJSIP_RFC3261_BRANCH_ID_def take_map pj_tolower_def)
  with eq have t: "take 7 (lows n @ 36 # ys) = [122, 57, 104, 103, 52, 98, 107]" by simp
  show False
  proof (cases "7 \<le> length n")
    case True
    with t have "take 7 (lows n) = [122, 57, 104, 103, 52, 98, 107]" by simp
    with assms(3) show False
      by (simp add: is_3261_branch_def PJSIP_RFC3261_BRANCH_ID_def take_map pj_tolower_def)
  next
    case False
    then have "36 \<in> set (take 7 (lows n @ 36 # ys))" by (cases "7 - length n") auto
    with t show False by simp
  qed
qed

lemma key_3261_eq:
  assumes "lows (create_tsx_key_3261 role m b) = lows (create_tsx_key_3261 role' m' b')"
    "is_3261_branch b" "is_3261_branch b'" "method_ok m" "method_ok m'"
  shows "role = role' \<and> lows b = lows b' \<and> (has_method_part m \<longleftrightarrow> has_method_part m') \<and>
    (has_method_part m \<longrightarrow> lows (name m) = lows (name m'))"
proof -
  have r: "role = role'" using assms(1)
    by (cases role; cases role') (simp_all add: create_tsx_key_3261_def role_char_def pj_tolower_def)
  have body: "lows (method_part m @ b) = lows (method_part m' @ b')"
    using assms(1) by (simp add: create_tsx_key_3261_def)
  have sep: "pj_tolower 36 = 36" by (simp add: pj_tolower_def)
  note mp = method_part_def has_method_part_def [symmetric]
  show ?thesis
  proof (cases "has_method_part m"; cases "has_method_part m'")
    assume "has_method_part m" "has_method_part m'"
    with body r assms(4,5) lows_split [of "name m" b "name m'" b'] show ?thesis
      by (simp add: mp sep method_ok_def)
  next
    assume "has_method_part m" "\<not> has_method_part m'"
    with body sep have "lows b' = lows (name m) @ 36 # lows b" by (simp add: mp)
    with branch_not_method [of b' "name m"] assms(3,4) show ?thesis by (auto simp: method_ok_def)
  next
    assume "\<not> has_method_part m" "has_method_part m'"
    with body sep have "lows b = lows (name m') @ 36 # lows b'" by (simp add: mp)
    with branch_not_method [of b "name m'"] assms(2,5) show ?thesis by (auto simp: method_ok_def)
  qed (use body r in \<open>simp add: mp\<close>)
qed



end
