(* ===== verification/PJ_Transaction.thy ===== *)
theory PJ_Transaction
  imports PJ_TsxKey PJ_Time
begin

text \<open>
  The SIP transaction state machine of \<^verbatim>\<open>pjsip/src/pjsip/sip_transaction.c\<close>: one client or server
  transaction with its two timers, its transport and message references, and the operations that
  drive it (sending, receiving, timer expiry, transport notifications, termination).

  Conventions. One operation is one step: the group lock that the code holds around it is not
  modelled, but references to it are counted (\<open>grp_refs\<close>). The bits of \<^verbatim>\<open>transport_flag\<close> are five
  Booleans. Messages and transports are addresses into stores, 0 is \<^verbatim>\<open>NULL\<close>. Calls that leave the
  file are parameters: what the transaction user does in its callbacks is a state transformer
  (so it may call back into the transaction), and the outcome of a send is given by a value of type
  \<open>send_outcome\<close>, which lists the completion callbacks that run before the send call returns.
  \<^verbatim>\<open>pj_assert\<close> does nothing, as in release builds; \<^verbatim>\<open>PJ_ASSERT_RETURN\<close> returns its code.
\<close>

section \<open>States, handlers and events\<close>

datatype pjsip_tsx_state_e =
    PJSIP_TSX_STATE_NULL | PJSIP_TSX_STATE_CALLING | PJSIP_TSX_STATE_TRYING
  | PJSIP_TSX_STATE_PROCEEDING | PJSIP_TSX_STATE_COMPLETED | PJSIP_TSX_STATE_CONFIRMED
  | PJSIP_TSX_STATE_TERMINATED | PJSIP_TSX_STATE_DESTROYED

primrec state_no :: "pjsip_tsx_state_e \<Rightarrow> nat" where
  "state_no PJSIP_TSX_STATE_NULL = 0"
| "state_no PJSIP_TSX_STATE_CALLING = 1"
| "state_no PJSIP_TSX_STATE_TRYING = 2"
| "state_no PJSIP_TSX_STATE_PROCEEDING = 3"
| "state_no PJSIP_TSX_STATE_COMPLETED = 4"
| "state_no PJSIP_TSX_STATE_CONFIRMED = 5"
| "state_no PJSIP_TSX_STATE_TERMINATED = 6"
| "state_no PJSIP_TSX_STATE_DESTROYED = 7"

lemma state_no_inj: "state_no a = state_no b \<Longrightarrow> a = b"
  by (cases a; cases b) simp_all

instantiation pjsip_tsx_state_e :: linorder
begin

definition less_eq_pjsip_tsx_state_e :: "pjsip_tsx_state_e \<Rightarrow> pjsip_tsx_state_e \<Rightarrow> bool" where
  "less_eq_pjsip_tsx_state_e a b \<longleftrightarrow> state_no a \<le> state_no b"

definition less_pjsip_tsx_state_e :: "pjsip_tsx_state_e \<Rightarrow> pjsip_tsx_state_e \<Rightarrow> bool" where
  "less_pjsip_tsx_state_e a b \<longleftrightarrow> state_no a < state_no b"

instance
  by intro_classes (auto simp: less_eq_pjsip_tsx_state_e_def less_pjsip_tsx_state_e_def intro: state_no_inj)

end

lemmas state_order = less_eq_pjsip_tsx_state_e_def less_pjsip_tsx_state_e_def

datatype tsx_handler =
    Tsx_on_state_null | Tsx_on_state_calling | Tsx_on_state_trying | Tsx_on_state_proceeding_uas
  | Tsx_on_state_proceeding_uac | Tsx_on_state_completed_uas | Tsx_on_state_completed_uac
  | Tsx_on_state_confirmed | Tsx_on_state_terminated | Tsx_on_state_destroyed

primrec tsx_state_handler_uac :: "pjsip_tsx_state_e \<Rightarrow> tsx_handler option" where
  "tsx_state_handler_uac PJSIP_TSX_STATE_NULL = Some Tsx_on_state_null"
| "tsx_state_handler_uac PJSIP_TSX_STATE_CALLING = Some Tsx_on_state_calling"
| "tsx_state_handler_uac PJSIP_TSX_STATE_TRYING = None"
| "tsx_state_handler_uac PJSIP_TSX_STATE_PROCEEDING = Some Tsx_on_state_proceeding_uac"
| "tsx_state_handler_uac PJSIP_TSX_STATE_COMPLETED = Some Tsx_on_state_completed_uac"
| "tsx_state_handler_uac PJSIP_TSX_STATE_CONFIRMED = Some Tsx_on_state_confirmed"
| "tsx_state_handler_uac PJSIP_TSX_STATE_TERMINATED = Some Tsx_on_state_terminated"
| "tsx_state_handler_uac PJSIP_TSX_STATE_DESTROYED = Some Tsx_on_state_destroyed"

primrec tsx_state_handler_uas :: "pjsip_tsx_state_e \<Rightarrow> tsx_handler option" where
  "tsx_state_handler_uas PJSIP_TSX_STATE_NULL = Some Tsx_on_state_null"
| "tsx_state_handler_uas PJSIP_TSX_STATE_CALLING = None"
| "tsx_state_handler_uas PJSIP_TSX_STATE_TRYING = Some Tsx_on_state_trying"
| "tsx_state_handler_uas PJSIP_TSX_STATE_PROCEEDING = Some Tsx_on_state_proceeding_uas"
| "tsx_state_handler_uas PJSIP_TSX_STATE_COMPLETED = Some Tsx_on_state_completed_uas"
| "tsx_state_handler_uas PJSIP_TSX_STATE_CONFIRMED = Some Tsx_on_state_confirmed"
| "tsx_state_handler_uas PJSIP_TSX_STATE_TERMINATED = Some Tsx_on_state_terminated"
| "tsx_state_handler_uas PJSIP_TSX_STATE_DESTROYED = Some Tsx_on_state_destroyed"

definition handler_of :: "pjsip_role_e \<Rightarrow> pjsip_tsx_state_e \<Rightarrow> tsx_handler option" where
  "handler_of role state =
     (if role = PJSIP_ROLE_UAC then tsx_state_handler_uac state else tsx_state_handler_uas state)"

text \<open>A received message is a request with its method or a response with its status code.\<close>

datatype rx_msg = RxRequest pjsip_method_e | RxResponse int

datatype tsx_timer_name = Retransmit_timer | Timeout_timer

datatype pjsip_event = EvTxMsg ptr | EvRxMsg rx_msg | EvTimer tsx_timer_name

text \<open>The source of a state change, as the transaction user is told.\<close>

datatype event_src = SrcTxMsg | SrcRxMsg rx_msg | SrcTimer | SrcTransportError | SrcUser | SrcUnknown

text \<open>What the transaction does to its surroundings, in order.\<close>

datatype tsx_output =
    TuState pjsip_tsx_state_e pjsip_tsx_state_e event_src
  | TuRxResponse rx_msg
  | TransportSend ptr
  | StatelessSend ptr

section \<open>The transaction\<close>

definition TIMER_INACTIVE :: nat where
  "TIMER_INACTIVE = 0"

definition RETRANSMIT_TIMER :: nat where
  "RETRANSMIT_TIMER = 1"

definition TIMEOUT_TIMER :: nat where
  "TIMEOUT_TIMER = 2"

definition TRANSPORT_ERR_TIMER :: nat where
  "TRANSPORT_ERR_TIMER = 3"

text \<open>A timer entry: its id, and the delay it was scheduled with while it is in the timer heap.\<close>

record tsx_timer =
  timer_id :: nat
  running :: "pj_time_val option"

record pjsip_tx_data =
  is_request :: bool
  tx_code :: int
  tx_cseq_method :: pjsip_method_e
  ref_cnt :: int
  is_pending :: bool
  tx_tsx :: ptr

record pjsip_transport =
  tp_ref_cnt :: int
  tp_listeners :: int
  is_shutdown :: bool
  tp_reliable :: bool

record tsx_config =
  cfg_t1 :: pj_uint32_t
  cfg_t2 :: pj_uint32_t
  cfg_t4 :: pj_uint32_t
  cfg_td :: pj_uint32_t

record pjsip_transaction =
  self :: ptr
  tsx_user :: bool
  terminating :: bool
  role :: pjsip_role_e
  tsx_method :: pjsip_method_e
  transaction_key :: bytes
  hashed_key :: pj_uint32_t
  status_code :: int
  tsx_state :: pjsip_tsx_state_e
  handle_200resp :: bool
  state_handler :: "tsx_handler option"
  transport :: ptr
  is_reliable :: bool
  tsx_addr :: nat
  res_transport :: ptr
  pending_transport :: bool
  pending_resched :: bool
  pending_send :: bool
  pending_destroy :: bool
  resolved_server :: bool
  transport_err :: pj_status_t
  tp_sel :: ptr
  pending_tx :: ptr
  last_tx :: ptr
  retransmit_count :: nat
  retransmit_timer :: tsx_timer
  timeout_timer :: tsx_timer

text \<open>
  The transaction with the parts of its surroundings that it changes: the stores of messages and
  transports, the reference count of its group lock, the sends that the transport has not
  completed, and the transaction layer's table and module registration.
\<close>

record tsx_world = pjsip_transaction +
  tdata :: "ptr \<Rightarrow> pjsip_tx_data"
  tps :: "ptr \<Rightarrow> pjsip_transport"
  grp_refs :: int
  inflight :: nat
  htable :: pj_hash_table_t
  mod_registered :: bool
  cfg :: tsx_config
  outputs :: "tsx_output list"

text \<open>The callbacks of the transaction user (\<^verbatim>\<open>tsx_user\<close>); an absent callback is the identity.\<close>

record tsx_callbacks =
  on_rx_response :: "rx_msg \<Rightarrow> tsx_world \<Rightarrow> tsx_world"
  on_tsx_state :: "event_src \<Rightarrow> pjsip_tsx_state_e \<Rightarrow> tsx_world \<Rightarrow> tsx_world"

section \<open>Timer values\<close>

definition msec_time_val :: "pj_uint32_t \<Rightarrow> pj_time_val" where
  "msec_time_val ms = Time_val (uint ms div 1000) (uint ms mod 1000)"

definition t1_timer_val :: "tsx_world \<Rightarrow> pj_time_val" where
  "t1_timer_val w = msec_time_val (cfg_t1 (cfg w))"

definition t2_timer_val :: "tsx_world \<Rightarrow> pj_time_val" where
  "t2_timer_val w = msec_time_val (cfg_t2 (cfg w))"

definition t4_timer_val :: "tsx_world \<Rightarrow> pj_time_val" where
  "t4_timer_val w = msec_time_val (cfg_t4 (cfg w))"

definition td_timer_val :: "tsx_world \<Rightarrow> pj_time_val" where
  "td_timer_val w = msec_time_val (cfg_td (cfg w))"

definition timeout_timer_val :: "tsx_world \<Rightarrow> pj_time_val" where
  "timeout_timer_val w = td_timer_val w"

definition PJSIP_TSX_1XX_RETRANS_DELAY :: nat where
  "PJSIP_TSX_1XX_RETRANS_DELAY = 60"

definition PJSIP_IS_STATUS_IN_CLASS :: "int \<Rightarrow> int \<Rightarrow> bool" where
  "PJSIP_IS_STATUS_IN_CLASS code cls \<longleftrightarrow> c_div code 100 = c_div cls 100"

section \<open>References and timers\<close>

definition tx_add_ref :: "ptr \<Rightarrow> tsx_world \<Rightarrow> tsx_world" where
  "tx_add_ref p w = w\<lparr>tdata := (tdata w)(p := (tdata w p)\<lparr>ref_cnt := ref_cnt (tdata w p) + 1\<rparr>)\<rparr>"

definition tx_dec_ref :: "ptr \<Rightarrow> tsx_world \<Rightarrow> tsx_world" where
  "tx_dec_ref p w = w\<lparr>tdata := (tdata w)(p := (tdata w p)\<lparr>ref_cnt := ref_cnt (tdata w p) - 1\<rparr>)\<rparr>"

definition tx_set_tsx :: "ptr \<Rightarrow> ptr \<Rightarrow> tsx_world \<Rightarrow> tsx_world" where
  "tx_set_tsx p t w = w\<lparr>tdata := (tdata w)(p := (tdata w p)\<lparr>tx_tsx := t\<rparr>)\<rparr>"

definition tp_add_ref :: "ptr \<Rightarrow> tsx_world \<Rightarrow> tsx_world" where
  "tp_add_ref p w = w\<lparr>tps := (tps w)(p := (tps w p)\<lparr>tp_ref_cnt := tp_ref_cnt (tps w p) + 1\<rparr>)\<rparr>"

definition tp_dec_ref :: "ptr \<Rightarrow> tsx_world \<Rightarrow> tsx_world" where
  "tp_dec_ref p w = w\<lparr>tps := (tps w)(p := (tps w p)\<lparr>tp_ref_cnt := tp_ref_cnt (tps w p) - 1\<rparr>)\<rparr>"

definition tp_listen :: "ptr \<Rightarrow> int \<Rightarrow> tsx_world \<Rightarrow> tsx_world" where
  "tp_listen p d w = w\<lparr>tps := (tps w)(p := (tps w p)\<lparr>tp_listeners := tp_listeners (tps w p) + d\<rparr>)\<rparr>"

definition pjsip_tpselector_add_ref :: "ptr \<Rightarrow> tsx_world \<Rightarrow> tsx_world" where
  "pjsip_tpselector_add_ref p w = (if p \<noteq> 0 then tp_add_ref p w else w)"

definition pjsip_tpselector_dec_ref :: "ptr \<Rightarrow> tsx_world \<Rightarrow> tsx_world" where
  "pjsip_tpselector_dec_ref p w = (if p \<noteq> 0 then tp_dec_ref p w else w)"

primrec get_timer :: "tsx_timer_name \<Rightarrow> tsx_world \<Rightarrow> tsx_timer" where
  "get_timer Retransmit_timer w = retransmit_timer w"
| "get_timer Timeout_timer w = timeout_timer w"

primrec set_timer :: "tsx_timer_name \<Rightarrow> tsx_timer \<Rightarrow> tsx_world \<Rightarrow> tsx_world" where
  "set_timer Retransmit_timer t w = w\<lparr>retransmit_timer := t\<rparr>"
| "set_timer Timeout_timer t w = w\<lparr>timeout_timer := t\<rparr>"

text \<open>
  Scheduling an entry that is in the heap is refused. Otherwise the heap takes the entry and a
  reference to the group lock, which cancelling gives back.
\<close>

definition tsx_schedule_timer ::
  "tsx_timer_name \<Rightarrow> pj_time_val \<Rightarrow> nat \<Rightarrow> tsx_world \<Rightarrow> pj_status_t \<times> tsx_world" where
  "tsx_schedule_timer entry delay active_id w =
     (if running (get_timer entry w) \<noteq> None then (PJ_EINVALIDOP, w)
      else (PJ_SUCCESS,
        (set_timer entry \<lparr>timer_id = active_id, running = Some delay\<rparr> w)\<lparr>grp_refs := grp_refs w + 1\<rparr>))"

definition sched :: "tsx_timer_name \<Rightarrow> pj_time_val \<Rightarrow> nat \<Rightarrow> tsx_world \<Rightarrow> tsx_world" where
  "sched entry delay active_id w = snd (tsx_schedule_timer entry delay active_id w)"

definition tsx_cancel_timer :: "tsx_timer_name \<Rightarrow> tsx_world \<Rightarrow> tsx_world" where
  "tsx_cancel_timer entry w =
     (set_timer entry \<lparr>timer_id = TIMER_INACTIVE, running = None\<rparr> w)
       \<lparr>grp_refs := grp_refs w - (if running (get_timer entry w) \<noteq> None then 1 else 0)\<rparr>"

definition zero_time :: pj_time_val where
  "zero_time = Time_val 0 0"

definition tsx_tp_state_callback :: "bool \<Rightarrow> pj_status_t \<Rightarrow> tsx_world \<Rightarrow> tsx_world" where
  "tsx_tp_state_callback disconnected info_status w =
     (if disconnected then
        let w = w\<lparr>transport_err := info_status\<rparr>;
            w = tsx_cancel_timer Timeout_timer w
        in sched Timeout_timer zero_time TRANSPORT_ERR_TIMER w
      else w)"

definition PJSIP_SC_TSX_TRANSPORT_ERROR :: int where
  "PJSIP_SC_TSX_TRANSPORT_ERROR = 503"

definition tsx_update_transport :: "ptr \<Rightarrow> tsx_world \<Rightarrow> tsx_world" where
  "tsx_update_transport tp w =
     (let w = (if transport w \<noteq> 0
               then (tp_dec_ref (transport w) (tp_listen (transport w) (-1) w))\<lparr>transport := 0\<rparr> else w)
      in if tp \<noteq> 0 then
           let w = w\<lparr>transport := tp\<rparr>;
               w = tp_add_ref tp w;
               w = tp_listen tp 1 w
           in if is_shutdown (tps w tp) then tsx_tp_state_callback True (PJ_ECODE 503) w else w
         else w)"

section \<open>Registration\<close>

text \<open>\<^verbatim>\<open>None\<close> in the table operations cannot occur here; see \<open>hash_set\<close>.\<close>

definition mod_tsx_layer_register_tsx :: "tsx_world \<Rightarrow> pj_status_t \<times> tsx_world" where
  "mod_tsx_layer_register_tsx w =
     (let key = transaction_key w; klen = of_nat (length key)
      in if pj_hash_get_lower (htable w) key klen None \<noteq> 0 then (PJ_EEXISTS, w)
         else case pj_hash_set_lower True (htable w) key klen (hashed_key w) (self w) of
             Some t \<Rightarrow> (PJ_SUCCESS, w\<lparr>htable := t\<rparr>)
           | None \<Rightarrow> (PJ_EBUG, w))"

definition mod_tsx_layer_unregister_tsx :: "tsx_world \<Rightarrow> tsx_world" where
  "mod_tsx_layer_unregister_tsx w =
     (if \<not> mod_registered w then w
      else let key = transaction_key w
           in case pj_hash_set_lower False (htable w) key (of_nat (length key)) (hashed_key w) 0 of
                Some t \<Rightarrow> w\<lparr>htable := t\<rparr>
              | None \<Rightarrow> w)"

section \<open>State changes\<close>

definition tsx_shutdown :: "tsx_world \<Rightarrow> tsx_world" where
  "tsx_shutdown w =
     (let w = tsx_update_transport 0 w;
          w = (if \<not> terminating w then pjsip_tpselector_dec_ref (tp_sel w) w else w);
          w = (if last_tx w \<noteq> 0 then (tx_dec_ref (last_tx w) w)\<lparr>last_tx := 0\<rparr> else w);
          w = tsx_cancel_timer Timeout_timer w;
          w = tsx_cancel_timer Retransmit_timer w;
          w = w\<lparr>pending_resched := False, pending_send := False\<rparr>;
          w = (if pending_transport w then w\<lparr>pending_destroy := True, tsx_user := False\<rparr> else w)
      in if \<not> terminating w then w\<lparr>terminating := True, grp_refs := grp_refs w - 1\<rparr> else w)"

definition emit :: "tsx_output \<Rightarrow> tsx_world \<Rightarrow> tsx_world" where
  "emit o1 w = w\<lparr>outputs := outputs w @ [o1]\<rparr>"

definition enter_terminated :: "tsx_world \<Rightarrow> tsx_world" where
  "enter_terminated w =
     (let w = (if pending_transport w then
                 let w = (if pending_tx w \<noteq> 0 then (tx_set_tsx (pending_tx w) 0 w)\<lparr>pending_tx := 0\<rparr> else w)
                 in w\<lparr>pending_transport := False\<rparr>
               else w);
          w = tsx_cancel_timer Timeout_timer w
      in sched Timeout_timer zero_time TIMEOUT_TIMER w)"

definition notify_tu ::
  "tsx_callbacks \<Rightarrow> event_src \<Rightarrow> pjsip_tsx_state_e \<Rightarrow> tsx_world \<Rightarrow> tsx_world" where
  "notify_tu cbs src prev_state w =
     (if tsx_user w
      then on_tsx_state cbs src prev_state (emit (TuState prev_state (tsx_state w) src) w) else w)"

definition tsx_set_state ::
  "tsx_callbacks \<Rightarrow> pjsip_tsx_state_e \<Rightarrow> event_src \<Rightarrow> tsx_world \<Rightarrow> tsx_world" where
  "tsx_set_state cbs state src w =
     (let prev_state = tsx_state w;
          w = w\<lparr>tsx_state := state, state_handler := handler_of (role w) state\<rparr>;
          w = (case src of
                 SrcRxMsg (RxResponse code) \<Rightarrow>
                   if tsx_user w then on_rx_response cbs (RxResponse code) (emit (TuRxResponse (RxResponse code)) w) else w
               | _ \<Rightarrow> w);
          w = notify_tu cbs src prev_state w
      in if state = PJSIP_TSX_STATE_TERMINATED then enter_terminated w
         else if state = PJSIP_TSX_STATE_DESTROYED then tsx_shutdown (mod_tsx_layer_unregister_tsx w)
         else w)"

definition tsx_set_state_no_notify ::
  "tsx_callbacks \<Rightarrow> pjsip_tsx_state_e \<Rightarrow> event_src \<Rightarrow> tsx_world \<Rightarrow> tsx_world" where
  "tsx_set_state_no_notify cbs state src w =
     (let user = tsx_user w
      in (tsx_set_state cbs state src (w\<lparr>tsx_user := False\<rparr>))\<lparr>tsx_user := user\<rparr>)"

definition tsx_set_status_code :: "int \<Rightarrow> tsx_world \<Rightarrow> tsx_world" where
  "tsx_set_status_code code w = w\<lparr>status_code := code\<rparr>"

section \<open>Retransmission interval\<close>

definition resched_msec :: "tsx_world \<Rightarrow> pj_uint32_t" where
  "resched_msec w =
     (let t1 = cfg_t1 (cfg w); t2 = cfg_t2 (cfg w);
          msec_time = (if role w = PJSIP_ROLE_UAC \<and> status_code w \<ge> 100 then t2
                       else push_bit (retransmit_count w) 1 * t1)
      in if role w = PJSIP_ROLE_UAC then
           if msec_time > t2 \<and> tsx_method w \<noteq> PJSIP_INVITE_METHOD then t2 else msec_time
         else if status_code w < 200 then of_nat PJSIP_TSX_1XX_RETRANS_DELAY * 1000
         else if msec_time > t2 then t2 else msec_time)"

definition tsx_resched_retransmission :: "tsx_world \<Rightarrow> tsx_world" where
  "tsx_resched_retransmission w =
     (let msec_time = resched_msec w
      in if msec_time \<noteq> 0 then sched Retransmit_timer (msec_time_val msec_time) RETRANSMIT_TIMER w
         else w)"

section \<open>Sending\<close>

text \<open>
  The outcome of one \<^verbatim>\<open>tsx_send_msg\<close>: the status of \<^verbatim>\<open>pjsip_transport_send\<close>, should the transaction
  have a transport, and otherwise, for \<^verbatim>\<open>pjsip_endpt_send_request_stateless\<close> or
  \<^verbatim>\<open>pjsip_endpt_send_response\<close>, the invocations of \<^verbatim>\<open>send_msg_callback\<close> before the call returns,
  and its status. An invocation has the result (\<open>PJ_SUCCESS\<close> for a positive byte count), the
  transport, whether another address can be tried, the address, and the outcome of
  the send that the callback itself may make.
\<close>

datatype send_outcome = Send_outcome pj_status_t "send_notice list" pj_status_t
  and send_notice = Send_notice pj_status_t ptr bool nat send_outcome

fun tsx_send_msg ::
  "tsx_callbacks \<Rightarrow> send_outcome \<Rightarrow> ptr \<Rightarrow> tsx_world \<Rightarrow> pj_status_t \<times> tsx_world"
and send_msg_callback ::
  "tsx_callbacks \<Rightarrow> send_notice \<Rightarrow> ptr \<Rightarrow> tsx_world \<Rightarrow> tsx_world"
and run_notices ::
  "tsx_callbacks \<Rightarrow> send_notice list \<Rightarrow> ptr \<Rightarrow> tsx_world \<Rightarrow> tsx_world" where
  "tsx_send_msg cbs (Send_outcome tp_status notices sl_status) td w =
     (if td = 0 then (PJ_EINVAL, w)
      else if pending_transport w then (PJ_SUCCESS, w\<lparr>pending_send := True\<rparr>)
      else if is_pending (tdata w td) then (PJ_SUCCESS, w)
      else if transport w \<noteq> 0 \<and> tp_status = PJ_EPENDING then
        (PJ_SUCCESS, (emit (TransportSend td) w)
           \<lparr>grp_refs := grp_refs w + 1, inflight := inflight w + 1, pending_transport := True\<rparr>)
      else if transport w \<noteq> 0 \<and> tp_status = PJ_SUCCESS then
        (PJ_SUCCESS, emit (TransportSend td) w)
      else
        let had_transport = transport w \<noteq> 0;
            w = (if had_transport
                 then (tsx_update_transport 0 (emit (TransportSend td) w))\<lparr>tsx_addr := 0, res_transport := 0\<rparr>
                 else w)
        in if resolved_server w then
             let status = (if had_transport then tp_status else PJ_EUNKNOWN);
                 w = tsx_set_status_code PJSIP_SC_TSX_TRANSPORT_ERROR w;
                 w = tsx_set_state cbs PJSIP_TSX_STATE_TERMINATED SrcTransportError w
             in (status, w)
           else
             let w = tx_add_ref td w;
                 w = (tx_set_tsx td (self w) w)\<lparr>pending_tx := td, pending_transport := True\<rparr>;
                 w = run_notices cbs notices td (emit (StatelessSend td) w);
                 status = (if sl_status = PJ_EPENDING then PJ_SUCCESS else sl_status);
                 w = (if status \<noteq> PJ_SUCCESS then (tx_set_tsx td 0 (tx_dec_ref td w))\<lparr>pending_tx := 0\<rparr> else w);
                 status = (if status = PJ_SUCCESS \<and> tsx_state w = PJSIP_TSX_STATE_TERMINATED
                           then transport_err w else status)
             in (status, w))"
| "send_msg_callback cbs (Send_notice sent cur_transport cont addr inner) td w =
     (if \<not> mod_registered w \<or> tx_tsx (tdata w td) = 0 then w
      else
        let w = (tx_set_tsx td 0 w)\<lparr>pending_tx := 0\<rparr>
        in if sent = PJ_SUCCESS then
             let w = (if transport w \<noteq> cur_transport then
                        let w = (tsx_update_transport cur_transport w)\<lparr>tsx_addr := addr\<rparr>
                        in w\<lparr>is_reliable := tp_reliable (tps w (transport w))\<rparr>
                      else w);
                 w = w\<lparr>pending_transport := False, resolved_server := True\<rparr>
             in if pending_destroy w then tsx_set_state cbs PJSIP_TSX_STATE_DESTROYED SrcUnknown w
                else
                  let w = (if pending_send w
                           then snd (tsx_send_msg cbs inner (last_tx w) (w\<lparr>pending_send := False\<rparr>)) else w)
                  in if pending_resched w then
                       let w = w\<lparr>pending_resched := False\<rparr>
                       in if \<not> is_reliable w then tsx_resched_retransmission w else w
                     else w
           else
             let w = (if cur_transport = transport w then tsx_update_transport 0 w else w)
             in if \<not> cont \<or> pending_destroy w then
                  let w = w\<lparr>transport_err := sent, pending_transport := False, resolved_server := True\<rparr>;
                      sc = (if sent = PJ_ERESOLVE \<or> sent = PJLIB_UTIL_EDNS_NXDOMAIN then 502
                            else PJSIP_SC_TSX_TRANSPORT_ERROR);
                      w = tsx_set_status_code sc w
                  in if tsx_state w \<noteq> PJSIP_TSX_STATE_TERMINATED \<and> tsx_state w \<noteq> PJSIP_TSX_STATE_DESTROYED
                     then tsx_set_state cbs PJSIP_TSX_STATE_TERMINATED SrcTransportError w
                     else if pending_destroy w
                     then tsx_set_state cbs PJSIP_TSX_STATE_DESTROYED SrcTransportError w
                     else w
                else
                  let w = w\<lparr>retransmit_count := 0\<rparr>;
                      w = (if timer_id (timeout_timer w) \<noteq> 0
                           then sched Timeout_timer (timeout_timer_val w) TIMEOUT_TIMER (tsx_cancel_timer Timeout_timer w)
                           else w)
                  in (tx_set_tsx td (self w) w)\<lparr>pending_tx := td\<rparr>)"
| "run_notices cbs [] td w = w"
| "run_notices cbs (n # ns) td w = run_notices cbs ns td (send_msg_callback cbs n td w)"

declare tsx_send_msg.simps [simp del] send_msg_callback.simps [simp del]

definition transport_callback :: "pj_status_t \<Rightarrow> tsx_world \<Rightarrow> tsx_world" where
  "transport_callback sent w =
     (let w = w\<lparr>pending_transport := False, inflight := inflight w - 1\<rparr>;
          w = (if sent \<noteq> PJ_SUCCESS then
                 let w = w\<lparr>transport_err := sent\<rparr>;
                     w = tsx_cancel_timer Timeout_timer w
                 in sched Timeout_timer zero_time TRANSPORT_ERR_TIMER w
               else w)
      in w\<lparr>grp_refs := grp_refs w - 1\<rparr>)"

definition tsx_retransmit ::
  "tsx_callbacks \<Rightarrow> send_outcome \<Rightarrow> bool \<Rightarrow> tsx_world \<Rightarrow> pj_status_t \<times> tsx_world" where
  "tsx_retransmit cbs out resched w =
     (if resched \<and> running (retransmit_timer w) \<noteq> None then (PJ_SUCCESS, w)
      else if last_tx w = 0 then (PJ_EBUG, w)
      else
        let w = w\<lparr>retransmit_count := retransmit_count w + 1\<rparr>;
            w = (if resched then
                   if pending_transport w then w\<lparr>pending_resched := True\<rparr>
                   else tsx_resched_retransmission w
                 else w)
        in tsx_send_msg cbs out (last_tx w) w)"

section \<open>State handlers\<close>

text \<open>
  A handler gives the status and the new state; \<open>None\<close> stands for an access through \<^verbatim>\<open>NULL\<close> or,
  in \<^verbatim>\<open>tsx_on_state_null\<close>, through the wrong member of the event union.
\<close>

definition save_last_tx :: "ptr \<Rightarrow> tsx_world \<Rightarrow> tsx_world" where
  "save_last_tx td w = (if last_tx w \<noteq> td then tx_add_ref td (w\<lparr>last_tx := td\<rparr>) else w)"

definition drop_last_tx :: "ptr \<Rightarrow> tsx_world \<Rightarrow> tsx_world" where
  "drop_last_tx td w =
     (if last_tx w \<noteq> 0 \<and> last_tx w \<noteq> td then (tx_dec_ref (last_tx w) w)\<lparr>last_tx := 0\<rparr> else w)"

definition restart_timeout :: "pj_time_val \<Rightarrow> tsx_world \<Rightarrow> tsx_world" where
  "restart_timeout delay w =
     sched Timeout_timer delay TIMEOUT_TIMER (tsx_cancel_timer Timeout_timer w)"

definition resched_or_flag :: "pj_time_val \<Rightarrow> tsx_world \<Rightarrow> tsx_world" where
  "resched_or_flag delay w =
     (let w = w\<lparr>retransmit_count := 0\<rparr>
      in if pending_transport w then w\<lparr>pending_resched := True\<rparr>
         else sched Retransmit_timer delay RETRANSMIT_TIMER w)"

definition tsx_on_state_null ::
  "tsx_callbacks \<Rightarrow> send_outcome \<Rightarrow> pjsip_event \<Rightarrow> tsx_world \<Rightarrow> (pj_status_t \<times> tsx_world) option" where
  "tsx_on_state_null cbs out event w =
     (if role w = PJSIP_ROLE_UAS then
        case event of
          EvRxMsg rx \<Rightarrow> Some (PJ_SUCCESS, tsx_set_state cbs PJSIP_TSX_STATE_TRYING (SrcRxMsg rx) w)
        | _ \<Rightarrow> if tsx_user w then None
               else Some (PJ_SUCCESS, tsx_set_state cbs PJSIP_TSX_STATE_TRYING SrcUnknown w)
      else
        case event of
          EvTxMsg td \<Rightarrow>
            let w = save_last_tx td (drop_last_tx td w);
                (status, w) = tsx_send_msg cbs out td w
            in if status \<noteq> PJ_SUCCESS then Some (status, w)
               else
                 let w = restart_timeout (timeout_timer_val w) w;
                     w = (if \<not> is_reliable w then resched_or_flag (t1_timer_val w) w else w)
                 in Some (PJ_SUCCESS, tsx_set_state cbs PJSIP_TSX_STATE_CALLING SrcTxMsg w)
        | _ \<Rightarrow> Some (PJ_EBUG, w))"

text \<open>Final and provisional responses to a client transaction.\<close>

definition final_ack ::
  "tsx_callbacks \<Rightarrow> send_outcome \<Rightarrow> pj_status_t \<times> ptr \<Rightarrow> rx_msg \<Rightarrow> tsx_world \<Rightarrow> (pj_status_t \<times> tsx_world) option" where
  "final_ack cbs out ack rx w =
     (let w = tsx_cancel_timer Retransmit_timer w;
          w = tsx_cancel_timer Timeout_timer w;
          invite = (tsx_method w = PJSIP_INVITE_METHOD)
      in if invite \<and> last_tx w = 0 then None
         else if invite \<and> fst ack \<noteq> PJ_SUCCESS then Some (fst ack, w)
         else
           let (status, w) = (if invite then tsx_send_msg cbs out (snd ack) w else (PJ_SUCCESS, w))
           in if status \<noteq> PJ_SUCCESS then Some (status, w)
              else
                let w = tsx_set_state cbs PJSIP_TSX_STATE_COMPLETED (SrcRxMsg rx) w
                in if invite \<and> snd ack \<noteq> last_tx w \<and> last_tx w = 0 then None
                   else
                     let w = (if invite \<and> snd ack \<noteq> last_tx w
                              then (tx_dec_ref (last_tx w) w)\<lparr>last_tx := snd ack\<rparr> else w);
                         timeout = (if \<not> is_reliable w then if invite then td_timer_val w else t4_timer_val w
                                    else zero_time)
                     in Some (PJ_SUCCESS, restart_timeout timeout w))"

definition tsx_on_state_proceeding_uac ::
  "tsx_callbacks \<Rightarrow> send_outcome \<Rightarrow> pj_status_t \<times> ptr \<Rightarrow> pjsip_event \<Rightarrow> tsx_world \<Rightarrow> (pj_status_t \<times> tsx_world) option" where
  "tsx_on_state_proceeding_uac cbs out ack event w =
     (case event of
        EvTxMsg td \<Rightarrow> Some (PJ_EINVALIDOP, w)
      | EvTimer Retransmit_timer \<Rightarrow> Some (tsx_retransmit cbs out True w)
      | EvTimer Timeout_timer \<Rightarrow>
          let w = tsx_set_status_code 408 w
          in Some (PJ_SUCCESS, tsx_set_state cbs PJSIP_TSX_STATE_TERMINATED SrcTimer w)
      | EvRxMsg (RxRequest m) \<Rightarrow> Some (PJSIP_ENOTRESPONSEMSG, w)
      | EvRxMsg (RxResponse code) \<Rightarrow>
          let w = tsx_set_status_code code w
          in if PJSIP_IS_STATUS_IN_CLASS (status_code w) 100 then
               Some (PJ_SUCCESS, tsx_set_state cbs PJSIP_TSX_STATE_PROCEEDING (SrcRxMsg (RxResponse code)) w)
             else if PJSIP_IS_STATUS_IN_CLASS (status_code w) 200 then
               let w = tsx_cancel_timer Timeout_timer w
               in if tsx_method w = PJSIP_INVITE_METHOD then
                    Some (PJ_SUCCESS, tsx_set_state cbs PJSIP_TSX_STATE_TERMINATED (SrcRxMsg (RxResponse code)) w)
                  else
                    let timeout = (if \<not> is_reliable w then t4_timer_val w else zero_time);
                        w = sched Timeout_timer timeout TIMEOUT_TIMER w;
                        w = tsx_cancel_timer Retransmit_timer w
                    in Some (PJ_SUCCESS, tsx_set_state cbs PJSIP_TSX_STATE_COMPLETED (SrcRxMsg (RxResponse code)) w)
             else if status_code w \<ge> 300 \<and> status_code w \<le> 699 then
               final_ack cbs out ack (RxResponse code) w
             else Some (PJ_EBUG, w))"

definition tsx_on_state_calling ::
  "tsx_callbacks \<Rightarrow> send_outcome \<Rightarrow> pj_status_t \<times> ptr \<Rightarrow> pjsip_event \<Rightarrow> tsx_world \<Rightarrow> (pj_status_t \<times> tsx_world) option" where
  "tsx_on_state_calling cbs out ack event w =
     (case event of
        EvTimer Retransmit_timer \<Rightarrow> Some (tsx_retransmit cbs out True w)
      | EvTimer Timeout_timer \<Rightarrow>
          let w = tsx_cancel_timer Retransmit_timer w;
              w = w\<lparr>pending_resched := False\<rparr>;
              w = tsx_set_status_code 408 w
          in Some (PJ_SUCCESS, tsx_set_state cbs PJSIP_TSX_STATE_TERMINATED SrcTimer w)
      | EvRxMsg (RxRequest m) \<Rightarrow> Some (PJSIP_ENOTRESPONSEMSG, w)
      | EvRxMsg (RxResponse code) \<Rightarrow>
          let w = (if code \<ge> 200 then
                     let w = tsx_cancel_timer Retransmit_timer w
                     in if timer_id (timeout_timer w) \<noteq> 0 then tsx_cancel_timer Timeout_timer w else w
                   else
                     let w = tsx_cancel_timer Retransmit_timer w
                     in if tsx_method w = PJSIP_INVITE_METHOD then tsx_cancel_timer Timeout_timer w
                        else if \<not> is_reliable w
                        then sched Retransmit_timer (t2_timer_val w) RETRANSMIT_TIMER w else w);
              w = w\<lparr>pending_resched := False\<rparr>
          in map_option (\<lambda>(status, w). (PJ_SUCCESS, w)) (tsx_on_state_proceeding_uac cbs out ack event w)
      | EvTxMsg td \<Rightarrow> Some (PJ_EBUG, w))"

text \<open>The response that a server transaction sends.\<close>

definition uas_send_response ::
  "tsx_callbacks \<Rightarrow> ptr \<Rightarrow> tsx_world \<Rightarrow> pj_status_t \<times> tsx_world" where
  "uas_send_response cbs td w =
     (if PJSIP_IS_STATUS_IN_CLASS (status_code w) 100 then
        let w = save_last_tx td w;
            w = tsx_set_state cbs PJSIP_TSX_STATE_PROCEEDING SrcTxMsg w;
            w = (if tsx_method w = PJSIP_INVITE_METHOD \<and> status_code w > 100 then
                   resched_or_flag (Time_val (int PJSIP_TSX_1XX_RETRANS_DELAY) 0) (tsx_cancel_timer Retransmit_timer w)
                 else w)
        in (PJ_SUCCESS, w)
      else if PJSIP_IS_STATUS_IN_CLASS (status_code w) 200 then
        let w = tsx_cancel_timer Retransmit_timer w
        in if tsx_method w = PJSIP_INVITE_METHOD \<and> \<not> handle_200resp w then
             (PJ_SUCCESS, tsx_set_state cbs PJSIP_TSX_STATE_TERMINATED SrcTxMsg w)
           else
             let w = (if tsx_method w = PJSIP_INVITE_METHOD then resched_or_flag (t1_timer_val w) w else w);
                 w = save_last_tx td w;
                 timeout = (if tsx_method w = PJSIP_INVITE_METHOD then timeout_timer_val w
                            else if \<not> is_reliable w then timeout_timer_val w else zero_time);
                 w = restart_timeout timeout w
             in (PJ_SUCCESS, tsx_set_state cbs PJSIP_TSX_STATE_COMPLETED SrcTxMsg w)
      else if status_code w \<ge> 300 then
        let w = tsx_cancel_timer Retransmit_timer w;
            w = save_last_tx td w;
            timeout = (if tsx_method w = PJSIP_INVITE_METHOD then timeout_timer_val w
                       else if \<not> is_reliable w then timeout_timer_val w else zero_time);
            w = restart_timeout timeout w;
            w = (if \<not> is_reliable w \<and> tx_cseq_method (tdata w td) = PJSIP_INVITE_METHOD
                 then resched_or_flag (t1_timer_val w) w else w)
        in (PJ_SUCCESS, tsx_set_state cbs PJSIP_TSX_STATE_COMPLETED SrcTxMsg w)
      else (PJ_SUCCESS, w))"

definition tsx_on_state_proceeding_uas ::
  "tsx_callbacks \<Rightarrow> send_outcome \<Rightarrow> pjsip_event \<Rightarrow> tsx_world \<Rightarrow> pj_status_t \<times> tsx_world" where
  "tsx_on_state_proceeding_uas cbs out event w =
     (case event of
        EvRxMsg rx \<Rightarrow>
          if last_tx w = 0 then (PJ_EBUG, w)
          else if pending_transport w then (PJ_SUCCESS, w\<lparr>pending_send := True\<rparr>)
          else tsx_send_msg cbs out (last_tx w) w
      | EvTxMsg td \<Rightarrow>
          if is_request (tdata w td) then (PJSIP_ENOTRESPONSEMSG, w)
          else
            let w = tsx_set_status_code (tx_code (tdata w td)) w;
                w = drop_last_tx td w;
                (status, w) = tsx_send_msg cbs out td w
            in if status \<noteq> PJ_SUCCESS then (status, w) else uas_send_response cbs td w
      | EvTimer Retransmit_timer \<Rightarrow> tsx_retransmit cbs out True w
      | EvTimer Timeout_timer \<Rightarrow>
          let w = tsx_set_status_code 408 w
          in (PJ_EBUG, tsx_set_state cbs PJSIP_TSX_STATE_TERMINATED SrcTimer w))"

definition tsx_on_state_trying ::
  "tsx_callbacks \<Rightarrow> send_outcome \<Rightarrow> pjsip_event \<Rightarrow> tsx_world \<Rightarrow> pj_status_t \<times> tsx_world" where
  "tsx_on_state_trying cbs out event w =
     (case event of
        EvTxMsg td \<Rightarrow>
          let (status, w) = tsx_on_state_proceeding_uas cbs out event w
          in if status = PJ_SUCCESS \<and> tsx_state w = PJSIP_TSX_STATE_TRYING
             then (status, tsx_set_state cbs PJSIP_TSX_STATE_PROCEEDING SrcTxMsg w)
             else (status, w)
      | _ \<Rightarrow> (PJ_SUCCESS, w))"

definition tsx_on_state_completed_uas ::
  "tsx_callbacks \<Rightarrow> send_outcome \<Rightarrow> pjsip_event \<Rightarrow> tsx_world \<Rightarrow> pj_status_t \<times> tsx_world" where
  "tsx_on_state_completed_uas cbs out event w =
     (case event of
        EvRxMsg (RxResponse code) \<Rightarrow> (PJSIP_ENOTREQUESTMSG, w)
      | EvRxMsg (RxRequest m) \<Rightarrow>
          if m \<noteq> PJSIP_ACK_METHOD then tsx_retransmit cbs out False w
          else if tsx_method w \<noteq> PJSIP_INVITE_METHOD then (PJSIP_EINVALIDMETHOD, w)
          else
            let w = tsx_cancel_timer Retransmit_timer w;
                w = w\<lparr>pending_resched := False\<rparr>;
                w = restart_timeout (if is_reliable w then zero_time else t4_timer_val w) w
            in (PJ_SUCCESS, tsx_set_state cbs PJSIP_TSX_STATE_CONFIRMED (SrcRxMsg (RxRequest m)) w)
      | EvTimer Retransmit_timer \<Rightarrow> tsx_retransmit cbs out True w
      | EvTimer Timeout_timer \<Rightarrow>
          let w = (if tsx_method w = PJSIP_INVITE_METHOD then tsx_set_status_code 408 w else w)
          in (PJ_SUCCESS, tsx_set_state cbs PJSIP_TSX_STATE_TERMINATED SrcTimer w)
      | EvTxMsg td \<Rightarrow> if td = last_tx w then (PJ_SUCCESS, w) else (PJ_EINVALIDOP, w))"

definition tsx_on_state_completed_uac ::
  "tsx_callbacks \<Rightarrow> send_outcome \<Rightarrow> pjsip_event \<Rightarrow> tsx_world \<Rightarrow> pj_status_t \<times> tsx_world" where
  "tsx_on_state_completed_uac cbs out event w =
     (case event of
        EvTimer Retransmit_timer \<Rightarrow> (PJ_SUCCESS, w)
      | EvTimer Timeout_timer \<Rightarrow> (PJ_SUCCESS, tsx_set_state cbs PJSIP_TSX_STATE_TERMINATED SrcTimer w)
      | EvRxMsg rx \<Rightarrow>
          if tsx_method w = PJSIP_INVITE_METHOD then
            case rx of
              RxResponse code \<Rightarrow> if code \<ge> 200 then tsx_retransmit cbs out False w else (PJ_SUCCESS, w)
            | RxRequest m \<Rightarrow> (PJ_SUCCESS, w)
          else (PJ_SUCCESS, w)
      | EvTxMsg td \<Rightarrow> (PJ_EINVALIDOP, w))"

definition tsx_on_state_confirmed ::
  "tsx_callbacks \<Rightarrow> pjsip_event \<Rightarrow> tsx_world \<Rightarrow> pj_status_t \<times> tsx_world" where
  "tsx_on_state_confirmed cbs event w =
     (case event of
        EvRxMsg (RxResponse code) \<Rightarrow> (PJSIP_ENOTREQUESTMSG, w)
      | EvRxMsg (RxRequest m) \<Rightarrow> (PJ_SUCCESS, w)
      | EvTimer Retransmit_timer \<Rightarrow> (PJ_SUCCESS, w)
      | EvTimer Timeout_timer \<Rightarrow> (PJ_SUCCESS, tsx_set_state cbs PJSIP_TSX_STATE_TERMINATED SrcTimer w)
      | EvTxMsg td \<Rightarrow> (PJ_EBUG, w))"

definition tsx_on_state_terminated ::
  "tsx_callbacks \<Rightarrow> pjsip_event \<Rightarrow> tsx_world \<Rightarrow> pj_status_t \<times> tsx_world" where
  "tsx_on_state_terminated cbs event w =
     (case event of
        EvTimer t \<Rightarrow> (PJ_SUCCESS, tsx_set_state cbs PJSIP_TSX_STATE_DESTROYED SrcTimer w)
      | _ \<Rightarrow> (PJ_EIGNORED, w))"

definition tsx_on_state_destroyed :: "pjsip_event \<Rightarrow> tsx_world \<Rightarrow> pj_status_t \<times> tsx_world" where
  "tsx_on_state_destroyed event w = (PJ_EIGNORED, w)"

text \<open>The indirect call through \<^verbatim>\<open>tsx->state_handler\<close>; \<open>None\<close> also when it is \<^verbatim>\<open>NULL\<close>.\<close>

definition call_state_handler ::
  "tsx_callbacks \<Rightarrow> send_outcome \<Rightarrow> pj_status_t \<times> ptr \<Rightarrow> pjsip_event \<Rightarrow> tsx_world \<Rightarrow> (pj_status_t \<times> tsx_world) option" where
  "call_state_handler cbs out ack event w =
     (case state_handler w of
        None \<Rightarrow> None
      | Some Tsx_on_state_null \<Rightarrow> tsx_on_state_null cbs out event w
      | Some Tsx_on_state_calling \<Rightarrow> tsx_on_state_calling cbs out ack event w
      | Some Tsx_on_state_trying \<Rightarrow> Some (tsx_on_state_trying cbs out event w)
      | Some Tsx_on_state_proceeding_uas \<Rightarrow> Some (tsx_on_state_proceeding_uas cbs out event w)
      | Some Tsx_on_state_proceeding_uac \<Rightarrow> tsx_on_state_proceeding_uac cbs out ack event w
      | Some Tsx_on_state_completed_uas \<Rightarrow> Some (tsx_on_state_completed_uas cbs out event w)
      | Some Tsx_on_state_completed_uac \<Rightarrow> Some (tsx_on_state_completed_uac cbs out event w)
      | Some Tsx_on_state_confirmed \<Rightarrow> Some (tsx_on_state_confirmed cbs event w)
      | Some Tsx_on_state_terminated \<Rightarrow> Some (tsx_on_state_terminated cbs event w)
      | Some Tsx_on_state_destroyed \<Rightarrow> Some (tsx_on_state_destroyed event w))"

section \<open>Operations\<close>

definition tsx_timer_callback ::
  "tsx_callbacks \<Rightarrow> send_outcome \<Rightarrow> pj_status_t \<times> ptr \<Rightarrow> tsx_timer_name \<Rightarrow> tsx_world \<Rightarrow> tsx_world option" where
  "tsx_timer_callback cbs out ack entry w =
     (let ident = timer_id (get_timer entry w);
          w = set_timer entry ((get_timer entry w)\<lparr>timer_id := 0\<rparr>) w
      in if ident = TRANSPORT_ERR_TIMER then
           if tsx_state w < PJSIP_TSX_STATE_TERMINATED then
             let prev_state = tsx_state w;
                 w = tsx_update_transport 0 w;
                 w = (if status_code w < 200 then tsx_set_status_code PJSIP_SC_TSX_TRANSPORT_ERROR w else w);
                 w = tsx_set_state_no_notify cbs PJSIP_TSX_STATE_TERMINATED SrcTransportError w
             in Some (notify_tu cbs SrcTransportError prev_state w)
           else Some w
         else map_option snd (call_state_handler cbs out ack (EvTimer entry) w))"

text \<open>
  Expiry: the heap removes the entry, runs the callback and then drops the reference to the group
  lock that it held for the entry.
\<close>

definition timer_expires ::
  "tsx_callbacks \<Rightarrow> send_outcome \<Rightarrow> pj_status_t \<times> ptr \<Rightarrow> tsx_timer_name \<Rightarrow> tsx_world \<Rightarrow> tsx_world option" where
  "timer_expires cbs out ack entry w =
     (let w = set_timer entry ((get_timer entry w)\<lparr>running := None\<rparr>) w
      in map_option (\<lambda>w. w\<lparr>grp_refs := grp_refs w - 1\<rparr>) (tsx_timer_callback cbs out ack entry w))"

definition pjsip_tsx_terminate :: "tsx_callbacks \<Rightarrow> int \<Rightarrow> tsx_world \<Rightarrow> pj_status_t \<times> tsx_world" where
  "pjsip_tsx_terminate cbs code w =
     (if \<not> code \<ge> 200 then (PJ_EINVAL, w)
      else if tsx_state w < PJSIP_TSX_STATE_TERMINATED then
        (PJ_SUCCESS, tsx_set_state cbs PJSIP_TSX_STATE_TERMINATED SrcUser (tsx_set_status_code code w))
      else (PJ_SUCCESS, w))"

definition pjsip_tsx_stop_retransmit :: "tsx_world \<Rightarrow> pj_status_t \<times> tsx_world" where
  "pjsip_tsx_stop_retransmit w =
     (if \<not> (role w = PJSIP_ROLE_UAC \<and> tsx_method w = PJSIP_INVITE_METHOD) then (PJ_EINVALIDOP, w)
      else (PJ_SUCCESS, tsx_cancel_timer Retransmit_timer w))"

definition pjsip_tsx_set_timeout :: "pj_uint32_t \<Rightarrow> tsx_world \<Rightarrow> pj_status_t \<times> tsx_world" where
  "pjsip_tsx_set_timeout millisec w =
     (if \<not> (role w = PJSIP_ROLE_UAC \<and> tsx_method w = PJSIP_INVITE_METHOD) then (PJ_EINVALIDOP, w)
      else if status_code w \<ge> 200 \<and> timer_id (timeout_timer w) \<noteq> 0 then (PJ_EEXISTS, w)
      else
        let w = tsx_cancel_timer Timeout_timer w;
            timeout = pj_time_val_normalize (Time_val 0 (uint millisec))
        in (PJ_SUCCESS, sched Timeout_timer timeout TIMEOUT_TIMER w))"

definition pjsip_tsx_set_transport :: "ptr \<Rightarrow> tsx_world \<Rightarrow> pj_status_t \<times> tsx_world" where
  "pjsip_tsx_set_transport sel w =
     (let w = pjsip_tpselector_dec_ref (tp_sel w) w;
          w = w\<lparr>tp_sel := sel\<rparr>
      in (PJ_SUCCESS, pjsip_tpselector_add_ref sel w))"

definition pjsip_tsx_send_msg ::
  "tsx_callbacks \<Rightarrow> send_outcome \<Rightarrow> pj_status_t \<times> ptr \<Rightarrow> ptr \<Rightarrow> tsx_world \<Rightarrow> (pj_status_t \<times> tsx_world) option" where
  "pjsip_tsx_send_msg cbs out ack td w =
     (let td = (if td = 0 then last_tx w else td)
      in if td = 0 then Some (PJ_EINVALIDOP, w)
         else case call_state_handler cbs out ack (EvTxMsg td) w of
             None \<Rightarrow> None
           | Some (status, w) \<Rightarrow> Some (status, if status = PJ_SUCCESS then tx_dec_ref td w else w))"

definition pjsip_tsx_recv_msg ::
  "tsx_callbacks \<Rightarrow> send_outcome \<Rightarrow> pj_status_t \<times> ptr \<Rightarrow> rx_msg \<Rightarrow> tsx_world \<Rightarrow> tsx_world option" where
  "pjsip_tsx_recv_msg cbs out ack rx w =
     map_option snd (call_state_handler cbs out ack (EvRxMsg rx) w)"

definition pjsip_tsx_retransmit_no_state ::
  "tsx_callbacks \<Rightarrow> send_outcome \<Rightarrow> ptr \<Rightarrow> tsx_world \<Rightarrow> (pj_status_t \<times> tsx_world) option" where
  "pjsip_tsx_retransmit_no_state cbs out td w =
     (if td = 0 \<and> last_tx w = 0 then None
      else
        let (td, w) = (if td = 0 then (last_tx w, tx_add_ref (last_tx w) w) else (td, w));
            (status, w) = tsx_send_msg cbs out td w
        in Some (status, if status = PJ_SUCCESS then tx_dec_ref td w else w))"

section \<open>Creation\<close>

text \<open>
  The outside of a creation call: the results of the allocation of the pool, of the group lock
  and of the mutex, of the destination (or response address) lookup with the transport it
  yields, and the unique string used for a new branch.
\<close>

record create_env =
  pool_ok :: bool
  lock_status :: pj_status_t
  mutex_status :: pj_status_t
  addr_status :: pj_status_t
  addr_reliable :: bool
  addr_transport :: ptr
  addr_value :: nat
  unique_string :: bytes

definition idle_timer :: tsx_timer where
  "idle_timer = \<lparr>timer_id = TIMER_INACTIVE, running = None\<rparr>"

text \<open>
  A zeroed transaction over a world. \<open>given_lock\<close> says whether the caller supplied the group lock;
  a new one starts without references.
\<close>

definition tsx_create ::
  "create_env \<Rightarrow> bool \<Rightarrow> bool \<Rightarrow> ptr \<Rightarrow> tsx_world \<Rightarrow> pj_status_t \<times> tsx_world" where
  "tsx_create env user given_lock addr w0 =
     (if \<not> pool_ok env then (PJ_ENOMEM, w0)
      else
        let w = w0\<lparr>self := addr, tsx_user := user, terminating := False, role := PJSIP_ROLE_UAC,
              tsx_method := PJSIP_INVITE_METHOD, transaction_key := [], hashed_key := 0, status_code := 0,
              tsx_state := PJSIP_TSX_STATE_NULL, handle_200resp := True, state_handler := None,
              transport := 0, is_reliable := False, tsx_addr := 0, res_transport := 0,
              pending_transport := False, pending_resched := False, pending_send := False,
              pending_destroy := False, resolved_server := False, transport_err := PJ_SUCCESS,
              tp_sel := 0, pending_tx := 0, last_tx := 0, retransmit_count := 0,
              retransmit_timer := idle_timer, timeout_timer := idle_timer\<rparr>
        in if \<not> given_lock \<and> lock_status env \<noteq> PJ_SUCCESS then (lock_status env, w0)
           else
             let w = w\<lparr>grp_refs := (if given_lock then grp_refs w0 else 0) + 1\<rparr>
             in if mutex_status env \<noteq> PJ_SUCCESS then (mutex_status env, tsx_shutdown w)
                else (PJ_SUCCESS, w))"

text \<open>
  The request of a client transaction: whether it has a CSeq header, its method and the branch of
  its topmost Via (empty when there is none).
\<close>

record uac_request =
  req_tdata :: ptr
  req_cseq :: bool
  req_method :: pjsip_method
  req_branch :: bytes

definition PJSIP_NEW_BRANCH :: "create_env \<Rightarrow> bytes" where
  "PJSIP_NEW_BRANCH env = PJSIP_RFC3261_BRANCH_ID @ [80, 106] @ unique_string env"

definition pjsip_tsx_create_uac2 ::
  "bool \<Rightarrow> create_env \<Rightarrow> bool \<Rightarrow> bool \<Rightarrow> ptr \<Rightarrow> uac_request \<Rightarrow> tsx_world \<Rightarrow> pj_status_t \<times> tsx_world" where
  "pjsip_tsx_create_uac2 own env user given_lock addr req w =
     (if req_tdata req = 0 then (PJ_EINVAL, w)
      else if \<not> is_request (tdata w (req_tdata req)) then (PJSIP_ENOTREQUESTMSG, w)
      else if method_id (req_method req) = PJSIP_ACK_METHOD then (PJ_EINVALIDOP, w)
      else if \<not> req_cseq req then (PJSIP_EMISSINGHDR, w)
      else
        let (status, w) = tsx_create env user given_lock addr w
        in if status \<noteq> PJ_SUCCESS then (status, w)
           else
             let branch = (if req_branch req = [] then PJSIP_NEW_BRANCH env else req_branch req);
                 key = create_tsx_key_3261 PJSIP_ROLE_UAC (req_method req) branch;
                 w = w\<lparr>role := PJSIP_ROLE_UAC, tsx_method := method_id (req_method req), transaction_key := key,
                   hashed_key := fst (pj_hash_calc_tolower own 0 key),
                   tsx_state := PJSIP_TSX_STATE_NULL, state_handler := Some Tsx_on_state_null,
                   last_tx := req_tdata req\<rparr>;
                 w = tx_add_ref (last_tx w) w
             in if addr_status env \<noteq> PJ_SUCCESS then (addr_status env, tsx_shutdown w)
                else
                  let w = w\<lparr>is_reliable := addr_reliable env\<rparr>;
                      (status, w) = mod_tsx_layer_register_tsx w
                  in if status \<noteq> PJ_SUCCESS then (status, tsx_shutdown w) else (PJ_SUCCESS, w))"

record uas_request =
  rx_is_request :: bool
  rx_method :: pjsip_method
  rx_cseq_method :: "pjsip_method option"
  rx_via :: bool
  rx_info :: rdata_info

text \<open>\<open>None\<close> is the overrun of the key buffer.\<close>

definition pjsip_method_cmp_eq :: "pjsip_method \<Rightarrow> pjsip_method \<Rightarrow> bool" where
  "pjsip_method_cmp_eq m1 m2 \<longleftrightarrow>
     method_id m1 = method_id m2 \<and> (method_id m1 = PJSIP_OTHER_METHOD \<longrightarrow> name m1 = name m2)"

definition pjsip_tsx_create_uas2 ::
  "bool \<Rightarrow> create_env \<Rightarrow> bool \<Rightarrow> bool \<Rightarrow> ptr \<Rightarrow> uas_request \<Rightarrow> tsx_world \<Rightarrow> (pj_status_t \<times> tsx_world) option" where
  "pjsip_tsx_create_uas2 own env user given_lock addr rx w =
     (if \<not> rx_is_request rx then Some (PJSIP_ENOTREQUESTMSG, w)
      else if method_id (rx_method rx) = PJSIP_ACK_METHOD then Some (PJ_EINVALIDOP, w)
      else case rx_cseq_method rx of
          None \<Rightarrow> Some (PJSIP_EMISSINGHDR, w)
        | Some cm \<Rightarrow>
            if \<not> rx_via rx then Some (PJSIP_EMISSINGHDR, w)
            else if \<not> pjsip_method_cmp_eq (rx_method rx) cm then Some (PJSIP_EINVALIDHDR, w)
            else
              let (status, w) = tsx_create env user given_lock addr w
              in if status \<noteq> PJ_SUCCESS then Some (status, w)
                 else case pjsip_tsx_create_key PJSIP_ROLE_UAS (rx_method rx) (rx_info rx) of
                     None \<Rightarrow> None
                   | Some tkey \<Rightarrow>
                       let w = w\<lparr>role := PJSIP_ROLE_UAS, tsx_method := method_id (rx_method rx),
                             transaction_key := tkey, hashed_key := fst (pj_hash_calc_tolower own 0 tkey),
                             tsx_state := PJSIP_TSX_STATE_NULL, state_handler := Some Tsx_on_state_null\<rparr>
                       in if addr_status env \<noteq> PJ_SUCCESS then Some (addr_status env, tsx_shutdown w)
                          else
                            let w = w\<lparr>res_transport := addr_transport env\<rparr>;
                                w = (if addr_transport env \<noteq> 0 then
                                       let w = (tsx_update_transport (addr_transport env) w)\<lparr>tsx_addr := addr_value env\<rparr>
                                       in w\<lparr>is_reliable := tp_reliable (tps w (transport w))\<rparr>
                                     else w\<lparr>is_reliable := addr_reliable env\<rparr>);
                                (status, w) = mod_tsx_layer_register_tsx w
                            in if status \<noteq> PJ_SUCCESS then Some (status, tsx_shutdown w)
                               else Some (PJ_SUCCESS, w))"

end
