(* ===== verification/PJ_TsxSafety.thy ===== *)
theory PJ_TsxSafety
  imports PJ_Transaction
begin

text \<open>
  Safety of the transaction state machine of \<open>PJ_Transaction\<close>: whatever sequence of messages,
  timer expiries, transport notifications and user calls arrives, and whatever the user does in its
  callbacks within its contract, no \<^verbatim>\<open>NULL\<close> handler or message is dereferenced, the state never goes
  back, and only states that exist for the role and method are entered.
\<close>

section \<open>Invariant and progress\<close>

definition valid_state :: "pjsip_role_e \<Rightarrow> pjsip_method_e \<Rightarrow> pjsip_tsx_state_e \<Rightarrow> bool" where
  "valid_state r m s \<longleftrightarrow>
     (if r = PJSIP_ROLE_UAC then s \<noteq> PJSIP_TSX_STATE_TRYING \<and> s \<noteq> PJSIP_TSX_STATE_CONFIRMED
      else s \<noteq> PJSIP_TSX_STATE_CALLING \<and> (s = PJSIP_TSX_STATE_CONFIRMED \<longrightarrow> m = PJSIP_INVITE_METHOD))"

text \<open>Before a server transaction has received its request only a transport error can be pending.\<close>

definition timers_null :: "tsx_world \<Rightarrow> bool" where
  "timers_null w \<longleftrightarrow>
     (role w = PJSIP_ROLE_UAS \<and> tsx_state w = PJSIP_TSX_STATE_NULL \<longrightarrow>
        running (retransmit_timer w) = None \<and>
        (running (timeout_timer w) \<noteq> None \<longrightarrow> timer_id (timeout_timer w) = TRANSPORT_ERR_TIMER))"

definition tsx_inv :: "tsx_world \<Rightarrow> bool" where
  "tsx_inv w \<longleftrightarrow>
     state_handler w = handler_of (role w) (tsx_state w) \<and>
     valid_state (role w) (tsx_method w) (tsx_state w) \<and>
     (role w = PJSIP_ROLE_UAC \<and> \<not> terminating w \<longrightarrow> last_tx w \<noteq> 0) \<and>
     (terminating w \<or> pending_destroy w \<longrightarrow> PJSIP_TSX_STATE_TERMINATED \<le> tsx_state w) \<and>
     timers_null w"

definition grows :: "tsx_world \<Rightarrow> tsx_world \<Rightarrow> bool" where
  "grows w w' \<longleftrightarrow>
     tsx_inv w' \<and> role w' = role w \<and> tsx_method w' = tsx_method w \<and> tsx_state w \<le> tsx_state w' \<and>
     (tsx_state w < PJSIP_TSX_STATE_DESTROYED \<longrightarrow> tsx_state w' < PJSIP_TSX_STATE_DESTROYED) \<and>
     (\<not> terminating w \<longrightarrow> \<not> terminating w') \<and> (\<not> pending_destroy w \<longrightarrow> \<not> pending_destroy w') \<and>
     (transport_err w \<noteq> PJ_SUCCESS \<longrightarrow> transport_err w' \<noteq> PJ_SUCCESS)"

lemma grows_refl: "tsx_inv w \<Longrightarrow> grows w w"
  by (simp add: grows_def)

lemma grows_trans [trans]: "grows a b \<Longrightarrow> grows b c \<Longrightarrow> grows a c"
  by (auto simp: grows_def)

lemma grows_inv: "grows w w' \<Longrightarrow> tsx_inv w'"
  by (simp add: grows_def)

lemma grows_state: "grows w w' \<Longrightarrow> tsx_state w \<le> tsx_state w'"
  by (simp add: grows_def)

text \<open>
  The contract of the callbacks: they may call into the transaction, as long as they keep its
  invariant and do not make it go back or destroy it.
\<close>

definition tu_ok :: "tsx_callbacks \<Rightarrow> bool" where
  "tu_ok cbs \<longleftrightarrow>
     (\<forall>rx w. tsx_inv w \<longrightarrow> grows w (on_rx_response cbs rx w)) \<and>
     (\<forall>src prev w. tsx_inv w \<longrightarrow> grows w (on_tsx_state cbs src prev w))"

section \<open>What the helpers leave alone\<close>

text \<open>The fields that the invariant speaks about, apart from the timers.\<close>

definition core ::
  "tsx_world \<Rightarrow> pjsip_role_e \<times> pjsip_method_e \<times> pjsip_tsx_state_e \<times> tsx_handler option \<times> bool \<times> bool" where
  "core w = (role w, tsx_method w, tsx_state w, state_handler w, terminating w, pending_destroy w)"

lemma core_eqD:
  "core w' = core w \<Longrightarrow>
     role w' = role w \<and> tsx_method w' = tsx_method w \<and> tsx_state w' = tsx_state w \<and>
     state_handler w' = state_handler w \<and> terminating w' = terminating w \<and> pending_destroy w' = pending_destroy w"
  by (simp add: core_def)

lemma grows_core:
  assumes "tsx_inv w" "core w' = core w" "last_tx w = 0 \<or> last_tx w' \<noteq> 0 \<or> role w = PJSIP_ROLE_UAS" "timers_null w'"
    "transport_err w' = transport_err w \<or> transport_err w' \<noteq> PJ_SUCCESS"
  shows "grows w w'"
  using assms core_eqD [OF assms(2)] by (auto simp: grows_def tsx_inv_def)

definition active :: "tsx_world \<Rightarrow> bool" where
  "active w \<longleftrightarrow> \<not> (role w = PJSIP_ROLE_UAS \<and> tsx_state w = PJSIP_TSX_STATE_NULL)"

lemma active_timers_null: "active w \<Longrightarrow> timers_null w"
  by (auto simp: active_def timers_null_def)

lemma active_core: "core w' = core w \<Longrightarrow> active w' = active w"
  by (simp add: active_def core_def)

lemma grows_active: "grows w w' \<Longrightarrow> active w \<Longrightarrow> active w'"
  by (cases "tsx_state w"; cases "tsx_state w'") (auto simp: grows_def active_def state_order)

lemma grows_quiet:
  assumes "tsx_inv w" "active w" "core w' = core w" "last_tx w' = last_tx w"
    "transport_err w' = transport_err w \<or> transport_err w' \<noteq> PJ_SUCCESS"
  shows "grows w w'"
proof (rule grows_core [OF assms(1,3) _ _ assms(5)])
  show "timers_null w'" using active_core [OF assms(3)] assms(2) by (intro active_timers_null) simp
qed (use assms(4) in auto)

named_theorems quiet \<open>core, last message and transport error are unchanged\<close>

lemma quiet_timers [quiet, simp]:
  "core (set_timer e t w) = core w" "last_tx (set_timer e t w) = last_tx w"
  "transport_err (set_timer e t w) = transport_err w"
  "core (sched e d i w) = core w" "last_tx (sched e d i w) = last_tx w" "transport_err (sched e d i w) = transport_err w"
  "core (tsx_cancel_timer e w) = core w" "last_tx (tsx_cancel_timer e w) = last_tx w"
  "transport_err (tsx_cancel_timer e w) = transport_err w"
  by (cases e; simp add: core_def sched_def tsx_schedule_timer_def tsx_cancel_timer_def)+

lemma quiet_refs [quiet, simp]:
  "core (tx_add_ref p w) = core w" "last_tx (tx_add_ref p w) = last_tx w" "transport_err (tx_add_ref p w) = transport_err w"
  "core (tx_dec_ref p w) = core w" "last_tx (tx_dec_ref p w) = last_tx w" "transport_err (tx_dec_ref p w) = transport_err w"
  "core (tx_set_tsx p t w) = core w" "last_tx (tx_set_tsx p t w) = last_tx w" "transport_err (tx_set_tsx p t w) = transport_err w"
  "core (tp_add_ref p w) = core w" "last_tx (tp_add_ref p w) = last_tx w" "transport_err (tp_add_ref p w) = transport_err w"
  "core (tp_dec_ref p w) = core w" "last_tx (tp_dec_ref p w) = last_tx w" "transport_err (tp_dec_ref p w) = transport_err w"
  "core (tp_listen p d w) = core w" "last_tx (tp_listen p d w) = last_tx w" "transport_err (tp_listen p d w) = transport_err w"
  "core (emit o1 w) = core w" "last_tx (emit o1 w) = last_tx w" "transport_err (emit o1 w) = transport_err w"
  by (simp_all add: core_def tx_add_ref_def tx_dec_ref_def tx_set_tsx_def tp_add_ref_def tp_dec_ref_def
      tp_listen_def emit_def)

lemma core_updates [simp]:
  "core (w\<lparr>tsx_user := b\<rparr>) = core w" "core (w\<lparr>status_code := i\<rparr>) = core w" "core (w\<lparr>transport := p\<rparr>) = core w"
  "core (w\<lparr>is_reliable := b\<rparr>) = core w" "core (w\<lparr>tsx_addr := n\<rparr>) = core w" "core (w\<lparr>res_transport := p\<rparr>) = core w"
  "core (w\<lparr>pending_transport := b\<rparr>) = core w" "core (w\<lparr>pending_resched := b\<rparr>) = core w"
  "core (w\<lparr>pending_send := b\<rparr>) = core w" "core (w\<lparr>resolved_server := b\<rparr>) = core w"
  "core (w\<lparr>transport_err := st\<rparr>) = core w" "core (w\<lparr>tp_sel := p\<rparr>) = core w" "core (w\<lparr>pending_tx := p\<rparr>) = core w"
  "core (w\<lparr>last_tx := p\<rparr>) = core w" "core (w\<lparr>retransmit_count := n\<rparr>) = core w"
  "core (w\<lparr>grp_refs := i\<rparr>) = core w" "core (w\<lparr>inflight := n\<rparr>) = core w" "core (w\<lparr>htable := t\<rparr>) = core w"
  by (simp_all add: core_def)

lemma quiet_transport [quiet, simp]:
  "core (tsx_update_transport p w) = core w" "last_tx (tsx_update_transport p w) = last_tx w"
  "core (tsx_tp_state_callback d st w) = core w" "last_tx (tsx_tp_state_callback d st w) = last_tx w"
  by (simp_all add: tsx_update_transport_def tsx_tp_state_callback_def Let_def)

lemma transport_err_update:
  "transport_err (tsx_update_transport p w) = transport_err w \<or> transport_err (tsx_update_transport p w) \<noteq> PJ_SUCCESS"
  by (simp add: tsx_update_transport_def tsx_tp_state_callback_def Let_def)

lemma quiet_misc [quiet, simp]:
  "core (enter_terminated w) = core w" "last_tx (enter_terminated w) = last_tx w"
  "transport_err (enter_terminated w) = transport_err w"
  "core (tsx_set_status_code c w) = core w" "last_tx (tsx_set_status_code c w) = last_tx w"
  "transport_err (tsx_set_status_code c w) = transport_err w"
  "core (tsx_resched_retransmission w) = core w" "last_tx (tsx_resched_retransmission w) = last_tx w"
  "transport_err (tsx_resched_retransmission w) = transport_err w"
  "core (restart_timeout d w) = core w" "last_tx (restart_timeout d w) = last_tx w"
  "transport_err (restart_timeout d w) = transport_err w"
  "core (resched_or_flag d w) = core w" "last_tx (resched_or_flag d w) = last_tx w"
  "transport_err (resched_or_flag d w) = transport_err w"
  by (simp_all add: enter_terminated_def tsx_set_status_code_def tsx_resched_retransmission_def Let_def
      restart_timeout_def resched_or_flag_def)

lemma quiet_last_tx [quiet, simp]:
  "core (save_last_tx p w) = core w" "last_tx (save_last_tx p w) = p" "transport_err (save_last_tx p w) = transport_err w"
  "core (drop_last_tx p w) = core w" "transport_err (drop_last_tx p w) = transport_err w"
  by (simp_all add: save_last_tx_def drop_last_tx_def)

section \<open>State changes and sends\<close>

lemma set_state_grows:
  assumes tu: "tu_ok cbs" and inv: "tsx_inv w" and le: "tsx_state w \<le> s" and lt: "s < PJSIP_TSX_STATE_DESTROYED"
    and v: "valid_state (role w) (tsx_method w) s" and n: "s \<noteq> PJSIP_TSX_STATE_NULL"
    and null: "s \<noteq> PJSIP_TSX_STATE_NULL"
  shows "grows w (tsx_set_state cbs s src w)" "active (tsx_set_state cbs s src w)"
    "s \<le> tsx_state (tsx_set_state cbs s src w)"
proof -
  define w1 where "w1 = w\<lparr>tsx_state := s, state_handler := handler_of (role w) s\<rparr>"
  have act: "active w1" using n by (simp add: w1_def active_def)
  have 1: "grows w w1" using inv le lt v n act
    by (auto simp: grows_def tsx_inv_def w1_def timers_null_def less_le_trans)
  have tu1: "grows u (on_rx_response cbs rx (emit e u))" "grows u (on_tsx_state cbs sr pr (emit e u))"
    if "tsx_inv u" "active u" for u rx e sr pr
  proof -
    have "grows u (emit e u)" using that by (intro grows_quiet) simp_all
    then show "grows u (on_rx_response cbs rx (emit e u))" "grows u (on_tsx_state cbs sr pr (emit e u))"
      using tu grows_inv grows_trans unfolding tu_ok_def by blast+
  qed
  define w2 where "w2 = (case src of
                 SrcRxMsg (RxResponse code) \<Rightarrow>
                   if tsx_user w1 then on_rx_response cbs (RxResponse code) (emit (TuRxResponse (RxResponse code)) w1) else w1
               | _ \<Rightarrow> w1)"
  have 2: "grows w1 w2" using tu1(1) [OF grows_inv [OF 1] act] grows_refl [OF grows_inv [OF 1]]
    by (auto simp: w2_def split: event_src.splits rx_msg.splits)
  have act2: "active w2" using grows_active [OF 2 act] .
  define w3 where "w3 = notify_tu cbs src (tsx_state w) w2"
  have 3: "grows w2 w3" using tu1(2) [OF grows_inv [OF 2] act2] grows_refl [OF grows_inv [OF 2]]
    by (simp add: w3_def notify_tu_def)
  have act3: "active w3" using grows_active [OF 3 act2] .
  have eq: "tsx_set_state cbs s src w = (if s = PJSIP_TSX_STATE_TERMINATED then enter_terminated w3 else w3)"
    using lt by (auto simp: tsx_set_state_def Let_def w1_def [symmetric] w2_def [symmetric] w3_def [symmetric] state_order)
  have 4: "grows w3 (tsx_set_state cbs s src w)" unfolding eq
    using grows_quiet [OF grows_inv [OF 3] act3, of "enter_terminated w3"] grows_refl [OF grows_inv [OF 3]] by auto
  show "grows w (tsx_set_state cbs s src w)" using 1 2 3 4 grows_trans by blast
  show "active (tsx_set_state cbs s src w)" using grows_active [OF 4 act3] .
  have "s = tsx_state w1" by (simp add: w1_def)
  then show "s \<le> tsx_state (tsx_set_state cbs s src w)" using 2 3 4 grows_state by (metis order_trans)
qed

text \<open>
  The contract of the network: a send that is reported as done names its transport, that transport
  takes a message queued behind it, and errors are not reported as \<open>PJ_SUCCESS\<close>.
\<close>

fun notice_ok :: "send_notice \<Rightarrow> bool" where
  "notice_ok (Send_notice sent tp cont addr (Send_outcome st ns sl)) \<longleftrightarrow>
     (sent = PJ_SUCCESS \<longrightarrow> tp \<noteq> 0 \<and> (st = PJ_SUCCESS \<or> st = PJ_EPENDING))"

fun out_ok :: "send_outcome \<Rightarrow> bool" where
  "out_ok (Send_outcome st ns sl) \<longleftrightarrow> list_all notice_ok ns"

text \<open>Unchanged, or terminated by a transport error.\<close>

definition same_or_failed :: "tsx_world \<Rightarrow> tsx_world \<Rightarrow> bool" where
  "same_or_failed w w' \<longleftrightarrow> grows w w' \<and>
     (tsx_state w' = tsx_state w \<or> (tsx_state w' = PJSIP_TSX_STATE_TERMINATED \<and> transport_err w' \<noteq> PJ_SUCCESS))"

lemma same_or_failed_trans: "same_or_failed a b \<Longrightarrow> same_or_failed b c \<Longrightarrow> same_or_failed a c"
  by (auto simp: same_or_failed_def intro: grows_trans) (auto simp: grows_def)

lemma same_or_failed_quiet:
  assumes "tsx_inv w" "active w" "core w' = core w" "last_tx w' = last_tx w"
    "transport_err w' = transport_err w \<or> transport_err w' \<noteq> PJ_SUCCESS"
  shows "same_or_failed w w'"
  using grows_quiet [OF assms] core_eqD [OF assms(3)] by (simp add: same_or_failed_def)

lemma update_transport_nonzero: "p \<noteq> 0 \<Longrightarrow> transport (tsx_update_transport p w) = p"
  by (simp add: tsx_update_transport_def tsx_tp_state_callback_def Let_def tp_add_ref_def tp_listen_def tp_dec_ref_def
      sched_def tsx_schedule_timer_def tsx_cancel_timer_def)

text \<open>A send over an existing transport that takes the message changes nothing of the core.\<close>

lemma queued_send_quiet:
  assumes "td = 0 \<or> (transport w \<noteq> 0 \<and> (st = PJ_SUCCESS \<or> st = PJ_EPENDING))"
  shows "core (snd (tsx_send_msg cbs (Send_outcome st ns sl) td w)) = core w \<and>
    last_tx (snd (tsx_send_msg cbs (Send_outcome st ns sl) td w)) = last_tx w \<and>
    transport_err (snd (tsx_send_msg cbs (Send_outcome st ns sl) td w)) = transport_err w"
  using assms by (auto simp: tsx_send_msg.simps)

lemma terminated_unique:
  "PJSIP_TSX_STATE_TERMINATED \<le> s \<Longrightarrow> s < PJSIP_TSX_STATE_DESTROYED \<Longrightarrow> s = PJSIP_TSX_STATE_TERMINATED"
  by (cases s) (simp_all add: state_order)

lemma valid_terminated [simp]:
  "valid_state r m PJSIP_TSX_STATE_TERMINATED" "valid_state r m PJSIP_TSX_STATE_DESTROYED"
  "valid_state r m PJSIP_TSX_STATE_PROCEEDING" "valid_state r m PJSIP_TSX_STATE_COMPLETED"
  "valid_state r m PJSIP_TSX_STATE_NULL"
  by (auto simp: valid_state_def)

lemma set_terminated:
  assumes "tu_ok cbs" "tsx_inv w" "tsx_state w < PJSIP_TSX_STATE_DESTROYED"
  shows "grows w (tsx_set_state cbs PJSIP_TSX_STATE_TERMINATED src w)"
    "tsx_state (tsx_set_state cbs PJSIP_TSX_STATE_TERMINATED src w) = PJSIP_TSX_STATE_TERMINATED"
proof -
  have le: "tsx_state w \<le> PJSIP_TSX_STATE_TERMINATED" using assms(3) by (cases "tsx_state w") (simp_all add: state_order)
  note s = set_state_grows [OF assms(1,2) le, of src]
  show g: "grows w (tsx_set_state cbs PJSIP_TSX_STATE_TERMINATED src w)" by (rule s(1)) (simp_all add: state_order)
  have "PJSIP_TSX_STATE_TERMINATED \<le> tsx_state (tsx_set_state cbs PJSIP_TSX_STATE_TERMINATED src w)"
    by (rule s(3)) (simp_all add: state_order)
  then show "tsx_state (tsx_set_state cbs PJSIP_TSX_STATE_TERMINATED src w) = PJSIP_TSX_STATE_TERMINATED"
    using g assms(3) by (intro terminated_unique) (auto simp: grows_def)
qed

lemma callback_success_quiet:
  fixes cbs td
  assumes "notice_ok (Send_notice PJ_SUCCESS tp cont addr inner)" "\<not> pending_destroy w"
  defines "w' \<equiv> send_msg_callback cbs (Send_notice PJ_SUCCESS tp cont addr inner) td w"
  shows "core w' = core w" "last_tx w' = last_tx w" "transport_err w' = transport_err w \<or> transport_err w' \<noteq> PJ_SUCCESS"
proof -
  obtain st ns sl where inner: "inner = Send_outcome st ns sl" by (cases inner)
  have tp: "tp \<noteq> 0" "st = PJ_SUCCESS \<or> st = PJ_EPENDING" using assms(1) inner by auto
  define w0 where "w0 = (tx_set_tsx td 0 w)\<lparr>pending_tx := 0\<rparr>"
  define w1 where "w1 = (if transport w0 \<noteq> tp
     then let v = (tsx_update_transport tp w0)\<lparr>tsx_addr := addr\<rparr> in v\<lparr>is_reliable := tp_reliable (tps v (transport v))\<rparr> else w0)
       \<lparr>pending_transport := False, resolved_server := True\<rparr>"
  have w0: "core w0 = core w" "last_tx w0 = last_tx w" "transport_err w0 = transport_err w" by (simp_all add: w0_def)
  have w1: "core w1 = core w" "last_tx w1 = last_tx w" "transport_err w1 = transport_err w \<or> transport_err w1 \<noteq> PJ_SUCCESS"
    "transport w1 = tp"
    using w0 tp(1) update_transport_nonzero [of tp w0] transport_err_update [of tp w0] by (auto simp: w1_def Let_def)
  have nd: "\<not> pending_destroy w1" using core_eqD [OF w1(1)] assms(2) by simp
  define w2 where "w2 = (if pending_send w1 then snd (tsx_send_msg cbs inner (last_tx w1) (w1\<lparr>pending_send := False\<rparr>)) else w1)"
  have w2: "core w2 = core w1" "last_tx w2 = last_tx w1" "transport_err w2 = transport_err w1"
    using queued_send_quiet [of "last_tx w1" "w1\<lparr>pending_send := False\<rparr>" st cbs ns sl] tp w1(4)
    by (auto simp: w2_def inner)
  have w': "w' = (if \<not> mod_registered w \<or> tx_tsx (tdata w td) = 0 then w
      else if pending_resched w2 then
        if \<not> is_reliable w2 then tsx_resched_retransmission (w2\<lparr>pending_resched := False\<rparr>) else w2\<lparr>pending_resched := False\<rparr>
      else w2)"
    using nd unfolding w'_def send_msg_callback.simps Let_def w0_def [symmetric] w1_def [unfolded Let_def, symmetric]
      w2_def [symmetric] by simp
  show "core w' = core w" "last_tx w' = last_tx w" "transport_err w' = transport_err w \<or> transport_err w' \<noteq> PJ_SUCCESS"
    unfolding w' using w1 w2 by auto
qed

lemma callback_failure:
  assumes tu: "tu_ok cbs" and inv: "tsx_inv w" and act: "active w" and lt: "tsx_state w < PJSIP_TSX_STATE_DESTROYED"
    and nd: "\<not> pending_destroy w" and sent: "sent \<noteq> PJ_SUCCESS"
  shows "same_or_failed w (send_msg_callback cbs (Send_notice sent tp cont addr inner) td w)"
proof -
  define w0 where "w0 = (tx_set_tsx td 0 w)\<lparr>pending_tx := 0\<rparr>"
  define w1 where "w1 = (if tp = transport w0 then tsx_update_transport 0 w0 else w0)"
  have w1: "core w1 = core w" "last_tx w1 = last_tx w" "transport_err w1 = transport_err w \<or> transport_err w1 \<noteq> PJ_SUCCESS"
    using transport_err_update [of 0 w0] by (auto simp: w1_def w0_def)
  define sc :: int where "sc = (if sent = PJ_ERESOLVE \<or> sent = PJLIB_UTIL_EDNS_NXDOMAIN then 502 else PJSIP_SC_TSX_TRANSPORT_ERROR)"
  define w2 where "w2 = tsx_set_status_code sc (w1\<lparr>transport_err := sent, pending_transport := False, resolved_server := True\<rparr>)"
  have w2: "core w2 = core w" "last_tx w2 = last_tx w" "transport_err w2 \<noteq> PJ_SUCCESS"
    using w1 sent by (simp_all add: w2_def tsx_set_status_code_def)
  define w3 where "w3 = w1\<lparr>retransmit_count := 0\<rparr>"
  define w4 where "w4 = (tx_set_tsx td (self (if timer_id (timeout_timer w3) \<noteq> 0
      then sched Timeout_timer (timeout_timer_val w3) TIMEOUT_TIMER (tsx_cancel_timer Timeout_timer w3) else w3))
      (if timer_id (timeout_timer w3) \<noteq> 0
      then sched Timeout_timer (timeout_timer_val w3) TIMEOUT_TIMER (tsx_cancel_timer Timeout_timer w3) else w3))\<lparr>pending_tx := td\<rparr>"
  have w4: "core w4 = core w" "last_tx w4 = last_tx w" "transport_err w4 = transport_err w \<or> transport_err w4 \<noteq> PJ_SUCCESS"
    using w1 by (simp_all add: w4_def w3_def)
  note q2 = same_or_failed_quiet [OF inv act w2(1,2) disjI2 [OF w2(3)]]
  have lt2: "tsx_state w2 < PJSIP_TSX_STATE_DESTROYED" and inv2: "tsx_inv w2"
    using core_eqD [OF w2(1)] lt grows_inv q2 by (auto simp: same_or_failed_def)
  have t: "same_or_failed w2 (tsx_set_state cbs PJSIP_TSX_STATE_TERMINATED SrcTransportError w2)"
    using set_terminated [OF tu inv2 lt2, of SrcTransportError] w2(3) by (auto simp: same_or_failed_def grows_def)
  have nd2: "\<not> pending_destroy w2" "pending_destroy w1 = pending_destroy w"
    using core_eqD [OF w2(1)] core_eqD [OF w1(1)] nd by simp_all
  have "send_msg_callback cbs (Send_notice sent tp cont addr inner) td w =
    (if \<not> mod_registered w \<or> tx_tsx (tdata w td) = 0 then w
     else if \<not> cont then
       if tsx_state w2 \<noteq> PJSIP_TSX_STATE_TERMINATED \<and> tsx_state w2 \<noteq> PJSIP_TSX_STATE_DESTROYED
       then tsx_set_state cbs PJSIP_TSX_STATE_TERMINATED SrcTransportError w2 else w2
     else w4)"
    using nd2 nd sent unfolding send_msg_callback.simps Let_def w0_def [symmetric] w1_def [symmetric]
      sc_def [symmetric] w2_def [symmetric] w3_def [symmetric] w4_def [symmetric] by simp
  then show ?thesis
    using same_or_failed_trans [OF q2 t] q2 same_or_failed_quiet [OF inv act w4] grows_refl [OF inv]
    by (simp add: same_or_failed_def)
qed

lemma callback_ok:
  assumes "tu_ok cbs" "tsx_inv w" "active w" "tsx_state w < PJSIP_TSX_STATE_DESTROYED" "\<not> pending_destroy w" "notice_ok n"
  shows "same_or_failed w (send_msg_callback cbs n td w)"
proof -
  obtain sent tp cont addr inner where n: "n = Send_notice sent tp cont addr inner" by (cases n)
  show ?thesis
  proof (cases "sent = PJ_SUCCESS")
    case True
    with n assms(6) have n1: "notice_ok (Send_notice PJ_SUCCESS tp cont addr inner)" by simp
    show ?thesis unfolding n True
      by (rule same_or_failed_quiet [OF assms(2,3) callback_success_quiet [OF n1 assms(5)]])
  next
    case False
    then show ?thesis unfolding n by (rule callback_failure [OF assms(1-5)])
  qed
qed

lemma same_or_failed_keeps:
  assumes "same_or_failed w w'" "active w" "tsx_state w < PJSIP_TSX_STATE_DESTROYED" "\<not> pending_destroy w"
  shows "tsx_inv w'" "active w'" "tsx_state w' < PJSIP_TSX_STATE_DESTROYED" "\<not> pending_destroy w'"
  using assms grows_active [of w w'] by (auto simp: same_or_failed_def grows_def)

lemma run_notices_ok:
  assumes "tu_ok cbs" "list_all notice_ok ns"
  shows "tsx_inv w \<Longrightarrow> active w \<Longrightarrow> tsx_state w < PJSIP_TSX_STATE_DESTROYED \<Longrightarrow> \<not> pending_destroy w \<Longrightarrow>
    same_or_failed w (run_notices cbs ns td w)"
  using assms(2)
proof (induction ns arbitrary: w)
  case Nil
  then show ?case by (simp add: same_or_failed_def grows_refl)
next
  case (Cons n ns)
  have 1: "same_or_failed w (send_msg_callback cbs n td w)"
    using Cons.prems assms(1) by (intro callback_ok) simp_all
  note k = same_or_failed_keeps [OF 1 Cons.prems(2-4)]
  from Cons.IH [OF k] Cons.prems(5) same_or_failed_trans [OF 1] show ?case by simp
qed

lemma send_ok:
  assumes tu: "tu_ok cbs" and inv: "tsx_inv w" and act: "active w" and lt: "tsx_state w < PJSIP_TSX_STATE_DESTROYED"
    and nd: "\<not> pending_destroy w" and ok: "out_ok out" and res: "tsx_send_msg cbs out td w = (st, w')"
  shows "grows w w'"
    "st = PJ_SUCCESS \<Longrightarrow> tsx_state w < PJSIP_TSX_STATE_TERMINATED \<Longrightarrow> tsx_state w' = tsx_state w"
proof -
  obtain tps ns sl where out: "out = Send_outcome tps ns sl" by (cases out)
  define w1 where "w1 = (if transport w \<noteq> 0
     then (tsx_update_transport 0 (emit (TransportSend td) w))\<lparr>tsx_addr := 0, res_transport := 0\<rparr> else w)"
  have w1: "core w1 = core w" "last_tx w1 = last_tx w" "transport_err w1 = transport_err w \<or> transport_err w1 \<noteq> PJ_SUCCESS"
    using transport_err_update [of 0 "emit (TransportSend td) w"] by (auto simp: w1_def)
  define w2 where "w2 = tsx_set_status_code PJSIP_SC_TSX_TRANSPORT_ERROR w1"
  define w3 where "w3 = emit (StatelessSend td)
     ((tx_set_tsx td (self (tx_add_ref td w1)) (tx_add_ref td w1))\<lparr>pending_tx := td, pending_transport := True\<rparr>)"
  have q2: "same_or_failed w w2" and q3: "same_or_failed w w3"
    using w1 by (auto intro!: same_or_failed_quiet [OF inv act] simp: w2_def w3_def)
  have t: "grows w (tsx_set_state cbs PJSIP_TSX_STATE_TERMINATED SrcTransportError w2)"
    using set_terminated(1) [OF tu same_or_failed_keeps(1,3) [OF q2 act lt nd]] q2 grows_trans
    unfolding same_or_failed_def by blast
  define w4 where "w4 = run_notices cbs ns td w3"
  have q4: "same_or_failed w w4"
    using run_notices_ok [OF tu _ same_or_failed_keeps [OF q3 act lt nd], of ns td] ok out
      same_or_failed_trans [OF q3] by (simp add: w4_def)
  define w5 where "w5 = (tx_set_tsx td 0 (tx_dec_ref td w4))\<lparr>pending_tx := 0\<rparr>"
  have q5: "grows w w5"
  proof -
    have "grows w4 w5"
      using same_or_failed_keeps(1,2) [OF q4 act lt nd] by (intro grows_quiet) (simp_all add: w5_def)
    then show ?thesis using q4 grows_trans unfolding same_or_failed_def by blast
  qed
  define st' where "st' = (if sl = PJ_EPENDING then PJ_SUCCESS else sl)"
  have q: "grows w v" if "core v = core w" "last_tx v = last_tx w" "transport_err v = transport_err w" for v
    using that by (intro grows_quiet [OF inv act]) auto
  note eq = res [unfolded out tsx_send_msg.simps Let_def, folded w1_def, folded w2_def, folded w3_def, folded w4_def, folded w5_def,
      folded st'_def]
  show "grows w w'" using eq t q4 q5 grows_refl [OF inv]
    by (auto simp: same_or_failed_def split: if_splits intro!: q)
  show "tsx_state w' = tsx_state w" if "st = PJ_SUCCESS" "tsx_state w < PJSIP_TSX_STATE_TERMINATED"
    using eq that q4 by (auto simp: same_or_failed_def emit_def split: if_splits)
qed

lemma core_unregister [simp]:
  "core (mod_tsx_layer_unregister_tsx w) = core w" "last_tx (mod_tsx_layer_unregister_tsx w) = last_tx w"
  by (simp_all add: mod_tsx_layer_unregister_tsx_def Let_def split: option.splits)

lemma shutdown_core:
  "role (tsx_shutdown w) = role w \<and> tsx_method (tsx_shutdown w) = tsx_method w \<and>
   tsx_state (tsx_shutdown w) = tsx_state w \<and> state_handler (tsx_shutdown w) = state_handler w \<and> terminating (tsx_shutdown w)"
proof -
  define w1 where "w1 = tsx_update_transport 0 w"
  define w2 where "w2 = (if \<not> terminating w1 then pjsip_tpselector_dec_ref (tp_sel w1) w1 else w1)"
  define w3 where "w3 = (if last_tx w2 \<noteq> 0 then (tx_dec_ref (last_tx w2) w2)\<lparr>last_tx := 0\<rparr> else w2)"
  define w4 where "w4 = (tsx_cancel_timer Retransmit_timer (tsx_cancel_timer Timeout_timer w3))
    \<lparr>pending_resched := False, pending_send := False\<rparr>"
  have "core w4 = core w" by (simp add: w4_def w3_def w2_def w1_def pjsip_tpselector_dec_ref_def)
  note c = core_eqD [OF this]
  have "tsx_shutdown w = (let v = (if pending_transport w4 then w4\<lparr>pending_destroy := True, tsx_user := False\<rparr> else w4)
      in if \<not> terminating v then v\<lparr>terminating := True, grp_refs := grp_refs v - 1\<rparr> else v)"
    unfolding tsx_shutdown_def Let_def w1_def [symmetric] w2_def [symmetric] w3_def [symmetric] w4_def [symmetric] by simp
  with c show ?thesis by (simp add: Let_def)
qed

lemma set_destroyed:
  fixes src
  assumes tu: "tu_ok cbs" and inv: "tsx_inv w"
  defines "w' \<equiv> tsx_set_state cbs PJSIP_TSX_STATE_DESTROYED src w"
  shows "tsx_inv w'" "tsx_state w' = PJSIP_TSX_STATE_DESTROYED" "role w' = role w" "tsx_method w' = tsx_method w"
proof -
  define w1 where "w1 = w\<lparr>tsx_state := PJSIP_TSX_STATE_DESTROYED, state_handler := handler_of (role w) PJSIP_TSX_STATE_DESTROYED\<rparr>"
  have 1: "tsx_inv w1" using inv by (auto simp: tsx_inv_def w1_def timers_null_def state_order)
  have em: "tsx_inv (emit e u) = tsx_inv u" for e u by (simp add: tsx_inv_def emit_def timers_null_def)
  have same: "role (emit e u) = role u" "tsx_method (emit e u) = tsx_method u" "tsx_state (emit e u) = tsx_state u" for e u
    by (simp_all add: emit_def)
  define w2 where "w2 = (case src of
                 SrcRxMsg (RxResponse code) \<Rightarrow>
                   if tsx_user w1 then on_rx_response cbs (RxResponse code) (emit (TuRxResponse (RxResponse code)) w1) else w1
               | _ \<Rightarrow> w1)"
  define P where "P u \<longleftrightarrow> tsx_inv u \<and> tsx_state u = PJSIP_TSX_STATE_DESTROYED \<and> role u = role w \<and> tsx_method u = tsx_method w" for u
  have step: "P (on_rx_response cbs rx (emit e u))" "P (on_tsx_state cbs sr pr (emit e u))" if "P u" for u rx e sr pr
  proof -
    have "P v" if "grows (emit e u) v" for v
      using that \<open>P u\<close> em same by (cases "tsx_state v") (auto simp: P_def grows_def state_order)
    then show "P (on_rx_response cbs rx (emit e u))" "P (on_tsx_state cbs sr pr (emit e u))"
      using tu \<open>P u\<close> em unfolding tu_ok_def P_def by blast+
  qed
  have "P w1" using 1 by (simp add: P_def w1_def)
  then have "P w2" using step(1) by (auto simp: w2_def split: event_src.splits rx_msg.splits)
  then have p3: "P (notify_tu cbs src (tsx_state w) w2)" using step(2) by (simp add: notify_tu_def)
  have w': "w' = tsx_shutdown (mod_tsx_layer_unregister_tsx (notify_tu cbs src (tsx_state w) w2))"
    by (simp add: w'_def tsx_set_state_def Let_def w1_def [symmetric] w2_def [symmetric])
  note c = core_eqD [OF core_unregister(1) [of "notify_tu cbs src (tsx_state w) w2"]]
  show "tsx_inv w'" "tsx_state w' = PJSIP_TSX_STATE_DESTROYED" "role w' = role w" "tsx_method w' = tsx_method w"
    using p3 c shutdown_core [of "mod_tsx_layer_unregister_tsx (notify_tu cbs src (tsx_state w) w2)"]
    unfolding w' P_def by (auto simp: tsx_inv_def timers_null_def state_order)
qed

section \<open>Handlers\<close>

lemma quiet_set_state:
  assumes "tu_ok cbs" "tsx_inv w" "active w" "core w1 = core w"
    "last_tx w = 0 \<or> last_tx w1 \<noteq> 0 \<or> role w = PJSIP_ROLE_UAS" "transport_err w1 = transport_err w"
    "tsx_state w \<le> s" "s < PJSIP_TSX_STATE_DESTROYED" "valid_state (role w) (tsx_method w) s" "s \<noteq> PJSIP_TSX_STATE_NULL"
  shows "grows w (tsx_set_state cbs s src w1)"
proof -
  note c = core_eqD [OF assms(4)]
  have 1: "grows w w1"
    using assms(5,6) active_core [OF assms(4)] assms(3) by (intro grows_core [OF assms(2,4)]) (auto intro: active_timers_null)
  have "grows w1 (tsx_set_state cbs s src w1)"
    using c assms(7-10) by (intro set_state_grows(1) [OF assms(1) grows_inv [OF 1]]) auto
  with 1 show ?thesis by (rule grows_trans)
qed

lemma live_not_destroying: "tsx_inv w \<Longrightarrow> tsx_state w < PJSIP_TSX_STATE_TERMINATED \<Longrightarrow> \<not> pending_destroy w"
  by (auto simp: tsx_inv_def)

lemma below_terminated: "s < PJSIP_TSX_STATE_TERMINATED \<Longrightarrow> s < PJSIP_TSX_STATE_DESTROYED"
  by (simp add: state_order)

lemma retransmit_ok:
  assumes "tu_ok cbs" "tsx_inv w" "active w" "tsx_state w < PJSIP_TSX_STATE_TERMINATED" "out_ok out"
  shows "grows w (snd (tsx_retransmit cbs out resched w))"
proof -
  define w0 where "w0 = w\<lparr>retransmit_count := retransmit_count w + 1\<rparr>"
  define w1 where "w1 = (if resched then if pending_transport w0 then w0\<lparr>pending_resched := True\<rparr>
    else tsx_resched_retransmission w0 else w0)"
  have w1: "core w1 = core w" "last_tx w1 = last_tx w" "transport_err w1 = transport_err w"
    by (simp_all add: w1_def w0_def)
  have g: "grows w w1" using w1 by (intro grows_quiet [OF assms(2,3)]) simp_all
  note i = grows_inv [OF g] grows_active [OF g assms(3)]
  have lt: "tsx_state w1 < PJSIP_TSX_STATE_TERMINATED" using core_eqD [OF w1(1)] assms(4) by simp
  obtain st w2 where r: "tsx_send_msg cbs out (last_tx w1) w1 = (st, w2)" by force
  have "grows w1 w2"
    by (rule send_ok(1) [OF assms(1) i below_terminated [OF lt] live_not_destroying [OF i(1) lt] assms(5) r])
  with g have "grows w w2" by (rule grows_trans)
  then show ?thesis
    using grows_refl [OF assms(2)] r unfolding tsx_retransmit_def Let_def w0_def [symmetric] w1_def [symmetric] by simp
qed

lemma retransmit_ex:
  assumes "tu_ok cbs" "tsx_inv w" "active w" "tsx_state w < PJSIP_TSX_STATE_TERMINATED" "out_ok out"
  shows "\<exists>s w'. tsx_retransmit cbs out resched w = (s, w') \<and> grows w w'"
  using retransmit_ok [OF assms, of resched] by (cases "tsx_retransmit cbs out resched w") simp

definition ack_ok :: "pj_status_t \<times> ptr \<Rightarrow> bool" where
  "ack_ok ack \<longleftrightarrow> (fst ack = PJ_SUCCESS \<longrightarrow> snd ack \<noteq> 0)"

lemma on_state_null_ok:
  assumes tu: "tu_ok cbs" and inv: "tsx_inv w" and st: "tsx_state w = PJSIP_TSX_STATE_NULL" and out: "out_ok out"
    and ev: "role w = PJSIP_ROLE_UAS \<longrightarrow> (\<exists>rx. event = EvRxMsg rx)" "event \<noteq> EvTxMsg 0"
  shows "\<exists>s w'. tsx_on_state_null cbs out event w = Some (s, w') \<and> grows w w'"
proof (cases "role w = PJSIP_ROLE_UAS")
  case True
  then obtain rx where rx: "event = EvRxMsg rx" using ev by blast
  have "grows w (tsx_set_state cbs PJSIP_TSX_STATE_TRYING (SrcRxMsg rx) w)"
    using st True by (intro set_state_grows(1) [OF tu inv]) (simp_all add: state_order valid_state_def)
  with True rx show ?thesis by (simp add: tsx_on_state_null_def)
next
  case False
  then have act: "active w" and uac: "role w = PJSIP_ROLE_UAC"
    by (simp add: active_def) (metis False pjsip_role_e.exhaust)
  show ?thesis
  proof (cases event)
    case (EvTxMsg td)
    with ev have td: "td \<noteq> 0" by simp
    define w1 where "w1 = save_last_tx td (drop_last_tx td w)"
    have w1: "core w1 = core w" "last_tx w1 = td" "transport_err w1 = transport_err w" by (simp_all add: w1_def)
    have g1: "grows w w1" using w1 td active_core [OF w1(1)] act
      by (intro grows_core [OF inv]) (auto intro: active_timers_null)
    note i1 = grows_inv [OF g1] grows_active [OF g1 act]
    have lt: "tsx_state w1 < PJSIP_TSX_STATE_TERMINATED" using core_eqD [OF w1(1)] st by (simp add: state_order)
    obtain s w2 where r: "tsx_send_msg cbs out td w1 = (s, w2)" by force
    note snd = send_ok [OF tu i1 below_terminated [OF lt] live_not_destroying [OF i1(1) lt] out r]
    have g2: "grows w w2" using g1 snd(1) by (rule grows_trans)
    show ?thesis
    proof (cases "s = PJ_SUCCESS")
      case True
      have s2: "tsx_state w2 = PJSIP_TSX_STATE_NULL" using snd(2) [OF True lt] core_eqD [OF w1(1)] st by simp
      define w3 where "w3 = restart_timeout (timeout_timer_val w2) w2"
      define w4 where "w4 = (if \<not> is_reliable w3 then resched_or_flag (t1_timer_val w3) w3 else w3)"
      have "grows w2 (tsx_set_state cbs PJSIP_TSX_STATE_CALLING SrcTxMsg w4)"
        using grows_inv [OF g2] grows_active [OF g2 act] s2 uac g2
        by (intro quiet_set_state [OF tu]) (auto simp: w4_def w3_def grows_def valid_state_def state_order)
      with g2 have "grows w (tsx_set_state cbs PJSIP_TSX_STATE_CALLING SrcTxMsg w4)" by (rule grows_trans)
      then show ?thesis using False True EvTxMsg r [unfolded w1_def] unfolding w4_def w3_def
        by (simp add: tsx_on_state_null_def Let_def)
    next
      case f: False
      then show ?thesis using False EvTxMsg r [unfolded w1_def] g2
        by (simp add: tsx_on_state_null_def Let_def)
    qed
  qed (use False grows_refl [OF inv] in \<open>simp_all add: tsx_on_state_null_def\<close>)
qed

lemma final_ack_ok:
  assumes tu: "tu_ok cbs" and inv: "tsx_inv w" and uac: "role w = PJSIP_ROLE_UAC"
    and st: "tsx_state w < PJSIP_TSX_STATE_COMPLETED" and out: "out_ok out" and ack: "ack_ok ack"
  shows "\<exists>s w'. final_ack cbs out ack rx w = Some (s, w') \<and> grows w w'"
proof -
  define w1 where "w1 = tsx_cancel_timer Timeout_timer (tsx_cancel_timer Retransmit_timer w)"
  have act: "active w" using uac by (simp add: active_def)
  have w1: "core w1 = core w" "last_tx w1 = last_tx w" "transport_err w1 = transport_err w" by (simp_all add: w1_def)
  note c1 = core_eqD [OF w1(1)]
  have g1: "grows w w1" using w1 by (intro grows_quiet [OF inv act]) simp_all
  note i1 = grows_inv [OF g1] grows_active [OF g1 act]
  have lt: "tsx_state w1 < PJSIP_TSX_STATE_TERMINATED" using c1 st by (simp add: state_order)
  have nt: "\<not> terminating w1" using i1(1) lt by (auto simp: tsx_inv_def)
  then have l1: "last_tx w1 \<noteq> 0" using i1(1) c1 uac by (auto simp: tsx_inv_def)
  define inv1 where "inv1 \<longleftrightarrow> tsx_method w1 = PJSIP_INVITE_METHOD"
  obtain s w2 where r: "(if inv1 then tsx_send_msg cbs out (snd ack) w1 else (PJ_SUCCESS, w1)) = (s, w2)" by force
  have g2: "grows w1 w2" and s2: "s = PJ_SUCCESS \<longrightarrow> tsx_state w2 = tsx_state w1"
    using send_ok [OF tu i1 below_terminated [OF lt] live_not_destroying [OF i1(1) lt] out, of "snd ack" s w2] r lt
      grows_refl [OF i1(1)] by (auto split: if_splits)
  define w3 where "w3 = tsx_set_state cbs PJSIP_TSX_STATE_COMPLETED (SrcRxMsg rx) w2"
  define w4 where "w4 = (if inv1 \<and> snd ack \<noteq> last_tx w3 then (tx_dec_ref (last_tx w3) w3)\<lparr>last_tx := snd ack\<rparr> else w3)"
  define w5 where "w5 = restart_timeout (if \<not> is_reliable w4 then if inv1 then td_timer_val w4 else t4_timer_val w4 else zero_time) w4"
  have ok: "grows w w5 \<and> last_tx w3 \<noteq> 0" if "s = PJ_SUCCESS" and a: "inv1 \<longrightarrow> fst ack = PJ_SUCCESS"
  proof -
    have le: "tsx_state w2 \<le> PJSIP_TSX_STATE_COMPLETED" using s2 that c1 st by simp
    have g3: "grows w2 w3" unfolding w3_def
      by (rule set_state_grows(1) [OF tu grows_inv [OF g2] le]) (simp_all add: state_order)
    have g: "grows w1 w3" using g2 g3 by (rule grows_trans)
    then have "\<not> terminating w3" "role w3 = PJSIP_ROLE_UAC" using nt uac c1 by (auto simp: grows_def)
    with grows_inv [OF g] have l3: "last_tx w3 \<noteq> 0" by (simp add: tsx_inv_def)
    have "grows w3 w5"
      using ack a l3 grows_inv [OF g] active_timers_null [OF active_core [THEN iffD2, OF _ grows_active [OF g i1(2)]], of w5]
      by (intro grows_core) (auto simp: w5_def w4_def ack_ok_def)
    with g1 g l3 show ?thesis using grows_trans by blast
  qed
  have "final_ack cbs out ack rx w =
     (if inv1 \<and> last_tx w1 = 0 then None
      else if inv1 \<and> fst ack \<noteq> PJ_SUCCESS then Some (fst ack, w1)
      else if s \<noteq> PJ_SUCCESS then Some (s, w2)
      else if inv1 \<and> snd ack \<noteq> last_tx w3 \<and> last_tx w3 = 0 then None
      else Some (PJ_SUCCESS, w5))"
    unfolding final_ack_def Let_def w1_def [symmetric] inv1_def [symmetric] r
    unfolding prod.case w3_def [symmetric] w4_def [symmetric] w5_def [symmetric] ..
  then show ?thesis using l1 g1 ok grows_trans [OF g1 g2] by auto
qed

lemma uac_active: "role w = PJSIP_ROLE_UAC \<Longrightarrow> active w"
  by (simp add: active_def)

lemma proceeding_uac_ok:
  assumes tu: "tu_ok cbs" and inv: "tsx_inv w" and uac: "role w = PJSIP_ROLE_UAC"
    and st: "tsx_state w \<le> PJSIP_TSX_STATE_PROCEEDING" and out: "out_ok out" and ack: "ack_ok ack"
  shows "\<exists>s w'. tsx_on_state_proceeding_uac cbs out ack event w = Some (s, w') \<and> grows w w'"
proof -
  note act = uac_active [OF uac]
  have lt: "tsx_state w < PJSIP_TSX_STATE_TERMINATED" using st by (simp add: state_order)
  note set = quiet_set_state [OF tu inv act]
  show ?thesis
  proof (cases event)
    case (EvTxMsg td)
    then show ?thesis using grows_refl [OF inv] by (simp add: tsx_on_state_proceeding_uac_def)
  next
    case (EvTimer t)
    have "grows w (tsx_set_state cbs PJSIP_TSX_STATE_TERMINATED SrcTimer (tsx_set_status_code 408 w))"
      using st by (intro set) (auto simp: state_order)
    then show ?thesis using EvTimer retransmit_ex [OF tu inv act lt out, of True]
      by (cases t) (auto simp: tsx_on_state_proceeding_uac_def Let_def)
  next
    case (EvRxMsg rx)
    show ?thesis
    proof (cases rx)
      case (RxRequest m)
      then show ?thesis using EvRxMsg grows_refl [OF inv] by (simp add: tsx_on_state_proceeding_uac_def)
    next
      case (RxResponse code)
      define w1 where "w1 = tsx_set_status_code code w"
      have w1: "core w1 = core w" "last_tx w1 = last_tx w" "transport_err w1 = transport_err w" by (simp_all add: w1_def)
      have g1: "grows w w1" using w1 by (intro grows_quiet [OF inv act]) simp_all
      have "\<exists>s w'. final_ack cbs out ack rx w1 = Some (s, w') \<and> grows w1 w'"
        using core_eqD [OF w1(1)] uac st
        by (intro final_ack_ok [OF tu grows_inv [OF g1] _ _ out ack]) (auto simp: state_order)
      then have f: "\<exists>s w'. final_ack cbs out ack rx w1 = Some (s, w') \<and> grows w w'" using g1 grows_trans by blast
      have a: "grows w (tsx_set_state cbs PJSIP_TSX_STATE_PROCEEDING (SrcRxMsg rx) w1)"
        using st w1 by (intro set) (auto simp: state_order)
      have b: "grows w (tsx_set_state cbs PJSIP_TSX_STATE_TERMINATED (SrcRxMsg rx) (tsx_cancel_timer Timeout_timer w1))"
        using st w1 by (intro set) (auto simp: state_order)
      have c: "grows w (tsx_set_state cbs PJSIP_TSX_STATE_COMPLETED (SrcRxMsg rx) (tsx_cancel_timer Retransmit_timer
          (sched Timeout_timer d TIMEOUT_TIMER (tsx_cancel_timer Timeout_timer w1))))" for d
        using st w1 by (intro set) (auto simp: state_order)
      show ?thesis using EvRxMsg RxResponse f a b c g1 unfolding tsx_on_state_proceeding_uac_def
        by (simp add: Let_def w1_def [symmetric])
    qed
  qed
qed

lemma calling_ok:
  assumes tu: "tu_ok cbs" and inv: "tsx_inv w" and uac: "role w = PJSIP_ROLE_UAC"
    and st: "tsx_state w = PJSIP_TSX_STATE_CALLING" and out: "out_ok out" and ack: "ack_ok ack"
  shows "\<exists>s w'. tsx_on_state_calling cbs out ack event w = Some (s, w') \<and> grows w w'"
proof -
  note act = uac_active [OF uac]
  have lt: "tsx_state w < PJSIP_TSX_STATE_TERMINATED" using st by (simp add: state_order)
  show ?thesis
  proof (cases event)
    case (EvTxMsg td)
    then show ?thesis using grows_refl [OF inv] by (simp add: tsx_on_state_calling_def)
  next
    case (EvTimer t)
    have "grows w (tsx_set_state cbs PJSIP_TSX_STATE_TERMINATED SrcTimer
        (tsx_set_status_code 408 ((tsx_cancel_timer Retransmit_timer w)\<lparr>pending_resched := False\<rparr>)))"
      using st by (intro quiet_set_state [OF tu inv act]) (auto simp: state_order)
    then show ?thesis using EvTimer retransmit_ex [OF tu inv act lt out, of True]
      by (cases t) (auto simp: tsx_on_state_calling_def Let_def)
  next
    case (EvRxMsg rx)
    show ?thesis
    proof (cases rx)
      case (RxRequest m)
      then show ?thesis using EvRxMsg grows_refl [OF inv] by (simp add: tsx_on_state_calling_def)
    next
      case (RxResponse code)
      define w1 where "w1 = tsx_cancel_timer Retransmit_timer w"
      define w2 where "w2 = (if code \<ge> 200 then if timer_id (timeout_timer w1) \<noteq> 0 then tsx_cancel_timer Timeout_timer w1 else w1
         else if tsx_method w1 = PJSIP_INVITE_METHOD then tsx_cancel_timer Timeout_timer w1
         else if \<not> is_reliable w1 then sched Retransmit_timer (t2_timer_val w1) RETRANSMIT_TIMER w1 else w1)\<lparr>pending_resched := False\<rparr>"
      have w2: "core w2 = core w" "last_tx w2 = last_tx w" "transport_err w2 = transport_err w"
        by (simp_all add: w2_def w1_def)
      have g: "grows w w2" using w2 by (intro grows_quiet [OF inv act]) simp_all
      have "\<exists>s w'. tsx_on_state_proceeding_uac cbs out ack event w2 = Some (s, w') \<and> grows w2 w'"
        using core_eqD [OF w2(1)] uac st
        by (intro proceeding_uac_ok [OF tu grows_inv [OF g] _ _ out ack]) (auto simp: state_order)
      then obtain s w3 where p: "tsx_on_state_proceeding_uac cbs out ack event w2 = Some (s, w3)" "grows w w3"
        using g grows_trans by blast
      have "tsx_on_state_calling cbs out ack event w =
          map_option (\<lambda>(status, w). (PJ_SUCCESS, w)) (tsx_on_state_proceeding_uac cbs out ack event w2)"
        using EvRxMsg RxResponse unfolding tsx_on_state_calling_def w2_def by (simp add: Let_def w1_def [symmetric])
      then show ?thesis using p by simp
    qed
  qed
qed

lemma uas_response_ok:
  assumes tu: "tu_ok cbs" and inv: "tsx_inv w" and act: "active w" and uas: "role w = PJSIP_ROLE_UAS"
    and st: "tsx_state w \<le> PJSIP_TSX_STATE_PROCEEDING"
  shows "\<exists>w'. uas_send_response cbs td w = (PJ_SUCCESS, w') \<and> grows w w'"
proof -
  note set = quiet_set_state [OF tu inv act]
  have p: "grows w (tsx_set_state cbs PJSIP_TSX_STATE_PROCEEDING SrcTxMsg (save_last_tx td w))"
    using st uas by (intro set) (auto simp: state_order)
  note ip = grows_inv [OF p] grows_active [OF p act]
  have p': "grows w (resched_or_flag d (tsx_cancel_timer Retransmit_timer
      (tsx_set_state cbs PJSIP_TSX_STATE_PROCEEDING SrcTxMsg (save_last_tx td w))))" for d
    by (rule grows_trans [OF p], rule grows_quiet [OF ip]) simp_all
  have t: "grows w (tsx_set_state cbs PJSIP_TSX_STATE_TERMINATED SrcTxMsg (tsx_cancel_timer Retransmit_timer w))"
    using st uas by (intro set) (auto simp: state_order)
  have c: "grows w (tsx_set_state cbs PJSIP_TSX_STATE_COMPLETED SrcTxMsg v)"
    if "core v = core w" "transport_err v = transport_err w" for v
    using st uas that by (intro set) (auto simp: state_order)
  show ?thesis unfolding uas_send_response_def Let_def
    by (simp add: p p' t c grows_refl [OF inv])
qed

lemma proceeding_uas_ok:
  assumes tu: "tu_ok cbs" and inv: "tsx_inv w" and act: "active w" and uas: "role w = PJSIP_ROLE_UAS"
    and st: "tsx_state w \<le> PJSIP_TSX_STATE_PROCEEDING" and out: "out_ok out"
  shows "\<exists>s w'. tsx_on_state_proceeding_uas cbs out event w = (s, w') \<and> grows w w'"
proof -
  have lt: "tsx_state w < PJSIP_TSX_STATE_TERMINATED" using st by (simp add: state_order)
  show ?thesis
  proof (cases event)
    case (EvRxMsg rx)
    obtain s w' where r: "tsx_send_msg cbs out (last_tx w) w = (s, w')" by force
    have "grows w w'"
      by (rule send_ok(1) [OF tu inv act below_terminated [OF lt] live_not_destroying [OF inv lt] out r])
    moreover have "grows w (w\<lparr>pending_send := True\<rparr>)" by (rule grows_quiet [OF inv act]) simp_all
    ultimately show ?thesis using EvRxMsg r grows_refl [OF inv] by (simp add: tsx_on_state_proceeding_uas_def)
  next
    case (EvTimer t)
    have "grows w (tsx_set_state cbs PJSIP_TSX_STATE_TERMINATED SrcTimer (tsx_set_status_code 408 w))"
      using st uas by (intro quiet_set_state [OF tu inv act]) (auto simp: state_order)
    then show ?thesis using EvTimer retransmit_ex [OF tu inv act lt out, of True]
      by (cases t) (auto simp: tsx_on_state_proceeding_uas_def Let_def)
  next
    case (EvTxMsg td)
    define w1 where "w1 = drop_last_tx td (tsx_set_status_code (tx_code (tdata w td)) w)"
    have w1: "core w1 = core w" "transport_err w1 = transport_err w" by (simp_all add: w1_def)
    have g1: "grows w w1" using w1 uas active_core [OF w1(1)] act
      by (intro grows_core [OF inv]) (auto intro: active_timers_null)
    note i1 = grows_inv [OF g1] grows_active [OF g1 act]
    have lt1: "tsx_state w1 < PJSIP_TSX_STATE_TERMINATED" using core_eqD [OF w1(1)] lt by simp
    obtain s w2 where r: "tsx_send_msg cbs out td w1 = (s, w2)" by force
    note snd = send_ok [OF tu i1 below_terminated [OF lt1] live_not_destroying [OF i1(1) lt1] out r]
    have g2: "grows w w2" using g1 snd(1) by (rule grows_trans)
    have "\<exists>w'. uas_send_response cbs td w2 = (PJ_SUCCESS, w') \<and> grows w2 w'" if "s = PJ_SUCCESS"
      using snd(2) [OF that lt1] core_eqD [OF w1(1)] st uas g2
      by (intro uas_response_ok [OF tu grows_inv [OF g2] grows_active [OF g2 act]]) (auto simp: grows_def)
    then have "\<exists>w'. uas_send_response cbs td w2 = (PJ_SUCCESS, w') \<and> grows w w'" if "s = PJ_SUCCESS"
      using that g2 grows_trans by blast
    then show ?thesis using EvTxMsg r [unfolded w1_def] g2 grows_refl [OF inv]
      by (cases "s = PJ_SUCCESS") (auto simp: tsx_on_state_proceeding_uas_def Let_def)
  qed
qed

lemma trying_ok:
  assumes tu: "tu_ok cbs" and inv: "tsx_inv w" and uas: "role w = PJSIP_ROLE_UAS"
    and st: "tsx_state w = PJSIP_TSX_STATE_TRYING" and out: "out_ok out"
  shows "\<exists>s w'. tsx_on_state_trying cbs out event w = (s, w') \<and> grows w w'"
proof (cases event)
  case (EvTxMsg td)
  have act: "active w" using st by (simp add: active_def)
  obtain s w1 where r: "tsx_on_state_proceeding_uas cbs out event w = (s, w1)" and g: "grows w w1"
    using proceeding_uas_ok [OF tu inv act uas _ out, of event] st by (auto simp: state_order)
  have "grows w (tsx_set_state cbs PJSIP_TSX_STATE_PROCEEDING SrcTxMsg w1)" if "tsx_state w1 = PJSIP_TSX_STATE_TRYING"
    using that by (intro grows_trans [OF g] set_state_grows(1) [OF tu grows_inv [OF g]]) (simp_all add: state_order)
  then show ?thesis using EvTxMsg r g by (simp add: tsx_on_state_trying_def Let_def)
qed (use grows_refl [OF inv] in \<open>simp_all add: tsx_on_state_trying_def\<close>)

lemma completed_uas_ok:
  assumes tu: "tu_ok cbs" and inv: "tsx_inv w" and uas: "role w = PJSIP_ROLE_UAS"
    and st: "tsx_state w = PJSIP_TSX_STATE_COMPLETED" and out: "out_ok out"
  shows "\<exists>s w'. tsx_on_state_completed_uas cbs out event w = (s, w') \<and> grows w w'"
proof -
  have act: "active w" using st by (simp add: active_def)
  have lt: "tsx_state w < PJSIP_TSX_STATE_TERMINATED" using st by (simp add: state_order)
  have t: "grows w (tsx_set_state cbs PJSIP_TSX_STATE_TERMINATED SrcTimer v)"
    if "core v = core w" "transport_err v = transport_err w" for v
    using st uas that by (intro quiet_set_state [OF tu inv act]) (auto simp: state_order)
  have c: "grows w (tsx_set_state cbs PJSIP_TSX_STATE_CONFIRMED src v)"
    if "core v = core w" "transport_err v = transport_err w" "tsx_method w = PJSIP_INVITE_METHOD" for v src
    using st uas that by (intro quiet_set_state [OF tu inv act]) (auto simp: state_order valid_state_def)
  show ?thesis
    using retransmit_ex [OF tu inv act lt out, of True] retransmit_ex [OF tu inv act lt out, of False]
    by (auto simp: tsx_on_state_completed_uas_def Let_def split: pjsip_event.split rx_msg.split tsx_timer_name.split
        intro!: t c grows_refl [OF inv])
qed

lemma completed_uac_ok:
  assumes tu: "tu_ok cbs" and inv: "tsx_inv w" and uac: "role w = PJSIP_ROLE_UAC"
    and st: "tsx_state w = PJSIP_TSX_STATE_COMPLETED" and out: "out_ok out"
  shows "\<exists>s w'. tsx_on_state_completed_uac cbs out event w = (s, w') \<and> grows w w'"
proof -
  note act = uac_active [OF uac]
  have lt: "tsx_state w < PJSIP_TSX_STATE_TERMINATED" using st by (simp add: state_order)
  have t: "grows w (tsx_set_state cbs PJSIP_TSX_STATE_TERMINATED SrcTimer w)"
    using st by (intro quiet_set_state [OF tu inv act]) (auto simp: state_order)
  show ?thesis
    using retransmit_ex [OF tu inv act lt out, of False] t grows_refl [OF inv]
    by (auto simp: tsx_on_state_completed_uac_def split: pjsip_event.split rx_msg.split tsx_timer_name.split)
qed

lemma confirmed_ok:
  assumes tu: "tu_ok cbs" and inv: "tsx_inv w" and st: "tsx_state w = PJSIP_TSX_STATE_CONFIRMED"
  shows "\<exists>s w'. tsx_on_state_confirmed cbs event w = (s, w') \<and> grows w w'"
proof -
  have act: "active w" using st by (simp add: active_def)
  have t: "grows w (tsx_set_state cbs PJSIP_TSX_STATE_TERMINATED SrcTimer w)"
    using st by (intro set_state_grows(1) [OF tu inv]) (auto simp: state_order)
  show ?thesis using t grows_refl [OF inv]
    by (auto simp: tsx_on_state_confirmed_def split: pjsip_event.split rx_msg.split tsx_timer_name.split)
qed

section \<open>Operations\<close>

definition advances :: "tsx_world \<Rightarrow> tsx_world \<Rightarrow> bool" where
  "advances w w' \<longleftrightarrow> tsx_inv w' \<and> role w' = role w \<and> tsx_method w' = tsx_method w \<and> tsx_state w \<le> tsx_state w'"

lemma grows_advances: "grows w w' \<Longrightarrow> advances w w'"
  by (simp add: grows_def advances_def)

lemma advances_trans: "advances a b \<Longrightarrow> advances b c \<Longrightarrow> advances a c"
  by (auto simp: advances_def)

lemma advances_core:
  assumes "tsx_inv w" "core w' = core w" "last_tx w' = last_tx w" "timers_null w'"
  shows "advances w w'"
  using assms core_eqD [OF assms(2)] by (auto simp: advances_def tsx_inv_def)

lemma destroyed_advances:
  "tu_ok cbs \<Longrightarrow> tsx_inv w \<Longrightarrow> advances w (tsx_set_state cbs PJSIP_TSX_STATE_DESTROYED src w)"
  using set_destroyed [of cbs w src] by (cases "tsx_state w") (auto simp: advances_def state_order)

definition event_ok :: "pjsip_event \<Rightarrow> tsx_world \<Rightarrow> bool" where
  "event_ok event w \<longleftrightarrow> event \<noteq> EvTxMsg 0 \<and> (active w \<or> (\<exists>rx. event = EvRxMsg rx))"

lemma call_state_handler_ok:
  assumes tu: "tu_ok cbs" and inv: "tsx_inv w" and out: "out_ok out" and ack: "ack_ok ack" and ev: "event_ok event w"
  shows "\<exists>s w'. call_state_handler cbs out ack event w = Some (s, w') \<and> advances w w'"
proof -
  have h: "state_handler w = handler_of (role w) (tsx_state w)" and v: "valid_state (role w) (tsx_method w) (tsx_state w)"
    using inv by (simp_all add: tsx_inv_def)
  have lift: "\<exists>s w'. r = Some (s, w') \<and> advances w w'" if "\<exists>s w'. r = Some (s, w') \<and> grows w w'" for r :: "(pj_status_t \<times> tsx_world) option"
    using that grows_advances by blast
  have lift': "\<exists>s w'. Some r = Some (s, w') \<and> advances w w'" if "\<exists>s w'. r = (s, w') \<and> grows w w'" for r :: "pj_status_t \<times> tsx_world"
    using that grows_advances by blast
  note call = call_state_handler_def h handler_of_def
  show ?thesis
  proof (cases "tsx_state w")
    case PJSIP_TSX_STATE_NULL
    have "\<exists>s w'. tsx_on_state_null cbs out event w = Some (s, w') \<and> grows w w'"
      using ev PJSIP_TSX_STATE_NULL by (intro on_state_null_ok [OF tu inv _ out]) (auto simp: event_ok_def active_def)
    from lift [OF this] show ?thesis using PJSIP_TSX_STATE_NULL by (simp add: call)
  next
    case PJSIP_TSX_STATE_CALLING
    with v have uac: "role w = PJSIP_ROLE_UAC" by (auto simp: valid_state_def split: if_splits)
    from lift [OF calling_ok [OF tu inv uac _ out ack]] show ?thesis using PJSIP_TSX_STATE_CALLING uac by (simp add: call)
  next
    case PJSIP_TSX_STATE_TRYING
    with v have uas: "role w = PJSIP_ROLE_UAS" by (cases "role w") (auto simp: valid_state_def)
    from lift' [OF trying_ok [OF tu inv uas _ out]] show ?thesis using PJSIP_TSX_STATE_TRYING uas by (simp add: call)
  next
    case PJSIP_TSX_STATE_PROCEEDING
    then have act: "active w" by (simp add: active_def)
    show ?thesis
    proof (cases "role w")
      case PJSIP_ROLE_UAC
      from lift [OF proceeding_uac_ok [OF tu inv PJSIP_ROLE_UAC _ out ack]] show ?thesis
        using PJSIP_TSX_STATE_PROCEEDING PJSIP_ROLE_UAC by (simp add: call)
    next
      case PJSIP_ROLE_UAS
      from lift' [OF proceeding_uas_ok [OF tu inv act PJSIP_ROLE_UAS _ out]] show ?thesis
        using PJSIP_TSX_STATE_PROCEEDING PJSIP_ROLE_UAS by (simp add: call)
    qed
  next
    case PJSIP_TSX_STATE_COMPLETED
    show ?thesis
    proof (cases "role w")
      case PJSIP_ROLE_UAC
      from lift' [OF completed_uac_ok [OF tu inv PJSIP_ROLE_UAC _ out]] show ?thesis
        using PJSIP_TSX_STATE_COMPLETED PJSIP_ROLE_UAC by (simp add: call)
    next
      case PJSIP_ROLE_UAS
      from lift' [OF completed_uas_ok [OF tu inv PJSIP_ROLE_UAS _ out]] show ?thesis
        using PJSIP_TSX_STATE_COMPLETED PJSIP_ROLE_UAS by (simp add: call)
    qed
  next
    case PJSIP_TSX_STATE_CONFIRMED
    from lift' [OF confirmed_ok [OF tu inv PJSIP_TSX_STATE_CONFIRMED]] show ?thesis
      using PJSIP_TSX_STATE_CONFIRMED by (simp add: call)
  next
    case PJSIP_TSX_STATE_TERMINATED
    then show ?thesis using destroyed_advances [OF tu inv] grows_advances [OF grows_refl [OF inv]]
      by (auto simp: call tsx_on_state_terminated_def split: pjsip_event.split)
  next
    case PJSIP_TSX_STATE_DESTROYED
    then show ?thesis using grows_advances [OF grows_refl [OF inv]] by (simp add: call tsx_on_state_destroyed_def)
  qed
qed

text \<open>
  The operations that drive a transaction: calls of the user and the layer, timer expiry, and the
  notifications of the transport and of the stateless send functions.
\<close>

datatype tsx_op =
    Op_send ptr send_outcome "pj_status_t \<times> ptr"
  | Op_recv rx_msg send_outcome "pj_status_t \<times> ptr"
  | Op_timer tsx_timer_name send_outcome "pj_status_t \<times> ptr"
  | Op_transport_done pj_status_t
  | Op_send_done send_notice ptr
  | Op_transport_state bool pj_status_t
  | Op_terminate int
  | Op_stop_retransmit
  | Op_set_timeout pj_uint32_t
  | Op_retransmit ptr send_outcome
  | Op_set_transport ptr

primrec perform_op :: "tsx_callbacks \<Rightarrow> tsx_op \<Rightarrow> tsx_world \<Rightarrow> tsx_world option" where
  "perform_op cbs (Op_send td out ack) w = map_option snd (pjsip_tsx_send_msg cbs out ack td w)"
| "perform_op cbs (Op_recv rx out ack) w = pjsip_tsx_recv_msg cbs out ack rx w"
| "perform_op cbs (Op_timer t out ack) w = timer_expires cbs out ack t w"
| "perform_op cbs (Op_transport_done st) w = Some (transport_callback st w)"
| "perform_op cbs (Op_send_done n td) w = Some (send_msg_callback cbs n td w)"
| "perform_op cbs (Op_transport_state d st) w = Some (tsx_tp_state_callback d st w)"
| "perform_op cbs (Op_terminate code) w = Some (snd (pjsip_tsx_terminate cbs code w))"
| "perform_op cbs Op_stop_retransmit w = Some (snd (pjsip_tsx_stop_retransmit w))"
| "perform_op cbs (Op_set_timeout ms) w = Some (snd (pjsip_tsx_set_timeout ms w))"
| "perform_op cbs (Op_retransmit td out) w = map_option snd (pjsip_tsx_retransmit_no_state cbs out td w)"
| "perform_op cbs (Op_set_transport sel) w = Some (snd (pjsip_tsx_set_transport sel w))"

text \<open>
  When an operation may happen: a server transaction receives its request before anything is sent,
  only timers in the heap expire, only sends in flight complete, a destroyed transaction is
  not sent from, and one that is shutting down is not bound to another transport.
\<close>

primrec op_ok :: "tsx_op \<Rightarrow> tsx_world \<Rightarrow> bool" where
  "op_ok (Op_send td out ack) w \<longleftrightarrow> active w \<and> out_ok out \<and> ack_ok ack"
| "op_ok (Op_recv rx out ack) w \<longleftrightarrow> out_ok out \<and> ack_ok ack"
| "op_ok (Op_timer t out ack) w \<longleftrightarrow> running (get_timer t w) \<noteq> None \<and> out_ok out \<and> ack_ok ack"
| "op_ok (Op_transport_done st) w \<longleftrightarrow> inflight w > 0"
| "op_ok (Op_send_done n td) w \<longleftrightarrow> active w \<and> notice_ok n \<and> tsx_state w < PJSIP_TSX_STATE_DESTROYED"
| "op_ok (Op_transport_state d st) w \<longleftrightarrow> True"
| "op_ok (Op_terminate code) w \<longleftrightarrow> True"
| "op_ok Op_stop_retransmit w \<longleftrightarrow> True"
| "op_ok (Op_set_timeout ms) w \<longleftrightarrow> True"
| "op_ok (Op_retransmit td out) w \<longleftrightarrow> active w \<and> out_ok out \<and> (td \<noteq> 0 \<or> last_tx w \<noteq> 0) \<and>
     tsx_state w < PJSIP_TSX_STATE_DESTROYED \<and> \<not> pending_destroy w"
| "op_ok (Op_set_transport sel) w \<longleftrightarrow> \<not> terminating w"

lemma timer_err_null:
  "timers_null (sched Timeout_timer d TRANSPORT_ERR_TIMER (tsx_cancel_timer Timeout_timer w)) \<longleftrightarrow>
     (role w = PJSIP_ROLE_UAS \<and> tsx_state w = PJSIP_TSX_STATE_NULL \<longrightarrow> running (retransmit_timer w) = None)"
  by (auto simp: timers_null_def sched_def tsx_schedule_timer_def tsx_cancel_timer_def)

lemma tp_state_callback_ok: "tsx_inv w \<Longrightarrow> advances w (tsx_tp_state_callback d st w)"
proof (rule advances_core)
  assume inv: "tsx_inv w"
  then have "timers_null (tsx_tp_state_callback d st w) \<longleftrightarrow> timers_null w \<or> d"
    using timer_err_null [of zero_time "w\<lparr>transport_err := st\<rparr>"]
    by (auto simp: tsx_tp_state_callback_def Let_def tsx_inv_def timers_null_def)
  with inv show "timers_null (tsx_tp_state_callback d st w)" by (auto simp: tsx_inv_def)
qed simp_all

lemma transport_callback_ok: "tsx_inv w \<Longrightarrow> advances w (transport_callback st w)"
proof (rule advances_core)
  assume inv: "tsx_inv w"
  then show "timers_null (transport_callback st w)"
    using timer_err_null [of zero_time "w\<lparr>pending_transport := False, inflight := inflight w - 1, transport_err := st\<rparr>"]
    by (auto simp: transport_callback_def Let_def tsx_inv_def timers_null_def)
qed (simp_all add: transport_callback_def Let_def)

lemma callback_destroy:
  assumes tu: "tu_ok cbs" and inv: "tsx_inv w" and act: "active w" and d: "pending_destroy w"
    and lt: "tsx_state w < PJSIP_TSX_STATE_DESTROYED"
  shows "advances w (send_msg_callback cbs n td w)"
proof -
  obtain sent tp cont addr inner where n: "n = Send_notice sent tp cont addr inner" by (cases n)
  have st: "tsx_state w = PJSIP_TSX_STATE_TERMINATED" using inv d lt by (intro terminated_unique) (auto simp: tsx_inv_def)
  have set: "advances w (tsx_set_state cbs PJSIP_TSX_STATE_DESTROYED src v)"
    if "core v = core w" "last_tx v = last_tx w" for v src
  proof -
    have "advances w v" using that active_core [OF that(1)] act
      by (intro advances_core [OF inv]) (auto intro: active_timers_null)
    moreover from this have "advances v (tsx_set_state cbs PJSIP_TSX_STATE_DESTROYED src v)"
      by (intro destroyed_advances [OF tu]) (simp add: advances_def)
    ultimately show ?thesis by (rule advances_trans)
  qed
  have nm: "tsx_state v = PJSIP_TSX_STATE_TERMINATED \<and> pending_destroy v" if "core v = core w" for v
    using core_eqD [OF that] st d by simp
  show ?thesis
  proof (cases "sent = PJ_SUCCESS")
    case True
    define w1 where "w1 = (if transport ((tx_set_tsx td 0 w)\<lparr>pending_tx := 0\<rparr>) \<noteq> tp
       then ((tsx_update_transport tp ((tx_set_tsx td 0 w)\<lparr>pending_tx := 0\<rparr>))\<lparr>tsx_addr := addr\<rparr>)
         \<lparr>is_reliable := tp_reliable (tps ((tsx_update_transport tp ((tx_set_tsx td 0 w)\<lparr>pending_tx := 0\<rparr>))\<lparr>tsx_addr := addr\<rparr>)
            (transport ((tsx_update_transport tp ((tx_set_tsx td 0 w)\<lparr>pending_tx := 0\<rparr>))\<lparr>tsx_addr := addr\<rparr>)))\<rparr>
       else (tx_set_tsx td 0 w)\<lparr>pending_tx := 0\<rparr>)\<lparr>pending_transport := False, resolved_server := True\<rparr>"
    have c: "core w1 = core w" "last_tx w1 = last_tx w" by (simp_all add: w1_def)
    have "send_msg_callback cbs n td w =
        (if \<not> mod_registered w \<or> tx_tsx (tdata w td) = 0 then w else tsx_set_state cbs PJSIP_TSX_STATE_DESTROYED SrcUnknown w1)"
      using True nm [OF c(1)] unfolding n send_msg_callback.simps Let_def w1_def [symmetric] by simp
    then show ?thesis using set [OF c] grows_advances [OF grows_refl [OF inv]] by simp
  next
    case False
    define w1 where "w1 = (if tp = transport ((tx_set_tsx td 0 w)\<lparr>pending_tx := 0\<rparr>)
      then tsx_update_transport 0 ((tx_set_tsx td 0 w)\<lparr>pending_tx := 0\<rparr>) else (tx_set_tsx td 0 w)\<lparr>pending_tx := 0\<rparr>)"
    define w2 where "w2 = tsx_set_status_code (if sent = PJ_ERESOLVE \<or> sent = PJLIB_UTIL_EDNS_NXDOMAIN then 502
        else PJSIP_SC_TSX_TRANSPORT_ERROR) (w1\<lparr>transport_err := sent, pending_transport := False, resolved_server := True\<rparr>)"
    have c: "core w2 = core w" "last_tx w2 = last_tx w" and c1: "core w1 = core w" by (simp_all add: w2_def w1_def)
    have "send_msg_callback cbs n td w =
        (if \<not> mod_registered w \<or> tx_tsx (tdata w td) = 0 then w else tsx_set_state cbs PJSIP_TSX_STATE_DESTROYED SrcTransportError w2)"
      using False nm [OF c(1)] nm [OF c1] unfolding n send_msg_callback.simps Let_def w1_def [symmetric] w2_def [symmetric] by simp
    then show ?thesis using set [OF c] grows_advances [OF grows_refl [OF inv]] by simp
  qed
qed

lemma timers_update_transport_0 [simp]:
  "retransmit_timer (tsx_update_transport 0 w) = retransmit_timer w" "timeout_timer (tsx_update_transport 0 w) = timeout_timer w"
  by (simp_all add: tsx_update_transport_def tp_dec_ref_def tp_listen_def Let_def)

lemma tsx_inv_user [simp]: "tsx_inv (w\<lparr>tsx_user := b\<rparr>) = tsx_inv w" "tsx_inv (emit e w) = tsx_inv w"
  "tsx_inv (w\<lparr>grp_refs := i\<rparr>) = tsx_inv w"
  by (simp_all add: tsx_inv_def timers_null_def emit_def)

lemma notify_tu_advances:
  assumes "tu_ok cbs" "tsx_inv w"
  shows "advances w (notify_tu cbs src prev w)"
proof -
  have "grows (emit e w) (on_tsx_state cbs src prev (emit e w))" for e using assms by (simp add: tu_ok_def)
  then have "advances w (on_tsx_state cbs src prev (emit e w))" for e
    using grows_advances [of "emit e w"] by (simp add: advances_def emit_def)
  then show ?thesis using grows_advances [OF grows_refl [OF assms(2)]] by (simp add: notify_tu_def)
qed

lemma timer_callback_ok:
  assumes tu: "tu_ok cbs" and inv: "tsx_inv w" and out: "out_ok out" and ack: "ack_ok ack"
    and ev: "active w \<or> timer_id (get_timer t w) = TRANSPORT_ERR_TIMER"
    and r: "running (get_timer t w) = None"
  shows "\<exists>w'. tsx_timer_callback cbs out ack t w = Some w' \<and> advances w w'"
proof -
  define w1 where "w1 = set_timer t ((get_timer t w)\<lparr>timer_id := 0\<rparr>) w"
  have c1: "core w1 = core w" "last_tx w1 = last_tx w" by (simp_all add: w1_def)
  have "timers_null w1" using inv r by (cases t) (auto simp: w1_def tsx_inv_def timers_null_def)
  then have a1: "advances w w1" using c1 by (intro advances_core [OF inv])
  then have inv1: "tsx_inv w1" by (simp add: advances_def)
  show ?thesis
  proof (cases "timer_id (get_timer t w) = TRANSPORT_ERR_TIMER")
    case True
    define w2 where "w2 = (if status_code (tsx_update_transport 0 w1) < 200
       then tsx_set_status_code PJSIP_SC_TSX_TRANSPORT_ERROR (tsx_update_transport 0 w1) else tsx_update_transport 0 w1)"
    have c2: "core w2 = core w1" "last_tx w2 = last_tx w1" by (simp_all add: w2_def)
    have "timers_null w2 = timers_null w1" using core_eqD [OF c2(1)]
      by (simp add: timers_null_def) (simp add: w2_def tsx_set_status_code_def)
    then have a2: "advances w1 w2" using inv1 c2 by (intro advances_core) (simp_all add: tsx_inv_def)
    define w3 where "w3 = tsx_set_state_no_notify cbs PJSIP_TSX_STATE_TERMINATED SrcTransportError w2"
    have a3: "advances w2 w3" if "tsx_state w1 < PJSIP_TSX_STATE_TERMINATED"
    proof -
      have "grows (w2\<lparr>tsx_user := False\<rparr>) (tsx_set_state cbs PJSIP_TSX_STATE_TERMINATED SrcTransportError (w2\<lparr>tsx_user := False\<rparr>))"
        using a2 that core_eqD [OF c2(1)] by (intro set_terminated(1) [OF tu]) (auto simp: advances_def state_order)
      from grows_advances [OF this] show ?thesis
        by (simp add: w3_def tsx_set_state_no_notify_def Let_def advances_def)
    qed
    have a4: "advances w3 (notify_tu cbs SrcTransportError prev w3)" if "tsx_state w1 < PJSIP_TSX_STATE_TERMINATED" for prev
      using notify_tu_advances [OF tu] a3 [OF that] by (simp add: advances_def)
    have "tsx_timer_callback cbs out ack t w =
       (if tsx_state w1 < PJSIP_TSX_STATE_TERMINATED then Some (notify_tu cbs SrcTransportError (tsx_state w1) w3) else Some w1)"
      using True unfolding tsx_timer_callback_def Let_def w1_def [symmetric] w2_def [symmetric] w3_def [symmetric] by simp
    then show ?thesis using a1 a2 a3 a4 advances_trans by (metis (full_types))
  next
    case False
    then have "event_ok (EvTimer t) w1" using ev core_eqD [OF c1(1)] by (simp add: event_ok_def active_def)
    from call_state_handler_ok [OF tu inv1 out ack this] a1 False show ?thesis
      by (auto simp: tsx_timer_callback_def w1_def [symmetric] Let_def intro: advances_trans)
  qed
qed

lemma timer_expires_ok:
  assumes tu: "tu_ok cbs" and inv: "tsx_inv w" and out: "out_ok out" and ack: "ack_ok ack"
    and r: "running (get_timer t w) \<noteq> None"
  shows "\<exists>w'. timer_expires cbs out ack t w = Some w' \<and> advances w w'"
proof -
  define w1 where "w1 = set_timer t ((get_timer t w)\<lparr>running := None\<rparr>) w"
  have "timers_null w1" using inv by (cases t) (auto simp: w1_def tsx_inv_def timers_null_def)
  then have a1: "advances w w1" by (intro advances_core [OF inv]) (simp_all add: w1_def)
  have e: "active w1 \<or> timer_id (get_timer t w1) = TRANSPORT_ERR_TIMER" "running (get_timer t w1) = None"
    using inv r by (cases t; auto simp: w1_def tsx_inv_def timers_null_def active_def)+
  have "tsx_inv w1" using a1 by (simp add: advances_def)
  from timer_callback_ok [OF tu this out ack e] obtain w2 where w2: "tsx_timer_callback cbs out ack t w1 = Some w2" "advances w1 w2"
    by blast
  then have "timer_expires cbs out ack t w = Some (w2\<lparr>grp_refs := grp_refs w2 - 1\<rparr>)"
    by (simp add: timer_expires_def Let_def w1_def)
  moreover have "advances w (w2\<lparr>grp_refs := grp_refs w2 - 1\<rparr>)"
    using a1 w2(2) by (auto simp: advances_def)
  ultimately show ?thesis by blast
qed

lemma uac_quiet_advances:
  assumes "tsx_inv w" "role w = PJSIP_ROLE_UAC" "core w' = core w" "last_tx w' = last_tx w"
  shows "advances w w'"
  using assms core_eqD [OF assms(3)] by (intro advances_core) (auto intro!: active_timers_null uac_active)

lemma dec_ref_advances: "tsx_inv w \<Longrightarrow> advances w (tx_dec_ref p w)"
  by (simp add: tx_dec_ref_def advances_def tsx_inv_def timers_null_def)

lemma set_timeout_ok: "tsx_inv w \<Longrightarrow> advances w (snd (pjsip_tsx_set_timeout ms w))"
  using grows_advances [OF grows_refl, of w]
  by (auto simp: pjsip_tsx_set_timeout_def Let_def intro!: uac_quiet_advances)

lemma set_transport_ok: "tsx_inv w \<Longrightarrow> advances w (snd (pjsip_tsx_set_transport sel w))"
  by (simp add: pjsip_tsx_set_transport_def Let_def pjsip_tpselector_dec_ref_def pjsip_tpselector_add_ref_def
      tp_dec_ref_def tp_add_ref_def advances_def tsx_inv_def timers_null_def)

lemma perform_op_ok:
  assumes tu: "tu_ok cbs" and inv: "tsx_inv w" and ok: "op_ok op w"
  shows "\<exists>w'. perform_op cbs op w = Some w' \<and> advances w w'"
proof (cases op)
  case (Op_send td out ack)
  let ?td = "if td = 0 then last_tx w else td"
  show ?thesis
  proof (cases "?td = 0")
    case True
    then show ?thesis using Op_send grows_advances [OF grows_refl [OF inv]] by (simp add: pjsip_tsx_send_msg_def)
  next
    case False
    with ok Op_send have "event_ok (EvTxMsg ?td) w" by (auto simp: event_ok_def)
    with call_state_handler_ok [OF tu inv, of out ack "EvTxMsg ?td"] ok Op_send obtain s w1 where
      w1: "call_state_handler cbs out ack (EvTxMsg ?td) w = Some (s, w1)" "advances w w1" by auto
    have "advances w1 (tx_dec_ref ?td w1)" using w1(2) by (intro dec_ref_advances) (simp add: advances_def)
    with w1 False Op_send show ?thesis by (auto simp: pjsip_tsx_send_msg_def Let_def intro: advances_trans)
  qed
next
  case (Op_recv rx out ack)
  then show ?thesis using call_state_handler_ok [OF tu inv, of out ack "EvRxMsg rx"] ok
    by (auto simp: pjsip_tsx_recv_msg_def event_ok_def)
next
  case (Op_timer t out ack)
  then show ?thesis using timer_expires_ok [OF tu inv, of out ack t] ok by simp
next
  case (Op_send_done n td)
  then show ?thesis
    using callback_ok [OF tu inv, of n td] callback_destroy [OF tu inv, of n td] ok grows_advances
    by (cases "pending_destroy w") (auto simp: same_or_failed_def)
next
  case (Op_terminate code)
  have "advances w (tsx_set_state cbs PJSIP_TSX_STATE_TERMINATED SrcUser (tsx_set_status_code code w))"
    if "tsx_state w < PJSIP_TSX_STATE_TERMINATED"
  proof -
    have "tsx_inv (tsx_set_status_code code w)" using inv by (simp add: tsx_inv_def timers_null_def tsx_set_status_code_def)
    from grows_advances [OF set_terminated(1) [OF tu this, of SrcUser]] that show ?thesis
      by (auto simp: advances_def tsx_set_status_code_def state_order)
  qed
  then show ?thesis using Op_terminate grows_advances [OF grows_refl [OF inv]] by (simp add: pjsip_tsx_terminate_def)
next
  case Op_stop_retransmit
  have "advances w (tsx_cancel_timer Retransmit_timer w)" if "role w = PJSIP_ROLE_UAC"
    using that by (intro uac_quiet_advances [OF inv]) simp_all
  then show ?thesis using Op_stop_retransmit grows_advances [OF grows_refl [OF inv]]
    by (auto simp: pjsip_tsx_stop_retransmit_def)
next
  case (Op_retransmit td out)
  define v where "v = (if td = 0 then (last_tx w, tx_add_ref (last_tx w) w) else (td, w))"
  obtain s w1 where r: "tsx_send_msg cbs out (fst v) (snd v) = (s, w1)" by force
  have c: "core (snd v) = core w" "last_tx (snd v) = last_tx w" "transport_err (snd v) = transport_err w" by (simp_all add: v_def)
  have ok': "active w" "out_ok out" "tsx_state w < PJSIP_TSX_STATE_DESTROYED" "\<not> pending_destroy w" "\<not> (td = 0 \<and> last_tx w = 0)"
    using ok Op_retransmit by auto
  have g: "grows w (snd v)" using c by (intro grows_quiet [OF inv ok'(1)]) simp_all
  have "grows (snd v) w1"
    using ok' core_eqD [OF c(1)] grows_active [OF g] by (intro send_ok(1) [OF tu grows_inv [OF g] _ _ _ _ r]) auto
  with g have a: "advances w w1" using grows_trans grows_advances by blast
  have "advances w1 (tx_dec_ref (fst v) w1)" using a by (intro dec_ref_advances) (simp add: advances_def)
  with a have b: "advances w (tx_dec_ref (fst v) w1)" by (rule advances_trans)
  have "pjsip_tsx_retransmit_no_state cbs out td w = Some (s, if s = PJ_SUCCESS then tx_dec_ref (fst v) w1 else w1)"
    using ok'(5) r unfolding pjsip_tsx_retransmit_no_state_def v_def [symmetric] Let_def by (simp add: case_prod_beta)
  with a b Op_retransmit show ?thesis by simp
qed (use tp_state_callback_ok transport_callback_ok set_timeout_ok set_transport_ok inv in auto)

section \<open>Creation\<close>

lemma register_frame:
  assumes "mod_tsx_layer_register_tsx w = (st, w')"
  shows "core w' = core w" "last_tx w' = last_tx w" "retransmit_timer w' = retransmit_timer w" "timeout_timer w' = timeout_timer w"
  using assms by (auto simp: mod_tsx_layer_register_tsx_def Let_def split: if_splits option.splits)

lemma tsx_create_frame:
  assumes "tsx_create env user gl addr w = (PJ_SUCCESS, w')"
  shows "\<not> terminating w'" "\<not> pending_destroy w'" "retransmit_timer w' = idle_timer" "timeout_timer w' = idle_timer"
  using assms by (auto simp: tsx_create_def Let_def split: if_splits)

lemma create_uac_inv:
  assumes "pjsip_tsx_create_uac2 own env user gl addr req w = (PJ_SUCCESS, w')"
  shows "tsx_inv w'" "tsx_state w' = PJSIP_TSX_STATE_NULL" "role w' = PJSIP_ROLE_UAC" "last_tx w' = req_tdata req"
proof -
  obtain w1 where w1: "tsx_create env user gl addr w = (PJ_SUCCESS, w1)"
    using assms by (auto simp: pjsip_tsx_create_uac2_def Let_def split: if_splits prod.splits)
  define br where "br = (if req_branch req = [] then PJSIP_NEW_BRANCH env else req_branch req)"
  define k where "k = create_tsx_key_3261 PJSIP_ROLE_UAC (req_method req) br"
  define w2 where "w2 = w1\<lparr>role := PJSIP_ROLE_UAC, tsx_method := method_id (req_method req), transaction_key := k,
     hashed_key := fst (pj_hash_calc_tolower own 0 k), tsx_state := PJSIP_TSX_STATE_NULL,
     state_handler := Some Tsx_on_state_null, last_tx := req_tdata req\<rparr>"
  define w3 where "w3 = (tx_add_ref (last_tx w2) w2)\<lparr>is_reliable := addr_reliable env\<rparr>"
  have reg: "mod_tsx_layer_register_tsx w3 = (PJ_SUCCESS, w')" and td: "req_tdata req \<noteq> 0"
    using assms w1 unfolding pjsip_tsx_create_uac2_def Let_def br_def [symmetric] k_def [symmetric]
    by (auto simp: w2_def [symmetric] w3_def [symmetric] split: if_splits prod.splits)
  note f = register_frame [OF reg] core_eqD [OF register_frame(1) [OF reg]]
  have c: "role w3 = PJSIP_ROLE_UAC" "tsx_state w3 = PJSIP_TSX_STATE_NULL" "state_handler w3 = Some Tsx_on_state_null"
    "last_tx w3 = req_tdata req" "terminating w3 = terminating w1" "pending_destroy w3 = pending_destroy w1"
    by (simp_all add: w3_def w2_def tx_add_ref_def)
  show "tsx_inv w'" "tsx_state w' = PJSIP_TSX_STATE_NULL" "role w' = PJSIP_ROLE_UAC" "last_tx w' = req_tdata req"
    using f c tsx_create_frame [OF w1] td by (auto simp: tsx_inv_def timers_null_def handler_of_def)
qed

lemma create_uas_inv:
  assumes "pjsip_tsx_create_uas2 own env user gl addr rx w = Some (PJ_SUCCESS, w')"
  shows "tsx_inv w'" "tsx_state w' = PJSIP_TSX_STATE_NULL" "role w' = PJSIP_ROLE_UAS"
proof -
  obtain w1 k where w1: "tsx_create env user gl addr w = (PJ_SUCCESS, w1)"
    and k: "pjsip_tsx_create_key PJSIP_ROLE_UAS (rx_method rx) (rx_info rx) = Some k"
    using assms by (auto simp: pjsip_tsx_create_uas2_def Let_def split: if_splits prod.splits option.splits)
  define w2 where "w2 = w1\<lparr>role := PJSIP_ROLE_UAS, tsx_method := method_id (rx_method rx), transaction_key := k,
     hashed_key := fst (pj_hash_calc_tolower own 0 k), tsx_state := PJSIP_TSX_STATE_NULL,
     state_handler := Some Tsx_on_state_null, res_transport := addr_transport env\<rparr>"
  define w3 where "w3 = (tsx_update_transport (addr_transport env) w2)\<lparr>tsx_addr := addr_value env\<rparr>"
  define w4 where "w4 = (if addr_transport env \<noteq> 0 then w3\<lparr>is_reliable := tp_reliable (tps w3 (transport w3))\<rparr>
     else w2\<lparr>is_reliable := addr_reliable env\<rparr>)"
  have reg: "mod_tsx_layer_register_tsx w4 = (PJ_SUCCESS, w')"
    using assms w1 k unfolding pjsip_tsx_create_uas2_def Let_def
    by (auto simp: w4_def w3_def w2_def split: if_splits prod.splits option.splits)
  note f = register_frame [OF reg] core_eqD [OF register_frame(1) [OF reg]]
  have "core w4 = core w2" by (simp add: w4_def w3_def)
  note c4 = core_eqD [OF this]
  have idle: "retransmit_timer w2 = idle_timer" "timeout_timer w2 = idle_timer" "\<not> terminating w2" "\<not> pending_destroy w2"
    using tsx_create_frame [OF w1] by (simp_all add: w2_def)
  have t: "retransmit_timer w4 = idle_timer" "timeout_timer w4 = idle_timer \<or> timer_id (timeout_timer w4) = TRANSPORT_ERR_TIMER"
    using idle by (auto simp: w4_def w3_def tsx_update_transport_def tsx_tp_state_callback_def Let_def tp_dec_ref_def tp_add_ref_def
        tp_listen_def sched_def tsx_schedule_timer_def tsx_cancel_timer_def)
  show "tsx_inv w'" "tsx_state w' = PJSIP_TSX_STATE_NULL" "role w' = PJSIP_ROLE_UAS"
    using f c4 idle t by (auto simp: tsx_inv_def timers_null_def handler_of_def w2_def idle_timer_def)
qed

section \<open>Runs\<close>

inductive tsx_reach :: "tsx_callbacks \<Rightarrow> tsx_world \<Rightarrow> tsx_world option \<Rightarrow> bool" for cbs w0 where
  start: "tsx_reach cbs w0 (Some w0)"
| step: "tsx_reach cbs w0 (Some w) \<Longrightarrow> op_ok op w \<Longrightarrow> tsx_reach cbs w0 (perform_op cbs op w)"

text \<open>A transaction that \<^verbatim>\<open>pjsip_tsx_create_uac2\<close> or \<^verbatim>\<open>pjsip_tsx_create_uas2\<close> has returned.\<close>

inductive tsx_created :: "tsx_world \<Rightarrow> bool" where
  created_uac: "pjsip_tsx_create_uac2 own env user gl addr req w = (PJ_SUCCESS, w') \<Longrightarrow> tsx_created w'"
| created_uas: "pjsip_tsx_create_uas2 own env user gl addr rx w = Some (PJ_SUCCESS, w') \<Longrightarrow> tsx_created w'"

lemma created_inv: "tsx_created w \<Longrightarrow> tsx_inv w"
  by (induction rule: tsx_created.induct) (auto dest: create_uac_inv create_uas_inv)

lemma reach_advances:
  assumes "tsx_reach cbs w0 r" "tu_ok cbs" "tsx_inv w0"
  shows "\<exists>w. r = Some w \<and> advances w0 w"
  using assms(1)
proof (induction rule: tsx_reach.induct)
  case start
  then show ?case using grows_advances [OF grows_refl [OF assms(3)]] by simp
next
  case (step w op)
  then have "tsx_inv w" "advances w0 w" by (auto simp: advances_def)
  with perform_op_ok [OF assms(2) _ step(2)] show ?case by (blast intro: advances_trans)
qed

section \<open>Safety of transactions\<close>

text \<open>A user that ignores its callbacks, and an empty world to create a transaction in.\<close>

definition quiet_user :: tsx_callbacks where
  "quiet_user = \<lparr>on_rx_response = (\<lambda>rx w. w), on_tsx_state = (\<lambda>src prev w. w)\<rparr>"

lemma quiet_user_ok: "tu_ok quiet_user"
  by (simp add: tu_ok_def quiet_user_def grows_refl)

definition sample_world :: tsx_world where
  "sample_world = \<lparr>self = 0, tsx_user = False, terminating = False, role = PJSIP_ROLE_UAC,
     tsx_method = PJSIP_INVITE_METHOD, transaction_key = [], hashed_key = 0, status_code = 0,
     tsx_state = PJSIP_TSX_STATE_NULL, handle_200resp = True, state_handler = None,
     transport = 0, is_reliable = False, tsx_addr = 0, res_transport = 0,
     pending_transport = False, pending_resched = False, pending_send = False,
     pending_destroy = False, resolved_server = False, transport_err = PJ_SUCCESS,
     tp_sel = 0, pending_tx = 0, last_tx = 0, retransmit_count = 0,
     retransmit_timer = idle_timer, timeout_timer = idle_timer,
     tdata = (\<lambda>p. \<lparr>is_request = p < 100, tx_code = 200, tx_cseq_method = PJSIP_INVITE_METHOD, ref_cnt = 1,
        is_pending = False, tx_tsx = 0\<rparr>),
     tps = (\<lambda>p. \<lparr>tp_ref_cnt = 0, tp_listeners = 0, is_shutdown = False, tp_reliable = False\<rparr>),
     grp_refs = 0, inflight = 0, htable = \<lparr>table = [[]], hcount = 0, rows = 0\<rparr>, mod_registered = True,
     cfg = \<lparr>cfg_t1 = 500, cfg_t2 = 4000, cfg_t4 = 5000, cfg_td = 32000\<rparr>, outputs = []\<rparr>"

definition sample_env :: create_env where
  "sample_env = \<lparr>pool_ok = True, lock_status = PJ_SUCCESS, mutex_status = PJ_SUCCESS, addr_status = PJ_SUCCESS,
     addr_reliable = False, addr_transport = 0, addr_value = 0, unique_string = [49]\<rparr>"

definition sample_uac :: tsx_world where
  "sample_uac = snd (pjsip_tsx_create_uac2 False sample_env True False 1000
     \<lparr>req_tdata = 1, req_cseq = True, req_method = \<lparr>method_id = PJSIP_INVITE_METHOD, name = [73]\<rparr>, req_branch = []\<rparr>
     sample_world)"

lemma sample_uac_created: "tsx_created sample_uac"
proof (rule created_uac)
  have "fst (pjsip_tsx_create_uac2 False sample_env True False 1000
     \<lparr>req_tdata = 1, req_cseq = True, req_method = \<lparr>method_id = PJSIP_INVITE_METHOD, name = [73]\<rparr>, req_branch = []\<rparr>
     sample_world) = PJ_SUCCESS" by code_simp
  then show "pjsip_tsx_create_uac2 False sample_env True False 1000
     \<lparr>req_tdata = 1, req_cseq = True, req_method = \<lparr>method_id = PJSIP_INVITE_METHOD, name = [73]\<rparr>, req_branch = []\<rparr>
     sample_world = (PJ_SUCCESS, sample_uac)" unfolding sample_uac_def by (simp add: prod_eq_iff)
qed





end
