(* ===== verification/PJ_TsxRefs.thy ===== *)
theory PJ_TsxRefs
  imports PJ_TsxSafety
begin

text \<open>
  Reference counting of the transaction of \<open>PJ_Transaction\<close>: the references that a transaction
  holds on its transports and on its group lock. The locale states what a quantity must satisfy to be
  conserved by every operation, and is interpreted for the references that nobody but the
  transaction accounts for, so that each reference taken is given back exactly once.
\<close>

section \<open>Conserved quantities\<close>

text \<open>
  A quantity \<open>q\<close> that no field update outside reference counting changes, and that taking and
  releasing transports, timers and messages leaves as it is; \<open>g\<close> is the weight of a reference to the
  group lock, \<open>sel\<close> that of the transport selector.
\<close>

lemma emit_counts [simp]: "grp_refs (emit e w) = grp_refs w" "inflight (emit e w) = inflight w"
  by (simp_all add: emit_def)

locale tsx_conserved =
  fixes q :: "tsx_world \<Rightarrow> int" and g :: int and sel :: "ptr \<Rightarrow> int" and cbs :: tsx_callbacks
  assumes q_fields:
      "q (w\<lparr>tsx_state := s, state_handler := h\<rparr>) = q w" "q (w\<lparr>tsx_user := b\<rparr>) = q w" "q (w\<lparr>status_code := i\<rparr>) = q w"
      "q (w\<lparr>is_reliable := b\<rparr>) = q w" "q (w\<lparr>tsx_addr := n\<rparr>) = q w" "q (w\<lparr>res_transport := p\<rparr>) = q w"
      "q (w\<lparr>pending_transport := b\<rparr>) = q w" "q (w\<lparr>pending_resched := b\<rparr>) = q w" "q (w\<lparr>pending_send := b\<rparr>) = q w"
      "q (w\<lparr>pending_destroy := b\<rparr>) = q w" "q (w\<lparr>resolved_server := b\<rparr>) = q w" "q (w\<lparr>transport_err := st\<rparr>) = q w"
      "q (w\<lparr>pending_tx := p\<rparr>) = q w" "q (w\<lparr>last_tx := p\<rparr>) = q w" "q (w\<lparr>retransmit_count := n\<rparr>) = q w"
      "q (w\<lparr>htable := t\<rparr>) = q w" "q (w\<lparr>outputs := os\<rparr>) = q w" "q (w\<lparr>tdata := td\<rparr>) = q w"
    and q_timer: "q (tsx_cancel_timer e w) = q w" "q (sched e d k w) = q w"
      "q (set_timer e ((get_timer e w)\<lparr>timer_id := k\<rparr>) w) = q w"
    and q_expire: "running (get_timer e w) \<noteq> None \<Longrightarrow> q (set_timer e ((get_timer e w)\<lparr>running := None\<rparr>) w) = q w + g"
    and q_grp: "q (w\<lparr>grp_refs := i\<rparr>) = q w + g * (i - grp_refs w)"
    and q_inflight: "q (w\<lparr>inflight := n\<rparr>) = q w - g * (int n - int (inflight w))"
    and q_transport: "q (tsx_update_transport p w) = q w"
    and q_sel: "q (pjsip_tpselector_add_ref p w) = q w + sel p" "q (pjsip_tpselector_dec_ref p w) = q w - sel p"
    and q_terminate: "q (w\<lparr>terminating := True\<rparr>) = q w + (if terminating w then 0 else g + sel (tp_sel w))"
    and q_set_sel: "\<not> terminating w \<Longrightarrow> q (w\<lparr>tp_sel := p\<rparr>) = q w + sel (tp_sel w) - sel p"
    and q_user: "q (on_rx_response cbs rx w) = q w" "q (on_tsx_state cbs src prev w) = q w"
begin

lemma q_refs [simp]:
  "q (tx_add_ref p w) = q w" "q (tx_dec_ref p w) = q w" "q (tx_set_tsx p t w) = q w" "q (emit e w) = q w"
  "q (tsx_set_status_code c w) = q w"
  by (simp_all add: tx_add_ref_def tx_dec_ref_def tx_set_tsx_def emit_def tsx_set_status_code_def q_fields)

lemmas q_simps [simp] = q_fields q_timer q_transport q_user q_grp q_inflight q_sel q_terminate

lemma q_if [simp]: "q (if b then x else y) = (if b then q x else q y)"
  by simp

lemma q_tp_state [simp]: "q (tsx_tp_state_callback d st w) = q w"
  by (simp add: tsx_tp_state_callback_def Let_def)

lemma q_helpers [simp]:
  "q (enter_terminated w) = q w" "q (tsx_resched_retransmission w) = q w" "q (restart_timeout d w) = q w"
  "q (resched_or_flag d w) = q w" "q (save_last_tx p w) = q w" "q (drop_last_tx p w) = q w"
  "q (mod_tsx_layer_unregister_tsx w) = q w" "q (notify_tu cbs src prev w) = q w"
  by (simp_all add: enter_terminated_def tsx_resched_retransmission_def restart_timeout_def resched_or_flag_def
      save_last_tx_def drop_last_tx_def mod_tsx_layer_unregister_tsx_def notify_tu_def Let_def split: option.splits)

lemma q_shutdown [simp]: "q (tsx_shutdown w) = q w"
proof -
  define w1 where "w1 = tsx_update_transport 0 w"
  define w2 where "w2 = (if \<not> terminating w1 then pjsip_tpselector_dec_ref (tp_sel w1) w1 else w1)"
  define w3 where "w3 = (if last_tx w2 \<noteq> 0 then (tx_dec_ref (last_tx w2) w2)\<lparr>last_tx := 0\<rparr> else w2)"
  define w4 where "w4 = (tsx_cancel_timer Retransmit_timer (tsx_cancel_timer Timeout_timer w3))
    \<lparr>pending_resched := False, pending_send := False\<rparr>"
  define w5 where "w5 = (if pending_transport w4 then w4\<lparr>pending_destroy := True, tsx_user := False\<rparr> else w4)"
  have t: "terminating w5 = terminating w1" "tp_sel w5 = tp_sel w1"
    by (simp_all add: w5_def w4_def w3_def w2_def pjsip_tpselector_dec_ref_def tp_dec_ref_def tx_dec_ref_def tsx_cancel_timer_def)
  have "q w5 = q w - (if terminating w1 then 0 else sel (tp_sel w1))"
    by (simp add: w5_def w4_def w3_def w2_def w1_def)
  moreover have "tsx_shutdown w = (if \<not> terminating w5 then w5\<lparr>terminating := True, grp_refs := grp_refs w5 - 1\<rparr> else w5)"
    unfolding tsx_shutdown_def Let_def w1_def [symmetric] w2_def [symmetric] w3_def [symmetric] w4_def [symmetric] w5_def [symmetric]
    by simp
  ultimately show ?thesis using t by simp
qed

lemma q_set_state [simp]: "q (tsx_set_state cbs s src w) = q w"
  by (simp add: tsx_set_state_def Let_def split: event_src.splits rx_msg.splits)

lemma q_no_notify [simp]: "q (tsx_set_state_no_notify cbs s src w) = q w"
  by (simp add: tsx_set_state_no_notify_def Let_def)

lemma q_run_notices: "(\<And>n w. n \<in> set ns \<Longrightarrow> q (send_msg_callback cbs n td w) = q w) \<Longrightarrow> q (run_notices cbs ns td w) = q w"
  by (induction ns arbitrary: w) simp_all

lemma q_send [simp]:
  "q (snd (tsx_send_msg cbs out td w)) = q w" "q (send_msg_callback cbs n td w) = q w"
proof (induction out and n arbitrary: td w and td w)
  case (Send_outcome st ns sl)
  have "q (run_notices cbs ns td v) = q v" for v using Send_outcome by (rule q_run_notices)
  then show ?case by (simp add: tsx_send_msg.simps Let_def)
next
  case (Send_notice sent tp cont addr inner)
  then show ?case unfolding send_msg_callback.simps Let_def by (simp split del: if_split cong: if_cong)
qed

lemma q_send_eq: "tsx_send_msg cbs out td w = (s, w') \<Longrightarrow> q w' = q w"
  using q_send(1) [of out td w] by simp

lemma q_retransmit [simp]: "q (snd (tsx_retransmit cbs out b w)) = q w"
  by (simp add: tsx_retransmit_def Let_def)

lemma q_retransmit_eq: "tsx_retransmit cbs out b w = (s, w') \<Longrightarrow> q w' = q w"
  using q_retransmit [of out b w] by (simp del: q_retransmit)

lemma q_null: "tsx_on_state_null cbs out event w = Some (s, w') \<Longrightarrow> q w' = q w"
  by (auto simp: tsx_on_state_null_def Let_def split: if_splits pjsip_event.splits prod.splits dest!: q_send_eq)

lemma q_final_ack: "final_ack cbs out ack rx w = Some (s, w') \<Longrightarrow> q w' = q w"
  by (auto simp: final_ack_def Let_def split: if_splits prod.splits dest!: q_send_eq)

lemma q_proceeding_uac: "tsx_on_state_proceeding_uac cbs out ack event w = Some (s, w') \<Longrightarrow> q w' = q w"
  by (auto simp: tsx_on_state_proceeding_uac_def Let_def
      split: if_splits pjsip_event.splits tsx_timer_name.splits rx_msg.splits dest!: q_final_ack q_retransmit_eq)

lemma q_calling: "tsx_on_state_calling cbs out ack event w = Some (s, w') \<Longrightarrow> q w' = q w"
  by (auto simp: tsx_on_state_calling_def Let_def
      split: if_splits pjsip_event.splits tsx_timer_name.splits rx_msg.splits dest!: q_proceeding_uac q_retransmit_eq)

lemma q_uas_response [simp]: "q (snd (uas_send_response cbs td w)) = q w"
  by (simp add: uas_send_response_def Let_def)

lemma q_proceeding_uas [simp]: "q (snd (tsx_on_state_proceeding_uas cbs out event w)) = q w"
  by (auto simp: tsx_on_state_proceeding_uas_def Let_def
      split: if_splits pjsip_event.splits tsx_timer_name.splits prod.splits dest!: q_send_eq)

lemma q_proceeding_uas_eq: "tsx_on_state_proceeding_uas cbs out event w = (s, w') \<Longrightarrow> q w' = q w"
  using q_proceeding_uas [of out event w] by (simp del: q_proceeding_uas)

lemma q_trying [simp]: "q (snd (tsx_on_state_trying cbs out event w)) = q w"
  by (auto simp: tsx_on_state_trying_def Let_def split: pjsip_event.splits prod.splits dest!: q_proceeding_uas_eq)

lemma q_completed [simp]:
  "q (snd (tsx_on_state_completed_uas cbs out event w)) = q w" "q (snd (tsx_on_state_completed_uac cbs out event w)) = q w"
  "q (snd (tsx_on_state_confirmed cbs event w)) = q w" "q (snd (tsx_on_state_terminated cbs event w)) = q w"
  by (auto simp: tsx_on_state_completed_uas_def tsx_on_state_completed_uac_def tsx_on_state_confirmed_def
      tsx_on_state_terminated_def Let_def split: if_splits pjsip_event.splits tsx_timer_name.splits rx_msg.splits)

lemma q_handler:
  assumes "call_state_handler cbs out ack event w = Some (s, w')"
  shows "q w' = q w"
proof -
  have pair: "r = (s, w') \<Longrightarrow> q (snd r) = q w \<Longrightarrow> q w' = q w" for r by simp
  show ?thesis using assms
    by (auto simp: call_state_handler_def tsx_on_state_destroyed_def split: option.splits tsx_handler.splits
        dest: q_null q_calling q_proceeding_uac pair [OF _ q_trying] pair [OF _ q_proceeding_uas] pair [OF _ q_completed(1)]
          pair [OF _ q_completed(2)] pair [OF _ q_completed(3)] pair [OF _ q_completed(4)])
qed

lemma q_timer_callback: "tsx_timer_callback cbs out ack t w = Some w' \<Longrightarrow> q w' = q w"
  by (auto simp: tsx_timer_callback_def Let_def split: if_splits dest!: q_handler)

lemma q_op:
  assumes "perform_op cbs op w = Some w'" "op_ok op w"
  shows "q w' = q w"
proof (cases op)
  case (Op_send td out ack)
  with assms show ?thesis
    by (auto simp: pjsip_tsx_send_msg_def Let_def split: if_splits option.splits dest!: q_handler)
next
  case (Op_recv rx out ack)
  with assms show ?thesis by (auto simp: pjsip_tsx_recv_msg_def dest!: q_handler)
next
  case (Op_timer t out ack)
  with assms show ?thesis
    by (auto simp: timer_expires_def Let_def q_expire dest!: q_timer_callback)
next
  case (Op_transport_done st)
  with assms show ?thesis by (auto simp: transport_callback_def Let_def of_nat_diff algebra_simps)
next
  case (Op_set_transport p)
  have "tp_sel (pjsip_tpselector_dec_ref s w) = tp_sel w" "terminating (pjsip_tpselector_dec_ref s w) = terminating w" for s
    by (simp_all add: pjsip_tpselector_dec_ref_def tp_dec_ref_def)
  with Op_set_transport assms show ?thesis by (auto simp: pjsip_tsx_set_transport_def Let_def q_set_sel)
next
  case (Op_retransmit td out)
  with assms show ?thesis
    by (auto simp: pjsip_tsx_retransmit_no_state_def Let_def split: if_splits prod.splits dest!: q_send_eq)
qed (use assms in \<open>auto simp: pjsip_tsx_terminate_def pjsip_tsx_stop_retransmit_def pjsip_tsx_set_timeout_def Let_def\<close>)

lemma q_reach: "tsx_reach cbs w r \<Longrightarrow> r = Some w' \<Longrightarrow> q w' = q w"
  by (induction arbitrary: w' rule: tsx_reach.induct) (auto dest: q_op)

end

section \<open>Transport and group lock references\<close>

text \<open>The references of the transaction itself, and the rest, which the transaction must not change.\<close>

definition held_transport :: "ptr \<Rightarrow> tsx_world \<Rightarrow> int" where
  "held_transport p w =
     (if p \<noteq> 0 \<and> transport w = p then 1 else 0) + (if p \<noteq> 0 \<and> tp_sel w = p \<and> \<not> terminating w then 1 else 0)"

definition held_listener :: "ptr \<Rightarrow> tsx_world \<Rightarrow> int" where
  "held_listener p w = (if p \<noteq> 0 \<and> transport w = p then 1 else 0)"

definition held_lock :: "tsx_world \<Rightarrow> int" where
  "held_lock w =
     (if terminating w then 0 else 1) + (if running (retransmit_timer w) \<noteq> None then 1 else 0) +
     (if running (timeout_timer w) \<noteq> None then 1 else 0) + int (inflight w)"

definition other_transport_refs :: "ptr \<Rightarrow> tsx_world \<Rightarrow> int" where
  "other_transport_refs p w = tp_ref_cnt (tps w p) - held_transport p w"

definition other_listeners :: "ptr \<Rightarrow> tsx_world \<Rightarrow> int" where
  "other_listeners p w = tp_listeners (tps w p) - held_listener p w"

definition other_lock_refs :: "tsx_world \<Rightarrow> int" where
  "other_lock_refs w = grp_refs w - held_lock w"

text \<open>Callbacks that leave these alone, other than through the transaction's operations.\<close>

definition same_others :: "tsx_world \<Rightarrow> tsx_world \<Rightarrow> bool" where
  "same_others w w' \<longleftrightarrow> other_lock_refs w' = other_lock_refs w \<and>
     (\<forall>p. other_transport_refs p w' = other_transport_refs p w \<and> other_listeners p w' = other_listeners p w)"

definition user_balanced :: "tsx_callbacks \<Rightarrow> bool" where
  "user_balanced cbs \<longleftrightarrow>
     (\<forall>rx w. same_others w (on_rx_response cbs rx w)) \<and> (\<forall>src prev w. same_others w (on_tsx_state cbs src prev w))"

lemmas timer_ops = tsx_cancel_timer_def sched_def tsx_schedule_timer_def
lemmas transport_ops = tsx_update_transport_def tsx_tp_state_callback_def Let_def tp_add_ref_def tp_dec_ref_def tp_listen_def
  pjsip_tpselector_add_ref_def pjsip_tpselector_dec_ref_def

lemma transport_refs_conserved:
  assumes "user_balanced cbs"
  shows "tsx_conserved (other_transport_refs p) 0 (\<lambda>s. if p \<noteq> 0 \<and> s = p then 1 else 0) cbs"
proof
  fix w e d k
  show "other_transport_refs p (tsx_cancel_timer e w) = other_transport_refs p w"
    "other_transport_refs p (sched e d k w) = other_transport_refs p w"
    "other_transport_refs p (set_timer e ((get_timer e w)\<lparr>timer_id := k\<rparr>) w) = other_transport_refs p w"
    "other_transport_refs p (set_timer e ((get_timer e w)\<lparr>running := None\<rparr>) w) = other_transport_refs p w + 0"
    by (cases e; simp add: other_transport_refs_def held_transport_def timer_ops)+
qed (use assms in \<open>auto simp: other_transport_refs_def held_transport_def transport_ops timer_ops user_balanced_def same_others_def\<close>)

lemma listeners_conserved:
  assumes "user_balanced cbs"
  shows "tsx_conserved (other_listeners p) 0 (\<lambda>s. 0) cbs"
proof
  fix w e d k
  show "other_listeners p (tsx_cancel_timer e w) = other_listeners p w"
    "other_listeners p (sched e d k w) = other_listeners p w"
    "other_listeners p (set_timer e ((get_timer e w)\<lparr>timer_id := k\<rparr>) w) = other_listeners p w"
    "other_listeners p (set_timer e ((get_timer e w)\<lparr>running := None\<rparr>) w) = other_listeners p w + 0"
    by (cases e; simp add: other_listeners_def held_listener_def timer_ops)+
qed (use assms in \<open>auto simp: other_listeners_def held_listener_def transport_ops timer_ops user_balanced_def same_others_def\<close>)

lemma lock_refs_conserved:
  assumes "user_balanced cbs"
  shows "tsx_conserved other_lock_refs 1 (\<lambda>s. 0) cbs"
proof
  fix w e d k
  show "other_lock_refs (tsx_cancel_timer e w) = other_lock_refs w"
    "other_lock_refs (sched e d k w) = other_lock_refs w"
    "other_lock_refs (set_timer e ((get_timer e w)\<lparr>timer_id := k\<rparr>) w) = other_lock_refs w"
    by (cases e; simp add: other_lock_refs_def held_lock_def timer_ops)+
  show "other_lock_refs (set_timer e ((get_timer e w)\<lparr>running := None\<rparr>) w) = other_lock_refs w + 1"
    if "running (get_timer e w) \<noteq> None"
    using that by (cases e; simp add: other_lock_refs_def held_lock_def)
qed (use assms in \<open>auto simp: other_lock_refs_def held_lock_def transport_ops timer_ops user_balanced_def same_others_def\<close>)

lemma quiet_user_balanced: "user_balanced quiet_user"
  by (auto simp: user_balanced_def same_others_def quiet_user_def)

interpretation quiet_transports: tsx_conserved "other_transport_refs p" 0 "\<lambda>s. if p \<noteq> 0 \<and> s = p then 1 else 0" quiet_user for p
  by (rule transport_refs_conserved [OF quiet_user_balanced])

interpretation quiet_listeners: tsx_conserved "other_listeners p" 0 "\<lambda>s. 0" quiet_user for p
  by (rule listeners_conserved [OF quiet_user_balanced])

interpretation quiet_lock: tsx_conserved other_lock_refs 1 "\<lambda>s. 0" quiet_user
  by (rule lock_refs_conserved [OF quiet_user_balanced])



lemma shutdown_releases:
  "transport (tsx_shutdown w) = 0" "terminating (tsx_shutdown w)"
  "running (retransmit_timer (tsx_shutdown w)) = None" "running (timeout_timer (tsx_shutdown w)) = None" "last_tx (tsx_shutdown w) = 0"
  by (simp_all add: tsx_shutdown_def transport_ops timer_ops tx_dec_ref_def)



section \<open>Transport errors after termination\<close>

text \<open>
  C27: when the transport reports a disconnection to a transaction that is terminated but not yet
  destroyed, the pending destruction timer is replaced by a transport error event that is then
  ignored: no timer is left running, the transaction stays registered, and no message changes
  that.\<close>

theorem tsx_terminated_never_destroyed:
  assumes "tsx_inv w" "tsx_state w = PJSIP_TSX_STATE_TERMINATED" "running (retransmit_timer w) = None"
  shows "\<exists>w'. timer_expires cbs out ack Timeout_timer (tsx_tp_state_callback True st w) = Some w' \<and>
    tsx_state w' = PJSIP_TSX_STATE_TERMINATED \<and> running (retransmit_timer w') = None \<and> running (timeout_timer w') = None \<and>
    htable w' = htable w \<and> pjsip_tsx_recv_msg cbs out ack rx w' = Some w' \<and> pjsip_tsx_terminate cbs code w' = (fst (pjsip_tsx_terminate cbs code w'), w')"
proof -
  have h: "state_handler w = Some Tsx_on_state_terminated"
    using assms(1,2) by (cases "role w") (simp_all add: tsx_inv_def handler_of_def)
  define w1 where "w1 = tsx_tp_state_callback True st w"
  have w1: "timer_id (timeout_timer w1) = TRANSPORT_ERR_TIMER" "tsx_state w1 = PJSIP_TSX_STATE_TERMINATED"
    "retransmit_timer w1 = retransmit_timer w" "htable w1 = htable w" "state_handler w1 = Some Tsx_on_state_terminated"
    using assms(2) h by (simp_all add: w1_def tsx_tp_state_callback_def Let_def timer_ops)
  define w2 where "w2 = w1\<lparr>timeout_timer := \<lparr>timer_id = 0, running = None\<rparr>, grp_refs := grp_refs w1 - 1\<rparr>"
  have "timer_expires cbs out ack Timeout_timer w1 = Some w2"
    using w1 by (simp add: timer_expires_def tsx_timer_callback_def Let_def w2_def state_order)
  moreover have "pjsip_tsx_recv_msg cbs out ack rx w2 = Some w2"
    using w1 by (simp add: pjsip_tsx_recv_msg_def call_state_handler_def w2_def tsx_on_state_terminated_def)
  moreover have "snd (pjsip_tsx_terminate cbs code w2) = w2"
    using w1 by (simp add: pjsip_tsx_terminate_def w2_def state_order)
  ultimately show ?thesis using w1 assms(3) unfolding w1_def [symmetric]
    by (intro exI [of _ w2]) (simp add: w2_def prod_eq_iff)
qed

definition sample_terminated :: tsx_world where
  "sample_terminated = snd (pjsip_tsx_terminate quiet_user 487 sample_uac)"

theorem tsx_terminated_never_destroyed_witness:
  "running (timeout_timer sample_terminated) \<noteq> None \<and>
   (\<exists>w'. timer_expires quiet_user (Send_outcome PJ_SUCCESS [] PJ_SUCCESS) (PJ_SUCCESS, 2) Timeout_timer
      (tsx_tp_state_callback True (PJ_ECODE 1) sample_terminated) = Some w' \<and>
      tsx_state w' = PJSIP_TSX_STATE_TERMINATED \<and> running (timeout_timer w') = None)"
proof -
  have "tsx_reach quiet_user sample_uac (Some sample_terminated)"
    using tsx_reach.step [OF tsx_reach.start, of "Op_terminate 487" sample_uac quiet_user] by (simp add: sample_terminated_def)
  then have inv: "tsx_inv sample_terminated"
    using reach_advances [OF _ quiet_user_ok created_inv [OF sample_uac_created]] by (auto simp: advances_def)
  have "tsx_state sample_terminated = PJSIP_TSX_STATE_TERMINATED" "running (retransmit_timer sample_terminated) = None"
    "running (timeout_timer sample_terminated) \<noteq> None" by code_simp+
  with tsx_terminated_never_destroyed [OF inv] show ?thesis by blast
qed

section \<open>Retransmission intervals\<close>

lemma unat_backoff:
  assumes "unat (t1 :: pj_uint32_t) * 2 ^ n < 2 ^ 32"
  shows "unat (push_bit n 1 * t1) = 2 ^ n * unat t1"
proof -
  have "push_bit n (1::pj_uint32_t) * t1 = of_nat (2 ^ n * unat t1)" by (simp add: push_bit_eq_mult)
  moreover have "unat (of_nat (2 ^ n * unat t1) :: pj_uint32_t) = 2 ^ n * unat t1"
    unfolding unsigned_of_nat using assms by (simp add: take_bit_nat_eq_self mult.commute)
  ultimately show ?thesis by simp
qed



end
