(* ===== verification/PJ_TsxLayer.thy ===== *)
theory PJ_TsxLayer
  imports PJ_TsxRefs
begin

text \<open>
  The transaction layer of \<^verbatim>\<open>pjsip/src/pjsip/sip_transaction.c\<close>: the table of registered transactions
  and the dispatch of incoming messages to them. The layer keeps one \<open>tsx_world\<close> per transaction; the
  parts that transactions share (table, messages, transports) are held by the layer and are put into the
  transaction's world while one of its operations runs.

  The lemmas compose the hash table, the keys and the transactions: a message is handed to the
  transaction that was registered under its key, and to no other.
\<close>

section \<open>The layer\<close>

record tsx_layer =
  tsxs :: "ptr \<Rightarrow> tsx_world"
  l_htable :: pj_hash_table_t
  l_tdata :: "ptr \<Rightarrow> pjsip_tx_data"
  l_tps :: "ptr \<Rightarrow> pjsip_transport"
  l_endpt :: bool

definition focus :: "ptr \<Rightarrow> tsx_layer \<Rightarrow> tsx_world" where
  "focus p l = (tsxs l p)\<lparr>htable := l_htable l, tdata := l_tdata l, tps := l_tps l\<rparr>"

definition unfocus :: "ptr \<Rightarrow> tsx_world \<Rightarrow> tsx_layer \<Rightarrow> tsx_layer" where
  "unfocus p w l = l\<lparr>tsxs := (tsxs l)(p := w), l_htable := htable w, l_tdata := tdata w, l_tps := tps w\<rparr>"

definition pjsip_tsx_layer_get_tsx_count :: "tsx_layer \<Rightarrow> nat" where
  "pjsip_tsx_layer_get_tsx_count l = (if l_endpt l then pj_hash_count (l_htable l) else 0)"

text \<open>The reference that the lookup takes and drops again around locking the transaction leaves no trace.\<close>

definition pjsip_tsx_layer_find_tsx :: "bytes \<Rightarrow> tsx_layer \<Rightarrow> ptr" where
  "pjsip_tsx_layer_find_tsx k l = pj_hash_get_lower (l_htable l) k (of_nat (length k)) (Some 0)"

text \<open>
  Dispatch of a received message: whether a transaction took it, and the layer afterwards. \<open>None\<close> is
  an overrun of the key buffer or a crash in the transaction.
\<close>

definition layer_dispatch ::
  "tsx_callbacks \<Rightarrow> send_outcome \<Rightarrow> pj_status_t \<times> ptr \<Rightarrow> pjsip_role_e \<Rightarrow> pjsip_method \<Rightarrow> rdata_info \<Rightarrow> rx_msg \<Rightarrow>
   tsx_layer \<Rightarrow> (bool \<times> tsx_layer) option" where
  "layer_dispatch cbs out ack r cseq_method rdata rx l =
     (case pjsip_tsx_create_key r cseq_method rdata of
        None \<Rightarrow> None
      | Some k \<Rightarrow>
          let p = pj_hash_get_lower (l_htable l) k (of_nat (length k)) (Some 0)
          in if p = 0 \<or> tsx_state (tsxs l p) = PJSIP_TSX_STATE_TERMINATED then Some (False, l)
             else map_option (\<lambda>w. (True, unfocus p w l)) (pjsip_tsx_recv_msg cbs out ack rx (focus p l)))"

definition mod_tsx_layer_on_rx_request ::
  "tsx_callbacks \<Rightarrow> send_outcome \<Rightarrow> pj_status_t \<times> ptr \<Rightarrow> pjsip_method \<Rightarrow> rdata_info \<Rightarrow> pjsip_method_e \<Rightarrow>
   tsx_layer \<Rightarrow> (bool \<times> tsx_layer) option" where
  "mod_tsx_layer_on_rx_request cbs out ack cseq_method rdata m l =
     layer_dispatch cbs out ack PJSIP_ROLE_UAS cseq_method rdata (RxRequest m) l"

definition mod_tsx_layer_on_rx_response ::
  "tsx_callbacks \<Rightarrow> send_outcome \<Rightarrow> pj_status_t \<times> ptr \<Rightarrow> pjsip_method \<Rightarrow> rdata_info \<Rightarrow> int \<Rightarrow>
   tsx_layer \<Rightarrow> (bool \<times> tsx_layer) option" where
  "mod_tsx_layer_on_rx_response cbs out ack cseq_method rdata code l =
     layer_dispatch cbs out ack PJSIP_ROLE_UAC cseq_method rdata (RxResponse code) l"

definition mod_tsx_layer_unload :: "tsx_layer \<Rightarrow> pj_status_t \<times> tsx_layer" where
  "mod_tsx_layer_unload l =
     (if pj_hash_count (l_htable l) \<noteq> 0 then (PJ_EBUSY, l) else (PJ_SUCCESS, l\<lparr>l_endpt := False\<rparr>))"

section \<open>Registration in the table\<close>

text \<open>Keys as the transaction layer uses them, with the right precomputed hash.\<close>

definition tsx_key_ok :: "bytes \<Rightarrow> bool" where
  "tsx_key_ok k \<longleftrightarrow> length k < 2 ^ 32 - 1 \<and> 0 \<notin> set (butlast k)"

lemma tsx_key_bytes: "tsx_key_ok k \<Longrightarrow> key_bytes (of_nat (length k)) k = k"
proof -
  assume "tsx_key_ok k"
  then have len: "length k < 2 ^ 32 - 1" by (simp add: tsx_key_ok_def)
  then have u: "unat (of_nat (length k) :: pj_uint32_t) = length k"
    unfolding unsigned_of_nat by (simp add: take_bit_nat_eq_self)
  have "unat (-1 :: pj_uint32_t) = 2 ^ 32 - 1" by (simp add: unsigned_minus_1_eq_mask mask_eq_exp_minus_1)
  then have "(of_nat (length k) :: pj_uint32_t) \<noteq> -1" using u len by (metis less_irrefl)
  then show ?thesis using u by (simp add: key_bytes_def PJ_HASH_KEY_STRING_def)
qed

lemma tsx_key_legal: "tsx_key_ok k \<Longrightarrow> key_ok True (key_bytes (of_nat (length k)) k)"
  using tsx_key_bytes [of k] by (simp add: tsx_key_ok_def key_ok_def)

lemma lookup_tsx:
  assumes "hash_inv True t" "tsx_key_ok k" "hval = None \<or> hval = Some 0"
  shows "pj_hash_get_lower t k (of_nat (length k)) hval = (case hash_map True t k of Some v \<Rightarrow> v | None \<Rightarrow> 0)"
  using get_correct [OF assms(1) tsx_key_legal [OF assms(2)], of hval] assms(3) tsx_key_bytes [OF assms(2)]
  by (auto simp: pj_hash_get_lower_def hval_ok_def)

lemma hash_map_nonzero:
  assumes "hash_inv lower t" "hash_map lower t k = Some v"
  shows "v \<noteq> 0"
proof -
  from assms hash_map_Some [OF assms(1)] obtain e b where "b < length (table t)" "e \<in> set (table t ! b)" "value e = v"
    by (auto simp: in_set_conv_nth [of _ "table t"])
  then show ?thesis using assms(1) unfolding hash_inv_def bucket_ok_def entry_ok_def by blast
qed

lemma register_tsx:
  assumes inv: "hash_inv True (htable w)" and k: "tsx_key_ok (transaction_key w)" and self: "self w \<noteq> 0"
    and h: "hval_ok True (Some (hashed_key w)) (transaction_key w)"
    and reg: "mod_tsx_layer_register_tsx w = (PJ_SUCCESS, w')"
  shows "hash_inv True (htable w')"
    "hash_map True (htable w') k = (if lows k = lows (transaction_key w) then Some (self w) else hash_map True (htable w) k)"
    "hash_map True (htable w) (transaction_key w) = None"
proof -
  let ?k = "transaction_key w"
  note kb = tsx_key_bytes [OF k] and kl = tsx_key_legal [OF k]
  have hv: "hval_ok True (Some (hashed_key w)) (key_bytes (of_nat (length ?k)) ?k)" using h kb by simp
  obtain t' where t': "hash_set True (htable w) ?k (of_nat (length ?k)) (hashed_key w) (self w) False True = Some t'"
    "hash_inv True t'" "\<And>k. hash_map True t' k =
      (if norm True k = norm True (key_bytes (of_nat (length ?k)) ?k) then if self w = 0 then None else Some (self w)
       else hash_map True (htable w) k)"
    using set_correct [OF inv kl hv, of "self w" True False] by blast
  have "pj_hash_get_lower (htable w) ?k (of_nat (length ?k)) None = 0" and w': "w' = w\<lparr>htable := t'\<rparr>"
    using reg t'(1) by (auto simp: mod_tsx_layer_register_tsx_def pj_hash_set_lower_def Let_def split: if_splits)
  then show "hash_map True (htable w) ?k = None"
    using lookup_tsx [OF inv k, of None] hash_map_nonzero [OF inv, of ?k] by (auto split: option.splits)
  show "hash_inv True (htable w')" using t'(2) w' by simp
  show "hash_map True (htable w') k = (if lows k = lows ?k then Some (self w) else hash_map True (htable w) k)"
    using t'(3) [of k] w' kb self by (simp add: norm_def)
qed

lemma unregister_tsx:
  assumes inv: "hash_inv True (htable w)" and k: "tsx_key_ok (transaction_key w)" and m: "mod_registered w"
    and h: "hval_ok True (Some (hashed_key w)) (transaction_key w)"
  shows "hash_inv True (htable (mod_tsx_layer_unregister_tsx w))"
    "hash_map True (htable (mod_tsx_layer_unregister_tsx w)) k =
       (if lows k = lows (transaction_key w) then None else hash_map True (htable w) k)"
proof -
  let ?k = "transaction_key w"
  note kb = tsx_key_bytes [OF k] and kl = tsx_key_legal [OF k]
  have hv: "hval_ok True (Some (hashed_key w)) (key_bytes (of_nat (length ?k)) ?k)" using h kb by simp
  obtain t' where t': "hash_set False (htable w) ?k (of_nat (length ?k)) (hashed_key w) 0 False True = Some t'"
    "hash_inv True t'" "\<And>k. hash_map True t' k =
      (if norm True k = norm True (key_bytes (of_nat (length ?k)) ?k) then if (0::ptr) = 0 then None else Some 0
       else hash_map True (htable w) k)"
    using set_correct [OF inv kl hv, of 0 False False] by blast
  then have w': "mod_tsx_layer_unregister_tsx w = w\<lparr>htable := t'\<rparr>"
    using m by (simp add: mod_tsx_layer_unregister_tsx_def pj_hash_set_lower_def Let_def)
  show "hash_inv True (htable (mod_tsx_layer_unregister_tsx w))" using t'(2) w' by simp
  show "hash_map True (htable (mod_tsx_layer_unregister_tsx w)) k =
       (if lows k = lows ?k then None else hash_map True (htable w) k)"
    using t'(3) [of k] w' kb by (simp add: norm_def)
qed

section \<open>Routing of messages\<close>

text \<open>
  a transaction that registers is found under its key, in any case, and every other key finds
  what it found before; once it unregisters, its key finds nothing.\<close>

theorem tsx_layer_register_find:
  assumes "hash_inv True (l_htable l)" "mod_tsx_layer_register_tsx (focus p l) = (PJ_SUCCESS, w')"
    "self (tsxs l p) = p" "p \<noteq> 0" "mod_registered (tsxs l p)" "tsx_key_ok (transaction_key (tsxs l p))" "tsx_key_ok k"
    "hval_ok True (Some (hashed_key (tsxs l p))) (transaction_key (tsxs l p))"
  shows "pjsip_tsx_layer_find_tsx k (unfocus p w' l) =
      (if lows k = lows (transaction_key (tsxs l p)) then p else pjsip_tsx_layer_find_tsx k l) \<and>
    pjsip_tsx_layer_find_tsx k (unfocus p (mod_tsx_layer_unregister_tsx w') (unfocus p w' l)) =
      (if lows k = lows (transaction_key (tsxs l p)) then 0 else pjsip_tsx_layer_find_tsx k l)"
proof -
  let ?w = "focus p l"
  have w: "hash_inv True (htable ?w)" "tsx_key_ok (transaction_key ?w)" "self ?w \<noteq> 0"
    "hval_ok True (Some (hashed_key ?w)) (transaction_key ?w)"
    using assms by (simp_all add: focus_def)
  note reg = register_tsx [OF w(1-4) assms(2)]
  have same: "transaction_key w' = transaction_key ?w" "hashed_key w' = hashed_key ?w" "mod_registered w' = mod_registered ?w"
    using assms(2) by (auto simp: mod_tsx_layer_register_tsx_def Let_def split: if_splits option.splits)
  have mr: "mod_registered w'" using same assms(5) by (simp add: focus_def)
  have hv: "hval_ok True (Some (hashed_key w')) (transaction_key w')" and kk: "tsx_key_ok (transaction_key w')"
    using same w by simp_all
  note un = unregister_tsx(1) [OF reg(1) kk mr hv] unregister_tsx(2) [OF reg(1) kk mr hv, of k]
  have key: "transaction_key ?w = transaction_key (tsxs l p)" "self ?w = p" "htable ?w = l_htable l"
    using assms(3) by (simp_all add: focus_def)
  show ?thesis
    using lookup_tsx [OF reg(1) assms(7), of "Some 0"] lookup_tsx [OF assms(1) assms(7), of "Some 0"]
      lookup_tsx [OF un(1) assms(7), of "Some 0"] reg(2) [of k] un(2) same key
    by (simp add: pjsip_tsx_layer_find_tsx_def unfocus_def)
qed

definition sample_layer :: tsx_layer where
  "sample_layer = \<lparr>tsxs = (\<lambda>p. sample_world\<lparr>self := p, transaction_key := [99, 36, 65]\<rparr>),
     l_htable = \<lparr>table = [[]], hcount = 0, rows = 0\<rparr>,
     l_tdata = tdata sample_world, l_tps = tps sample_world, l_endpt = True\<rparr>"

lemma sample_table_inv: "hash_inv True \<lparr>table = [[]], hcount = 0, rows = 0\<rparr>"
  using empty_table_inv [of True 0] by simp

theorem tsx_layer_register_find_witness:
  "\<exists>w'. mod_tsx_layer_register_tsx (focus 7 sample_layer) = (PJ_SUCCESS, w') \<and>
     pjsip_tsx_layer_find_tsx [67, 36, 97] (unfocus 7 w' sample_layer) = 7"
proof -
  have "fst (mod_tsx_layer_register_tsx (focus 7 sample_layer)) = PJ_SUCCESS" by code_simp
  then obtain w' where w': "mod_tsx_layer_register_tsx (focus 7 sample_layer) = (PJ_SUCCESS, w')" by (metis prod.collapse)
  have "tsx_key_ok [99, 36, 65]" "tsx_key_ok [67, 36, 97]" "lows [67, 36, 97] = lows [99, 36, 65]"
    by (simp_all add: tsx_key_ok_def pj_tolower_def)
  with tsx_layer_register_find [of sample_layer 7 w' "[67, 36, 97]"] w' sample_table_inv show ?thesis
    by (simp add: sample_layer_def sample_world_def hval_ok_def)
qed

lemma create_uac_registered:
  assumes "pjsip_tsx_create_uac2 own env user gl addr req w = (PJ_SUCCESS, w')"
  defines "k \<equiv> create_tsx_key_3261 PJSIP_ROLE_UAC (req_method req) (if req_branch req = [] then PJSIP_NEW_BRANCH env else req_branch req)"
  shows "\<exists>v. mod_tsx_layer_register_tsx v = (PJ_SUCCESS, w') \<and> htable v = htable w \<and> self v = addr \<and>
    transaction_key v = k \<and> hashed_key v = fst (pj_hash_calc_tolower own 0 k)"
proof -
  obtain w1 where w1: "tsx_create env user gl addr w = (PJ_SUCCESS, w1)"
    using assms(1) by (auto simp: pjsip_tsx_create_uac2_def Let_def split: if_splits prod.splits)
  have h: "htable w1 = htable w" "self w1 = addr"
    using w1 by (auto simp: tsx_create_def Let_def split: if_splits)
  define v where "v = (tx_add_ref (req_tdata req) (w1\<lparr>role := PJSIP_ROLE_UAC, tsx_method := method_id (req_method req), transaction_key := k,
     hashed_key := fst (pj_hash_calc_tolower own 0 k), tsx_state := PJSIP_TSX_STATE_NULL,
     state_handler := Some Tsx_on_state_null, last_tx := req_tdata req\<rparr>))\<lparr>is_reliable := addr_reliable env\<rparr>"
  have "mod_tsx_layer_register_tsx v = (PJ_SUCCESS, w')"
    using assms(1) w1 unfolding pjsip_tsx_create_uac2_def Let_def k_def [symmetric]
    by (auto simp: v_def split: if_splits prod.splits)
  moreover have "htable v = htable w" "self v = addr" "transaction_key v = k" "hashed_key v = fst (pj_hash_calc_tolower own 0 k)"
    using h by (simp_all add: v_def tx_add_ref_def)
  ultimately show ?thesis by blast
qed


definition sample_request :: uac_request where
  "sample_request = \<lparr>req_tdata = 1, req_cseq = True, req_method = \<lparr>method_id = PJSIP_INVITE_METHOD, name = [73]\<rparr>, req_branch = []\<rparr>"

definition sample_response :: rdata_info where
  "sample_response = \<lparr>via_host = [], via_port = 5060, via_branch = PJSIP_NEW_BRANCH sample_env, from_tag = [], cid_id = [], cseq_num = 1\<rparr>"


end
