(* ===== verification/PJ_Framelist.thy ===== *)
theory PJ_Framelist
  imports PJ_Prelude "HOL-Library.Monad_Syntax"
begin

text \<open>
  The circular frame list of the jitter buffer, \<^verbatim>\<open>jb_framelist_*\<close> of
  \<^verbatim>\<open>pjmedia/src/pjmedia/jbuf.c\<close>. Slot \<^verbatim>\<open>i\<close> of the arrays is one frame; the slots from
  \<^verbatim>\<open>head\<close> on, as many as \<^verbatim>\<open>size\<close> and modulo \<^verbatim>\<open>max_count\<close>, hold the sequence numbers from
  \<^verbatim>\<open>origin\<close> on. The theory shows that the list refines a window of slots given by a
  plain list, and that its loops end. Signed integers are unbounded here: their overflow is
  undefined in C, and sequence numbers stay far from it.
\<close>

datatype pjmedia_jb_frame_type =
    PJMEDIA_JB_MISSING_FRAME | PJMEDIA_JB_NORMAL_FRAME | PJMEDIA_JB_ZERO_PREFETCH_FRAME
  | PJMEDIA_JB_ZERO_EMPTY_FRAME | PJMEDIA_JB_DISCARDED_FRAME

record jb_framelist_t =
  fl_frame_size :: nat
  fl_max_count :: nat
  fl_content :: "bytes list"
  fl_frame_type :: "pjmedia_jb_frame_type list"
  fl_content_len :: "nat list"
  fl_bit_info :: "pj_uint32_t list"
  fl_ts :: "pj_uint32_t list"
  fl_head :: nat
  fl_size :: nat
  fl_discarded_num :: nat
  fl_origin :: int

definition INVALID_OFFSET :: int where
  "INVALID_OFFSET = -9999"

definition MAX_MISORDER :: int where
  "MAX_MISORDER = 100"

definition MAX_DROPOUT :: int where
  "MAX_DROPOUT = 3000"

definition jb_framelist_reset :: "jb_framelist_t \<Rightarrow> jb_framelist_t" where
  "jb_framelist_reset fl =
     fl\<lparr>fl_head := 0, fl_origin := INVALID_OFFSET, fl_size := 0, fl_discarded_num := 0,
        fl_frame_type := replicate (fl_max_count fl) PJMEDIA_JB_MISSING_FRAME,
        fl_content_len := replicate (fl_max_count fl) 0\<rparr>"

text \<open>The memory of the arrays that \<^verbatim>\<open>jb_framelist_init\<close> allocates is not cleared: \<open>mem\<close> has what it held.\<close>

record jb_memory =
  mem_content :: "bytes list"
  mem_bit_info :: "pj_uint32_t list"
  mem_ts :: "pj_uint32_t list"

definition jb_framelist_init :: "jb_memory \<Rightarrow> nat \<Rightarrow> nat \<Rightarrow> jb_framelist_t" where
  "jb_framelist_init mem frame_size max_count =
     jb_framelist_reset
       \<lparr>fl_frame_size = frame_size, fl_max_count = max_count, fl_content = mem_content mem,
        fl_frame_type = [], fl_content_len = [], fl_bit_info = mem_bit_info mem, fl_ts = mem_ts mem,
        fl_head = 0, fl_size = 0, fl_discarded_num = 0, fl_origin = 0\<rparr>"

definition jb_framelist_size :: "jb_framelist_t \<Rightarrow> nat" where
  "jb_framelist_size fl = fl_size fl"

definition jb_framelist_eff_size :: "jb_framelist_t \<Rightarrow> pj_uint32_t" where
  "jb_framelist_eff_size fl = of_nat (fl_size fl) - of_nat (fl_discarded_num fl)"

definition jb_framelist_origin :: "jb_framelist_t \<Rightarrow> int" where
  "jb_framelist_origin fl = fl_origin fl"

section \<open>Removing from the head\<close>

text \<open>
  \<open>clear_run fl start n\<close> is one of the two steps: the counting loop over the slots from \<open>start\<close> on,
  the \<^verbatim>\<open>pj_memset\<close> of the types and the \<^verbatim>\<open>pj_bzero\<close> of the lengths.
\<close>

definition clear_run :: "nat \<Rightarrow> nat \<Rightarrow> jb_framelist_t \<Rightarrow> jb_framelist_t" where
  "clear_run start n fl =
     fl\<lparr>fl_discarded_num := fl_discarded_num fl -
          length (filter (\<lambda>i. fl_frame_type fl ! i = PJMEDIA_JB_DISCARDED_FRAME) [start..<start + n]),
        fl_frame_type := take start (fl_frame_type fl) @ replicate n PJMEDIA_JB_MISSING_FRAME @
          drop (start + n) (fl_frame_type fl),
        fl_content_len := take start (fl_content_len fl) @ replicate n 0 @ drop (start + n) (fl_content_len fl)\<rparr>"

definition jb_framelist_remove_head :: "nat \<Rightarrow> jb_framelist_t \<Rightarrow> nat \<times> jb_framelist_t" where
  "jb_framelist_remove_head cnt fl =
     (let cnt = (if cnt > fl_size fl then fl_size fl else cnt)
      in if cnt \<noteq> 0 then
           let tmp = fl_head fl + cnt;
               (step1, step2) = (if tmp > fl_max_count fl
                                 then (fl_max_count fl - fl_head fl, cnt - (fl_max_count fl - fl_head fl))
                                 else (cnt, 0));
               fl' = clear_run (fl_head fl) step1 fl;
               fl' = (if step2 \<noteq> 0 then clear_run 0 step2 fl' else fl')
           in (cnt, fl'\<lparr>fl_origin := fl_origin fl + int cnt,
                          fl_head := (fl_head fl + cnt) mod fl_max_count fl,
                          fl_size := fl_size fl - cnt\<rparr>)
         else (cnt, fl))"

section \<open>Taking the head frame\<close>

text \<open>
  What \<^verbatim>\<open>jb_framelist_get\<close> stores through its pointers: the frame type, and the bytes, size, bit info,
  timestamp and sequence number. \<open>None\<close> is a location that is left alone.
\<close>

record jb_got =
  got_frame :: "bytes option"
  got_size :: "nat option"
  got_type :: "pjmedia_jb_frame_type option"
  got_bit_info :: "pj_uint32_t option"
  got_ts :: "pj_uint32_t option"
  got_seq :: "int option"

partial_function (option) skip_discarded :: "bool \<Rightarrow> jb_framelist_t \<Rightarrow> (bool \<times> jb_framelist_t) option" where
  "skip_discarded prev_discarded fl =
     (if fl_frame_type fl ! fl_head fl = PJMEDIA_JB_DISCARDED_FRAME
      then skip_discarded True (snd (jb_framelist_remove_head 1 fl))
      else Some (prev_discarded, fl))"

declare skip_discarded.simps [code]

definition take_head :: "bool \<Rightarrow> jb_framelist_t \<Rightarrow> jb_got \<times> jb_framelist_t" where
  "take_head prev_discarded fl =
     (let h = fl_head fl
      in (if prev_discarded then
            \<lparr>got_frame = None, got_size = Some 0, got_type = Some PJMEDIA_JB_MISSING_FRAME,
             got_bit_info = Some 0, got_ts = Some (fl_ts fl ! h), got_seq = Some (fl_origin fl)\<rparr>
          else
            \<lparr>got_frame = Some (fl_content fl ! h), got_size = Some (fl_content_len fl ! h),
             got_type = Some (fl_frame_type fl ! h), got_bit_info = Some (fl_bit_info fl ! h),
             got_ts = Some (fl_ts fl ! h), got_seq = Some (fl_origin fl)\<rparr>,
          fl\<lparr>fl_frame_type := (fl_frame_type fl)[h := PJMEDIA_JB_MISSING_FRAME],
             fl_content_len := (fl_content_len fl)[h := 0],
             fl_bit_info := (fl_bit_info fl)[h := 0],
             fl_ts := (fl_ts fl)[h := 0],
             fl_origin := fl_origin fl + 1,
             fl_head := (h + 1) mod fl_max_count fl,
             fl_size := fl_size fl - 1\<rparr>))"

definition nothing_got :: "jb_framelist_t \<Rightarrow> jb_got" where
  "nothing_got fl =
     \<lparr>got_frame = Some (replicate (fl_frame_size fl) 0), got_size = None, got_type = None,
      got_bit_info = None, got_ts = None, got_seq = None\<rparr>"

definition jb_framelist_get :: "jb_framelist_t \<Rightarrow> (bool \<times> jb_got \<times> jb_framelist_t) option" where
  "jb_framelist_get fl =
     (if fl_size fl \<noteq> 0 then
        do {
          (prev_discarded, fl) \<leftarrow> skip_discarded False fl;
          Some (if fl_size fl \<noteq> 0 then (True, take_head prev_discarded fl)
                else (False, nothing_got fl, fl))
        }
      else Some (False, nothing_got fl, fl))"

section \<open>Looking ahead\<close>

partial_function (option) peek_pos :: "jb_framelist_t \<Rightarrow> nat \<Rightarrow> pj_uint32_t \<Rightarrow> nat option" where
  "peek_pos fl pos idx =
     (if fl_frame_type fl ! pos \<noteq> PJMEDIA_JB_DISCARDED_FRAME then
        if idx = 0 then Some pos
        else peek_pos fl ((pos + 1) mod fl_max_count fl) (idx - 1)
      else peek_pos fl ((pos + 1) mod fl_max_count fl) idx)"

declare peek_pos.simps [code]

text \<open>\<open>Some None\<close> is the result \<^verbatim>\<open>PJ_FALSE\<close>; the frame is a pointer to the slot's bytes in the code.\<close>

definition jb_framelist_peek :: "pj_uint32_t \<Rightarrow> jb_framelist_t \<Rightarrow> jb_got option option" where
  "jb_framelist_peek offset fl =
     (if offset \<ge> jb_framelist_eff_size fl then Some None
      else do {
        pos \<leftarrow> peek_pos fl (fl_head fl) offset;
        Some (Some \<lparr>got_frame = Some (fl_content fl ! pos), got_size = Some (fl_content_len fl ! pos),
                    got_type = Some (fl_frame_type fl ! pos), got_bit_info = Some (fl_bit_info fl ! pos),
                    got_ts = Some (fl_ts fl ! pos), got_seq = Some (fl_origin fl + int (unat offset))\<rparr>)
      })"

section \<open>Storing a frame\<close>

text \<open>\<^verbatim>\<open>put_slot\<close> is the end of \<^verbatim>\<open>jb_framelist_put_at\<close>, from the computation of the slot on.\<close>

definition put_slot ::
  "int \<Rightarrow> int \<Rightarrow> bytes \<Rightarrow> nat \<Rightarrow> pj_uint32_t \<Rightarrow> pj_uint32_t \<Rightarrow> pjmedia_jb_frame_type \<Rightarrow> jb_framelist_t \<Rightarrow>
   pj_status_t \<times> jb_framelist_t" where
  "put_slot index distance frame frame_size bit_info ts frame_type fl =
     (let pos = (fl_head fl + nat distance) mod fl_max_count fl
      in if fl_frame_type fl ! pos \<noteq> PJMEDIA_JB_MISSING_FRAME then (PJ_EEXISTS, fl)
         else
           let fl = fl\<lparr>fl_frame_type := (fl_frame_type fl)[pos := frame_type],
                       fl_content_len := (fl_content_len fl)[pos := frame_size],
                       fl_bit_info := (fl_bit_info fl)[pos := bit_info],
                       fl_ts := (fl_ts fl)[pos := ts]\<rparr>;
               fl = (if fl_origin fl + int (fl_size fl) \<le> index then fl\<lparr>fl_size := nat (distance + 1)\<rparr> else fl);
               fl = (if frame_type = PJMEDIA_JB_NORMAL_FRAME
                     then fl\<lparr>fl_content := (fl_content fl)
                            [pos := take frame_size frame @ drop frame_size (fl_content fl ! pos)]\<rparr>
                     else fl)
           in (PJ_SUCCESS, fl))"

definition jb_framelist_put_at ::
  "int \<Rightarrow> bytes \<Rightarrow> nat \<Rightarrow> pj_uint32_t \<Rightarrow> pj_uint32_t \<Rightarrow> pjmedia_jb_frame_type \<Rightarrow> jb_framelist_t \<Rightarrow>
   pj_status_t \<times> jb_framelist_t" where
  "jb_framelist_put_at index frame frame_size bit_info ts frame_type fl =
     (if \<not> frame_size \<le> fl_frame_size fl then (PJ_EINVAL, fl)
      else if index < fl_origin fl \<and> fl_origin fl - index < MAX_MISORDER then (PJ_ETOOSMALL, fl)
      else
        let fl = (if index < fl_origin fl then fl\<lparr>fl_origin := index - int (fl_size fl)\<rparr> else fl);
            fl = (if fl_size fl = 0 then fl\<lparr>fl_origin := index\<rparr> else fl);
            distance = index - fl_origin fl
        in if distance \<ge> int (fl_max_count fl) then
             if distance > MAX_DROPOUT then
               put_slot index 0 frame frame_size bit_info ts frame_type
                 ((jb_framelist_reset fl)\<lparr>fl_origin := index\<rparr>)
             else (PJ_ETOOMANY, fl)
           else put_slot index distance frame frame_size bit_info ts frame_type fl)"

definition jb_framelist_discard :: "int \<Rightarrow> jb_framelist_t \<Rightarrow> pj_status_t \<times> jb_framelist_t" where
  "jb_framelist_discard index fl =
     (if \<not> (index \<ge> fl_origin fl \<and> index < fl_origin fl + int (fl_size fl)) then (PJ_EINVAL, fl)
      else
        let pos = (fl_head fl + nat (index - fl_origin fl)) mod fl_max_count fl
        in (PJ_SUCCESS,
            fl\<lparr>fl_frame_type := (fl_frame_type fl)[pos := PJMEDIA_JB_DISCARDED_FRAME],
               fl_discarded_num := fl_discarded_num fl + 1\<rparr>))"

section \<open>The window of slots\<close>

text \<open>
  The abstract state of a frame list is the sequence number of its first slot and the slots
  themselves. A slot that holds a frame has the bytes that count, not what else is in its memory.
\<close>

datatype jb_slot = Missing | Discarded | Frame bytes pj_uint32_t pj_uint32_t

definition slot :: "jb_framelist_t \<Rightarrow> nat \<Rightarrow> jb_slot" where
  "slot fl p =
     (case fl_frame_type fl ! p of
        PJMEDIA_JB_NORMAL_FRAME \<Rightarrow>
          Frame (take (fl_content_len fl ! p) (fl_content fl ! p)) (fl_bit_info fl ! p) (fl_ts fl ! p)
      | PJMEDIA_JB_DISCARDED_FRAME \<Rightarrow> Discarded
      | _ \<Rightarrow> Missing)"

lemma slot_cong:
  "fl_frame_type fl' ! p = fl_frame_type fl ! p \<Longrightarrow> fl_content_len fl' ! p = fl_content_len fl ! p \<Longrightarrow>
   fl_content fl' ! p = fl_content fl ! p \<Longrightarrow> fl_bit_info fl' ! p = fl_bit_info fl ! p \<Longrightarrow>
   fl_ts fl' ! p = fl_ts fl ! p \<Longrightarrow> slot fl' p = slot fl p"
  by (auto simp: slot_def split: pjmedia_jb_frame_type.splits)

lemma slot_upd [simp]:
  "slot (fl\<lparr>fl_origin := o1\<rparr>) p = slot fl p" "slot (fl\<lparr>fl_head := h\<rparr>) p = slot fl p"
  "slot (fl\<lparr>fl_size := n\<rparr>) p = slot fl p" "slot (fl\<lparr>fl_discarded_num := n\<rparr>) p = slot fl p"
  by (rule slot_cong; simp)+

definition at :: "jb_framelist_t \<Rightarrow> nat \<Rightarrow> nat" where
  "at fl i = (fl_head fl + i) mod fl_max_count fl"

definition window :: "jb_framelist_t \<Rightarrow> jb_slot list" where
  "window fl = map (\<lambda>i. slot fl (at fl i)) [0..<fl_size fl]"

definition fl_shape :: "jb_framelist_t \<Rightarrow> bool" where
  "fl_shape fl \<longleftrightarrow>
     0 < fl_max_count fl \<and> fl_max_count fl < 2 ^ 29 \<and> fl_head fl < fl_max_count fl \<and> fl_size fl \<le> fl_max_count fl \<and>
     length (fl_frame_type fl) = fl_max_count fl \<and> length (fl_content_len fl) = fl_max_count fl \<and>
     length (fl_content fl) = fl_max_count fl \<and> length (fl_bit_info fl) = fl_max_count fl \<and>
     length (fl_ts fl) = fl_max_count fl \<and>
     list_all (\<lambda>f. length f = fl_frame_size fl) (fl_content fl) \<and>
     list_all (\<lambda>n. n \<le> fl_frame_size fl) (fl_content_len fl) \<and>
     list_all (\<lambda>t. t \<in> {PJMEDIA_JB_MISSING_FRAME, PJMEDIA_JB_NORMAL_FRAME, PJMEDIA_JB_DISCARDED_FRAME})
       (fl_frame_type fl) \<and>
     list_all (\<lambda>p. fl_frame_type fl ! p = PJMEDIA_JB_MISSING_FRAME \<longrightarrow> fl_content_len fl ! p = 0) [0..<fl_max_count fl]"

definition fl_inv :: "jb_framelist_t \<Rightarrow> bool" where
  "fl_inv fl \<longleftrightarrow>
     fl_shape fl \<and> list_all (\<lambda>i. slot fl (at fl i) = Missing) [fl_size fl..<fl_max_count fl] \<and>
     fl_discarded_num fl = length (filter (\<lambda>s. s = Discarded) (window fl))"

lemma length_window [simp]: "length (window fl) = fl_size fl"
  by (simp add: window_def)

lemma nth_window: "i < fl_size fl \<Longrightarrow> window fl ! i = slot fl (at fl i)"
  by (simp add: window_def)

lemma window_eqI:
  "length xs = fl_size fl \<Longrightarrow> (\<And>i. i < fl_size fl \<Longrightarrow> slot fl (at fl i) = xs ! i) \<Longrightarrow> window fl = xs"
  by (rule nth_equalityI) (simp_all add: nth_window)

lemma at_cases:
  assumes "fl_shape fl" "i < fl_max_count fl"
  shows "at fl i = (if fl_head fl + i < fl_max_count fl then fl_head fl + i else fl_head fl + i - fl_max_count fl)"
  using assms by (auto simp: at_def fl_shape_def mod_if)

lemma at_less: "fl_shape fl \<Longrightarrow> at fl i < fl_max_count fl"
  by (simp add: at_def fl_shape_def)

lemma at_wrap: "fl_max_count fl \<le> k \<Longrightarrow> at fl k = at fl (k - fl_max_count fl)"
  using le_mod_geq [of "fl_max_count fl" "fl_head fl + k"] by (simp add: at_def)

lemma at_inj:
  assumes "fl_shape fl" "i < fl_max_count fl" "j < fl_max_count fl"
  shows "at fl i = at fl j \<longleftrightarrow> i = j"
  using assms by (auto simp: at_cases fl_shape_def split: if_splits)

lemma slot_simps:
  assumes "fl_shape fl" "p < fl_max_count fl"
  shows slot_Missing: "slot fl p = Missing \<longleftrightarrow> fl_frame_type fl ! p = PJMEDIA_JB_MISSING_FRAME"
    and slot_Discarded: "slot fl p = Discarded \<longleftrightarrow> fl_frame_type fl ! p = PJMEDIA_JB_DISCARDED_FRAME"
proof -
  have "fl_frame_type fl ! p \<in> {PJMEDIA_JB_MISSING_FRAME, PJMEDIA_JB_NORMAL_FRAME, PJMEDIA_JB_DISCARDED_FRAME}"
    using assms by (auto simp: fl_shape_def list_all_length)
  then show "slot fl p = Missing \<longleftrightarrow> fl_frame_type fl ! p = PJMEDIA_JB_MISSING_FRAME"
    "slot fl p = Discarded \<longleftrightarrow> fl_frame_type fl ! p = PJMEDIA_JB_DISCARDED_FRAME"
    by (auto simp: slot_def)
qed

lemma fl_inv_shape: "fl_inv fl \<Longrightarrow> fl_shape fl"
  by (simp add: fl_inv_def)

text \<open>The slots after the last one of the window are missing.\<close>

lemma beyond_window:
  assumes "fl_inv fl" "fl_size fl \<le> i" "i < fl_max_count fl"
  shows "slot fl (at fl i) = Missing"
  using assms by (auto simp: fl_inv_def list_all_iff)

lemma discarded_le_size: "fl_inv fl \<Longrightarrow> fl_discarded_num fl \<le> fl_size fl"
  using length_filter_le [of _ "window fl"] by (simp add: fl_inv_def)

lemma eff_size:
  assumes "fl_inv fl"
  shows "unat (jb_framelist_eff_size fl) = length (filter (\<lambda>s. s \<noteq> Discarded) (window fl))"
proof -
  have d: "fl_discarded_num fl \<le> fl_size fl" "fl_size fl < 2 ^ 29"
    using assms discarded_le_size [OF assms] by (auto simp: fl_inv_def fl_shape_def)
  then have "jb_framelist_eff_size fl = of_nat (fl_size fl - fl_discarded_num fl)"
    by (simp add: jb_framelist_eff_size_def)
  then have "unat (jb_framelist_eff_size fl) = fl_size fl - fl_discarded_num fl"
    using d by (simp add: unat_of_nat del: of_nat_diff)
  then show ?thesis
    using assms sum_length_filter_compl [of "\<lambda>s. s = Discarded" "window fl"] by (simp add: fl_inv_def)
qed

section \<open>Removing slots\<close>

lemma nth_cut:
  assumes "start + n \<le> length xs" "j < length xs"
  shows "(take start xs @ replicate n v @ drop (start + n) xs) ! j = (if start \<le> j \<and> j < start + n then v else xs ! j)"
  using assms by (auto simp: nth_append)

lemma clear_run_frame [simp]:
  "fl_head (clear_run a n fl) = fl_head fl" "fl_size (clear_run a n fl) = fl_size fl"
  "fl_max_count (clear_run a n fl) = fl_max_count fl" "fl_origin (clear_run a n fl) = fl_origin fl"
  "fl_frame_size (clear_run a n fl) = fl_frame_size fl" "fl_content (clear_run a n fl) = fl_content fl"
  "fl_bit_info (clear_run a n fl) = fl_bit_info fl" "fl_ts (clear_run a n fl) = fl_ts fl"
  by (simp_all add: clear_run_def)

lemma clear_run_nth:
  assumes "fl_shape fl" "start + n \<le> fl_max_count fl" "j < fl_max_count fl"
  shows "fl_frame_type (clear_run start n fl) ! j =
      (if start \<le> j \<and> j < start + n then PJMEDIA_JB_MISSING_FRAME else fl_frame_type fl ! j)"
    "fl_content_len (clear_run start n fl) ! j = (if start \<le> j \<and> j < start + n then 0 else fl_content_len fl ! j)"
  using assms by (simp_all add: clear_run_def nth_cut fl_shape_def)

lemma clear_run_slot:
  assumes "fl_shape fl" "start + n \<le> fl_max_count fl" "j < fl_max_count fl"
  shows "slot (clear_run start n fl) j = (if start \<le> j \<and> j < start + n then Missing else slot fl j)"
  using clear_run_nth [OF assms] by (auto simp: slot_def split: pjmedia_jb_frame_type.splits)

lemma clear_run_shape:
  assumes "fl_shape fl" "start + n \<le> fl_max_count fl"
  shows "fl_shape (clear_run start n fl)"
proof -
  have "fl_content_len (clear_run start n fl) ! j = 0"
    if "j < fl_max_count fl" "fl_frame_type (clear_run start n fl) ! j = PJMEDIA_JB_MISSING_FRAME" for j
    using that clear_run_nth [OF assms that(1)] assms(1) by (auto simp: fl_shape_def list_all_iff split: if_splits)
  then have "list_all (\<lambda>p. fl_frame_type (clear_run start n fl) ! p = PJMEDIA_JB_MISSING_FRAME \<longrightarrow>
      fl_content_len (clear_run start n fl) ! p = 0) [0..<fl_max_count (clear_run start n fl)]"
    by (simp add: list_all_iff)
  then show ?thesis unfolding fl_shape_def
    using assms by (auto simp: fl_shape_def list_all_iff clear_run_def dest: in_set_takeD in_set_dropD)
qed

lemma upt_wrap:
  assumes "h < m" "c \<le> m"
  shows "map (\<lambda>i. (h + i) mod m) [0..<c] = (if h + c > m then [h..<m] @ [0..<c - (m - h)] else [h..<h + c])"
proof (rule nth_equalityI)
  fix i assume "i < length (map (\<lambda>i. (h + i) mod m) [0..<c])"
  then have i: "i < c" by simp
  show "map (\<lambda>i. (h + i) mod m) [0..<c] ! i = (if h + c > m then [h..<m] @ [0..<c - (m - h)] else [h..<h + c]) ! i"
    using assms i by (auto simp: nth_append mod_if)
qed (use assms in auto)

text \<open>One slot after the other, removal makes the first \<open>c\<close> missing and moves the window.\<close>

lemma remove_head_slots:
  fixes n :: nat
  assumes "fl_shape fl"
  defines "c \<equiv> min n (fl_size fl)"
  obtains fl' where "jb_framelist_remove_head n fl = (c, fl')" "fl_shape fl'"
    "fl_origin fl' = fl_origin fl + int c" "fl_size fl' = fl_size fl - c" "fl_max_count fl' = fl_max_count fl"
    "fl_frame_size fl' = fl_frame_size fl"
    "\<And>i. at fl' i = at fl (c + i)"
    "\<And>i. i < fl_max_count fl \<Longrightarrow> slot fl' (at fl i) = (if i < c then Missing else slot fl (at fl i))"
    "fl_discarded_num fl' = fl_discarded_num fl - length (filter (\<lambda>s. s = Discarded) (take c (window fl)))"
proof (cases "c = 0")
  case True
  then have "jb_framelist_remove_head n fl = (c, fl)"
    by (auto simp: jb_framelist_remove_head_def c_def Let_def min_def split: if_splits)
  then show ?thesis using that [of fl] assms True by (simp add: at_def)
next
  case False
  let ?m = "fl_max_count fl" and ?h = "fl_head fl"
  define s1 where "s1 = (if ?h + c > ?m then ?m - ?h else c)"
  define s2 where "s2 = c - s1"
  define f1 where "f1 = clear_run ?h s1 fl"
  define f2 where "f2 = (if s2 \<noteq> 0 then clear_run 0 s2 f1 else f1)"
  define fl' where "fl' = f2\<lparr>fl_origin := fl_origin fl + int c, fl_head := (?h + c) mod ?m, fl_size := fl_size fl - c\<rparr>"
  have m: "0 < ?m" "?h < ?m" "c \<le> ?m" "c \<le> fl_size fl" using assms by (auto simp: fl_shape_def)
  have s: "?h + s1 \<le> ?m" "s2 \<le> ?h" "s2 \<le> ?m" using m by (auto simp: s1_def s2_def)
  have eq: "jb_framelist_remove_head n fl = (c, fl')"
    using False m by (auto simp: jb_framelist_remove_head_def Let_def fl'_def f2_def f1_def s1_def s2_def c_def min_def)
  have sh1: "fl_shape f1" unfolding f1_def using assms(1) s(1) by (rule clear_run_shape)
  have sh2: "fl_shape f2" unfolding f2_def using sh1 s(3) clear_run_shape [OF sh1, of 0 s2] by (simp add: f1_def)
  have f2: "fl_max_count f2 = ?m" "fl_frame_size f2 = fl_frame_size fl" by (simp_all add: f2_def f1_def)
  have sh: "fl_shape fl'" using sh2 m assms(1) f2 by (auto simp: fl'_def fl_shape_def)
  have fields: "fl_max_count fl' = ?m" "fl_frame_size fl' = fl_frame_size fl" by (simp_all add: fl'_def f2_def f1_def)
  have slot': "slot fl' j = slot f2 j" for j by (simp add: fl'_def)
  have slots: "slot f2 j = (if ?h \<le> j \<and> j < ?h + s1 \<or> j < s2 then Missing else slot fl j)" if "j < ?m" for j
    using clear_run_slot [OF assms(1) s(1) that] clear_run_slot [OF sh1, of 0 s2 j] that s by (auto simp: f2_def f1_def)
  have "slot fl' (at fl i) = (if i < c then Missing else slot fl (at fl i))" if "i < ?m" for i
    unfolding slot' using slots [OF at_less [OF assms(1)], of i] at_cases [OF assms(1) that] m that
    by (auto simp: s1_def s2_def split: if_splits)
  moreover have "at fl' i = at fl (c + i)" for i
    by (simp add: at_def fields, simp add: fl'_def mod_simps ac_simps)
  moreover have "fl_discarded_num fl' = fl_discarded_num fl - length (filter (\<lambda>s. s = Discarded) (take c (window fl)))"
  proof -
    let ?D = "\<lambda>j. fl_frame_type fl ! j = PJMEDIA_JB_DISCARDED_FRAME"
    have f1: "fl_frame_type f1 ! j = fl_frame_type fl ! j" if "j < s2" for j
      using clear_run_nth(1) [OF assms(1) s(1), of j] that s by (simp add: f1_def)
    have "filter (\<lambda>j. fl_frame_type f1 ! j = PJMEDIA_JB_DISCARDED_FRAME) [0..<s2] = filter ?D [0..<s2]"
      by (rule filter_cong) (simp_all add: f1)
    then have "fl_discarded_num f2 = fl_discarded_num f1 - length (filter ?D [0..<s2])"
      by (simp add: f2_def clear_run_def [of _ _ f1])
    then have "fl_discarded_num fl' = fl_discarded_num fl - length (filter ?D [?h..<?h + s1]) - length (filter ?D [0..<s2])"
      by (simp add: fl'_def f1_def clear_run_def)
    also have "\<dots> = fl_discarded_num fl - length (filter ?D (map (at fl) [0..<c]))"
      using upt_wrap [OF m(2,3)] m unfolding at_def by (auto simp: s1_def s2_def)
    also have "length (filter ?D (map (at fl) [0..<c])) = length (filter (\<lambda>s. s = Discarded) (take c (window fl)))"
      using m(4) slot_Discarded [OF assms(1) at_less [OF assms(1)]]
      by (simp add: window_def take_map filter_map o_def)
    finally show ?thesis .
  qed
  ultimately show ?thesis using that [OF eq sh] by (simp add: fl'_def f2_def f1_def)
qed

lemma remove_head_correct:
  fixes n :: nat
  assumes "fl_inv fl"
  defines "c \<equiv> min n (fl_size fl)"
  obtains fl' where "jb_framelist_remove_head n fl = (c, fl')" "fl_inv fl'" "window fl' = drop c (window fl)"
    "fl_origin fl' = fl_origin fl + int c" "fl_max_count fl' = fl_max_count fl" "fl_frame_size fl' = fl_frame_size fl"
proof -
  obtain fl' where r: "jb_framelist_remove_head n fl = (c, fl')" "fl_shape fl'"
    "fl_origin fl' = fl_origin fl + int c" "fl_size fl' = fl_size fl - c" "fl_max_count fl' = fl_max_count fl"
    "fl_frame_size fl' = fl_frame_size fl" and at: "\<And>i. at fl' i = at fl (c + i)"
    and slots: "\<And>i. i < fl_max_count fl \<Longrightarrow> slot fl' (at fl i) = (if i < c then Missing else slot fl (at fl i))"
    and d: "fl_discarded_num fl' = fl_discarded_num fl - length (filter (\<lambda>s. s = Discarded) (take c (window fl)))"
    using remove_head_slots [OF fl_inv_shape [OF assms(1)], of n] unfolding c_def by metis
  have c: "c \<le> fl_size fl" "fl_size fl \<le> fl_max_count fl" using assms by (auto simp: fl_inv_def fl_shape_def)
  have w: "window fl' = drop c (window fl)"
    using c slots by (intro window_eqI) (simp_all add: r at nth_window)
  have "slot fl' (at fl' i) = Missing" if "fl_size fl' \<le> i" "i < fl_max_count fl'" for i
  proof (cases "c + i < fl_max_count fl")
    case True
    then show ?thesis using slots [OF True] beyond_window [OF assms(1), of "c + i"] that r(4) c at by simp
  next
    case False
    define j where "j = c + i - fl_max_count fl"
    have "at fl' i = at fl j" unfolding at j_def using False by (intro at_wrap) simp
    moreover have "j < c" "j < fl_max_count fl" using False that c unfolding j_def r(5) by linarith+
    ultimately show ?thesis using slots [of j] by simp
  qed
  moreover have "length (filter (\<lambda>s. s = Discarded) (window fl)) =
      length (filter (\<lambda>s. s = Discarded) (take c (window fl))) + length (filter (\<lambda>s. s = Discarded) (drop c (window fl)))"
    by (simp flip: filter_append length_append)
  ultimately have "fl_inv fl'"
    using r(2) d w assms(1) by (auto simp: fl_inv_def list_all_iff)
  then show ?thesis using that r w by simp
qed

lemma remove_one:
  assumes "fl_inv fl" "window fl = s # ss"
  obtains fl' where "jb_framelist_remove_head 1 fl = (1, fl')" "fl_inv fl'" "window fl' = ss"
    "fl_origin fl' = fl_origin fl + 1" "fl_max_count fl' = fl_max_count fl" "fl_frame_size fl' = fl_frame_size fl"
proof -
  have "fl_size fl = Suc (length ss)" using assms(2) length_window [of fl] by simp
  then show ?thesis using remove_head_correct [OF assms(1), of 1] that assms(2) by auto
qed

section \<open>Taking a frame\<close>

lemma head_slot:
  assumes "fl_inv fl"
  shows "fl_frame_type fl ! fl_head fl = PJMEDIA_JB_DISCARDED_FRAME \<longleftrightarrow> (\<exists>ss. window fl = Discarded # ss)"
proof -
  have sh: "fl_shape fl" "fl_head fl = at fl 0" using assms by (auto simp: fl_inv_def fl_shape_def at_def)
  have d: "fl_frame_type fl ! fl_head fl = PJMEDIA_JB_DISCARDED_FRAME \<longleftrightarrow> slot fl (at fl 0) = Discarded"
    using slot_Discarded [OF sh(1) at_less [OF sh(1)]] sh(2) by simp
  show ?thesis
  proof (cases "window fl")
    case Nil
    then have "fl_size fl = 0" using length_window [of fl] by simp
    then have "slot fl (at fl 0) = Missing" using beyond_window [OF assms, of 0] sh by (simp add: fl_shape_def)
    then show ?thesis using d Nil by simp
  next
    case (Cons s ss)
    then have "0 < fl_size fl" using length_window [of fl] by simp
    then have "slot fl (at fl 0) = s" using nth_window [of 0 fl] Cons by simp
    then show ?thesis using d Cons by simp
  qed
qed

lemma skip_discarded_correct:
  assumes "fl_inv fl"
  obtains fl' where "skip_discarded b fl = Some (b \<or> takeWhile (\<lambda>s. s = Discarded) (window fl) \<noteq> [], fl')" "fl_inv fl'"
    "window fl' = dropWhile (\<lambda>s. s = Discarded) (window fl)"
    "fl_origin fl' = fl_origin fl + int (length (takeWhile (\<lambda>s. s = Discarded) (window fl)))"
    "fl_max_count fl' = fl_max_count fl" "fl_frame_size fl' = fl_frame_size fl"
  using assms
proof (induction "window fl" arbitrary: fl b thesis)
  case Nil
  then have "skip_discarded b fl = Some (b, fl)" using head_slot [OF Nil.prems(2)] by (subst skip_discarded.simps) simp
  then show ?case using Nil.hyps [symmetric] Nil.prems(2) by (intro Nil.prems(1) [of fl]) simp_all
next
  case (Cons s ss)
  note w = Cons.hyps(2) [symmetric]
  show ?case
  proof (cases "s = Discarded")
    case True
    obtain fl1 where fl1: "jb_framelist_remove_head 1 fl = (1, fl1)" "fl_inv fl1" "window fl1 = ss"
      "fl_origin fl1 = fl_origin fl + 1" "fl_max_count fl1 = fl_max_count fl" "fl_frame_size fl1 = fl_frame_size fl"
      using remove_one [OF Cons.prems(2) w] by blast
    have "skip_discarded b fl = skip_discarded True fl1"
      using head_slot [OF Cons.prems(2)] w True fl1(1) by (subst skip_discarded.simps) simp
    moreover obtain fl' where "skip_discarded True fl1 = Some (True, fl')" "fl_inv fl'"
      "window fl' = dropWhile (\<lambda>s. s = Discarded) ss"
      "fl_origin fl' = fl_origin fl1 + int (length (takeWhile (\<lambda>s. s = Discarded) ss))"
      "fl_max_count fl' = fl_max_count fl1" "fl_frame_size fl' = fl_frame_size fl1"
      using Cons.hyps(1) [OF fl1(3) [symmetric] _ fl1(2), of True] unfolding fl1(3) by auto
    ultimately show ?thesis using True fl1 by (intro Cons.prems(1) [of fl']) (simp_all add: w)
  next
    case False
    then have "skip_discarded b fl = Some (b, fl)" using head_slot [OF Cons.prems(2)] w by (subst skip_discarded.simps) simp
    then show ?thesis using False Cons.prems(2) by (intro Cons.prems(1) [of fl]) (simp_all add: w)
  qed
qed

text \<open>What is reported of a slot with sequence number \<open>n\<close>.\<close>

definition reports :: "jb_slot \<Rightarrow> int \<Rightarrow> jb_got \<Rightarrow> bool" where
  "reports s n g \<longleftrightarrow>
     got_seq g = Some n \<and>
     (case s of
        Frame f b t \<Rightarrow>
          got_type g = Some PJMEDIA_JB_NORMAL_FRAME \<and> map_option (take (length f)) (got_frame g) = Some f \<and>
          got_size g = Some (length f) \<and> got_bit_info g = Some b \<and> got_ts g = Some t
      | _ \<Rightarrow> got_type g = Some PJMEDIA_JB_MISSING_FRAME \<and> got_size g = Some 0)"

lemma slot_report:
  assumes "fl_shape fl" "p < fl_max_count fl" "slot fl p \<noteq> Discarded"
  shows "reports (slot fl p) n
    \<lparr>got_frame = Some (fl_content fl ! p), got_size = Some (fl_content_len fl ! p),
     got_type = Some (fl_frame_type fl ! p), got_bit_info = Some (fl_bit_info fl ! p),
     got_ts = Some (fl_ts fl ! p), got_seq = Some n\<rparr>"
proof -
  have "fl_content_len fl ! p \<le> length (fl_content fl ! p)"
    using assms(1,2) by (auto simp: fl_shape_def list_all_length)
  moreover have "fl_frame_type fl ! p = PJMEDIA_JB_MISSING_FRAME \<Longrightarrow> fl_content_len fl ! p = 0"
    using assms(1,2) by (auto simp: fl_shape_def list_all_iff)
  moreover have "fl_frame_type fl ! p \<in> {PJMEDIA_JB_MISSING_FRAME, PJMEDIA_JB_NORMAL_FRAME}"
    using assms slot_Discarded [OF assms(1,2)] by (auto simp: fl_shape_def list_all_length)
  ultimately show ?thesis by (auto simp: reports_def slot_def min_def)
qed

text \<open>Updating one slot and the fields that move the window.\<close>

lemma fl_shape_update:
  assumes "fl_shape fl" "n \<le> fl_frame_size fl" "length f = fl_frame_size fl" "h < fl_max_count fl" "k \<le> fl_max_count fl"
    "t \<in> {PJMEDIA_JB_MISSING_FRAME, PJMEDIA_JB_NORMAL_FRAME, PJMEDIA_JB_DISCARDED_FRAME}"
    "t = PJMEDIA_JB_MISSING_FRAME \<Longrightarrow> n = 0"
  shows "fl_shape \<lparr>fl_frame_size = fl_frame_size fl, fl_max_count = fl_max_count fl, fl_content = (fl_content fl)[p := f],
    fl_frame_type = (fl_frame_type fl)[p := t], fl_content_len = (fl_content_len fl)[p := n],
    fl_bit_info = (fl_bit_info fl)[p := b], fl_ts = (fl_ts fl)[p := s], fl_head = h, fl_size = k,
    fl_discarded_num = d, fl_origin = o1\<rparr>"
proof -
  have "list_all (\<lambda>i. (fl_frame_type fl)[p := t] ! i = PJMEDIA_JB_MISSING_FRAME \<longrightarrow> (fl_content_len fl)[p := n] ! i = 0)
      [0..<fl_max_count fl]"
    using assms(1,7) by (auto simp: fl_shape_def list_all_iff nth_update_at)
  then show ?thesis using assms unfolding fl_shape_def by (simp add: list_all_update)
qed

lemma take_head_correct:
  assumes inv: "fl_inv fl" and w: "window fl = s # ss" "s \<noteq> Discarded"
  obtains g fl' where "take_head b fl = (g, fl')" "reports (if b then Missing else s) (fl_origin fl) g" "fl_inv fl'"
    "window fl' = ss" "fl_origin fl' = fl_origin fl + 1" "fl_max_count fl' = fl_max_count fl" "fl_frame_size fl' = fl_frame_size fl"
proof -
  let ?h = "fl_head fl" and ?m = "fl_max_count fl"
  define fl' where "fl' = snd (take_head b fl)"
  have sh: "fl_shape fl" and h: "?h < ?m" "at fl 0 = ?h" and len: "Suc (length ss) = fl_size fl" "fl_size fl \<le> ?m"
    using inv length_window [of fl] w(1) by (auto simp: fl_inv_def fl_shape_def at_def)
  have s: "slot fl ?h = s" using nth_window [of 0 fl] w(1) h len by simp
  have other: "slot fl' j = slot fl j" if "j \<noteq> ?h" for j
    using that by (intro slot_cong) (simp_all add: fl'_def take_head_def Let_def)
  have gone: "slot fl' ?h = Missing" using sh h by (simp add: fl'_def take_head_def Let_def slot_def fl_shape_def)
  have f: "fl_max_count fl' = ?m" "fl_frame_size fl' = fl_frame_size fl" "fl_size fl' = length ss" "fl_origin fl' = fl_origin fl + 1"
    "fl_discarded_num fl' = fl_discarded_num fl"
    using len by (simp_all add: fl'_def take_head_def Let_def)
  have "(?h + 1) mod ?m < ?m" using h by simp
  then have sh': "fl_shape fl'"
    using fl_shape_update [OF sh, of 0 "fl_content fl ! ?h" _ "fl_size fl - 1" PJMEDIA_JB_MISSING_FRAME ?h] sh h len
    unfolding fl'_def take_head_def Let_def by (simp add: fl_shape_def list_all_length)
  have at': "at fl' i = at fl (Suc i)" for i
    by (simp add: at_def f, simp add: fl'_def take_head_def Let_def mod_simps)
  have win: "window fl' = ss"
  proof (rule window_eqI)
    fix i assume "i < fl_size fl'"
    then have i: "Suc i < fl_size fl" using f len by simp
    then have "at fl (Suc i) \<noteq> ?h" using at_inj [OF sh, of "Suc i" 0] h len by simp
    then show "slot fl' (at fl' i) = ss ! i" using nth_window [OF i] w other at' by simp
  qed (simp add: f)
  have "slot fl' (at fl' i) = Missing" if "fl_size fl' \<le> i" "i < ?m" for i
  proof (cases "Suc i < ?m")
    case True
    then have "at fl (Suc i) \<noteq> ?h" using at_inj [OF sh, of "Suc i" 0] h len by simp
    then show ?thesis using beyond_window [OF inv _ True] that other at' f len by simp
  next
    case False
    then show ?thesis using that at_wrap [of fl "Suc i"] at' gone h by simp
  qed
  then have "fl_inv fl'" using sh' win inv w f by (auto simp: fl_inv_def list_all_iff)
  moreover have "reports (if b then Missing else s) (fl_origin fl) (fst (take_head b fl))"
    using slot_report [OF sh h(1), of "fl_origin fl"] s w(2) by (simp add: take_head_def Let_def reports_def)
  ultimately show ?thesis using that [of "fst (take_head b fl)" fl'] win f by (simp add: fl'_def)
qed

section \<open>The abstract frame list\<close>

text \<open>
  The contract of the frame list on windows: a pair of the first sequence number and the slots, which
  are never more than \<open>cap\<close>.
\<close>

type_synonym jb_window = "int \<times> jb_slot list"

definition win_of :: "jb_framelist_t \<Rightarrow> jb_window" where
  "win_of fl = (fl_origin fl, window fl)"

definition win_remove :: "nat \<Rightarrow> jb_window \<Rightarrow> nat \<times> jb_window" where
  "win_remove n w = (case w of (o1, ss) \<Rightarrow> (min n (length ss), o1 + int (min n (length ss)), drop n ss))"

text \<open>The slot reported and its number; a slot that follows discarded ones is reported missing.\<close>

definition win_get :: "jb_window \<Rightarrow> (jb_slot \<times> int) option \<times> jb_window" where
  "win_get w =
     (case w of (o1, ss) \<Rightarrow>
        let n = length (takeWhile (\<lambda>s. s = Discarded) ss); o1 = o1 + int n
        in case dropWhile (\<lambda>s. s = Discarded) ss of
             [] \<Rightarrow> (None, o1, [])
           | s # rest \<Rightarrow> (Some (if n \<noteq> 0 then Missing else s, o1), o1 + 1, rest))"

definition win_put :: "nat \<Rightarrow> int \<Rightarrow> jb_slot \<Rightarrow> jb_window \<Rightarrow> pj_status_t \<times> jb_window" where
  "win_put cap index s w =
     (case w of (o1, ss) \<Rightarrow>
        if index < o1 \<and> o1 - index < MAX_MISORDER then (PJ_ETOOSMALL, o1, ss)
        else
          let o1 = (if ss = [] then index else if index < o1 then index - int (length ss) else o1);
              d = index - o1
          in if d \<ge> int cap then
               if d > MAX_DROPOUT then (PJ_SUCCESS, index, [s]) else (PJ_ETOOMANY, o1, ss)
             else if nat d < length ss then
               if ss ! nat d = Missing then (PJ_SUCCESS, o1, ss[nat d := s]) else (PJ_EEXISTS, o1, ss)
             else (PJ_SUCCESS, o1, ss @ replicate (nat d - length ss) Missing @ [s]))"

definition win_discard :: "int \<Rightarrow> jb_window \<Rightarrow> jb_window" where
  "win_discard index w = (case w of (o1, ss) \<Rightarrow> (o1, ss[nat (index - o1) := Discarded]))"

lemma framelist_get_correct:
  assumes inv: "fl_inv fl"
  obtains res g fl' where "jb_framelist_get fl = Some (res, g, fl')" "fl_inv fl'" "win_of fl' = snd (win_get (win_of fl))"
    "fl_max_count fl' = fl_max_count fl" "fl_frame_size fl' = fl_frame_size fl"
    "case fst (win_get (win_of fl)) of
       None \<Rightarrow> \<not> res \<and> g = nothing_got fl | Some (s, n) \<Rightarrow> res \<and> s \<noteq> Discarded \<and> reports s n g"
proof (cases "fl_size fl = 0")
  case True
  then have "window fl = []" using length_window [of fl] by (metis length_0_conv)
  then show ?thesis using that [of False "nothing_got fl" fl] True inv by (simp add: jb_framelist_get_def win_of_def win_get_def)
next
  case False
  define n where "n = length (takeWhile (\<lambda>s. s = Discarded) (window fl))"
  obtain f1 where f1: "skip_discarded False fl = Some (n \<noteq> 0, f1)" "fl_inv f1"
    "window f1 = dropWhile (\<lambda>s. s = Discarded) (window fl)" "fl_origin f1 = fl_origin fl + int n"
    "fl_max_count f1 = fl_max_count fl" "fl_frame_size f1 = fl_frame_size fl"
    using skip_discarded_correct [OF inv, of False] unfolding n_def by auto
  show ?thesis
  proof (cases "window f1")
    case Nil
    then have "fl_size f1 = 0" using length_window [of f1] by simp
    then show ?thesis using that [of False "nothing_got fl" f1] f1 False Nil
      by (simp add: jb_framelist_get_def win_of_def win_get_def nothing_got_def n_def)
  next
    case (Cons s ss)
    then have s: "s \<noteq> Discarded" "fl_size f1 \<noteq> 0"
      using f1(3) dropWhile_eq_Cons_conv [of "\<lambda>s. s = Discarded" "window fl" s ss] length_window [of f1] by auto
    obtain g fl' where "take_head (n \<noteq> 0) f1 = (g, fl')" "reports (if n \<noteq> 0 then Missing else s) (fl_origin f1) g" "fl_inv fl'"
      "window fl' = ss" "fl_origin fl' = fl_origin f1 + 1" "fl_max_count fl' = fl_max_count f1" "fl_frame_size fl' = fl_frame_size f1"
      using take_head_correct [OF f1(2) Cons s(1)] by blast
    moreover have "win_get (win_of fl) = (Some (if n \<noteq> 0 then Missing else s, fl_origin f1), fl_origin f1 + 1, ss)"
      using f1(3) [symmetric] f1(4) Cons by (simp add: win_get_def win_of_def n_def Let_def)
    ultimately show ?thesis using f1 False s
      by (intro that [of True g fl']) (auto simp: jb_framelist_get_def win_of_def)
  qed
qed

section \<open>Storing and discarding\<close>

lemma fl_inv_origin [simp]: "fl_inv (fl\<lparr>fl_origin := o1\<rparr>) = fl_inv fl" "window (fl\<lparr>fl_origin := o1\<rparr>) = window fl"
  by (simp_all add: fl_inv_def fl_shape_def window_def at_def)

lemma reset_correct:
  assumes "fl_shape fl"
  shows "fl_inv (jb_framelist_reset fl)" "window (jb_framelist_reset fl) = []"
    "fl_max_count (jb_framelist_reset fl) = fl_max_count fl" "fl_frame_size (jb_framelist_reset fl) = fl_frame_size fl"
    "fl_size (jb_framelist_reset fl) = 0"
  using assms by (auto simp: jb_framelist_reset_def fl_inv_def fl_shape_def window_def list_all_iff slot_def at_def)

lemma put_slot_correct:
  fixes b t :: pj_uint32_t
  assumes inv: "fl_inv fl" and n: "n \<le> fl_frame_size fl" "n \<le> length f"
    and d: "0 \<le> d" "d < int (fl_max_count fl)" "index = fl_origin fl + d"
  defines "s \<equiv> Frame (take n f) b t"
  obtains st fl' where "put_slot index d f n b t PJMEDIA_JB_NORMAL_FRAME fl = (st, fl')" "fl_inv fl'" "fl_origin fl' = fl_origin fl"
    "fl_max_count fl' = fl_max_count fl" "fl_frame_size fl' = fl_frame_size fl"
    "(st, window fl') = (if nat d < fl_size fl then
         if window fl ! nat d = Missing then (PJ_SUCCESS, (window fl)[nat d := s]) else (PJ_EEXISTS, window fl)
       else (PJ_SUCCESS, window fl @ replicate (nat d - fl_size fl) Missing @ [s]))"
proof -
  let ?p = "at fl (nat d)" and ?m = "fl_max_count fl"
  have sh: "fl_shape fl" and p: "?p < ?m" and dm: "nat d < ?m" using inv d at_less by (auto simp: fl_inv_def)
  have size: "fl_size fl \<le> ?m" using sh by (simp add: fl_shape_def)
  have beyond: "fl_size fl \<le> nat d \<Longrightarrow> slot fl ?p = Missing" using beyond_window [OF inv _ dm] by simp
  have miss: "fl_frame_type fl ! ?p = PJMEDIA_JB_MISSING_FRAME \<longleftrightarrow> slot fl ?p = Missing" using slot_Missing [OF sh p] by simp
  show ?thesis
  proof (cases "slot fl ?p = Missing")
    case False
    then have "nat d < fl_size fl" using beyond by (meson not_le)
    then show ?thesis using that [of PJ_EEXISTS fl] False inv miss nth_window [of "nat d" fl]
      by (simp add: put_slot_def at_def Let_def)
  next
    case True
    define fl' where "fl' = snd (put_slot index d f n b t PJMEDIA_JB_NORMAL_FRAME fl)"
    let ?f = "take n f @ drop n (fl_content fl ! ?p)"
    have eq: "put_slot index d f n b t PJMEDIA_JB_NORMAL_FRAME fl = (PJ_SUCCESS, fl')"
      using True miss by (simp add: fl'_def put_slot_def at_def Let_def)
    have grow: "fl_origin fl + int (fl_size fl) \<le> index \<longleftrightarrow> fl_size fl \<le> nat d" using d by auto
    have f': "fl_max_count fl' = ?m" "fl_frame_size fl' = fl_frame_size fl" "fl_origin fl' = fl_origin fl" "fl_head fl' = fl_head fl"
      "fl_discarded_num fl' = fl_discarded_num fl" "fl_size fl' = (if fl_size fl \<le> nat d then nat d + 1 else fl_size fl)"
      "fl_frame_type fl' = (fl_frame_type fl)[?p := PJMEDIA_JB_NORMAL_FRAME]" "fl_content_len fl' = (fl_content_len fl)[?p := n]"
      "fl_content fl' = (fl_content fl)[?p := ?f]" "fl_bit_info fl' = (fl_bit_info fl)[?p := b]" "fl_ts fl' = (fl_ts fl)[?p := t]"
      using True miss grow d(1) by (auto simp: fl'_def put_slot_def at_def Let_def)
    have len: "length (fl_content fl ! ?p) = fl_frame_size fl" using sh p by (simp add: fl_shape_def list_all_length)
    have sh': "fl_shape fl'"
      using fl_shape_update [OF sh n(1), of ?f "fl_head fl'" "fl_size fl'" PJMEDIA_JB_NORMAL_FRAME ?p b t "fl_discarded_num fl'" "fl_origin fl'"]
        f' len n dm sh by (cases fl') (auto simp: fl_shape_def)
    have other: "slot fl' j = slot fl j" if "j \<noteq> ?p" for j using that by (intro slot_cong) (simp_all add: f')
    have this_slot: "slot fl' ?p = s" using sh p n by (simp add: slot_def f' s_def fl_shape_def)
    have at': "at fl' i = at fl i" for i by (simp add: at_def f')
    have other_at: "slot fl' (at fl' i) = slot fl (at fl i)" if "i \<noteq> nat d" "i < ?m" for i
      using other at_inj [OF sh that(2) dm] that(1) at' by simp
    let ?w = "if nat d < fl_size fl then (window fl)[nat d := s] else window fl @ replicate (nat d - fl_size fl) Missing @ [s]"
    have win: "window fl' = ?w"
    proof (rule window_eqI)
      fix i assume i: "i < fl_size fl'"
      then have im: "i < ?m" using f' dm size by (auto split: if_splits)
      show "slot fl' (at fl' i) = ?w ! i"
      proof (cases "i = nat d")
        case True
        then show ?thesis using this_slot at' by (simp add: nth_append)
      next
        case False
        then show ?thesis using other_at [OF False im] i nth_window [of i fl] beyond_window [OF inv _ im] f'
          by (auto simp: nth_append split: if_splits)
      qed
    qed (simp add: f')
    have "slot fl' (at fl' i) = Missing" if "fl_size fl' \<le> i" "i < ?m" for i
      using other_at [of i] beyond_window [OF inv, of i] that f' by (auto split: if_splits)
    moreover have "length (filter (\<lambda>s. s = Discarded) ?w) = length (filter (\<lambda>s. s = Discarded) (window fl))"
      using True nth_window [of "nat d" fl] length_filter_update [of "nat d" "window fl" "\<lambda>s. s = Discarded" s]
      by (simp add: s_def)
    ultimately have "fl_inv fl'" using sh' win inv f' by (auto simp: fl_inv_def list_all_iff)
    then show ?thesis using that [OF eq] f' win True nth_window [of "nat d" fl] by auto
  qed
qed

lemma put_at_correct:
  assumes inv: "fl_inv fl" and n: "n \<le> fl_frame_size fl" "n \<le> length f"
  obtains st fl' where "jb_framelist_put_at index f n b t PJMEDIA_JB_NORMAL_FRAME fl = (st, fl')" "fl_inv fl'"
    "(st, win_of fl') = win_put (fl_max_count fl) index (Frame (take n f) b t) (win_of fl)"
    "fl_max_count fl' = fl_max_count fl" "fl_frame_size fl' = fl_frame_size fl"
proof (cases "index < fl_origin fl \<and> fl_origin fl - index < MAX_MISORDER")
  case True
  then show ?thesis using that [of PJ_ETOOSMALL fl] inv n by (simp add: jb_framelist_put_at_def win_put_def win_of_def)
next
  case False
  let ?s = "Frame (take n f) b t" and ?m = "fl_max_count fl"
  define o1 where "o1 = (if fl_size fl = 0 then index else if index < fl_origin fl then index - int (fl_size fl) else fl_origin fl)"
  let ?f1 = "fl\<lparr>fl_origin := o1\<rparr>" and ?d = "index - o1"
  have m: "0 < ?m" and sh: "fl_shape fl" using inv by (auto simp: fl_inv_def fl_shape_def)
  have empty: "window fl = [] \<longleftrightarrow> fl_size fl = 0" using length_window [of fl] by (metis length_0_conv)
  have spec: "win_put ?m index ?s (win_of fl) =
      (if ?d \<ge> int ?m then if ?d > MAX_DROPOUT then (PJ_SUCCESS, index, [?s]) else (PJ_ETOOMANY, o1, window fl)
       else if nat ?d < fl_size fl then
         if window fl ! nat ?d = Missing then (PJ_SUCCESS, o1, (window fl)[nat ?d := ?s]) else (PJ_EEXISTS, o1, window fl)
       else (PJ_SUCCESS, o1, window fl @ replicate (nat ?d - fl_size fl) Missing @ [?s]))"
    unfolding win_put_def win_of_def using False by (simp add: o1_def empty Let_def)
  have code: "jb_framelist_put_at index f n b t PJMEDIA_JB_NORMAL_FRAME fl =
      (if ?d \<ge> int ?m then
         if ?d > MAX_DROPOUT
         then put_slot index 0 f n b t PJMEDIA_JB_NORMAL_FRAME ((jb_framelist_reset ?f1)\<lparr>fl_origin := index\<rparr>)
         else (PJ_ETOOMANY, ?f1)
       else put_slot index ?d f n b t PJMEDIA_JB_NORMAL_FRAME ?f1)"
    unfolding jb_framelist_put_at_def using False n(1) by (auto simp: o1_def Let_def)
  consider "?d \<ge> int ?m" "?d > MAX_DROPOUT" | "?d \<ge> int ?m" "\<not> ?d > MAX_DROPOUT" | "\<not> ?d \<ge> int ?m" by blast
  then show ?thesis
  proof cases
    case 1
    let ?r = "(jb_framelist_reset ?f1)\<lparr>fl_origin := index\<rparr>"
    have shf: "fl_shape ?f1" using sh by (simp add: fl_shape_def)
    have r: "fl_inv ?r" "window ?r = []" "fl_max_count ?r = ?m" "fl_frame_size ?r = fl_frame_size fl" "fl_origin ?r = index"
      "fl_size ?r = 0"
      using reset_correct [OF shf] by simp_all
    show ?thesis
      using put_slot_correct [of ?r n f 0 index b t] n m r that code spec 1 unfolding win_of_def by auto
  next
    case 2
    then show ?thesis using that [of PJ_ETOOMANY ?f1] code spec inv by (simp add: win_of_def)
  next
    case 3
    have "0 \<le> ?d" by (auto simp: o1_def)
    then obtain st fl' where r: "put_slot index ?d f n b t PJMEDIA_JB_NORMAL_FRAME ?f1 = (st, fl')" "fl_inv fl'"
      "fl_origin fl' = o1" "fl_max_count fl' = ?m" "fl_frame_size fl' = fl_frame_size fl"
      "(st, window fl') = (if nat ?d < fl_size fl then
         if window fl ! nat ?d = Missing then (PJ_SUCCESS, (window fl)[nat ?d := ?s]) else (PJ_EEXISTS, window fl)
       else (PJ_SUCCESS, window fl @ replicate (nat ?d - fl_size fl) Missing @ [?s]))"
      using put_slot_correct [of ?f1 n f ?d index b t] n inv 3 by (auto cong: if_cong)
    show ?thesis
    proof (rule that [of st fl'])
      show "(st, win_of fl') = win_put ?m index ?s (win_of fl)"
        using r(3,6) 3 unfolding spec by (simp add: win_of_def split: if_splits)
    qed (use r code 3 in simp_all)
  qed
qed

text \<open>Discarding keeps the count of discarded slots right only if the slot is not discarded already.\<close>

lemma discard_correct:
  assumes inv: "fl_inv fl" and i: "fl_origin fl \<le> index" "index < fl_origin fl + int (fl_size fl)"
    and fresh: "window fl ! nat (index - fl_origin fl) \<noteq> Discarded"
  obtains fl' where "jb_framelist_discard index fl = (PJ_SUCCESS, fl')" "fl_inv fl'" "win_of fl' = win_discard index (win_of fl)"
    "fl_max_count fl' = fl_max_count fl" "fl_frame_size fl' = fl_frame_size fl"
proof -
  define fl' where "fl' = snd (jb_framelist_discard index fl)"
  let ?d = "nat (index - fl_origin fl)" and ?m = "fl_max_count fl"
  let ?p = "at fl ?d"
  have sh: "fl_shape fl" and size: "fl_size fl \<le> ?m" using inv by (auto simp: fl_inv_def fl_shape_def)
  have d: "?d < fl_size fl" "?d < ?m" using i size by auto
  have p: "?p < ?m" using at_less [OF sh] .
  have f': "fl_max_count fl' = ?m" "fl_frame_size fl' = fl_frame_size fl" "fl_origin fl' = fl_origin fl" "fl_head fl' = fl_head fl"
    "fl_size fl' = fl_size fl" "fl_frame_type fl' = (fl_frame_type fl)[?p := PJMEDIA_JB_DISCARDED_FRAME]"
    "fl_content_len fl' = fl_content_len fl" "fl_content fl' = fl_content fl" "fl_bit_info fl' = fl_bit_info fl"
    "fl_ts fl' = fl_ts fl" "fl_discarded_num fl' = fl_discarded_num fl + 1"
    using i by (simp_all add: fl'_def jb_framelist_discard_def Let_def at_def)
  have at': "at fl' j = at fl j" for j by (simp add: at_def f')
  have sh': "fl_shape fl'"
    using sh by (auto simp: fl_shape_def f' list_all_update list_all_length nth_update_at)
  have slots: "slot fl' (at fl' j) = (if j = ?d then Discarded else slot fl (at fl j))" if "j < ?m" for j
  proof (cases "j = ?d")
    case True
    then show ?thesis using sh p by (simp add: slot_def f' at' fl_shape_def)
  next
    case False
    then have "at fl j \<noteq> ?p" using at_inj [OF sh that d(2)] by simp
    then show ?thesis using False unfolding at' by (subst slot_cong [of fl' _ fl]) (simp_all add: f')
  qed
  have w: "window fl' = (window fl)[?d := Discarded]"
    using slots size by (intro window_eqI) (simp_all add: f' nth_window nth_list_update d)
  have "slot fl' (at fl' j) = Missing" if "fl_size fl' \<le> j" "j < ?m" for j
    using slots [OF that(2)] beyond_window [OF inv _ that(2)] that(1) d by (simp add: f')
  moreover have "length (filter (\<lambda>s. s = Discarded) ((window fl)[?d := Discarded])) = length (filter (\<lambda>s. s = Discarded) (window fl)) + 1"
    using length_filter_update [of ?d "window fl" "\<lambda>s. s = Discarded" Discarded] d fresh by simp
  ultimately have "fl_inv fl'" using sh' inv w by (simp add: fl_inv_def f' list_all_iff)
  then show ?thesis using that [of fl'] i f' w
    by (simp add: fl'_def win_of_def win_discard_def jb_framelist_discard_def Let_def)
qed

section \<open>Peeking\<close>

abbreviation kept :: "jb_slot list \<Rightarrow> jb_slot list" where
  "kept ss \<equiv> filter (\<lambda>s. s \<noteq> Discarded) ss"

lemma peek_pos_correct:
  assumes inv: "fl_inv fl"
  shows "i < fl_size fl \<Longrightarrow> unat idx < length (kept (drop i (window fl))) \<Longrightarrow>
    \<exists>k. i \<le> k \<and> k < fl_size fl \<and> peek_pos fl (at fl i) idx = Some (at fl k) \<and> window fl ! k \<noteq> Discarded \<and>
      length (kept (take (k - i) (drop i (window fl)))) = unat idx"
proof (induction "fl_size fl - i" arbitrary: i idx)
  case (Suc d)
  let ?w = "window fl"
  have sh: "fl_shape fl" using inv by (simp add: fl_inv_def)
  have next_pos: "(at fl i + 1) mod fl_max_count fl = at fl (Suc i)" by (simp add: at_def mod_simps)
  have w: "drop i ?w = ?w ! i # drop (Suc i) ?w" using Suc.prems by (simp add: Cons_nth_drop_Suc)
  have D: "fl_frame_type fl ! at fl i = PJMEDIA_JB_DISCARDED_FRAME \<longleftrightarrow> ?w ! i = Discarded"
    using slot_Discarded [OF sh at_less [OF sh]] nth_window [OF Suc.prems(1)] by simp
  note step = peek_pos.simps [of fl "at fl i" idx, unfolded next_pos D]
  show ?case
  proof (cases "?w ! i \<noteq> Discarded \<and> idx = 0")
    case True
    then show ?thesis using step Suc.prems(1) by (intro exI [of _ i]) simp
  next
    case False
    define j where "j = (if ?w ! i = Discarded then idx else idx - 1)"
    have pp: "peek_pos fl (at fl i) idx = peek_pos fl (at fl (Suc i)) j" using step False by (auto simp: j_def)
    have j: "unat idx = unat j + (if ?w ! i = Discarded then 0 else 1)"
      using False unat_minus_one [of idx] by (auto simp: j_def unat_gt_0 [symmetric] Suc_diff_1 simp del: unat_gt_0)
    have less: "unat j < length (kept (drop (Suc i) ?w))" using Suc.prems(2) j w by (auto split: if_splits)
    then have "Suc i < fl_size fl" by (cases "Suc i < fl_size fl") simp_all
    then obtain k where k: "Suc i \<le> k" "k < fl_size fl" "peek_pos fl (at fl (Suc i)) j = Some (at fl k)" "?w ! k \<noteq> Discarded"
      "length (kept (take (k - Suc i) (drop (Suc i) ?w))) = unat j"
      using Suc.hyps(1) [of "Suc i" j, OF _ _ less] Suc.hyps(2) by (metis Suc_diff_Suc diff_Suc_eq_diff_pred Suc_lessD old.nat.inject)
    have "take (k - i) (drop i ?w) = ?w ! i # take (k - Suc i) (drop (Suc i) ?w)"
      using w k(1) by (simp add: take_Cons' Suc_diff_Suc less_eq_Suc_le)
    then show ?thesis using k pp j by (intro exI [of _ k]) (auto split: if_splits)
  qed
qed simp

lemma peek_correct:
  assumes inv: "fl_inv fl"
  shows "if unat offset < length (kept (window fl))
    then \<exists>k g. k < fl_size fl \<and> jb_framelist_peek offset fl = Some (Some g) \<and> window fl ! k \<noteq> Discarded \<and>
      length (kept (take k (window fl))) = unat offset \<and> reports (window fl ! k) (fl_origin fl + int (unat offset)) g
    else jb_framelist_peek offset fl = Some None"
proof (cases "unat offset < length (kept (window fl))")
  case True
  have sh: "fl_shape fl" "at fl 0 = fl_head fl" using inv by (auto simp: fl_inv_def fl_shape_def at_def)
  have "0 < fl_size fl" using True length_filter_le [of _ "window fl"] by (metis gr0I length_window less_nat_zero_code le_0_eq)
  then obtain k where k: "k < fl_size fl" "peek_pos fl (fl_head fl) offset = Some (at fl k)" "window fl ! k \<noteq> Discarded"
    "length (kept (take k (window fl))) = unat offset"
    using peek_pos_correct [OF inv, of 0 offset] True sh by auto
  have "\<not> offset \<ge> jb_framelist_eff_size fl" using True eff_size [OF inv] by (simp add: word_le_nat_alt)
  then show ?thesis
    using True k slot_report [OF sh(1) at_less [OF sh(1)], of k] nth_window [OF k(1)]
    by (auto simp: jb_framelist_peek_def)
next
  case False
  then show ?thesis using eff_size [OF inv] by (simp add: jb_framelist_peek_def word_le_nat_alt)
qed

definition memory_ok :: "nat \<Rightarrow> nat \<Rightarrow> jb_memory \<Rightarrow> bool" where
  "memory_ok frame_size max_count mem \<longleftrightarrow>
     length (mem_content mem) = max_count \<and> list_all (\<lambda>f. length f = frame_size) (mem_content mem) \<and>
     length (mem_bit_info mem) = max_count \<and> length (mem_ts mem) = max_count"

lemma init_correct:
  assumes "memory_ok n m mem" "0 < m" "m < 2 ^ 29"
  shows "fl_inv (jb_framelist_init mem n m)" "window (jb_framelist_init mem n m) = []"
    "fl_max_count (jb_framelist_init mem n m) = m" "fl_frame_size (jb_framelist_init mem n m) = n"
  using assms by (auto simp: memory_ok_def jb_framelist_init_def jb_framelist_reset_def fl_inv_def fl_shape_def window_def
    list_all_iff slot_def at_def)

section \<open>Refinement\<close>

text \<open>
  C7: taking a frame, storing one and removing from the head do to the ring of slots what the window
  contract says, with the same results; the loops among them end and the ring stays well formed.\<close>

theorem framelist_refines_window:
  assumes "fl_inv fl" "n \<le> fl_frame_size fl" "n \<le> length frame"
  shows "\<exists>res g fl1 st fl2 fl3.
    jb_framelist_get fl = Some (res, g, fl1) \<and> fl_inv fl1 \<and> win_of fl1 = snd (win_get (win_of fl)) \<and>
    (case fst (win_get (win_of fl)) of None \<Rightarrow> \<not> res | Some (s, k) \<Rightarrow> res \<and> reports s k g) \<and>
    jb_framelist_put_at index frame n b t PJMEDIA_JB_NORMAL_FRAME fl = (st, fl2) \<and> fl_inv fl2 \<and>
    (st, win_of fl2) = win_put (fl_max_count fl) index (Frame (take n frame) b t) (win_of fl) \<and>
    jb_framelist_remove_head m fl = (fst (win_remove m (win_of fl)), fl3) \<and> fl_inv fl3 \<and>
    win_of fl3 = snd (win_remove m (win_of fl))"
proof -
  obtain res g fl1 where 1: "jb_framelist_get fl = Some (res, g, fl1)" "fl_inv fl1" "win_of fl1 = snd (win_get (win_of fl))"
    "case fst (win_get (win_of fl)) of
       None \<Rightarrow> \<not> res \<and> g = nothing_got fl | Some (s, k) \<Rightarrow> res \<and> s \<noteq> Discarded \<and> reports s k g"
    using framelist_get_correct [OF assms(1)] by blast
  obtain st fl2 where 2: "jb_framelist_put_at index frame n b t PJMEDIA_JB_NORMAL_FRAME fl = (st, fl2)" "fl_inv fl2"
    "(st, win_of fl2) = win_put (fl_max_count fl) index (Frame (take n frame) b t) (win_of fl)"
    using put_at_correct [OF assms, of index b t] by blast
  obtain fl3 where "jb_framelist_remove_head m fl = (min m (fl_size fl), fl3)" "fl_inv fl3"
    "window fl3 = drop (min m (fl_size fl)) (window fl)" "fl_origin fl3 = fl_origin fl + int (min m (fl_size fl))"
    using remove_head_correct [OF assms(1), of m] by blast
  then have 3: "jb_framelist_remove_head m fl = (fst (win_remove m (win_of fl)), fl3)" "fl_inv fl3"
    "win_of fl3 = snd (win_remove m (win_of fl))"
    by (auto simp: win_of_def win_remove_def min_def)
  have "case fst (win_get (win_of fl)) of None \<Rightarrow> \<not> res | Some (s, k) \<Rightarrow> res \<and> reports s k g"
    using 1(4) by (auto split: option.splits)
  then show ?thesis using 1(1-3) 2 3 by blast
qed

definition demo_framelist :: jb_framelist_t where
  "demo_framelist = jb_framelist_init
     \<lparr>mem_content = replicate 3 [0, 0], mem_bit_info = replicate 3 0, mem_ts = replicate 3 0\<rparr> 2 3"

theorem framelist_refines_window_witness:
  "\<exists>st fl2. jb_framelist_put_at 5 [1, 2] 2 0 0 PJMEDIA_JB_NORMAL_FRAME demo_framelist = (st, fl2) \<and>
     (st, win_of fl2) = win_put (fl_max_count demo_framelist) 5 (Frame (take 2 [1, 2]) 0 0) (win_of demo_framelist)"
proof -
  have m: "memory_ok 2 3 \<lparr>mem_content = replicate 3 [0, 0], mem_bit_info = replicate 3 0, mem_ts = replicate 3 0\<rparr>" by code_simp
  have i: "fl_inv demo_framelist" "2 \<le> fl_frame_size demo_framelist"
    using init_correct [OF m] by (simp_all add: demo_framelist_def)
  have "(2::nat) \<le> length [1, 2 :: pj_uint8_t]" by simp
  from framelist_refines_window [OF i this, of 5 0 0 0] show ?thesis by blast
qed

end
