(* ===== verification/PJ_Math.thy ===== *)
theory PJ_Math
  imports PJ_Prelude
begin

text \<open>
  The integer square root and the running statistics of \<^verbatim>\<open>pjlib/include/pj/math.h\<close>, in the build
  without floating point (\<^verbatim>\<open>PJ_HAS_FLOATING_POINT\<close> 0): the loop of the square root ends
  and its result is the floor of the real root, or the next integer when that squared is one too much, and the running mean is the mean of all samples, rounded.
\<close>

section \<open>Integer square root\<close>

text \<open>
  The rough guess loop, and the \<^verbatim>\<open>do\<close> loop of the Babylonian method: \<open>None\<close> is a loop that never
  ends or a division by zero.
\<close>

function isqrt_guess :: "pj_uint32_t \<Rightarrow> pj_uint32_t \<Rightarrow> pj_uint32_t" where
  "isqrt_guess prev res = (if prev \<noteq> 0 then isqrt_guess (drop_bit 2 prev) (push_bit 1 res) else res)"
  by pat_completeness auto
termination
proof (relation "measure (\<lambda>(prev, res). unat prev)")
  fix prev res :: pj_uint32_t
  assume "prev \<noteq> 0"
  then have "0 < unat prev" by (simp add: unat_gt_0)
  then show "((drop_bit 2 prev, push_bit 1 res), (prev, res)) \<in> measure (\<lambda>(prev, res). unat prev)"
    by (simp add: unat_drop_bit_eq drop_bit_eq_div [of _ "unat _"])
qed simp

declare isqrt_guess.simps [simp del]

partial_function (option) isqrt_loop :: "pj_uint32_t \<Rightarrow> pj_uint32_t \<Rightarrow> pj_uint32_t option" where
  "isqrt_loop i res =
     (let prev = res
      in if prev = 0 then None
         else let res = drop_bit 1 (prev + i div prev)
              in if drop_bit 1 (prev + res) \<noteq> res then isqrt_loop i res else Some res)"

declare isqrt_loop.simps [code]

definition pj_isqrt :: "pj_uint32_t \<Rightarrow> pj_uint32_t option" where
  "pj_isqrt i = isqrt_loop i (isqrt_guess (drop_bit 2 i) 1)"

section \<open>Running statistics\<close>

record pj_math_stat =
  st_n :: int
  st_max :: int
  st_min :: int
  st_last :: int
  st_mean :: int
  mean_res :: int
  m2 :: int

definition pj_math_stat_init :: pj_math_stat where
  "pj_math_stat_init = \<lparr>st_n = 0, st_max = 0, st_min = 0, st_last = 0, st_mean = 0, mean_res = 0, m2 = 0\<rparr>"

definition pj_math_stat_update :: "int \<Rightarrow> pj_math_stat \<Rightarrow> pj_math_stat" where
  "pj_math_stat_update val stat =
     (let first = (st_n stat = 0);
          stat = stat\<lparr>st_last := val, st_n := st_n stat + 1\<rparr>;
          stat = (if \<not> first then
                    stat\<lparr>st_min := (if st_min stat > val then val else st_min stat),
                         st_max := (if st_max stat < val then val else st_max stat)\<rparr>
                  else stat\<lparr>st_min := val, st_max := val\<rparr>);
          delta = val - st_mean stat;
          stat = stat\<lparr>st_mean := st_mean stat + c_div delta (st_n stat),
                      mean_res := mean_res stat + c_mod delta (st_n stat)\<rparr>;
          stat = (if mean_res stat \<ge> st_n stat then
                    stat\<lparr>st_mean := st_mean stat + 1, mean_res := mean_res stat - st_n stat\<rparr>
                  else if mean_res stat \<le> - st_n stat then
                    stat\<lparr>st_mean := st_mean stat - 1, mean_res := mean_res stat + st_n stat\<rparr>
                  else stat)
      in stat\<lparr>m2 := m2 stat + delta * (val - st_mean stat)\<rparr>)"

definition pj_math_stat_get_stddev :: "pj_math_stat \<Rightarrow> pj_uint32_t option" where
  "pj_math_stat_get_stddev stat =
     (if st_n stat = 0 then Some 0 else pj_isqrt (of_int (c_div (m2 stat) (st_n stat))))"

definition pj_math_stat_set_stddev :: "pj_uint32_t \<Rightarrow> pj_math_stat \<Rightarrow> pj_math_stat" where
  "pj_math_stat_set_stddev dev stat =
     (let stat = (if st_n stat = 0 then stat\<lparr>st_n := 1\<rparr> else stat)
      in stat\<lparr>m2 := uint (dev * dev * of_int (st_n stat))\<rparr>)"

section \<open>The square root is right\<close>

lemma newton_step:
  fixes i p :: nat
  assumes "0 < p"
  defines "r \<equiv> (p + i div p) div 2"
  shows newton_lower: "i < (r + 1) * (r + 1)"
    and newton_stop: "(p + r) div 2 = r \<Longrightarrow> r * r \<le> i + 1"
    and newton_decr: "i < p * p \<Longrightarrow> r < p"
proof -
  let ?q = "i div p"
  have i: "i < p * (?q + 1)" "p * ?q \<le> i"
    using assms(1) by (simp_all add: dividend_less_times_div mult.commute)
  have r: "p + ?q \<le> 2 * r + 1" "2 * r \<le> p + ?q" unfolding r_def by linarith+
  have "4 * (p * (?q + 1)) \<le> (p + ?q + 1) * (p + ?q + 1)"
  proof -
    have "0 \<le> (int p - int ?q - 1) * (int p - int ?q - 1)" by (rule zero_le_square)
    then have "int (4 * (p * (?q + 1))) \<le> int ((p + ?q + 1) * (p + ?q + 1))" by (simp add: algebra_simps)
    then show ?thesis by (simp only: of_nat_le_iff)
  qed
  also have "\<dots> \<le> (2 * (r + 1)) * (2 * (r + 1))" using r by (intro mult_mono) auto
  finally show "i < (r + 1) * (r + 1)" using i(1) by simp
  show "r < p" if "i < p * p"
  proof -
    have "?q < p" using that by (simp add: div_less_iff_less_mult assms(1))
    then show ?thesis using r by linarith
  qed
  show "r * r \<le> i + 1" if "(p + r) div 2 = r"
  proof -
    have "r = p \<or> p = r + 1" using that by linarith
    then have "r * r \<le> p * ?q + 1"
    proof
      assume "r = p"
      then have "r \<le> ?q" using r by linarith
      then have "r * r \<le> p * ?q" using \<open>r = p\<close> by (intro mult_mono) auto
      then show ?thesis by linarith
    next
      assume p: "p = r + 1"
      then have "r \<le> ?q + 1" using r by linarith
      show ?thesis
      proof (cases "r \<le> ?q")
        case True
        have "r * r \<le> p * ?q" using True p by (intro mult_mono) auto
        then show ?thesis by linarith
      next
        case False
        then have q: "?q = r - 1" "0 < r" using \<open>r \<le> ?q + 1\<close> by auto
        then show ?thesis using r p by (cases r) auto
      qed
    qed
    then show ?thesis using i by linarith
  qed
qed

text \<open>One round of the loop, when the sum does not wrap.\<close>

lemma unat_newton:
  fixes p i :: pj_uint32_t
  assumes "p \<noteq> 0" "unat p + unat i div unat p < 2 ^ 32"
  shows "unat (drop_bit 1 (p + i div p)) = (unat p + unat i div unat p) div 2"
proof -
  have "unat (p + i div p) = unat p + unat i div unat p"
    using assms(2) by (simp add: unat_plus_if' unat_div)
  then show ?thesis by (simp add: unat_drop_bit_eq drop_bit_eq_div [where ?'a = nat])
qed

lemma isqrt_round:
  assumes "p \<noteq> 0" "unat p + unat i div unat p < 2 ^ 32" "r = (unat p + unat i div unat p) div 2"
    "unat p + r < 2 ^ 32"
  shows "isqrt_loop i p = (if (unat p + r) div 2 \<noteq> r then isqrt_loop i (of_nat r) else Some (of_nat r))"
proof -
  let ?r = "drop_bit 1 (p + i div p)"
  have r: "unat ?r = r" using unat_newton [OF assms(1,2)] assms(3) by simp
  then have "unat (p + ?r) = unat p + r" using assms(4) by (simp add: unat_plus_if')
  then have "unat (drop_bit 1 (p + ?r)) = (unat p + r) div 2"
    by (simp add: unat_drop_bit_eq drop_bit_eq_div [where ?'a = nat])
  then have "drop_bit 1 (p + ?r) = ?r \<longleftrightarrow> (unat p + r) div 2 = r" using r by (simp add: word_unat_eq_iff)
  moreover have "?r = of_nat r" unfolding r [symmetric] by simp
  ultimately show ?thesis using assms(1) by (subst isqrt_loop.simps) (simp add: Let_def)
qed

lemma isqrt_at_root:
  assumes "p \<noteq> 0" "unat p < 2 ^ 20" "unat p * unat p \<le> unat i" "unat i < (unat p + 1) * (unat p + 1)"
  shows "isqrt_loop i p = Some p"
proof -
  define n where "n = unat p"
  have n: "0 < n" "n < 2 ^ 20" "n * n \<le> unat i" "unat i \<le> n * n + 2 * n"
    using assms unfolding n_def by (auto simp: unat_gt_0)
  have p: "p = of_nat n" by (simp add: n_def)
  show ?thesis
  proof (cases "unat i = n * n + 2 * n")
    case True
    have "n * n + 2 * n = n * (n + 2)" by (simp add: algebra_simps)
    then have d: "unat i div n = n + 2" using n(1) True by (metis nonzero_mult_div_cancel_left less_numeral_extra(3))
    have "unat i = (n + 1) * n + n" using True by simp
    then have d': "unat i div (n + 1) = n" by (metis div_nat_eqI add.commute le_add1 less_add_same_cancel2 mult.commute mult_Suc_right n(1) Suc_eq_plus1 add_less_cancel_left lessI)
    have u: "unat (of_nat (n + 1) :: pj_uint32_t) = n + 1" using n(2) by (subst unat_of_nat) simp
    then have nz: "of_nat (n + 1) \<noteq> (0 :: pj_uint32_t)" by (metis unat_0 add_is_0 one_neq_zero)
    have "isqrt_loop i (of_nat (n + 1)) = Some p"
      using isqrt_round [OF nz, of i n] n(2) unfolding u d' p by simp
    moreover have "isqrt_loop i p = isqrt_loop i (of_nat (n + 1))"
      using isqrt_round [OF assms(1), of i "n + 1"] n(2) d unfolding n_def [symmetric] by simp
    ultimately show ?thesis by simp
  next
    case False
    have "n \<le> unat i div n" using n(1,3) by (simp add: less_eq_div_iff_mult_less_eq)
    moreover have "unat i div n < n + 2"
      using n(1,4) False by (simp add: div_less_iff_less_mult algebra_simps)
    ultimately have "(n + unat i div n) div 2 = n" by linarith
    then show ?thesis
      using isqrt_round [OF assms(1), of i n] n(2) \<open>unat i div n < n + 2\<close> p unfolding n_def [symmetric] by simp
  qed
qed

definition isqrt_ok :: "pj_uint32_t \<Rightarrow> pj_uint32_t option \<Rightarrow> bool" where
  "isqrt_ok i res \<longleftrightarrow>
     (\<exists>r. res = Some r \<and> unat r * unat r \<le> unat i + 1 \<and> unat i < (unat r + 1) * (unat r + 1))"

lemma isqrt_step:
  assumes "p \<noteq> 0" "unat p < 2 ^ 19" "unat i div unat p < 2 ^ 19"
    and above: "\<And>r. r \<noteq> 0 \<Longrightarrow> unat r = (unat p + unat i div unat p) div 2 \<Longrightarrow> unat i < unat r * unat r \<Longrightarrow> isqrt_ok i (isqrt_loop i r)"
  shows "isqrt_ok i (isqrt_loop i p)"
proof -
  define r where "r = (unat p + unat i div unat p) div 2"
  have r: "r < 2 ^ 19" "0 < unat p" using assms by (auto simp: r_def unat_gt_0)
  then have u: "unat (of_nat r :: pj_uint32_t) = r" by (simp add: unat_of_nat)
  note lower = newton_lower [OF r(2), of "unat i", folded r_def]
  note stop = newton_stop [OF r(2), of "unat i", folded r_def]
  have round: "isqrt_loop i p = (if (unat p + r) div 2 \<noteq> r then isqrt_loop i (of_nat r) else Some (of_nat r))"
    using isqrt_round [OF assms(1) _ r_def] assms(2,3) r by simp
  show ?thesis
  proof (cases "(unat p + r) div 2 = r")
    case True
    then show ?thesis using round lower stop u by (simp add: isqrt_ok_def)
  next
    case False
    then have nz: "of_nat r \<noteq> (0 :: pj_uint32_t)"
      using r(2) lower u by (cases "r = 0") (auto simp: r_def)
    show ?thesis
    proof (cases "unat i < r * r")
      case True
      then show ?thesis using above [OF nz] u False round by (simp add: r_def)
    next
      case le: False
      have "isqrt_loop i (of_nat r) = Some (of_nat r)"
        using isqrt_at_root [OF nz, of i] le lower u r(1) by simp
      then show ?thesis using round False lower le u by (simp add: isqrt_ok_def)
    qed
  qed
qed

lemma isqrt_above:
  "p \<noteq> 0 \<Longrightarrow> unat p < 2 ^ 19 \<Longrightarrow> unat i < unat p * unat p \<Longrightarrow> isqrt_ok i (isqrt_loop i p)"
proof (induction "unat p" arbitrary: p rule: less_induct)
  case less
  have p: "0 < unat p" using less.prems by (simp add: unat_gt_0)
  have "unat i div unat p < unat p" using less.prems p by (simp add: div_less_iff_less_mult)
  show ?case
  proof (rule isqrt_step [OF less.prems(1,2)])
    show "unat i div unat p < 2 ^ 19" using \<open>unat i div unat p < unat p\<close> less.prems(2) by (rule less_trans)
    fix r :: pj_uint32_t
    assume r: "r \<noteq> 0" "unat r = (unat p + unat i div unat p) div 2" "unat i < unat r * unat r"
    have "unat r < unat p" using newton_decr [OF p less.prems(3)] r(2) by simp
    then show "isqrt_ok i (isqrt_loop i r)" using less.hyps [of r] r less.prems(2) less_trans by blast
  qed
qed

text \<open>The rough guess is a power of two near the root, so that no sum of the loop wraps.\<close>

lemma isqrt_guess_bound:
  "unat prev < 4 ^ k \<Longrightarrow> unat res * 2 ^ k < 2 ^ 32 \<Longrightarrow> 0 < unat res \<Longrightarrow>
   \<exists>j\<le>k. unat (isqrt_guess prev res) = unat res * 2 ^ j \<and> unat prev < 4 ^ j"
proof (induction k arbitrary: prev res)
  case 0
  then show ?case by (subst isqrt_guess.simps) (simp add: unat_eq_0)
next
  case (Suc k)
  show ?case
  proof (cases "prev = 0")
    case True
    then show ?thesis by (subst isqrt_guess.simps) (auto intro: exI [of _ 0])
  next
    case False
    have d: "unat (drop_bit 2 prev) = unat prev div 4"
      by (simp add: unat_drop_bit_eq drop_bit_eq_div [where ?'a = nat])
    have "unat res * 2 ^ 1 \<le> unat res * 2 ^ Suc k" by simp
    then have "unat res * 2 < 2 ^ 32" using Suc.prems(2) by (metis le_less_trans power_one_right)
    then have m: "unat (push_bit 1 res) = unat res * 2"
      by (simp add: push_bit_eq_mult unat_word_ariths)
    obtain j where "j \<le> k" "unat (isqrt_guess (drop_bit 2 prev) (push_bit 1 res)) = unat res * 2 * 2 ^ j"
      "unat prev div 4 < 4 ^ j"
      using Suc.IH [of "drop_bit 2 prev" "push_bit 1 res"] Suc.prems unfolding d m
      by (auto simp: div_less_iff_less_mult algebra_simps)
    then show ?thesis using False
      by (intro exI [of _ "Suc j"]) (subst isqrt_guess.simps, simp add: div_less_iff_less_mult)
  qed
qed

text \<open>
  C29: the integer square root always returns. Its result is the floor of the real square root, or the
  next integer if its square exceeds the argument by exactly one.\<close>

theorem pj_isqrt_correct:
  "\<exists>r. pj_isqrt i = Some r \<and> unat r * unat r \<le> unat i + 1 \<and> unat i < (unat r + 1) * (unat r + 1)"
proof -
  let ?p = "isqrt_guess (drop_bit 2 i) 1"
  have d: "unat (drop_bit 2 i) = unat i div 4" by (simp add: unat_drop_bit_eq drop_bit_eq_div [where ?'a = nat])
  have "unat i < 2 ^ LENGTH(32)" by (rule unsigned_less)
  then have "unat (drop_bit 2 i) < 4 ^ 15" unfolding d by simp
  then obtain j where j: "j \<le> 15" "unat ?p = 2 ^ j" "unat i div 4 < 4 ^ j"
    using isqrt_guess_bound [of "drop_bit 2 i" 15 1] unfolding d by auto
  have jb: "(2::nat) ^ j \<le> 2 ^ 15" using j(1) by (intro power_increasing) auto
  have "unat i < 4 * 4 ^ j" using j(3) by (simp add: div_less_iff_less_mult)
  also have "\<dots> = 2 ^ j * (4 * 2 ^ j)" by (simp add: power_mult_distrib [symmetric])
  finally have "unat i div 2 ^ j < 4 * 2 ^ j" by (simp add: div_less_iff_less_mult mult.commute)
  then have q: "unat i div unat ?p < 2 ^ 18" using j(2) jb by simp
  have "isqrt_ok i (isqrt_loop i ?p)"
  proof (rule isqrt_step)
    show "?p \<noteq> 0" using j(2) by (metis unat_0 power_eq_0_iff zero_neq_numeral)
    fix r :: pj_uint32_t
    assume "r \<noteq> 0" "unat r = (unat ?p + unat i div unat ?p) div 2" "unat i < unat r * unat r"
    then show "isqrt_ok i (isqrt_loop i r)" using j(2) jb q by (intro isqrt_above) auto
  qed (use j(2) jb q in auto)
  then show ?thesis by (simp add: isqrt_ok_def pj_isqrt_def)
qed

lemma isqrt_rounds_up: "pj_isqrt 63 = Some 8"
  by code_simp

section \<open>The running mean\<close>

text \<open>What the statistics know of the list of samples seen so far.\<close>

definition stat_of :: "int list \<Rightarrow> pj_math_stat \<Rightarrow> bool" where
  "stat_of xs s \<longleftrightarrow>
     st_n s = int (length xs) \<and> st_n s * st_mean s + mean_res s = sum_list xs \<and>
     (if xs = [] then mean_res s = 0 else \<bar>mean_res s\<bar> < st_n s) \<and>
     (xs \<noteq> [] \<longrightarrow> st_last s = last xs \<and> st_min s = Min (set xs) \<and> st_max s = Max (set xs))"

lemma c_mod_bound: "0 < b \<Longrightarrow> \<bar>c_mod a b\<bar> < b"
proof -
  assume b: "0 < b"
  have "c_mod a b = sgn a * (\<bar>a\<bar> mod b)"
    using b by (cases "a < 0"; cases "a = 0")
      (auto simp: c_mod_def c_div_def minus_div_mult_eq_mod [symmetric] sgn_if algebra_simps)
  then show ?thesis using b by (auto simp: sgn_if)
qed

lemma c_div_mod: "n * c_div d n + c_mod d n = d"
  by (simp add: c_mod_def algebra_simps)

lemma stat_of_update:
  assumes "stat_of xs s"
  shows "stat_of (xs @ [v]) (pj_math_stat_update v s)"
proof -
  define n where "n = st_n s + 1"
  define d where "d = v - st_mean s"
  define res where "res = mean_res s + c_mod d n"
  have n: "n = int (length xs) + 1" "0 < n" "st_n s = 0 \<longleftrightarrow> xs = []" using assms by (auto simp: stat_of_def n_def)
  have b: "\<bar>res\<bar> < 2 * n - 1" using assms c_mod_bound [OF n(2), of d] n
    by (cases "xs = []") (auto simp: stat_of_def res_def n_def)
  have sum: "n * (st_mean s + c_div d n) + res = sum_list xs + v"
  proof -
    have "(n - 1) * st_mean s + mean_res s = sum_list xs" using assms by (auto simp: stat_of_def n_def)
    then show ?thesis using c_div_mod [of n d] unfolding res_def d_def by (simp add: algebra_simps)
  qed
  define k where "k = (if res \<ge> n then 1 else if res \<le> - n then - 1 else (0 :: int))"
  have u: "st_n (pj_math_stat_update v s) = n" "st_mean (pj_math_stat_update v s) = st_mean s + c_div d n + k"
    "mean_res (pj_math_stat_update v s) = res - k * n" "st_last (pj_math_stat_update v s) = v"
    "st_min (pj_math_stat_update v s) = (if st_n s = 0 then v else min (st_min s) v)"
    "st_max (pj_math_stat_update v s) = (if st_n s = 0 then v else max (st_max s) v)"
    by (auto simp: pj_math_stat_update_def Let_def n_def d_def res_def k_def)
  have "n * (st_mean s + c_div d n + k) + (res - k * n) = sum_list xs + v" using sum by (simp add: algebra_simps)
  moreover have "\<bar>res - k * n\<bar> < n" using b by (auto simp: k_def)
  moreover have "xs \<noteq> [] \<Longrightarrow> st_min s = Min (set xs) \<and> st_max s = Max (set xs)" using assms by (simp add: stat_of_def)
  ultimately show ?thesis using n by (auto simp: stat_of_def u min.commute max.commute)
qed

text \<open>
  after any samples the count, the last, the least and the greatest sample are those
  of the samples, and the integer mean times the count differs from their sum by less than
  the count.\<close>

theorem math_stat_mean:
  fixes xs :: "int list"
  defines "s \<equiv> foldl (\<lambda>s v. pj_math_stat_update v s) pj_math_stat_init xs"
  assumes "xs \<noteq> []"
  shows "st_n s = int (length xs) \<and> \<bar>st_n s * st_mean s - sum_list xs\<bar> < st_n s \<and>
    st_last s = last xs \<and> st_min s = Min (set xs) \<and> st_max s = Max (set xs)"
proof -
  have "stat_of ys (foldl (\<lambda>s v. pj_math_stat_update v s) pj_math_stat_init ys)" for ys
    by (induction ys rule: rev_induct) (auto simp: stat_of_update, simp add: stat_of_def pj_math_stat_init_def)
  then have "stat_of xs s" unfolding s_def .
  with assms(2) show ?thesis by (auto simp: stat_of_def)
qed

theorem math_stat_mean_witness:
  "\<bar>st_n (foldl (\<lambda>s v. pj_math_stat_update v s) pj_math_stat_init [20, 60, 25]) *
    st_mean (foldl (\<lambda>s v. pj_math_stat_update v s) pj_math_stat_init [20, 60, 25]) - 105\<bar> < 3"
  using math_stat_mean [of "[20, 60, 25]"] by auto

end
