(* ===== verification/PJ_Jbuf.thy ===== *)
theory PJ_Jbuf
  imports PJ_Framelist PJ_Math
begin

text \<open>
  The adaptive jitter buffer of \<^verbatim>\<open>pjmedia/src/pjmedia/jbuf.c\<close> on top of the frame list: prefetching,
  the burst level statistics, and the two algorithms that discard frames to shorten the delay.
  Log messages and the name that only they use are left out. A loop that does not end and a
  division by zero are \<open>None\<close>.
\<close>

datatype discard_algo = Jbuf_discard_static | Jbuf_discard_progressive

datatype jb_op = JB_OP_INIT | JB_OP_PUT | JB_OP_GET

datatype jb_status_e = JB_STATUS_INITIALIZING | JB_STATUS_PROCESSING

record pjmedia_jbuf =
  jb_frame_size :: nat
  jb_frame_ptime :: pj_uint32_t
  jb_max_count :: nat
  jb_init_prefetch :: int
  jb_min_prefetch :: int
  jb_max_prefetch :: int
  jb_max_burst :: int
  jb_min_shrink_gap :: int
  jb_discard_algo :: "discard_algo option"
  jb_framelist :: jb_framelist_t
  jb_level :: int
  jb_max_hist_level :: int
  jb_stable_hist :: int
  jb_last_op :: jb_op
  jb_eff_level :: int
  jb_prefetch :: int
  jb_prefetching :: bool
  jb_status :: jb_status_e
  jb_init_cycle_cnt :: int
  jb_discard_ref :: int
  jb_discard_dist :: pj_uint32_t
  jb_delay :: pj_math_stat
  jb_burst :: pj_math_stat
  jb_lost :: pj_uint32_t
  jb_discard :: pj_uint32_t
  jb_empty :: pj_uint32_t

definition MAX_BURST_MSEC :: pj_uint32_t where "MAX_BURST_MSEC = 1000"
definition INIT_CYCLE :: int where "INIT_CYCLE = 10"
definition STA_DISC_SAFE_SHRINKING_DIFF :: int where "STA_DISC_SAFE_SHRINKING_DIFF = 1"
definition STABLE_HISTORY_LIMIT :: int where "STABLE_HISTORY_LIMIT = 20"
definition PJMEDIA_JB_DEFAULT_INIT_DELAY :: pj_uint32_t where "PJMEDIA_JB_DEFAULT_INIT_DELAY = 15"
definition PJMEDIA_JBUF_DISC_MIN_GAP :: pj_uint32_t where "PJMEDIA_JBUF_DISC_MIN_GAP = 200"
definition PJMEDIA_JBUF_PRO_DISC_MIN_BURST :: pj_uint32_t where "PJMEDIA_JBUF_PRO_DISC_MIN_BURST = 1"
definition PJMEDIA_JBUF_PRO_DISC_MAX_BURST :: pj_uint32_t where "PJMEDIA_JBUF_PRO_DISC_MAX_BURST = 100"
definition PJMEDIA_JBUF_PRO_DISC_T1 :: pj_uint32_t where "PJMEDIA_JBUF_PRO_DISC_T1 = 2000"
definition PJMEDIA_JBUF_PRO_DISC_T2 :: pj_uint32_t where "PJMEDIA_JBUF_PRO_DISC_T2 = 10000"

lemmas jb_consts = MAX_BURST_MSEC_def INIT_CYCLE_def STA_DISC_SAFE_SHRINKING_DIFF_def STABLE_HISTORY_LIMIT_def
  PJMEDIA_JB_DEFAULT_INIT_DELAY_def PJMEDIA_JBUF_DISC_MIN_GAP_def PJMEDIA_JBUF_PRO_DISC_MIN_BURST_def
  PJMEDIA_JBUF_PRO_DISC_MAX_BURST_def PJMEDIA_JBUF_PRO_DISC_T1_def PJMEDIA_JBUF_PRO_DISC_T2_def

section \<open>Settings\<close>

text \<open>The arguments \<^verbatim>\<open>0\<close>, \<^verbatim>\<open>1\<close> and \<^verbatim>\<open>2\<close> are \<^verbatim>\<open>PJMEDIA_JB_DISCARD_NONE\<close>, \<^verbatim>\<open>_STATIC\<close> and \<^verbatim>\<open>_PROGRESSIVE\<close>.\<close>

definition pjmedia_jbuf_set_discard :: "int \<Rightarrow> pjmedia_jbuf \<Rightarrow> pj_status_t \<times> pjmedia_jbuf" where
  "pjmedia_jbuf_set_discard algo jb =
     (if \<not> (0 \<le> algo \<and> algo \<le> 2) then (PJ_EINVAL, jb)
      else (PJ_SUCCESS,
        jb\<lparr>jb_discard_algo := (if algo = 2 then Some Jbuf_discard_progressive
                                else if algo = 1 then Some Jbuf_discard_static else None)\<rparr>))"

definition pjmedia_jbuf_set_fixed :: "nat \<Rightarrow> pjmedia_jbuf \<Rightarrow> pj_status_t \<times> pjmedia_jbuf" where
  "pjmedia_jbuf_set_fixed prefetch jb =
     (if \<not> prefetch \<le> jb_max_count jb then (PJ_EINVAL, jb)
      else
        let p = int prefetch;
            jb = jb\<lparr>jb_min_prefetch := p, jb_max_prefetch := p, jb_prefetch := p, jb_init_prefetch := p\<rparr>
        in (PJ_SUCCESS, snd (pjmedia_jbuf_set_discard 0 jb)))"

definition pjmedia_jbuf_set_adaptive :: "nat \<Rightarrow> nat \<Rightarrow> nat \<Rightarrow> pjmedia_jbuf \<Rightarrow> pj_status_t \<times> pjmedia_jbuf" where
  "pjmedia_jbuf_set_adaptive prefetch min_prefetch max_prefetch jb =
     (if \<not> (min_prefetch \<le> max_prefetch \<and> prefetch \<le> max_prefetch \<and> max_prefetch \<le> jb_max_count jb)
      then (PJ_EINVAL, jb)
      else (PJ_SUCCESS,
        jb\<lparr>jb_prefetch := int prefetch, jb_init_prefetch := int prefetch,
           jb_min_prefetch := int min_prefetch, jb_max_prefetch := int max_prefetch\<rparr>))"

definition pjmedia_jbuf_reset :: "pjmedia_jbuf \<Rightarrow> pjmedia_jbuf" where
  "pjmedia_jbuf_reset jb =
     jb\<lparr>jb_level := 0, jb_last_op := JB_OP_INIT, jb_stable_hist := 0, jb_status := JB_STATUS_INITIALIZING,
        jb_init_cycle_cnt := 0, jb_max_hist_level := 0, jb_prefetching := (jb_prefetch jb \<noteq> 0),
        jb_discard_dist := 0, jb_framelist := jb_framelist_reset (jb_framelist jb)\<rparr>"

definition pjmedia_jbuf_create :: "jb_memory \<Rightarrow> nat \<Rightarrow> pj_uint32_t \<Rightarrow> nat \<Rightarrow> pjmedia_jbuf option" where
  "pjmedia_jbuf_create mem frame_size ptime max_count =
     (if ptime = 0 then None
      else
        let cap = of_nat max_count :: pj_uint32_t;
            jb = \<lparr>jb_frame_size = frame_size, jb_frame_ptime = ptime, jb_max_count = max_count,
                  jb_init_prefetch = 0, jb_min_prefetch = 0, jb_max_prefetch = sint (cap * 4 div 5),
                  jb_max_burst = sint (max (MAX_BURST_MSEC div ptime) (cap * 3 div 4)),
                  jb_min_shrink_gap = sint (PJMEDIA_JBUF_DISC_MIN_GAP div ptime),
                  jb_discard_algo = None, jb_framelist = jb_framelist_init mem frame_size max_count,
                  jb_level = 0, jb_max_hist_level = 0, jb_stable_hist = 0, jb_last_op = JB_OP_INIT,
                  jb_eff_level = 0, jb_prefetch = sint (min PJMEDIA_JB_DEFAULT_INIT_DELAY (cap * 4 div 5)),
                  jb_prefetching = False, jb_status = JB_STATUS_INITIALIZING, jb_init_cycle_cnt = 0,
                  jb_discard_ref = 0, jb_discard_dist = 0, jb_delay = pj_math_stat_init,
                  jb_burst = pj_math_stat_init, jb_lost = 0, jb_discard = 0, jb_empty = 0\<rparr>;
            jb = snd (pjmedia_jbuf_set_discard 2 jb)
        in Some (pjmedia_jbuf_reset jb))"

definition pjmedia_jbuf_is_full :: "pjmedia_jbuf \<Rightarrow> bool" where
  "pjmedia_jbuf_is_full jb \<longleftrightarrow> fl_size (jb_framelist jb) = fl_max_count (jb_framelist jb)"

section \<open>Level and discarding\<close>

definition jbuf_calculate_jitter :: "pjmedia_jbuf \<Rightarrow> pjmedia_jbuf" where
  "jbuf_calculate_jitter jb =
     (let jb = jb\<lparr>jb_burst := pj_math_stat_update (jb_level jb) (jb_burst jb)\<rparr>;
          jb = jb\<lparr>jb_max_hist_level := max (jb_max_hist_level jb) (jb_level jb)\<rparr>
      in if jb_level jb < jb_eff_level jb then
           let jb = jb\<lparr>jb_stable_hist := jb_stable_hist jb + 1\<rparr>
           in if jb_stable_hist jb > STABLE_HISTORY_LIMIT then
                let diff = c_div (jb_eff_level jb - jb_max_hist_level jb) 3;
                    diff = (if diff < 1 then 1 else diff);
                    jb = jb\<lparr>jb_eff_level := jb_eff_level jb - diff\<rparr>;
                    jb = (if jb_init_prefetch jb \<noteq> 0 then
                            let p = jb_eff_level jb;
                                p = (if p < jb_min_prefetch jb then jb_min_prefetch jb else p);
                                p = (if p > jb_max_prefetch jb then jb_max_prefetch jb else p)
                            in jb\<lparr>jb_prefetch := p\<rparr>
                          else jb)
                in jb\<lparr>jb_max_hist_level := 0, jb_stable_hist := 0\<rparr>
              else jb
         else if jb_level jb > jb_eff_level jb then
           let jb = jb\<lparr>jb_eff_level := min (jb_max_hist_level jb)
                          (sint (of_nat (jb_max_count jb * 4 div 5) :: pj_uint32_t))\<rparr>;
               jb = (if jb_init_prefetch jb \<noteq> 0 then
                       let p = jb_eff_level jb;
                           p = (if p > jb_max_prefetch jb then jb_max_prefetch jb else p);
                           p = (if p < jb_min_prefetch jb then jb_min_prefetch jb else p)
                       in jb\<lparr>jb_prefetch := p\<rparr>
                     else jb)
           in jb\<lparr>jb_stable_hist := 0\<rparr>
         else jb\<lparr>jb_stable_hist := 0\<rparr>)"

definition jbuf_discard_static :: "pjmedia_jbuf \<Rightarrow> pjmedia_jbuf" where
  "jbuf_discard_static jb =
     (let burst_level = max (jb_eff_level jb) (jb_level jb);
          diff = sint (jb_framelist_eff_size (jb_framelist jb) - of_int (burst_level * 2))
      in if diff \<ge> STA_DISC_SAFE_SHRINKING_DIFF then
           let seq_origin = jb_framelist_origin (jb_framelist jb);
               jb = (if seq_origin < jb_discard_ref jb then jb\<lparr>jb_discard_ref := seq_origin\<rparr> else jb)
           in if seq_origin - jb_discard_ref jb \<ge> jb_min_shrink_gap jb then
                let (diff, fl) = jb_framelist_remove_head 1 (jb_framelist jb)
                in jb\<lparr>jb_framelist := fl, jb_discard_ref := jb_framelist_origin fl,
                      jb_discard := jb_discard jb + of_nat diff\<rparr>
              else jb
         else jb)"

definition progressive_T :: "pj_uint32_t \<Rightarrow> pj_uint32_t" where
  "progressive_T burst_level =
     (if burst_level \<le> PJMEDIA_JBUF_PRO_DISC_MIN_BURST then PJMEDIA_JBUF_PRO_DISC_T1
      else if burst_level \<ge> PJMEDIA_JBUF_PRO_DISC_MAX_BURST then PJMEDIA_JBUF_PRO_DISC_T2
      else PJMEDIA_JBUF_PRO_DISC_T1 +
        (PJMEDIA_JBUF_PRO_DISC_T2 - PJMEDIA_JBUF_PRO_DISC_T1) * (burst_level - PJMEDIA_JBUF_PRO_DISC_MIN_BURST) div
        (PJMEDIA_JBUF_PRO_DISC_MAX_BURST - PJMEDIA_JBUF_PRO_DISC_MIN_BURST))"

definition jbuf_discard_progressive :: "pjmedia_jbuf \<Rightarrow> pjmedia_jbuf" where
  "jbuf_discard_progressive jb =
     (if jb_last_op jb \<noteq> JB_OP_PUT then jb
      else
        let fl = jb_framelist jb;
            cur_size = jb_framelist_eff_size fl;
            burst_level = of_int (max (jb_eff_level jb) (jb_level jb)) :: pj_uint32_t
        in if cur_size \<le> burst_level then jb\<lparr>jb_discard_dist := 0\<rparr>
           else
             let T = progressive_T burst_level;
                 overflow = cur_size - burst_level;
                 discard_dist = T div overflow div jb_frame_ptime jb;
                 last_seq = jb_framelist_origin fl + int (jb_framelist_size fl) - 1;
                 jb = (if jb_discard_dist jb = 0 then jb\<lparr>jb_discard_ref := last_seq\<rparr>
                       else if last_seq < jb_discard_ref jb then jb\<lparr>jb_discard_ref := last_seq\<rparr>
                       else jb);
                 jb = jb\<lparr>jb_discard_dist := of_int (max (jb_min_shrink_gap jb) (sint discard_dist))\<rparr>
             in if last_seq \<ge> jb_discard_ref jb + sint (jb_discard_dist jb) then
                  let discard_seq = jb_discard_ref jb + sint (jb_discard_dist jb);
                      discard_seq = (if discard_seq < jb_framelist_origin fl then jb_framelist_origin fl else discard_seq);
                      (st, fl) = jb_framelist_discard discard_seq fl
                  in jb\<lparr>jb_framelist := fl, jb_discard_ref := discard_seq\<rparr>
                else jb)"

definition run_discard_algo :: "pjmedia_jbuf \<Rightarrow> pjmedia_jbuf" where
  "run_discard_algo jb =
     (if jb_status jb = JB_STATUS_PROCESSING then
        case jb_discard_algo jb of
          None \<Rightarrow> jb
        | Some Jbuf_discard_static \<Rightarrow> jbuf_discard_static jb
        | Some Jbuf_discard_progressive \<Rightarrow> jbuf_discard_progressive jb
      else jb)"

text \<open>The early \<^verbatim>\<open>return\<close> while the buffer initializes skips the discard algorithm.\<close>

definition jbuf_update :: "jb_op \<Rightarrow> pjmedia_jbuf \<Rightarrow> pjmedia_jbuf" where
  "jbuf_update oper jb =
     (if jb_last_op jb \<noteq> oper then
        let jb = jb\<lparr>jb_last_op := oper\<rparr>;
            initializing = (jb_status jb = JB_STATUS_INITIALIZING);
            jb = (if initializing then jb\<lparr>jb_init_cycle_cnt := jb_init_cycle_cnt jb + 1\<rparr> else jb)
        in if initializing \<and> \<not> (jb_init_cycle_cnt jb \<ge> INIT_CYCLE \<and> oper = JB_OP_GET)
           then jb\<lparr>jb_level := 0\<rparr>
           else
             let jb = (if initializing
                       then jb\<lparr>jb_status := JB_STATUS_PROCESSING, jb_level := min (jb_level jb) (jb_max_burst jb)\<rparr>
                       else jb);
                 jb = (if oper = JB_OP_GET \<and> jb_level jb \<le> jb_max_burst jb then jbuf_calculate_jitter jb else jb)
             in run_discard_algo (jb\<lparr>jb_level := 0\<rparr>)
      else run_discard_algo jb)"

section \<open>Putting and getting frames\<close>

partial_function (option) put_retry ::
  "int \<Rightarrow> bytes \<Rightarrow> nat \<Rightarrow> pj_uint32_t \<Rightarrow> pj_uint32_t \<Rightarrow> pj_status_t \<Rightarrow> pjmedia_jbuf \<Rightarrow> (pj_status_t \<times> pjmedia_jbuf) option" where
  "put_retry frame_seq frame min_frame_size bit_info ts status jb =
     (if status = PJ_ETOOMANY then
        let distance = (frame_seq - jb_framelist_origin (jb_framelist jb)) - int (jb_max_count jb) + 1;
            (removed, fl) = jb_framelist_remove_head (unat (of_int distance :: pj_uint32_t)) (jb_framelist jb);
            (status, fl) = jb_framelist_put_at frame_seq frame min_frame_size bit_info ts PJMEDIA_JB_NORMAL_FRAME fl
        in put_retry frame_seq frame min_frame_size bit_info ts status
             (jb\<lparr>jb_framelist := fl, jb_discard := jb_discard jb + of_nat removed\<rparr>)
      else Some (status, jb))"

declare put_retry.simps [code]

definition pjmedia_jbuf_put_frame3 ::
  "bytes \<Rightarrow> nat \<Rightarrow> pj_uint32_t \<Rightarrow> int \<Rightarrow> pj_uint32_t \<Rightarrow> pjmedia_jbuf \<Rightarrow> (bool \<times> pjmedia_jbuf) option" where
  "pjmedia_jbuf_put_frame3 frame frame_size bit_info frame_seq ts jb =
     (let cur_size = sint (jb_framelist_eff_size (jb_framelist jb));
          min_frame_size = min frame_size (jb_frame_size jb);
          (status, fl) = jb_framelist_put_at frame_seq frame min_frame_size bit_info ts PJMEDIA_JB_NORMAL_FRAME (jb_framelist jb)
      in do {
        (status, jb) \<leftarrow> put_retry frame_seq frame min_frame_size bit_info ts status (jb\<lparr>jb_framelist := fl\<rparr>);
        let new_size = sint (jb_framelist_eff_size (jb_framelist jb));
        Some (status \<noteq> PJ_SUCCESS,
          if status = PJ_SUCCESS then
            let jb = (if jb_prefetching jb \<and> new_size \<ge> jb_prefetch jb then jb\<lparr>jb_prefetching := False\<rparr> else jb);
                jb = jb\<lparr>jb_level := jb_level jb + (if new_size > cur_size then new_size - cur_size else 1)\<rparr>
            in jbuf_update JB_OP_PUT jb
          else jb\<lparr>jb_discard := jb_discard jb + 1\<rparr>)
      })"

definition pjmedia_jbuf_put_frame2 ::
  "bytes \<Rightarrow> nat \<Rightarrow> pj_uint32_t \<Rightarrow> int \<Rightarrow> pjmedia_jbuf \<Rightarrow> (bool \<times> pjmedia_jbuf) option" where
  "pjmedia_jbuf_put_frame2 frame frame_size bit_info frame_seq jb =
     pjmedia_jbuf_put_frame3 frame frame_size bit_info frame_seq 0 jb"

definition pjmedia_jbuf_put_frame :: "bytes \<Rightarrow> nat \<Rightarrow> int \<Rightarrow> pjmedia_jbuf \<Rightarrow> pjmedia_jbuf option" where
  "pjmedia_jbuf_put_frame frame frame_size frame_seq jb =
     map_option snd (pjmedia_jbuf_put_frame3 frame frame_size 0 frame_seq 0 jb)"

definition pjmedia_jbuf_get_frame3 :: "pjmedia_jbuf \<Rightarrow> (jb_got \<times> pjmedia_jbuf) option" where
  "pjmedia_jbuf_get_frame3 jb =
     do {
       (got, jb) \<leftarrow>
         (if jb_prefetching jb then
            Some (\<lparr>got_frame = None, got_size = Some 0, got_type = Some PJMEDIA_JB_ZERO_PREFETCH_FRAME,
                   got_bit_info = None, got_ts = None, got_seq = None\<rparr>,
                  jb\<lparr>jb_empty := jb_empty jb + 1\<rparr>)
          else do {
            (res, got, fl) \<leftarrow> jb_framelist_get (jb_framelist jb);
            let jb = jb\<lparr>jb_framelist := fl\<rparr>;
            Some (if res then
                    let jb = (if got_type got = Some PJMEDIA_JB_NORMAL_FRAME then jb else jb\<lparr>jb_lost := jb_lost jb + 1\<rparr>);
                        got = (if got_type got = Some PJMEDIA_JB_NORMAL_FRAME then got
                               else got\<lparr>got_type := Some PJMEDIA_JB_MISSING_FRAME\<rparr>);
                        jb = (if jb_last_op jb = JB_OP_PUT
                              then jb\<lparr>jb_delay := pj_math_stat_update
                                         (sint ((jb_framelist_eff_size fl + 1) * jb_frame_ptime jb)) (jb_delay jb)\<rparr>
                              else jb)
                    in (got, jb)
                  else
                    let jb = (if jb_prefetch jb \<noteq> 0 then jb\<lparr>jb_prefetching := True\<rparr> else jb)
                    in (got\<lparr>got_type := Some PJMEDIA_JB_ZERO_EMPTY_FRAME, got_size := Some 0\<rparr>,
                        jb\<lparr>jb_empty := jb_empty jb + 1\<rparr>))
          });
       Some (got, jbuf_update JB_OP_GET (jb\<lparr>jb_level := jb_level jb + 1\<rparr>))
     }"

text \<open>The older functions pass \<^verbatim>\<open>NULL\<close> for what they do not report.\<close>

definition pjmedia_jbuf_get_frame2 :: "pjmedia_jbuf \<Rightarrow> (jb_got \<times> pjmedia_jbuf) option" where
  "pjmedia_jbuf_get_frame2 jb =
     map_option (\<lambda>(g, jb). (g\<lparr>got_ts := None, got_seq := None\<rparr>, jb)) (pjmedia_jbuf_get_frame3 jb)"

definition pjmedia_jbuf_get_frame :: "pjmedia_jbuf \<Rightarrow> (jb_got \<times> pjmedia_jbuf) option" where
  "pjmedia_jbuf_get_frame jb =
     map_option (\<lambda>(g, jb). (g\<lparr>got_size := None, got_bit_info := None, got_ts := None, got_seq := None\<rparr>, jb))
       (pjmedia_jbuf_get_frame3 jb)"

section \<open>Inspection and removal\<close>

record pjmedia_jb_state =
  js_frame_size :: nat
  js_min_prefetch :: int
  js_max_prefetch :: int
  js_burst :: int
  js_prefetch :: int
  js_size :: pj_uint32_t
  js_avg_delay :: int
  js_min_delay :: int
  js_max_delay :: int
  js_dev_delay :: pj_uint32_t
  js_avg_burst :: int
  js_empty :: pj_uint32_t
  js_discard :: pj_uint32_t
  js_lost :: pj_uint32_t

definition pjmedia_jbuf_get_state :: "pjmedia_jbuf \<Rightarrow> pjmedia_jb_state option" where
  "pjmedia_jbuf_get_state jb =
     do {
       dev \<leftarrow> pj_math_stat_get_stddev (jb_delay jb);
       Some \<lparr>js_frame_size = jb_frame_size jb, js_min_prefetch = jb_min_prefetch jb, js_max_prefetch = jb_max_prefetch jb,
             js_burst = jb_eff_level jb, js_prefetch = jb_prefetch jb, js_size = jb_framelist_eff_size (jb_framelist jb),
             js_avg_delay = st_mean (jb_delay jb), js_min_delay = st_min (jb_delay jb), js_max_delay = st_max (jb_delay jb),
             js_dev_delay = dev, js_avg_burst = st_mean (jb_burst jb), js_empty = jb_empty jb,
             js_discard = jb_discard jb, js_lost = jb_lost jb\<rparr>
     }"

definition pjmedia_jbuf_peek_frame :: "pj_uint32_t \<Rightarrow> pjmedia_jbuf \<Rightarrow> jb_got option" where
  "pjmedia_jbuf_peek_frame offset jb =
     do {
       res \<leftarrow> jb_framelist_peek offset (jb_framelist jb);
       Some (case res of
               None \<Rightarrow> \<lparr>got_frame = None, got_size = None, got_type = Some PJMEDIA_JB_ZERO_EMPTY_FRAME,
                         got_bit_info = None, got_ts = None, got_seq = None\<rparr>
             | Some g \<Rightarrow> if got_type g = Some PJMEDIA_JB_NORMAL_FRAME then g
                         else g\<lparr>got_type := Some PJMEDIA_JB_MISSING_FRAME\<rparr>)
     }"

partial_function (option) remove_more ::
  "pj_uint32_t \<Rightarrow> nat \<Rightarrow> jb_framelist_t \<Rightarrow> (pj_uint32_t \<times> jb_framelist_t) option" where
  "remove_more cnt last_discard_num fl =
     (if fl_discarded_num fl < last_discard_num then
        let frame_cnt = last_discard_num - fl_discarded_num fl;
            cnt = cnt - of_nat frame_cnt;
            last_discard_num = fl_discarded_num fl;
            (n, fl) = jb_framelist_remove_head frame_cnt fl
        in remove_more (cnt + of_nat n) last_discard_num fl
      else Some (cnt, fl))"

declare remove_more.simps [code]

definition pjmedia_jbuf_remove_frame :: "nat \<Rightarrow> pjmedia_jbuf \<Rightarrow> (pj_uint32_t \<times> pjmedia_jbuf) option" where
  "pjmedia_jbuf_remove_frame frame_cnt jb =
     (let last_discard_num = fl_discarded_num (jb_framelist jb);
          (n, fl) = jb_framelist_remove_head frame_cnt (jb_framelist jb)
      in do {
        (cnt, fl) \<leftarrow> remove_more (of_nat n) last_discard_num fl;
        Some (cnt, jb\<lparr>jb_framelist := fl\<rparr>)
      })"

section \<open>The invariant\<close>

definition no_discarded_after :: "int \<Rightarrow> jb_window \<Rightarrow> bool" where
  "no_discarded_after r w \<longleftrightarrow>
     list_all (\<lambda>i. snd w ! i = Discarded \<longrightarrow> fst w + int i \<le> r) [0..<length (snd w)]"

definition settings_ok :: "pjmedia_jbuf \<Rightarrow> bool" where
  "settings_ok jb \<longleftrightarrow>
     jb_frame_ptime jb \<noteq> 0 \<and> 1 \<le> jb_min_shrink_gap jb \<and> jb_min_shrink_gap jb \<le> 200 \<and>
     0 \<le> jb_min_prefetch jb \<and> jb_min_prefetch jb \<le> jb_max_prefetch jb \<and> jb_max_prefetch jb \<le> int (jb_max_count jb) \<and>
     0 \<le> jb_prefetch jb \<and> jb_prefetch jb \<le> jb_max_prefetch jb"

definition levels_ok :: "pjmedia_jbuf \<Rightarrow> bool" where
  "levels_ok jb \<longleftrightarrow> 0 \<le> jb_level jb \<and> 0 \<le> jb_eff_level jb \<and> 0 \<le> jb_max_hist_level jb \<and> 0 \<le> jb_max_burst jb"

definition buffer_ok :: "pjmedia_jbuf \<Rightarrow> bool" where
  "buffer_ok jb \<longleftrightarrow>
     fl_inv (jb_framelist jb) \<and> fl_max_count (jb_framelist jb) = jb_max_count jb \<and>
     fl_frame_size (jb_framelist jb) = jb_frame_size jb \<and>
     no_discarded_after (jb_discard_ref jb) (win_of (jb_framelist jb)) \<and>
     (jb_discard_algo jb = Some Jbuf_discard_static \<longrightarrow> Discarded \<notin> set (window (jb_framelist jb)))"

definition jb_inv :: "pjmedia_jbuf \<Rightarrow> bool" where
  "jb_inv jb \<longleftrightarrow> buffer_ok jb \<and> settings_ok jb \<and> levels_ok jb"

abbreviation jb_win :: "pjmedia_jbuf \<Rightarrow> jb_window" where
  "jb_win jb \<equiv> win_of (jb_framelist jb)"

lemma snd_win_of [simp]: "snd (win_of fl) = window fl" "fst (win_of fl) = fl_origin fl"
  by (simp_all add: win_of_def)

lemma no_discarded_afterD:
  "no_discarded_after r (win_of fl) \<Longrightarrow> i < fl_size fl \<Longrightarrow> window fl ! i = Discarded \<Longrightarrow> fl_origin fl + int i \<le> r"
  by (auto simp: no_discarded_after_def list_all_iff)

lemma no_discarded_after_mono: "no_discarded_after r w \<Longrightarrow> r \<le> r' \<Longrightarrow> no_discarded_after r' w"
  by (force simp: no_discarded_after_def list_all_iff)

lemma no_discarded_after_last: "no_discarded_after (fst w + int (length (snd w)) - 1) w"
  by (auto simp: no_discarded_after_def list_all_iff)

lemma no_discarded_after_none: "Discarded \<notin> set (snd w) \<Longrightarrow> no_discarded_after r w"
  by (auto simp: no_discarded_after_def list_all_iff in_set_conv_nth)

text \<open>The window operations keep it, as discarded slots keep their numbers or get smaller ones.\<close>

lemma no_discarded_after_drop:
  "no_discarded_after r (o1, ss) \<Longrightarrow> no_discarded_after r (o1 + int (min n (length ss)), drop n ss)"
  unfolding no_discarded_after_def list_all_iff by (auto simp: min_def dest!: bspec [of _ _ "n + _"])

lemma no_discarded_after_remove: "no_discarded_after r w \<Longrightarrow> no_discarded_after r (snd (win_remove n w))"
  by (cases w) (simp add: win_remove_def no_discarded_after_drop)

lemma win_get_drop: "\<exists>n. snd (win_get w) = snd (win_remove n w)"
proof -
  obtain o1 ss where w: "w = (o1, ss)" by (cases w)
  let ?n = "length (takeWhile (\<lambda>s. s = Discarded) ss)"
  have d: "dropWhile (\<lambda>s. s = Discarded) ss = drop ?n ss" by (rule dropWhile_eq_drop)
  have n: "?n \<le> length ss" by (rule length_takeWhile_le)
  show ?thesis
  proof (cases "drop ?n ss")
    case Nil
    then have dw: "dropWhile (\<lambda>s. s = Discarded) ss = []" and "length ss \<le> ?n" using d by simp_all
    then show ?thesis using n unfolding w by (intro exI [of _ ?n]) (simp add: win_get_def win_remove_def Let_def dw)
  next
    case (Cons s rest)
    then have "drop (Suc ?n) ss = rest" "?n < length ss"
      using n by (metis drop_Suc tl_drop list.sel(3), metis drop_eq_Nil2 list.distinct(1) not_le)
    then show ?thesis using Cons d w by (intro exI [of _ "Suc ?n"]) (simp add: win_get_def win_remove_def Let_def)
  qed
qed

lemma no_discarded_after_put:
  assumes "no_discarded_after r w" "s \<noteq> Discarded"
  shows "no_discarded_after r (snd (win_put cap index s w))"
proof -
  obtain o1 ss where w: "w = (o1, ss)" by (cases w)
  have ss: "\<And>i. i < length ss \<Longrightarrow> ss ! i = Discarded \<Longrightarrow> o1 + int i \<le> r"
    using assms(1) by (auto simp: w no_discarded_after_def list_all_iff)
  have restart: "index < o1 \<Longrightarrow> i < length ss \<Longrightarrow> ss ! i = Discarded \<Longrightarrow> index - int (length ss) + int i \<le> r" for i
    using ss [of i] by linarith
  show ?thesis using ss restart assms(2)
    by (auto simp: win_put_def w Let_def no_discarded_after_def list_all_iff nth_append nth_list_update)
qed

section \<open>Every operation keeps the invariant\<close>

lemma calculate_frame [simp]:
  "jb_framelist (jbuf_calculate_jitter jb) = jb_framelist jb" "jb_discard_ref (jbuf_calculate_jitter jb) = jb_discard_ref jb"
  "jb_discard_algo (jbuf_calculate_jitter jb) = jb_discard_algo jb" "jb_max_count (jbuf_calculate_jitter jb) = jb_max_count jb"
  "jb_frame_size (jbuf_calculate_jitter jb) = jb_frame_size jb" "jb_frame_ptime (jbuf_calculate_jitter jb) = jb_frame_ptime jb"
  "jb_min_shrink_gap (jbuf_calculate_jitter jb) = jb_min_shrink_gap jb" "jb_min_prefetch (jbuf_calculate_jitter jb) = jb_min_prefetch jb"
  "jb_max_prefetch (jbuf_calculate_jitter jb) = jb_max_prefetch jb" "jb_max_burst (jbuf_calculate_jitter jb) = jb_max_burst jb"
  "jb_level (jbuf_calculate_jitter jb) = jb_level jb" "jb_last_op (jbuf_calculate_jitter jb) = jb_last_op jb"
  "jb_init_prefetch (jbuf_calculate_jitter jb) = jb_init_prefetch jb" "jb_status (jbuf_calculate_jitter jb) = jb_status jb"
  "jb_discard_dist (jbuf_calculate_jitter jb) = jb_discard_dist jb"
  by (simp_all add: jbuf_calculate_jitter_def Let_def)

lemma prefetch_clamped:
  assumes "settings_ok jb"
  shows "0 \<le> jb_prefetch (jbuf_calculate_jitter jb)" "jb_prefetch (jbuf_calculate_jitter jb) \<le> jb_max_prefetch jb"
  using assms by (auto simp: jbuf_calculate_jitter_def Let_def settings_ok_def)

lemma c_div_3: "0 \<le> a \<Longrightarrow> c_div a 3 = a div 3"
  by (rule c_div_nonneg) simp_all

lemma calculate_levels:
  assumes "levels_ok jb" "jb_max_count jb < 2 ^ 29"
  shows "levels_ok (jbuf_calculate_jitter jb)"
proof -
  have "sint (of_nat (jb_max_count jb * 4 div 5) :: pj_uint32_t) = int (jb_max_count jb * 4 div 5)"
    using assms(2) by (subst sint_small) (simp_all add: unat_of_nat)
  moreover have "c_div (e - h) 3 \<le> e" if "0 \<le> e" "0 \<le> h" for e h :: int
    using that by (cases "h \<le> e") (auto simp: c_div_3 c_div_def sgn_if)
  ultimately show ?thesis using assms(1)
    by (auto simp: jbuf_calculate_jitter_def Let_def levels_ok_def)
qed

lemma calculate_inv: "jb_inv jb \<Longrightarrow> jb_inv (jbuf_calculate_jitter jb)"
proof -
  assume inv: "jb_inv jb"
  then have "jb_max_count jb < 2 ^ 29" by (auto simp: jb_inv_def buffer_ok_def fl_inv_def fl_shape_def)
  then have "levels_ok (jbuf_calculate_jitter jb)" using inv by (intro calculate_levels) (auto simp: jb_inv_def)
  then show ?thesis using inv prefetch_clamped [of jb] by (auto simp: jb_inv_def buffer_ok_def settings_ok_def)
qed

text \<open>The distance between two discards is between the minimal gap and ten thousand frames.\<close>

lemma progressive_T_bound: "unat (progressive_T b) \<le> 10000"
proof -
  have "unat (2000 + 8000 * (b - 1) div 99) \<le> 10000" if "1 < b" "b < 100"
  proof -
    have b: "unat b < 100" "1 < unat b" using that by (simp_all add: word_less_nat_alt)
    then have "unat (b - 1) = unat b - 1" by (intro unat_minus_one) auto
    moreover have "unat (8000 * (b - 1)) = 8000 * unat (b - 1)" using b calculation by (subst unat_mult_lem [THEN iffD1]) simp_all
    ultimately have "unat (8000 * (b - 1) div 99) \<le> 8000" using b by (simp add: unat_div)
    then show ?thesis by (subst unat_add_lem [THEN iffD1]) simp_all
  qed
  then show ?thesis by (auto simp: progressive_T_def jb_consts not_le)
qed

lemma discard_dist_bound:
  fixes x :: pj_uint32_t
  assumes "settings_ok jb" "unat x \<le> 10000"
  shows "sint (of_int (max (jb_min_shrink_gap jb) (sint x)) :: pj_uint32_t) = max (jb_min_shrink_gap jb) (int (unat x))"
proof -
  have "sint x = int (unat x)" using assms(2) sint_small [of x] by simp
  moreover have "0 \<le> max (jb_min_shrink_gap jb) (int (unat x))" "max (jb_min_shrink_gap jb) (int (unat x)) \<le> 10000"
    using assms unfolding settings_ok_def by linarith+
  ultimately show ?thesis by (simp add: signed_of_int signed_take_bit_int_eq_self)
qed

text \<open>The discard algorithms touch the frame list, the discard schedule and the counter only.\<close>

definition same_settings :: "pjmedia_jbuf \<Rightarrow> pjmedia_jbuf \<Rightarrow> bool" where
  "same_settings jb jb' \<longleftrightarrow>
     jb = jb'\<lparr>jb_framelist := jb_framelist jb, jb_discard_ref := jb_discard_ref jb,
             jb_discard_dist := jb_discard_dist jb, jb_discard := jb_discard jb\<rparr>"

lemma same_settings_refl [simp]: "same_settings jb jb"
  by (simp add: same_settings_def)

lemma same_settings_if: "same_settings jb a \<Longrightarrow> same_settings jb b \<Longrightarrow> same_settings jb (if c then a else b)"
  by simp

lemma same_settings_upd:
  "same_settings jb a \<Longrightarrow> same_settings jb (a\<lparr>jb_framelist := f\<rparr>)"
  "same_settings jb a \<Longrightarrow> same_settings jb (a\<lparr>jb_discard_ref := r\<rparr>)"
  "same_settings jb a \<Longrightarrow> same_settings jb (a\<lparr>jb_discard_dist := d\<rparr>)"
  "same_settings jb a \<Longrightarrow> same_settings jb (a\<lparr>jb_discard := n\<rparr>)"
  unfolding same_settings_def by (cases jb; cases a; simp)+

lemmas same_settings_intros = same_settings_if same_settings_upd same_settings_refl

lemma static_same: "same_settings jb (jbuf_discard_static jb)"
  unfolding jbuf_discard_static_def Let_def case_prod_beta by (intro same_settings_intros)

lemma progressive_same: "same_settings jb (jbuf_discard_progressive jb)"
  unfolding jbuf_discard_progressive_def Let_def case_prod_beta by (intro same_settings_intros)

lemma run_discard_same: "same_settings jb (run_discard_algo jb)"
  by (auto simp: run_discard_algo_def static_same progressive_same split: option.split discard_algo.split)

lemma same_settings_ok:
  assumes "same_settings jb jb'"
  shows "settings_ok jb' = settings_ok jb" "levels_ok jb' = levels_ok jb" "jb_discard_algo jb' = jb_discard_algo jb"
    "jb_max_count jb' = jb_max_count jb" "jb_frame_size jb' = jb_frame_size jb" "jb_prefetch jb' = jb_prefetch jb"
    "jb_init_prefetch jb' = jb_init_prefetch jb" "jb_prefetching jb' = jb_prefetching jb" "jb_last_op jb' = jb_last_op jb"
  using assms unfolding same_settings_def settings_ok_def levels_ok_def by (cases jb; cases jb'; simp)+

text \<open>What they do to the window.\<close>

definition shrinks :: "jb_window \<Rightarrow> jb_window \<Rightarrow> bool" where
  "shrinks w w' \<longleftrightarrow>
     w' = w \<or> w' = snd (win_remove 1 w) \<or>
     (\<exists>i. fst w \<le> i \<and> i < fst w + int (length (snd w)) \<and> w' = win_discard i w)"

lemma static_buffer:
  assumes "buffer_ok jb" "jb_discard_algo jb = Some Jbuf_discard_static"
  shows "buffer_ok (jbuf_discard_static jb) \<and> shrinks (jb_win jb) (jb_win (jbuf_discard_static jb))"
proof -
  let ?fl = "jb_framelist jb"
  have inv: "fl_inv ?fl" and none: "Discarded \<notin> set (window ?fl)" using assms by (simp_all add: buffer_ok_def)
  obtain fl' where fl': "jb_framelist_remove_head 1 ?fl = (min 1 (fl_size ?fl), fl')" "fl_inv fl'"
    "window fl' = drop (min 1 (fl_size ?fl)) (window ?fl)" "fl_origin fl' = fl_origin ?fl + int (min 1 (fl_size ?fl))"
    "fl_max_count fl' = fl_max_count ?fl" "fl_frame_size fl' = fl_frame_size ?fl"
    using remove_head_correct [OF inv, of 1] by blast
  have w': "win_of fl' = snd (win_remove 1 (win_of ?fl))"
    using fl' by (auto simp: win_of_def win_remove_def min_def)
  have none': "Discarded \<notin> set (window fl')" using none fl'(3) by (auto dest: in_set_dropD)
  show ?thesis
    using assms none none' fl' w' by (auto simp: jbuf_discard_static_def Let_def buffer_ok_def shrinks_def no_discarded_after_none)
qed

lemma progressive_buffer:
  assumes ok: "buffer_ok jb" "settings_ok jb" and algo: "jb_discard_algo jb = Some Jbuf_discard_progressive"
  shows "buffer_ok (jbuf_discard_progressive jb) \<and> shrinks (jb_win jb) (jb_win (jbuf_discard_progressive jb))"
proof -
  let ?fl = "jb_framelist jb"
  define burst where "burst = (of_int (max (jb_eff_level jb) (jb_level jb)) :: pj_uint32_t)"
  define cur where "cur = jb_framelist_eff_size ?fl"
  define x where "x = progressive_T burst div (cur - burst) div jb_frame_ptime jb"
  define last_seq where "last_seq = fl_origin ?fl + int (fl_size ?fl) - 1"
  define r where "r = (if jb_discard_dist jb = 0 \<or> last_seq < jb_discard_ref jb then last_seq else jb_discard_ref jb)"
  define dist where "dist = (of_int (max (jb_min_shrink_gap jb) (sint x)) :: pj_uint32_t)"
  define seq where "seq = max (r + sint dist) (fl_origin ?fl)"
  define jb1 where "jb1 = jb\<lparr>jb_discard_ref := r, jb_discard_dist := dist\<rparr>"
  have code: "jbuf_discard_progressive jb =
      (if jb_last_op jb \<noteq> JB_OP_PUT then jb else if cur \<le> burst then jb\<lparr>jb_discard_dist := 0\<rparr>
       else if last_seq \<ge> r + sint dist
         then jb1\<lparr>jb_framelist := snd (jb_framelist_discard seq ?fl), jb_discard_ref := seq\<rparr> else jb1)"
    unfolding jbuf_discard_progressive_def Let_def case_prod_beta jb_framelist_origin_def jb_framelist_size_def
      last_seq_def [symmetric] burst_def [symmetric] cur_def [symmetric] x_def [symmetric]
    by (cases "jb_discard_dist jb = 0"; cases "last_seq < jb_discard_ref jb")
      (simp_all add: r_def dist_def seq_def jb1_def max_def)
  have inv: "fl_inv ?fl" and nda: "no_discarded_after (jb_discard_ref jb) (jb_win jb)" using ok by (simp_all add: buffer_ok_def)
  have nda': "no_discarded_after r (jb_win jb)"
    using nda no_discarded_after_last [of "jb_win jb"] by (simp add: r_def last_seq_def)
  then have b1: "buffer_ok jb1" using ok(1) algo by (simp add: buffer_ok_def jb1_def)
  have b0: "buffer_ok (jb\<lparr>jb_discard_dist := 0\<rparr>)" using ok(1) by (simp add: buffer_ok_def)
  have "unat x \<le> unat (progressive_T burst)" unfolding x_def unat_div by (metis div_le_dividend order_trans)
  then have "unat x \<le> 10000" using progressive_T_bound [of burst] by linarith
  then have dist: "1 \<le> sint dist" using discard_dist_bound [OF ok(2)] ok(2) by (simp add: dist_def settings_ok_def max_def)
  show ?thesis
  proof (cases "jb_last_op jb = JB_OP_PUT \<and> \<not> cur \<le> burst \<and> last_seq \<ge> r + sint dist")
    case False
    then have "jbuf_discard_progressive jb \<in> {jb, jb\<lparr>jb_discard_dist := 0\<rparr>, jb1}" using code by auto
    then show ?thesis using ok(1) b0 b1 by (auto simp: shrinks_def jb1_def)
  next
    case True
    have "fl_size ?fl \<noteq> 0"
    proof
      assume "fl_size ?fl = 0"
      then have "cur = 0" using eff_size [OF inv] length_filter_le [of "\<lambda>s. s \<noteq> Discarded" "window ?fl"]
        by (simp add: cur_def unat_eq_0)
      then show False using True by simp
    qed
    then have seq: "fl_origin ?fl \<le> seq" "seq < fl_origin ?fl + int (fl_size ?fl)" "r < seq"
      using True dist by (auto simp: seq_def last_seq_def)
    have fresh: "window ?fl ! nat (seq - fl_origin ?fl) \<noteq> Discarded"
    proof
      assume "window ?fl ! nat (seq - fl_origin ?fl) = Discarded"
      moreover have "nat (seq - fl_origin ?fl) < fl_size ?fl" using seq by linarith
      ultimately have "fl_origin ?fl + int (nat (seq - fl_origin ?fl)) \<le> r" using no_discarded_afterD [OF nda'] by blast
      then show False using seq by linarith
    qed
    obtain fl' where fl': "jb_framelist_discard seq ?fl = (PJ_SUCCESS, fl')" "fl_inv fl'" "win_of fl' = win_discard seq (win_of ?fl)"
      "fl_max_count fl' = fl_max_count ?fl" "fl_frame_size fl' = fl_frame_size ?fl"
      using discard_correct [OF inv seq(1,2) fresh] by blast
    have "no_discarded_after seq (win_of fl')"
      using nda' seq unfolding fl'(3) no_discarded_after_def list_all_iff
      by (auto simp: win_discard_def win_of_def nth_list_update split: if_splits)
    moreover have "jbuf_discard_progressive jb = jb1\<lparr>jb_framelist := fl', jb_discard_ref := seq\<rparr>" using code True fl'(1) by simp
    ultimately show ?thesis using fl' ok(1) algo seq by (auto simp: buffer_ok_def jb1_def shrinks_def)
  qed
qed

lemma run_discard_correct:
  assumes "jb_inv jb"
  shows "jb_inv (run_discard_algo jb) \<and> shrinks (jb_win jb) (jb_win (run_discard_algo jb))"
proof -
  have "buffer_ok (run_discard_algo jb) \<and> shrinks (jb_win jb) (jb_win (run_discard_algo jb))"
    using assms static_buffer [of jb] progressive_buffer [of jb]
    by (auto simp: run_discard_algo_def jb_inv_def shrinks_def split: option.split discard_algo.split)
  then show ?thesis using assms same_settings_ok [OF run_discard_same [of jb]] by (simp add: jb_inv_def)
qed

text \<open>
  The settings that no put, get or removal changes. The prefetch is one of them unless an initial
  prefetch was set.
\<close>

definition keeps_config :: "pjmedia_jbuf \<Rightarrow> pjmedia_jbuf \<Rightarrow> bool" where
  "keeps_config jb jb' \<longleftrightarrow>
     jb_frame_size jb' = jb_frame_size jb \<and> jb_max_count jb' = jb_max_count jb \<and>
     jb_init_prefetch jb' = jb_init_prefetch jb \<and> (jb_init_prefetch jb = 0 \<longrightarrow> jb_prefetch jb' = jb_prefetch jb)"

lemma keeps_config_trans: "keeps_config a b \<Longrightarrow> keeps_config b c \<Longrightarrow> keeps_config a c"
  by (auto simp: keeps_config_def)

lemma keeps_config_run_discard: "keeps_config jb (run_discard_algo jb)"
  using same_settings_ok [OF run_discard_same [of jb]] by (simp add: keeps_config_def)

text \<open>The state that \<^verbatim>\<open>jbuf_update\<close> hands to the discard algorithm.\<close>

lemma update_cases:
  obtains jb' where "jbuf_update oper jb \<in> {jb', run_discard_algo jb'}" "jb_framelist jb' = jb_framelist jb"
    "jb_inv jb \<Longrightarrow> jb_inv jb'" "keeps_config jb jb'"
proof (cases "jb_last_op jb = oper")
  case True
  then show ?thesis using that [of jb] by (simp add: jbuf_update_def keeps_config_def)
next
  case False
  define init where "init = (jb_status jb = JB_STATUS_INITIALIZING)"
  define jb1 where "jb1 = (if init then jb\<lparr>jb_last_op := oper, jb_init_cycle_cnt := jb_init_cycle_cnt jb + 1\<rparr> else jb\<lparr>jb_last_op := oper\<rparr>)"
  define jb2 where "jb2 = (if init then jb1\<lparr>jb_status := JB_STATUS_PROCESSING, jb_level := min (jb_level jb1) (jb_max_burst jb1)\<rparr> else jb1)"
  define jb3 where "jb3 = (if oper = JB_OP_GET \<and> jb_level jb2 \<le> jb_max_burst jb2 then jbuf_calculate_jitter jb2 else jb2)"
  have code: "jbuf_update oper jb =
      (if init \<and> \<not> (jb_init_cycle_cnt jb1 \<ge> INIT_CYCLE \<and> oper = JB_OP_GET) then jb1\<lparr>jb_level := 0\<rparr>
       else run_discard_algo (jb3\<lparr>jb_level := 0\<rparr>))"
    using False by (simp add: jbuf_update_def Let_def init_def jb1_def jb2_def jb3_def)
  have i1: "jb_inv jb \<Longrightarrow> jb_inv jb1" by (simp add: jb1_def jb_inv_def buffer_ok_def settings_ok_def levels_ok_def)
  have i2: "jb_inv jb \<Longrightarrow> jb_inv jb2" using i1 by (simp add: jb2_def jb_inv_def buffer_ok_def settings_ok_def levels_ok_def)
  have i3: "jb_inv jb \<Longrightarrow> jb_inv jb3" using i2 calculate_inv [of jb2] by (simp add: jb3_def)
  have level: "jb_inv j \<Longrightarrow> jb_inv (j\<lparr>jb_level := 0\<rparr>)" for j by (simp add: jb_inv_def buffer_ok_def settings_ok_def levels_ok_def)
  have p: "jb_init_prefetch j = 0 \<Longrightarrow> jb_prefetch (jbuf_calculate_jitter j) = jb_prefetch j" for j
    by (simp add: jbuf_calculate_jitter_def Let_def)
  have f: "jb_framelist jb2 = jb_framelist jb" "keeps_config jb jb2" by (simp_all add: jb1_def jb2_def keeps_config_def)
  show ?thesis
  proof (cases "init \<and> \<not> (jb_init_cycle_cnt jb1 \<ge> INIT_CYCLE \<and> oper = JB_OP_GET)")
    case True
    then show ?thesis using that [of "jb1\<lparr>jb_level := 0\<rparr>"] code i1 level by (simp add: jb1_def keeps_config_def)
  next
    case False
    then show ?thesis using that [of "jb3\<lparr>jb_level := 0\<rparr>"] code i3 level f p [of jb2] by (auto simp: jb3_def keeps_config_def)
  qed
qed

lemma update_correct:
  assumes "jb_inv jb"
  shows "jb_inv (jbuf_update oper jb) \<and> shrinks (jb_win jb) (jb_win (jbuf_update oper jb)) \<and> keeps_config jb (jbuf_update oper jb)"
proof -
  obtain jb' where "jbuf_update oper jb \<in> {jb', run_discard_algo jb'}" "jb_framelist jb' = jb_framelist jb" "jb_inv jb'"
    "keeps_config jb jb'"
    using update_cases [of oper jb] assms by metis
  then show ?thesis using run_discard_correct [of jb'] keeps_config_run_discard [of jb']
    by (auto simp: shrinks_def intro: keeps_config_trans)
qed

section \<open>Storing a frame\<close>

text \<open>
  What storing a frame in the buffer does to the window: if the frame is too far ahead, as many of
  the oldest slots as needed go first.
\<close>

definition win_store :: "nat \<Rightarrow> int \<Rightarrow> jb_slot \<Rightarrow> jb_window \<Rightarrow> pj_status_t \<times> jb_window" where
  "win_store cap index s w =
     (let (st, w1) = win_put cap index s w
      in if st = PJ_ETOOMANY then win_put cap index s (snd (win_remove (nat (index - fst w1 - int cap + 1)) w1))
         else (st, w1))"

lemma win_put_too_many:
  assumes "fst (win_put cap index s (o1, ss)) = PJ_ETOOMANY" "length ss \<le> cap" "0 < cap"
  obtains o2 where "win_put cap index s (o1, ss) = (PJ_ETOOMANY, o2, ss)" "int cap \<le> index - o2" "index - o2 \<le> 3000"
    "fst (win_put cap index s (snd (win_remove (nat (index - o2 - int cap + 1)) (o2, ss)))) = PJ_SUCCESS"
proof -
  obtain o2 where w: "win_put cap index s (o1, ss) = (PJ_ETOOMANY, o2, ss)" "int cap \<le> index - o2" "index - o2 \<le> 3000"
    using assms(1) by (auto simp: win_put_def Let_def MAX_DROPOUT_def split: if_splits)
  define k where "k = nat (index - o2 - int cap + 1)"
  have k: "int k = index - o2 - int cap + 1" "1 \<le> k" using w by (auto simp: k_def)
  have "fst (win_put cap index s (snd (win_remove k (o2, ss)))) = PJ_SUCCESS"
  proof (cases "length ss \<le> k")
    case True
    then show ?thesis using k assms(3) by (simp add: win_remove_def win_put_def Let_def)
  next
    case False
    then have "index - (o2 + int k) = int cap - 1" "length (drop k ss) \<le> cap - 1" "drop k ss \<noteq> []" using k assms(2) by auto
    then show ?thesis using False k assms(3) by (simp add: win_remove_def win_put_def Let_def) linarith
  qed
  then show ?thesis using that w unfolding k_def by blast
qed

lemma put_store:
  fixes seq :: int and b t :: pj_uint32_t
  assumes inv: "buffer_ok jb" and n: "n \<le> jb_frame_size jb" "n \<le> length frame"
  defines "p \<equiv> jb_framelist_put_at seq frame n b t PJMEDIA_JB_NORMAL_FRAME (jb_framelist jb)"
  obtains st fl k where "put_retry seq frame n b t (fst p) (jb\<lparr>jb_framelist := snd p\<rparr>) =
      Some (st, jb\<lparr>jb_framelist := fl, jb_discard := jb_discard jb + k\<rparr>)"
    "(st, win_of fl) = win_store (jb_max_count jb) seq (Frame (take n frame) b t) (jb_win jb)" "st \<noteq> PJ_ETOOMANY"
    "fl_inv fl" "fl_max_count fl = jb_max_count jb" "fl_frame_size fl = jb_frame_size jb"
proof -
  let ?fl = "jb_framelist jb" and ?s = "Frame (take n frame) b t" and ?m = "jb_max_count jb"
  have fl: "fl_inv ?fl" "fl_max_count ?fl = ?m" "fl_frame_size ?fl = jb_frame_size jb" using inv by (simp_all add: buffer_ok_def)
  then have size: "length (window ?fl) \<le> ?m" "0 < ?m" by (auto simp: fl_inv_def fl_shape_def)
  obtain st1 fl1 where p: "p = (st1, fl1)" "fl_inv fl1" "(st1, win_of fl1) = win_put ?m seq ?s (win_of ?fl)"
    "fl_max_count fl1 = ?m" "fl_frame_size fl1 = jb_frame_size jb"
    using put_at_correct [OF fl(1), of n frame seq b t] n fl unfolding p_def by metis
  show ?thesis
  proof (cases "st1 = PJ_ETOOMANY")
    case False
    then show ?thesis using that [of st1 0 fl1] p
      by (simp add: put_retry.simps win_store_def case_prod_beta prod_eq_iff)
  next
    case True
    then obtain o2 where o2: "win_put ?m seq ?s (win_of ?fl) = (PJ_ETOOMANY, o2, window ?fl)" "int ?m \<le> seq - o2" "seq - o2 \<le> 3000"
      "fst (win_put ?m seq ?s (snd (win_remove (nat (seq - o2 - int ?m + 1)) (o2, window ?fl)))) = PJ_SUCCESS"
      using win_put_too_many [of ?m seq ?s "fl_origin ?fl" "window ?fl"] p(3) size unfolding win_of_def by (metis fst_conv)
    define k where "k = nat (seq - o2 - int ?m + 1)"
    have w1: "win_of fl1 = (o2, window ?fl)" "fl_origin fl1 = o2" "window fl1 = window ?fl"
      using p(3) o2(1) by (auto simp: win_of_def)
    have "seq - o2 - int ?m + 1 = int k" "k \<le> 3001" using o2 by (auto simp: k_def)
    then have k: "unat (of_int (seq - fl_origin fl1 - int ?m + 1) :: pj_uint32_t) = k"
      using w1 by (simp add: unat_of_nat)
    obtain fl2 where r: "jb_framelist_remove_head k fl1 = (min k (fl_size fl1), fl2)" "fl_inv fl2"
      "window fl2 = drop (min k (fl_size fl1)) (window fl1)" "fl_origin fl2 = fl_origin fl1 + int (min k (fl_size fl1))"
      "fl_max_count fl2 = ?m" "fl_frame_size fl2 = jb_frame_size jb"
      using remove_head_correct [OF p(2), of k] p(4,5) by metis
    have w2: "win_of fl2 = snd (win_remove k (o2, window ?fl))"
      using r(3,4) w1 by (simp add: win_of_def win_remove_def min_def flip: length_window)
    obtain st3 fl3 where q: "jb_framelist_put_at seq frame n b t PJMEDIA_JB_NORMAL_FRAME fl2 = (st3, fl3)" "fl_inv fl3"
      "(st3, win_of fl3) = win_put ?m seq ?s (win_of fl2)" "fl_max_count fl3 = ?m" "fl_frame_size fl3 = jb_frame_size jb"
      using put_at_correct [OF r(2), of n frame seq b t] n r(5,6) by metis
    have st3: "st3 = PJ_SUCCESS" using o2(4) q(3) w2 k_def by (metis fst_conv)
    have "put_retry seq frame n b t (fst p) (jb\<lparr>jb_framelist := snd p\<rparr>) =
        Some (st3, jb\<lparr>jb_framelist := fl3, jb_discard := jb_discard jb + of_nat (min k (fl_size fl1))\<rparr>)"
      using p(1) True st3 r(1) q(1) k
      by (subst put_retry.simps) (simp add: Let_def jb_framelist_origin_def put_retry.simps [of _ _ _ _ _ PJ_SUCCESS])
    moreover have "win_store ?m seq ?s (win_of ?fl) = (st3, win_of fl3)"
      using o2(1) q(3) w2 by (simp add: win_store_def k_def)
    ultimately show ?thesis using that st3 q by simp
  qed
qed

lemma win_store_no_discarded:
  assumes "no_discarded_after r w" "s \<noteq> Discarded"
  shows "no_discarded_after r (snd (win_store cap index s w))"
  using no_discarded_after_put [OF no_discarded_after_remove [OF no_discarded_after_put [OF assms]] assms(2)]
    no_discarded_after_put [OF assms]
  by (auto simp: win_store_def Let_def case_prod_beta)

lemma win_put_set: "set (snd (snd (win_put cap index s w))) \<subseteq> set (snd w) \<union> {Missing, s}"
  by (cases w) (auto simp: win_put_def Let_def dest!: set_update_subset_insert [THEN subsetD])

lemma win_remove_set: "set (snd (snd (win_remove n w))) \<subseteq> set (snd w)"
  by (cases w) (auto simp: win_remove_def dest: in_set_dropD)

lemma win_store_set: "set (snd (snd (win_store cap index s w))) \<subseteq> set (snd w) \<union> {Missing, s}"
proof -
  obtain st w1 where p: "win_put cap index s w = (st, w1)" by (cases "win_put cap index s w")
  have 1: "set (snd w1) \<subseteq> set (snd w) \<union> {Missing, s}" using win_put_set [of cap index s w] p by simp
  have 2: "set (snd (snd (win_put cap index s (snd (win_remove n w1))))) \<subseteq> set (snd w1) \<union> {Missing, s}" for n
    using win_put_set [of cap index s "snd (win_remove n w1)"] win_remove_set [of n w1] by blast
  have "set (snd (snd (win_put cap index s (snd (win_remove n w1))))) \<subseteq> set (snd w) \<union> {Missing, s}" for n
    using 1 2 [of n] by blast
  then show ?thesis using 1 by (simp add: win_store_def p)
qed

lemma jb_inv_upd [simp]:
  "jb_inv (jb\<lparr>jb_discard := c\<rparr>) = jb_inv jb" "jb_inv (jb\<lparr>jb_prefetching := b\<rparr>) = jb_inv jb"
  "jb_inv (jb\<lparr>jb_empty := c\<rparr>) = jb_inv jb" "jb_inv (jb\<lparr>jb_lost := c\<rparr>) = jb_inv jb"
  "jb_inv (jb\<lparr>jb_delay := s\<rparr>) = jb_inv jb"
  by (simp_all add: jb_inv_def buffer_ok_def settings_ok_def levels_ok_def)

lemma jb_inv_level: "jb_inv jb \<Longrightarrow> 0 \<le> l \<Longrightarrow> jb_inv (jb\<lparr>jb_level := l\<rparr>)"
  by (simp add: jb_inv_def buffer_ok_def settings_ok_def levels_ok_def)

lemma jb_inv_framelist:
  assumes "jb_inv jb" "fl_inv fl" "fl_max_count fl = jb_max_count jb" "fl_frame_size fl = jb_frame_size jb"
    "no_discarded_after (jb_discard_ref jb) (win_of fl)"
    "set (window fl) \<subseteq> set (window (jb_framelist jb)) \<union> {Missing, Frame f b t}"
  shows "jb_inv (jb\<lparr>jb_framelist := fl\<rparr>)"
  using assms by (auto simp: jb_inv_def buffer_ok_def settings_ok_def levels_ok_def)

lemma put_frame3_correct:
  fixes frame :: bytes and n :: nat and b ts :: pj_uint32_t
  assumes inv: "jb_inv jb" and n: "n \<le> length frame"
  defines "s \<equiv> Frame (take (min n (jb_frame_size jb)) frame) b ts"
  obtains jb' st w where "pjmedia_jbuf_put_frame3 frame n b seq ts jb = Some (st \<noteq> PJ_SUCCESS, jb')" "jb_inv jb'"
    "win_store (jb_max_count jb) seq s (jb_win jb) = (st, w)" "st \<noteq> PJ_ETOOMANY"
    "if st = PJ_SUCCESS then shrinks w (jb_win jb') else jb_win jb' = w" "keeps_config jb jb'"
proof -
  let ?n = "min n (jb_frame_size jb)"
  define p where "p = jb_framelist_put_at seq frame ?n b ts PJMEDIA_JB_NORMAL_FRAME (jb_framelist jb)"
  obtain st fl k where r: "put_retry seq frame ?n b ts (fst p) (jb\<lparr>jb_framelist := snd p\<rparr>) =
      Some (st, jb\<lparr>jb_framelist := fl, jb_discard := jb_discard jb + k\<rparr>)"
    "(st, win_of fl) = win_store (jb_max_count jb) seq s (jb_win jb)" "st \<noteq> PJ_ETOOMANY"
    "fl_inv fl" "fl_max_count fl = jb_max_count jb" "fl_frame_size fl = jb_frame_size jb"
  proof (rule put_store [of jb ?n frame seq b ts, folded p_def s_def])
    show "buffer_ok jb" using inv by (simp add: jb_inv_def)
  qed (use n in auto)
  define jb1 where "jb1 = jb\<lparr>jb_framelist := fl, jb_discard := jb_discard jb + k\<rparr>"
  have store: "win_of fl = snd (win_store (jb_max_count jb) seq s (jb_win jb))" using r(2) by (metis snd_conv)
  have nda: "no_discarded_after (jb_discard_ref jb) (win_of fl)"
    unfolding store using inv by (intro win_store_no_discarded) (auto simp: jb_inv_def buffer_ok_def s_def)
  have "set (snd (win_of fl)) \<subseteq> set (window (jb_framelist jb)) \<union> {Missing, s}"
    unfolding store using win_store_set [of "jb_max_count jb" seq s "jb_win jb"] by simp
  then have inv1: "jb_inv jb1"
    using jb_inv_framelist [OF inv r(4-6) nda] unfolding jb1_def s_def by simp
  define jb2 where "jb2 = (let new_size = sint (jb_framelist_eff_size fl); cur_size = sint (jb_framelist_eff_size (jb_framelist jb));
      j = (if jb_prefetching jb1 \<and> new_size \<ge> jb_prefetch jb1 then jb1\<lparr>jb_prefetching := False\<rparr> else jb1)
    in j\<lparr>jb_level := jb_level j + (if new_size > cur_size then new_size - cur_size else 1)\<rparr>)"
  have "jb_inv jb2"
    using inv1 jb_inv_level [OF inv1] jb_inv_level [of "jb1\<lparr>jb_prefetching := False\<rparr>"]
    by (auto simp: jb2_def Let_def jb_inv_def [of jb1] levels_ok_def)
  then have u: "jb_inv (jbuf_update JB_OP_PUT jb2)" "shrinks (win_of fl) (jb_win (jbuf_update JB_OP_PUT jb2))"
    "keeps_config jb2 (jbuf_update JB_OP_PUT jb2)"
    using update_correct [of jb2 JB_OP_PUT] by (auto simp: jb2_def Let_def jb1_def)
  have c: "keeps_config jb jb2" by (simp add: keeps_config_def jb2_def Let_def jb1_def)
  define jb' where "jb' = (if st = PJ_SUCCESS then jbuf_update JB_OP_PUT jb2 else jb1\<lparr>jb_discard := jb_discard jb1 + 1\<rparr>)"
  have "pjmedia_jbuf_put_frame3 frame n b seq ts jb = Some (st \<noteq> PJ_SUCCESS, jb')"
    using r(1) by (simp add: pjmedia_jbuf_put_frame3_def p_def [symmetric] case_prod_beta Let_def jb'_def jb2_def jb1_def)
  moreover have "jb_inv jb'" using u inv1 by (simp add: jb'_def)
  moreover have "keeps_config jb jb'" using keeps_config_trans [OF c u(3)] by (simp add: jb'_def keeps_config_def jb1_def)
  ultimately show ?thesis using that [of st jb' "win_of fl"] r(2,3) u(2) by (simp add: jb'_def jb1_def)
qed

section \<open>Getting a frame\<close>

text \<open>What one \<^verbatim>\<open>pjmedia_jbuf_get_frame3\<close> must return.\<close>

definition got_ok :: "pjmedia_jbuf \<Rightarrow> jb_got \<Rightarrow> bool" where
  "got_ok jb g \<longleftrightarrow>
     (if jb_prefetching jb then got_type g = Some PJMEDIA_JB_ZERO_PREFETCH_FRAME \<and> got_size g = Some 0 \<and> got_seq g = None
      else case fst (win_get (jb_win jb)) of
             None \<Rightarrow> got_type g = Some PJMEDIA_JB_ZERO_EMPTY_FRAME \<and> got_size g = Some 0 \<and> got_seq g = None
           | Some (s, n) \<Rightarrow> reports s n g)"

lemma reports_type: "reports s n g \<Longrightarrow> s \<noteq> Discarded \<Longrightarrow> got_type g = Some (case s of Frame _ _ _ \<Rightarrow> PJMEDIA_JB_NORMAL_FRAME | _ \<Rightarrow> PJMEDIA_JB_MISSING_FRAME)"
  by (cases s) (simp_all add: reports_def)

lemma got_type_same: "got_type g = Some x \<Longrightarrow> g\<lparr>got_type := Some x\<rparr> = g"
  by (cases g) simp

lemma jb_inv_get:
  assumes "jb_inv jb" "fl_inv fl" "fl_max_count fl = jb_max_count jb" "fl_frame_size fl = jb_frame_size jb"
    "win_of fl = snd (win_remove n (jb_win jb))"
  shows "jb_inv (jb\<lparr>jb_framelist := fl\<rparr>)"
proof (rule jb_inv_framelist [OF assms(1-4)])
  show "no_discarded_after (jb_discard_ref jb) (win_of fl)"
    unfolding assms(5) using assms(1) by (intro no_discarded_after_remove) (simp add: jb_inv_def buffer_ok_def)
  have "set (snd (win_of fl)) \<subseteq> set (window (jb_framelist jb))"
    unfolding assms(5) using win_remove_set [of n "jb_win jb"] by simp
  then show "set (window fl) \<subseteq> set (window (jb_framelist jb)) \<union> {Missing, Frame [] 0 0}" by auto
qed

lemma get_frame3_correct:
  assumes inv: "jb_inv jb"
  obtains g jb' where "pjmedia_jbuf_get_frame3 jb = Some (g, jb')" "jb_inv jb'" "got_ok jb g"
    "shrinks (if jb_prefetching jb then jb_win jb else snd (win_get (jb_win jb))) (jb_win jb')" "keeps_config jb jb'"
proof -
  note result = that
  have finish: thesis
    if g: "pjmedia_jbuf_get_frame3 jb = Some (g, jbuf_update JB_OP_GET (jb1\<lparr>jb_level := jb_level jb1 + 1\<rparr>))" "got_ok jb g"
      and jb1: "jb_inv jb1" "jb_win jb1 = (if jb_prefetching jb then jb_win jb else snd (win_get (jb_win jb)))"
        "keeps_config jb jb1" for g jb1
  proof -
    have "jb_inv (jb1\<lparr>jb_level := jb_level jb1 + 1\<rparr>)" using jb1(1) by (intro jb_inv_level) (auto simp: jb_inv_def levels_ok_def)
    moreover have "keeps_config jb (jb1\<lparr>jb_level := jb_level jb1 + 1\<rparr>)" using jb1(3) by (simp add: keeps_config_def)
    ultimately show thesis using update_correct [of "jb1\<lparr>jb_level := jb_level jb1 + 1\<rparr>" JB_OP_GET] jb1(2) g
      by (intro result [OF g(1)]) (auto intro: keeps_config_trans)
  qed
  show thesis
  proof (cases "jb_prefetching jb")
    case True
    then show thesis using inv
      by (intro finish [of "\<lparr>got_frame = None, got_size = Some 0, got_type = Some PJMEDIA_JB_ZERO_PREFETCH_FRAME,
            got_bit_info = None, got_ts = None, got_seq = None\<rparr>" "jb\<lparr>jb_empty := jb_empty jb + 1\<rparr>"]) (simp_all add: pjmedia_jbuf_get_frame3_def got_ok_def keeps_config_def)
  next
    case False
    have fl: "fl_inv (jb_framelist jb)" "fl_max_count (jb_framelist jb) = jb_max_count jb"
      "fl_frame_size (jb_framelist jb) = jb_frame_size jb"
      using inv by (simp_all add: jb_inv_def buffer_ok_def)
    obtain res g fl where r: "jb_framelist_get (jb_framelist jb) = Some (res, g, fl)" "fl_inv fl"
      "win_of fl = snd (win_get (jb_win jb))" "fl_max_count fl = jb_max_count jb" "fl_frame_size fl = jb_frame_size jb"
      and spec: "case fst (win_get (jb_win jb)) of
         None \<Rightarrow> \<not> res \<and> g = nothing_got (jb_framelist jb) | Some (s, n) \<Rightarrow> res \<and> s \<noteq> Discarded \<and> reports s n g"
      using framelist_get_correct [OF fl(1)] unfolding fl(2,3) by blast
    obtain n where "win_of fl = snd (win_remove n (jb_win jb))" using win_get_drop [of "jb_win jb"] r(3) by auto
    then have inv1: "jb_inv (jb\<lparr>jb_framelist := fl\<rparr>)" using inv r by (intro jb_inv_get) auto
    show thesis
    proof (cases "fst (win_get (jb_win jb))")
      case None
      then show thesis using False r(1,3) spec inv1
        by (intro finish [of "(nothing_got (jb_framelist jb))\<lparr>got_type := Some PJMEDIA_JB_ZERO_EMPTY_FRAME, got_size := Some 0\<rparr>"
            "(if jb_prefetch jb \<noteq> 0 then jb\<lparr>jb_framelist := fl, jb_prefetching := True\<rparr>
              else jb\<lparr>jb_framelist := fl\<rparr>)\<lparr>jb_empty := jb_empty jb + 1\<rparr>"])
          (simp_all add: pjmedia_jbuf_get_frame3_def got_ok_def nothing_got_def keeps_config_def)
    next
      case (Some sn)
      obtain s n where sn: "sn = (s, n)" by (cases sn)
      have rep: "res" "reports s n g" "s \<noteq> Discarded" using spec Some sn by auto
      define normal where "normal = (got_type g = Some PJMEDIA_JB_NORMAL_FRAME)"
      have ty: "\<not> normal \<Longrightarrow> g\<lparr>got_type := Some PJMEDIA_JB_MISSING_FRAME\<rparr> = g"
        using reports_type [OF rep(2,3)] by (intro got_type_same) (auto simp: normal_def split: jb_slot.splits)
      define j where "j = (if normal then jb\<lparr>jb_framelist := fl\<rparr> else jb\<lparr>jb_framelist := fl, jb_lost := jb_lost jb + 1\<rparr>)"
      define j' where "j' = (if jb_last_op jb = JB_OP_PUT
          then j\<lparr>jb_delay := pj_math_stat_update (sint ((jb_framelist_eff_size fl + 1) * jb_frame_ptime jb)) (jb_delay jb)\<rparr> else j)"
      have "pjmedia_jbuf_get_frame3 jb = Some (g, jbuf_update JB_OP_GET (j'\<lparr>jb_level := jb_level j' + 1\<rparr>))"
        using False r(1) rep(1) ty unfolding pjmedia_jbuf_get_frame3_def normal_def [symmetric] j'_def j_def
        by (simp add: normal_def [symmetric] Let_def)
      then show thesis using False r(3) rep(2) inv1 Some sn by (intro finish [of g j']) (simp_all add: got_ok_def j'_def j_def keeps_config_def)
    qed
  qed
qed

section \<open>Removing frames\<close>

lemma win_remove_remove: "snd (win_remove m (snd (win_remove n w))) = snd (win_remove (n + m) w)"
  by (cases w) (auto simp: win_remove_def min_def add.commute)

lemma remove_head_kept:
  assumes inv: "fl_inv fl"
  obtains fl' where "jb_framelist_remove_head n fl = (min n (fl_size fl), fl')" "fl_inv fl'"
    "win_of fl' = snd (win_remove n (win_of fl))" "fl_max_count fl' = fl_max_count fl" "fl_frame_size fl' = fl_frame_size fl"
    "fl_discarded_num fl' + length (filter (\<lambda>s. s = Discarded) (take n (window fl))) = fl_discarded_num fl"
proof -
  obtain fl' where r: "jb_framelist_remove_head n fl = (min n (fl_size fl), fl')" "fl_inv fl'"
    "window fl' = drop (min n (fl_size fl)) (window fl)" "fl_origin fl' = fl_origin fl + int (min n (fl_size fl))"
    "fl_max_count fl' = fl_max_count fl" "fl_frame_size fl' = fl_frame_size fl"
    using remove_head_correct [OF inv, of n] by blast
  have d: "window fl' = drop n (window fl)" using r(3) by (cases "n \<le> fl_size fl") (auto simp: min_def)
  have "length (filter (\<lambda>s. s = Discarded) (take n (window fl))) + length (filter (\<lambda>s. s = Discarded) (drop n (window fl))) =
      length (filter (\<lambda>s. s = Discarded) (window fl))"
    by (simp flip: filter_append length_append)
  then have "fl_discarded_num fl' + length (filter (\<lambda>s. s = Discarded) (take n (window fl))) = fl_discarded_num fl"
    using r(2) inv d by (simp add: fl_inv_def)
  moreover have "win_of fl' = snd (win_remove n (win_of fl))" using d r(4) by (simp add: win_of_def win_remove_def)
  ultimately show ?thesis using that r by blast
qed

lemma kept_take: "length (kept (take n xs)) + length (filter (\<lambda>s. s = Discarded) (take n xs)) = min n (length xs)"
  using sum_length_filter_compl [of "\<lambda>s. s = Discarded" "take n xs"] by simp

text \<open>One round: of \<open>n\<close> slots removed, \<open>e1\<close> were discarded ones, and as many have to go in addition.\<close>

lemma kept_removed_round:
  fixes w :: "jb_slot list" and n :: nat
  defines "e1 \<equiv> length (filter (\<lambda>s. s = Discarded) (take n w))"
  shows "(of_nat (min n (length w)) - of_nat e1 + of_nat (min e1 (length (kept (drop n w)))) :: pj_uint32_t) =
      of_nat (min n (length (kept w)))"
    and "drop e1 (kept (drop n w)) = drop n (kept w)"
proof -
  have kt: "length (kept (take n w)) + e1 = min n (length w)" using kept_take [of n w] by (simp add: e1_def)
  have k: "kept w = kept (take n w) @ kept (drop n w)" by (simp flip: filter_append)
  have len: "length (kept w) = length (kept (take n w)) + length (kept (drop n w))" using k by (metis length_append)
  have short: "length w < n \<Longrightarrow> drop n w = []" by simp
  have arith: "min n sz - e1 + min e1 y = min n (x + y)"
    if "x + e1 = min n sz" "sz < n \<longrightarrow> y = 0" for x y sz :: nat
    using that by (simp add: min_def split: if_splits) linarith+
  have "min n (length w) - e1 + min e1 (length (kept (drop n w))) = min n (length (kept w))"
    unfolding len using kt short by (intro arith) auto
  moreover have "e1 \<le> min n (length w)" using kt by linarith
  ultimately show "(of_nat (min n (length w)) - of_nat e1 + of_nat (min e1 (length (kept (drop n w)))) :: pj_uint32_t) =
      of_nat (min n (length (kept w)))"
    by (metis of_nat_add of_nat_diff)
  show "drop e1 (kept (drop n w)) = drop n (kept w)"
  proof (cases "length w < n")
    case True
    then show ?thesis using len kt short by simp
  next
    case False
    then have "n - length (kept (take n w)) = e1" using kt by simp
    moreover have "drop n (kept w) = drop n (kept (take n w)) @ drop (n - length (kept (take n w))) (kept (drop n w))"
      by (subst k) (rule drop_append)
    ultimately show ?thesis using kt by simp
  qed
qed

lemma remove_more_correct:
  "fl_inv fl \<Longrightarrow> fl_discarded_num fl \<le> d \<Longrightarrow> e = d - fl_discarded_num fl \<Longrightarrow>
   \<exists>fl' k. remove_more cnt d fl = Some (cnt - of_nat e + of_nat (min e (length (kept (window fl)))), fl') \<and> fl_inv fl' \<and>
     win_of fl' = snd (win_remove k (win_of fl)) \<and> fl_max_count fl' = fl_max_count fl \<and> fl_frame_size fl' = fl_frame_size fl \<and>
     kept (window fl') = drop e (kept (window fl))"
proof (induction "fl_discarded_num fl" arbitrary: fl d e cnt rule: less_induct)
  case less
  show ?case
  proof (cases "e = 0")
    case True
    then show ?thesis using less.prems
      by (intro exI [of _ fl] exI [of _ 0]) (simp add: remove_more.simps win_remove_def win_of_def)
  next
    case False
    let ?w = "window fl"
    obtain fl1 where r: "jb_framelist_remove_head e fl = (min e (fl_size fl), fl1)" "fl_inv fl1"
      "win_of fl1 = snd (win_remove e (win_of fl))" "fl_max_count fl1 = fl_max_count fl" "fl_frame_size fl1 = fl_frame_size fl"
      "fl_discarded_num fl1 + length (filter (\<lambda>s. s = Discarded) (take e ?w)) = fl_discarded_num fl"
      using remove_head_kept [OF less.prems(1)] by blast
    define e1 where "e1 = length (filter (\<lambda>s. s = Discarded) (take e ?w))"
    have w1: "window fl1 = drop e ?w" using r(3) by (simp add: win_of_def win_remove_def)
    have step: "remove_more cnt d fl = remove_more (cnt - of_nat e + of_nat (min e (fl_size fl))) (fl_discarded_num fl) fl1"
      using False less.prems r(1) by (subst remove_more.simps) (simp add: Let_def)
    note round = kept_removed_round [of e ?w, folded w1 e1_def, simplified]
    show ?thesis
    proof (cases "e1 = 0")
      case True
      then have "remove_more cnt d fl = Some (cnt - of_nat e + of_nat (min e (fl_size fl)), fl1)"
        using step r(6) by (simp add: remove_more.simps e1_def)
      then show ?thesis using r round True by auto
    next
      case e1: False
      then have "fl_discarded_num fl1 < fl_discarded_num fl" "e1 = fl_discarded_num fl - fl_discarded_num fl1"
        using r(6) unfolding e1_def [symmetric] by linarith+
      then obtain fl' j where ih: "remove_more (cnt - of_nat e + of_nat (min e (fl_size fl))) (fl_discarded_num fl) fl1 =
          Some (cnt - of_nat e + of_nat (min e (fl_size fl)) - of_nat e1 + of_nat (min e1 (length (kept (window fl1)))), fl')"
        "fl_inv fl'" "win_of fl' = snd (win_remove j (win_of fl1))" "fl_max_count fl' = fl_max_count fl1"
        "fl_frame_size fl' = fl_frame_size fl1" "kept (window fl') = drop e1 (kept (window fl1))"
        using less.hyps [OF _ r(2), of "fl_discarded_num fl" e1] by fastforce
      show ?thesis using step ih r round win_remove_remove [of j e "win_of fl"]
        by (intro exI [of _ fl'] exI [of _ "e + j"]) (simp add: algebra_simps)
    qed
  qed
qed

lemma remove_frame_correct:
  assumes inv: "jb_inv jb"
  obtains jb' k where "pjmedia_jbuf_remove_frame n jb = Some (of_nat (min n (length (kept (window (jb_framelist jb))))), jb')" "jb_inv jb'"
    "jb_win jb' = snd (win_remove k (jb_win jb))" "kept (window (jb_framelist jb')) = drop n (kept (window (jb_framelist jb)))" "keeps_config jb jb'"
proof -
  let ?fl = "jb_framelist jb"
  have fl: "fl_inv ?fl" "fl_max_count ?fl = jb_max_count jb" "fl_frame_size ?fl = jb_frame_size jb"
    using inv by (simp_all add: jb_inv_def buffer_ok_def)
  obtain fl1 where r: "jb_framelist_remove_head n ?fl = (min n (fl_size ?fl), fl1)" "fl_inv fl1"
    "win_of fl1 = snd (win_remove n (win_of ?fl))" "fl_max_count fl1 = fl_max_count ?fl" "fl_frame_size fl1 = fl_frame_size ?fl"
    "fl_discarded_num fl1 + length (filter (\<lambda>s. s = Discarded) (take n (window ?fl))) = fl_discarded_num ?fl"
    using remove_head_kept [OF fl(1)] by blast
  text \<open>The first removal is a round of the loop with everything still to be removed.\<close>
  define e1 where "e1 = length (filter (\<lambda>s. s = Discarded) (take n (window ?fl)))"
  have d: "fl_discarded_num fl1 \<le> fl_discarded_num ?fl" "e1 = fl_discarded_num ?fl - fl_discarded_num fl1" using r(6) by (auto simp: e1_def)
  obtain fl' j where m: "remove_more (of_nat (min n (fl_size ?fl))) (fl_discarded_num ?fl) fl1 =
      Some (of_nat (min n (fl_size ?fl)) - of_nat e1 + of_nat (min e1 (length (kept (window fl1)))), fl')"
    "fl_inv fl'" "win_of fl' = snd (win_remove j (win_of fl1))" "fl_max_count fl' = fl_max_count fl1"
    "fl_frame_size fl' = fl_frame_size fl1" "kept (window fl') = drop e1 (kept (window fl1))"
    using remove_more_correct [OF r(2) d] by blast
  have w1: "window fl1 = drop n (window ?fl)" using r(3) by (simp add: win_of_def win_remove_def)
  note round = kept_removed_round [of n "window ?fl", folded w1 e1_def, simplified]
  show ?thesis
  proof (rule that [of "jb\<lparr>jb_framelist := fl'\<rparr>" "n + j"])
    show "pjmedia_jbuf_remove_frame n jb = Some (of_nat (min n (length (kept (window ?fl)))), jb\<lparr>jb_framelist := fl'\<rparr>)"
      using r(1) m(1) round(1) by (simp add: pjmedia_jbuf_remove_frame_def)
    have w: "win_of fl' = snd (win_remove (n + j) (jb_win jb))" using m(3) r(3) win_remove_remove by simp
    then show "jb_win (jb\<lparr>jb_framelist := fl'\<rparr>) = snd (win_remove (n + j) (jb_win jb))" by simp
    show "jb_inv (jb\<lparr>jb_framelist := fl'\<rparr>)" using jb_inv_get [OF inv m(2) _ _ w] m(4,5) r(4,5) fl by simp
    show "kept (window (jb_framelist (jb\<lparr>jb_framelist := fl'\<rparr>))) = drop n (kept (window ?fl))"
      using m(6) round(2) by simp
    show "keeps_config jb (jb\<lparr>jb_framelist := fl'\<rparr>)" by (simp add: keeps_config_def)
  qed
qed

end
