(* ===== verification/PJ_JbufTrace.thy ===== *)
theory PJ_JbufTrace
  imports PJ_Jbuf
begin

text \<open>
  Sequences of calls of the jitter buffer: none of them hangs and the buffer stays well formed, frames
  come out in the order of their sequence numbers and with the bytes that were put in, and
  a buffer that was only created never adapts its prefetch. The cases in which the code
  does something else are stated as well.
\<close>

section \<open>Calls\<close>

datatype jb_call =
    Put bytes nat pj_uint32_t int pj_uint32_t
  | Get
  | Remove nat
  | Reset
  | Fixed nat
  | Adaptive nat nat nat
  | Discard_algo int

fun jb_exec :: "jb_call \<Rightarrow> pjmedia_jbuf \<Rightarrow> (jb_got list \<times> pjmedia_jbuf) option" where
  "jb_exec (Put frame n bit_info seq ts) jb = map_option (\<lambda>(d, jb). ([], jb)) (pjmedia_jbuf_put_frame3 frame n bit_info seq ts jb)"
| "jb_exec Get jb = map_option (\<lambda>(g, jb). ([g], jb)) (pjmedia_jbuf_get_frame3 jb)"
| "jb_exec (Remove n) jb = map_option (\<lambda>(c, jb). ([], jb)) (pjmedia_jbuf_remove_frame n jb)"
| "jb_exec Reset jb = Some ([], pjmedia_jbuf_reset jb)"
| "jb_exec (Fixed n) jb = Some ([], snd (pjmedia_jbuf_set_fixed n jb))"
| "jb_exec (Adaptive p lo hi) jb = Some ([], snd (pjmedia_jbuf_set_adaptive p lo hi jb))"
| "jb_exec (Discard_algo a) jb = Some ([], snd (pjmedia_jbuf_set_discard a jb))"

fun jb_run :: "jb_call list \<Rightarrow> pjmedia_jbuf \<Rightarrow> (jb_got list \<times> pjmedia_jbuf) option" where
  "jb_run [] jb = Some ([], jb)"
| "jb_run (c # cs) jb =
     do {
       (gs, jb) \<leftarrow> jb_exec c jb;
       (gs', jb) \<leftarrow> jb_run cs jb;
       Some (gs @ gs', jb)
     }"

text \<open>
  A frame to put has as many bytes as announced, and the static algorithm is not chosen while
  the buffer holds slots that the progressive one discarded.
\<close>

fun call_ok :: "jb_call \<Rightarrow> pjmedia_jbuf \<Rightarrow> bool" where
  "call_ok (Put frame n bit_info seq ts) jb = (n \<le> length frame)"
| "call_ok (Discard_algo a) jb = (a = 1 \<longrightarrow> Discarded \<notin> set (window (jb_framelist jb)))"
| "call_ok c jb = True"

fun calls_ok :: "jb_call list \<Rightarrow> pjmedia_jbuf \<Rightarrow> bool" where
  "calls_ok [] jb = True"
| "calls_ok (c # cs) jb = (call_ok c jb \<and> (case jb_exec c jb of None \<Rightarrow> True | Some (gs, jb) \<Rightarrow> calls_ok cs jb))"

lemma reset_inv: "jb_inv jb \<Longrightarrow> jb_inv (pjmedia_jbuf_reset jb)"
  using reset_correct [of "jb_framelist jb"]
  by (simp add: jb_inv_def buffer_ok_def settings_ok_def levels_ok_def pjmedia_jbuf_reset_def fl_inv_shape no_discarded_after_none)

lemma set_discard_inv: "jb_inv jb \<Longrightarrow> call_ok (Discard_algo a) jb \<Longrightarrow> jb_inv (snd (pjmedia_jbuf_set_discard a jb))"
  by (auto simp: jb_inv_def buffer_ok_def settings_ok_def levels_ok_def pjmedia_jbuf_set_discard_def)

lemma set_fixed_inv: "jb_inv jb \<Longrightarrow> jb_inv (snd (pjmedia_jbuf_set_fixed n jb))"
  by (auto simp: jb_inv_def buffer_ok_def settings_ok_def levels_ok_def pjmedia_jbuf_set_fixed_def pjmedia_jbuf_set_discard_def Let_def)

lemma set_adaptive_inv: "jb_inv jb \<Longrightarrow> jb_inv (snd (pjmedia_jbuf_set_adaptive p lo hi jb))"
  by (auto simp: jb_inv_def buffer_ok_def settings_ok_def levels_ok_def pjmedia_jbuf_set_adaptive_def)

lemma exec_correct:
  assumes inv: "jb_inv jb" and ok: "call_ok c jb"
  obtains gs jb' where "jb_exec c jb = Some (gs, jb')" "jb_inv jb'"
proof (cases c)
  case (Put frame n b seq ts)
  then show ?thesis using put_frame3_correct [OF inv, of n frame b seq ts] ok that by auto
next
  case Get
  then show ?thesis using get_frame3_correct [OF inv] that by auto
next
  case (Remove n)
  then show ?thesis using remove_frame_correct [OF inv, of n] that by auto
qed (use that inv ok reset_inv set_discard_inv set_fixed_inv set_adaptive_inv in auto)

lemma run_correct: "jb_inv jb \<Longrightarrow> calls_ok cs jb \<Longrightarrow> \<exists>gs jb'. jb_run cs jb = Some (gs, jb') \<and> jb_inv jb'"
proof (induction cs arbitrary: jb)
  case (Cons c cs)
  obtain gs jb' where e: "jb_exec c jb = Some (gs, jb')" "jb_inv jb'" using exec_correct [of jb c] Cons.prems by auto
  then show ?case using Cons.IH [OF e(2)] Cons.prems by auto
qed simp

lemma jbuf_create_inv:
  assumes "pjmedia_jbuf_create mem fs ptime cap = Some jb" "memory_ok fs cap mem" "0 < cap" "cap < 2 ^ 29" "ptime \<le> 200"
  shows "jb_inv jb" "window (jb_framelist jb) = []" "jb_frame_size jb = fs" "jb_max_count jb = cap" "jb_init_prefetch jb = 0"
proof -
  let ?c = "of_nat cap :: pj_uint32_t"
  have p: "ptime \<noteq> 0" using assms(1) by (auto simp: pjmedia_jbuf_create_def split: if_splits)
  have u: "unat (?c * 4 div 5) = cap * 4 div 5" "unat (?c * 3 div 4) = cap * 3 div 4"
    using assms(4) by (simp_all add: unat_div unat_word_ariths unat_of_nat)
  have s1: "sint (?c * 4 div 5) = int (cap * 4 div 5)" using u assms(4) by (subst sint_small) simp_all
  have "unat (min 15 (?c * 4 div 5)) = min 15 (cap * 4 div 5)" using u by (simp add: min_def word_le_nat_alt)
  then have s2: "sint (min 15 (?c * 4 div 5)) = int (min 15 (cap * 4 div 5))" by (subst sint_small) simp_all
  have g: "unat (200 div ptime) = 200 div unat ptime" by (simp add: unat_div)
  have pt: "0 < unat ptime" "unat ptime \<le> 200" using p assms(5) by (auto simp: unat_gt_0 word_le_nat_alt)
  have "1 \<le> 200 div unat ptime" using pt by (simp add: less_eq_div_iff_mult_less_eq)
  moreover have "200 div unat ptime \<le> 200" by simp
  moreover have "sint (200 div ptime) = int (200 div unat ptime)"
    using sint_small [of "200 div ptime"] \<open>200 div unat ptime \<le> 200\<close> unfolding g by simp
  ultimately have s3: "1 \<le> sint (200 div ptime)" "sint (200 div ptime) \<le> 200" by linarith+
  have "unat (max (1000 div ptime) (?c * 3 div 4)) < 2 ^ 31"
  proof -
    have "unat (1000 div ptime) \<le> 1000" by (simp add: unat_div)
    moreover have "cap * 3 div 4 < 2 ^ 31" using assms(4) by simp
    ultimately show ?thesis using u by (simp add: max_def)
  qed
  then have s4: "0 \<le> sint (max (1000 div ptime) (?c * 3 div 4))" by (subst sint_small) simp_all
  note init = init_correct [OF assms(2-4)]
  note reset = reset_correct [OF fl_inv_shape [OF init(1)]]
  have jb: "jb_framelist jb = jb_framelist_reset (jb_framelist_init mem fs cap)" "jb_prefetch jb = int (min 15 (cap * 4 div 5))"
    "jb_min_prefetch jb = 0" "jb_max_prefetch jb = int (cap * 4 div 5)" "jb_frame_ptime jb = ptime" "jb_frame_size jb = fs"
    "jb_max_count jb = cap" "1 \<le> jb_min_shrink_gap jb" "jb_min_shrink_gap jb \<le> 200" "0 \<le> jb_max_burst jb" "jb_level jb = 0"
    "jb_eff_level jb = 0" "jb_max_hist_level jb = 0" "jb_init_prefetch jb = 0"
    using assms(1) p s1 s2 s3 s4
    by (auto simp: pjmedia_jbuf_create_def pjmedia_jbuf_set_discard_def pjmedia_jbuf_reset_def Let_def jb_consts)
  show "window (jb_framelist jb) = []" using reset jb(1) by simp
  then show "jb_inv jb" using jb reset init p
    by (auto simp: jb_inv_def buffer_ok_def settings_ok_def levels_ok_def no_discarded_after_none)
  show "jb_frame_size jb = fs" "jb_max_count jb = cap" "jb_init_prefetch jb = 0" by (rule jb)+
qed


section \<open>What holds of every window holds of every call\<close>

text \<open>
  A property of windows that the contract of the frame list keeps, for frames satisfying \<open>ok\<close> that are
  not so old that the sequence restarts, is kept by the buffer's calls.
\<close>

locale window_property =
  fixes P :: "jb_window \<Rightarrow> bool" and ok :: "int \<Rightarrow> jb_slot \<Rightarrow> bool"
  assumes P_remove: "P w \<Longrightarrow> P (snd (win_remove n w))"
    and P_discard: "P w \<Longrightarrow> fst w \<le> i \<Longrightarrow> i < fst w + int (length (snd w)) \<Longrightarrow> P (win_discard i w)"
    and P_put: "P w \<Longrightarrow> ok i s \<Longrightarrow> fst w - MAX_MISORDER < i \<Longrightarrow> P (snd (win_put cap i s w))"
begin

lemma P_shrinks: "P w \<Longrightarrow> shrinks w w' \<Longrightarrow> P w'"
  by (auto simp: shrinks_def P_remove P_discard)

lemma P_get: "P w \<Longrightarrow> P (snd (win_get w))"
  using win_get_drop [of w] P_remove by metis

lemma P_store:
  assumes "P w" "ok i s" "fst w - MAX_MISORDER < i" "length (snd w) \<le> cap" "0 < cap"
  shows "P (snd (win_store cap i s w))"
proof (cases "fst (win_put cap i s w) = PJ_ETOOMANY")
  case True
  obtain o1 ss where w: "w = (o1, ss)" by (cases w)
  obtain o2 where o2: "win_put cap i s w = (PJ_ETOOMANY, o2, ss)" "int cap \<le> i - o2"
    using win_put_too_many [of cap i s o1 ss] True assms unfolding w by auto
  define k where "k = nat (i - o2 - int cap + 1)"
  have P2: "P (snd (win_remove k (o2, ss)))" using P_put [OF assms(1-3), of cap] o2 P_remove by simp
  have "fst (snd (win_remove k (o2, ss))) - MAX_MISORDER < i"
    using o2(2) assms(5) by (auto simp: win_remove_def MAX_MISORDER_def k_def)
  then show ?thesis using P_put [OF P2 assms(2)] o2(1) by (simp add: win_store_def k_def)
next
  case False
  then show ?thesis using P_put [OF assms(1-3), of cap] by (simp add: win_store_def case_prod_beta)
qed

lemma P_put_frame3:
  assumes inv: "jb_inv jb" and n: "n \<le> length frame" and P: "P (jb_win jb)"
    and ok: "ok seq (Frame (take (min n (jb_frame_size jb)) frame) b ts)" "fl_origin (jb_framelist jb) - MAX_MISORDER < seq"
    and r: "pjmedia_jbuf_put_frame3 frame n b seq ts jb = Some (d, jb')"
  shows "P (jb_win jb')"
proof -
  let ?s = "Frame (take (min n (jb_frame_size jb)) frame) b ts"
  have size: "length (snd (jb_win jb)) \<le> jb_max_count jb" "0 < jb_max_count jb"
    using inv by (auto simp: jb_inv_def buffer_ok_def fl_inv_def fl_shape_def)
  obtain jb1 st w where "pjmedia_jbuf_put_frame3 frame n b seq ts jb = Some (st \<noteq> PJ_SUCCESS, jb1)"
    "win_store (jb_max_count jb) seq ?s (jb_win jb) = (st, w)" "if st = PJ_SUCCESS then shrinks w (jb_win jb1) else jb_win jb1 = w"
    using put_frame3_correct [OF inv n, of b seq ts] by blast
  moreover from this have "P w" using P_store [OF P ok(1) _ size] ok(2) by simp
  moreover have "jb1 = jb'" using calculation(1) r by simp
  ultimately show ?thesis using P_shrinks by (auto split: if_splits)
qed

lemma P_get_frame3:
  assumes inv: "jb_inv jb" and P: "P (jb_win jb)" and r: "pjmedia_jbuf_get_frame3 jb = Some (g, jb')"
  shows "P (jb_win jb')"
proof -
  let ?w = "if jb_prefetching jb then jb_win jb else snd (win_get (jb_win jb))"
  obtain g1 jb1 where "pjmedia_jbuf_get_frame3 jb = Some (g1, jb1)" "shrinks ?w (jb_win jb1)"
    using get_frame3_correct [OF inv] by blast
  moreover have "P ?w" using P P_get by simp
  ultimately show ?thesis using r P_shrinks [of ?w] by simp
qed

lemma P_remove_frame:
  assumes inv: "jb_inv jb" and P: "P (jb_win jb)" and r: "pjmedia_jbuf_remove_frame n jb = Some (c, jb')"
  shows "P (jb_win jb')"
proof -
  obtain c1 jb1 k where "pjmedia_jbuf_remove_frame n jb = Some (c1, jb1)" "jb_win jb1 = snd (win_remove k (jb_win jb))"
    using remove_frame_correct [OF inv, of n] by blast
  then show ?thesis using r P P_remove by simp
qed

end

section \<open>Where frames come from, and in which order\<close>

text \<open>Every frame in the window was put with its number, and no number is below a bound.\<close>

definition stored_in :: "(int \<times> jb_slot) set \<Rightarrow> jb_window \<Rightarrow> bool" where
  "stored_in S w \<longleftrightarrow>
     (\<forall>i < length (snd w). snd w ! i \<notin> {Missing, Discarded} \<longrightarrow> (fst w + int i, snd w ! i) \<in> S)"

definition starts_at_least :: "int \<Rightarrow> jb_window \<Rightarrow> bool" where
  "starts_at_least k w \<longleftrightarrow> k \<le> fst w"

lemma win_put_forward:
  assumes "fst w - MAX_MISORDER < i"
  shows "win_put cap i s w =
    (if i < fst w then (PJ_ETOOSMALL, w)
     else let o1 = (if snd w = [] then i else fst w); d = i - o1
       in if d \<ge> int cap then if d > MAX_DROPOUT then (PJ_SUCCESS, i, [s]) else (PJ_ETOOMANY, o1, snd w)
          else if nat d < length (snd w) then
            if snd w ! nat d = Missing then (PJ_SUCCESS, o1, (snd w)[nat d := s]) else (PJ_EEXISTS, o1, snd w)
          else (PJ_SUCCESS, o1, snd w @ replicate (nat d - length (snd w)) Missing @ [s]))"
  using assms by (cases w) (auto simp: win_put_def Let_def)

interpretation stored: window_property "stored_in S" "\<lambda>i s. (i, s) \<in> S" for S
proof
  fix w :: jb_window and n :: nat
  assume P: "stored_in S w"
  obtain o1 ss where w: "w = (o1, ss)" by (cases w)
  show "stored_in S (snd (win_remove n w))"
  proof (cases "n \<le> length ss")
    case True
    have "(o1 + int n + int i, ss ! (n + i)) \<in> S"
      if "i < length ss - n" "ss ! (n + i) \<noteq> Missing" "ss ! (n + i) \<noteq> Discarded" for i
      using P that unfolding stored_in_def w by (auto dest!: spec [of _ "n + i"] simp: add.assoc)
    then show ?thesis using True unfolding stored_in_def w win_remove_def by (auto simp: min_def)
  qed (simp add: stored_in_def w win_remove_def)
next
  fix w :: jb_window and i :: int
  assume "stored_in S w" "fst w \<le> i" "i < fst w + int (length (snd w))"
  then show "stored_in S (win_discard i w)"
    by (cases w) (auto simp: stored_in_def win_discard_def nth_list_update)
next
  fix w :: jb_window and i :: int and s :: jb_slot and cap :: nat
  assume P: "stored_in S w" "(i, s) \<in> S" "fst w - MAX_MISORDER < i"
  have tail: "a + int j = i" if "j < Suc (nat (i - a))" "\<not> j - l < nat (i - a) - l" "\<not> j < l" "\<not> i < a" for a j and l :: nat
    using that by linarith
  from P show "stored_in S (snd (win_put cap i s w))"
    by (cases w) (auto simp: win_put_forward Let_def stored_in_def nth_list_update nth_append dest: tail)
qed

interpretation ordered: window_property "starts_at_least k" "\<lambda>i s. True" for k
proof
  fix w :: jb_window and n :: nat
  assume "starts_at_least k w"
  then show "starts_at_least k (snd (win_remove n w))" by (cases w) (auto simp: starts_at_least_def win_remove_def)
next
  fix w :: jb_window and i :: int
  assume "starts_at_least k w"
  then show "starts_at_least k (win_discard i w)" by (cases w) (auto simp: starts_at_least_def win_discard_def)
next
  fix w :: jb_window and i :: int and s :: jb_slot and cap :: nat
  assume "starts_at_least k w" "fst w - MAX_MISORDER < i"
  then show "starts_at_least k (snd (win_put cap i s w))"
    by (cases w) (auto simp: win_put_forward Let_def starts_at_least_def)
qed

text \<open>
  Calls under which the sequence never restarts: frames at most \<^verbatim>\<open>MAX_MISORDER\<close> behind the
  next one to deliver, retrievals and removals.
\<close>

fun forward_call :: "jb_call \<Rightarrow> pjmedia_jbuf \<Rightarrow> bool" where
  "forward_call (Put frame n bit_info seq ts) jb =
     (n \<le> length frame \<and> fl_origin (jb_framelist jb) - MAX_MISORDER < seq)"
| "forward_call Get jb = True"
| "forward_call (Remove n) jb = True"
| "forward_call c jb = False"

fun forward :: "jb_call list \<Rightarrow> pjmedia_jbuf \<Rightarrow> bool" where
  "forward [] jb = True"
| "forward (c # cs) jb = (forward_call c jb \<and> (case jb_exec c jb of None \<Rightarrow> True | Some (gs, jb) \<Rightarrow> forward cs jb))"

fun frames_put :: "nat \<Rightarrow> jb_call list \<Rightarrow> (int \<times> jb_slot) list" where
  "frames_put fs [] = []"
| "frames_put fs (Put frame n bit_info seq ts # cs) = (seq, Frame (take (min n fs) frame) bit_info ts) # frames_put fs cs"
| "frames_put fs (c # cs) = frames_put fs cs"

lemma frames_put_Cons: "set (frames_put fs (c # cs)) = set (frames_put fs [c]) \<union> set (frames_put fs cs)"
  by (cases c) auto

text \<open>One call: what it delivers is in the window and lies between the numbers before and after.\<close>

definition delivered_ok :: "(int \<times> jb_slot) set \<Rightarrow> int \<Rightarrow> int \<Rightarrow> jb_got list \<Rightarrow> bool" where
  "delivered_ok S lo hi gs \<longleftrightarrow>
     sorted_wrt (<) (List.map_filter got_seq gs) \<and>
     (\<forall>n \<in> set (List.map_filter got_seq gs). lo \<le> n \<and> n < hi) \<and>
     (\<forall>g \<in> set gs. got_type g = Some PJMEDIA_JB_NORMAL_FRAME \<longrightarrow>
        (\<exists>n f b t. (n, Frame f b t) \<in> S \<and> reports (Frame f b t) n g))"

lemma delivered_append:
  "delivered_ok S lo mid gs \<Longrightarrow> delivered_ok S mid hi gs' \<Longrightarrow> lo \<le> mid \<Longrightarrow> mid \<le> hi \<Longrightarrow> delivered_ok S lo hi (gs @ gs')"
  unfolding delivered_ok_def by (fastforce simp: List.map_filter_def sorted_wrt_append)

lemma win_get_head:
  assumes "fst (win_get w) = Some (s, n)" "stored_in S w"
  shows "fst w \<le> n" "n < fst (snd (win_get w))" "s = Frame f b t \<Longrightarrow> (n, s) \<in> S"
proof -
  obtain o1 ss where w: "w = (o1, ss)" by (cases w)
  let ?k = "length (takeWhile (\<lambda>s. s = Discarded) ss)"
  obtain x rest where d: "dropWhile (\<lambda>s. s = Discarded) ss = x # rest" "n = o1 + int ?k" "s = (if ?k \<noteq> 0 then Missing else x)"
    using assms(1) by (auto simp: win_get_def w Let_def split: list.splits)
  show "fst w \<le> n" "n < fst (snd (win_get w))" using d by (auto simp: win_get_def w Let_def)
  assume s: "s = Frame f b t"
  then have "?k = 0" "s = x" using d(3) by (auto split: if_splits)
  then have "ss = x # rest" using d(1) takeWhile_dropWhile_id [of "\<lambda>s. s = Discarded" ss] by simp
  then show "(n, s) \<in> S" using assms(2) d(2) s \<open>?k = 0\<close> \<open>s = x\<close> by (auto simp: stored_in_def w dest!: spec [of _ 0])
qed

lemma get_delivers:
  assumes inv: "jb_inv jb" and st: "stored_in S (jb_win jb)" and r: "pjmedia_jbuf_get_frame3 jb = Some (g, jb')"
  shows "delivered_ok S (fl_origin (jb_framelist jb)) (fl_origin (jb_framelist jb')) [g]"
proof -
  let ?w = "if jb_prefetching jb then jb_win jb else snd (win_get (jb_win jb))"
  obtain g1 jb1 where "pjmedia_jbuf_get_frame3 jb = Some (g1, jb1)" "got_ok jb g1" "shrinks ?w (jb_win jb1)"
    using get_frame3_correct [OF inv] by blast
  then have g: "got_ok jb g" "shrinks ?w (jb_win jb')" using r by simp_all
  have le: "starts_at_least (fst ?w) (jb_win jb')" using ordered.P_shrinks [OF _ g(2)] by (simp add: starts_at_least_def)
  show ?thesis
  proof (cases "jb_prefetching jb \<or> fst (win_get (jb_win jb)) = None")
    case True
    then show ?thesis using g(1) by (auto simp: got_ok_def delivered_ok_def List.map_filter_def split: if_splits)
  next
    case False
    then obtain s n where sn: "fst (win_get (jb_win jb)) = Some (s, n)" by auto
    then have rep: "reports s n g" using g(1) False by (simp add: got_ok_def)
    have n: "fl_origin (jb_framelist jb) \<le> n" "n < fl_origin (jb_framelist jb')"
      using win_get_head(1,2) [OF sn st] le False by (auto simp: starts_at_least_def)
    have "\<exists>f b t. (n, Frame f b t) \<in> S \<and> reports (Frame f b t) n g" if "got_type g = Some PJMEDIA_JB_NORMAL_FRAME"
      using rep that win_get_head(3) [OF sn st] by (cases s) (auto simp: reports_def)
    then show ?thesis using rep n by (auto simp: delivered_ok_def List.map_filter_def reports_def)
  qed
qed

lemma forward_exec:
  assumes inv: "jb_inv jb" and f: "forward_call c jb" and st: "stored_in S (jb_win jb)"
    and puts: "set (frames_put (jb_frame_size jb) [c]) \<subseteq> S"
  obtains gs jb' where "jb_exec c jb = Some (gs, jb')" "jb_inv jb'" "stored_in S (jb_win jb')" "keeps_config jb jb'"
    "fl_origin (jb_framelist jb) \<le> fl_origin (jb_framelist jb')"
    "delivered_ok S (fl_origin (jb_framelist jb)) (fl_origin (jb_framelist jb')) gs"
proof (cases c)
  case (Put frame n b seq ts)
  then have n: "n \<le> length frame" "fl_origin (jb_framelist jb) - MAX_MISORDER < seq"
    and S: "(seq, Frame (take (min n (jb_frame_size jb)) frame) b ts) \<in> S" using f puts by auto
  obtain d jb' where r: "pjmedia_jbuf_put_frame3 frame n b seq ts jb = Some (d, jb')" "jb_inv jb'" "keeps_config jb jb'"
    using put_frame3_correct [OF inv n(1), of b seq ts] by metis
  have "starts_at_least (fl_origin (jb_framelist jb)) (jb_win jb')"
    using ordered.P_put_frame3 [OF inv n(1) _ _ n(2) r(1)] by (simp add: starts_at_least_def)
  then show ?thesis using r stored.P_put_frame3 [OF inv n(1) st S n(2) r(1)] Put
    by (intro that [of "[]" jb']) (simp_all add: starts_at_least_def delivered_ok_def List.map_filter_def)
next
  case Get
  obtain g jb' where r: "pjmedia_jbuf_get_frame3 jb = Some (g, jb')" "jb_inv jb'" "keeps_config jb jb'"
    using get_frame3_correct [OF inv] by metis
  have "starts_at_least (fl_origin (jb_framelist jb)) (jb_win jb')"
    using ordered.P_get_frame3 [OF inv _ r(1)] by (simp add: starts_at_least_def)
  then show ?thesis using r stored.P_get_frame3 [OF inv st r(1)] get_delivers [OF inv st r(1)] Get
    by (intro that [of "[g]" jb']) (simp_all add: starts_at_least_def)
next
  case (Remove n)
  obtain k jb' where r: "pjmedia_jbuf_remove_frame n jb = Some (k, jb')" "jb_inv jb'" "keeps_config jb jb'"
    using remove_frame_correct [OF inv, of n] by metis
  have "starts_at_least (fl_origin (jb_framelist jb)) (jb_win jb')"
    using ordered.P_remove_frame [OF inv _ r(1)] by (simp add: starts_at_least_def)
  then show ?thesis using r stored.P_remove_frame [OF inv st r(1)] Remove
    by (intro that [of "[]" jb']) (simp_all add: starts_at_least_def delivered_ok_def List.map_filter_def)
qed (use f in auto)

lemma forward_run:
  "jb_inv jb \<Longrightarrow> forward cs jb \<Longrightarrow> stored_in S (jb_win jb) \<Longrightarrow> set (frames_put (jb_frame_size jb) cs) \<subseteq> S \<Longrightarrow>
   \<exists>gs jb'. jb_run cs jb = Some (gs, jb') \<and> keeps_config jb jb' \<and> fl_origin (jb_framelist jb) \<le> fl_origin (jb_framelist jb') \<and>
     delivered_ok S (fl_origin (jb_framelist jb)) (fl_origin (jb_framelist jb')) gs"
proof (induction cs arbitrary: jb)
  case Nil
  then show ?case by (simp add: delivered_ok_def keeps_config_def List.map_filter_def)
next
  case (Cons c cs)
  have S: "set (frames_put (jb_frame_size jb) [c]) \<subseteq> S" "set (frames_put (jb_frame_size jb) cs) \<subseteq> S"
    using Cons.prems(4) frames_put_Cons [of "jb_frame_size jb" c cs] by auto
  obtain gs jb1 where e: "jb_exec c jb = Some (gs, jb1)" "jb_inv jb1" "stored_in S (jb_win jb1)" "keeps_config jb jb1"
    "fl_origin (jb_framelist jb) \<le> fl_origin (jb_framelist jb1)"
    "delivered_ok S (fl_origin (jb_framelist jb)) (fl_origin (jb_framelist jb1)) gs"
    using forward_exec [OF Cons.prems(1) _ Cons.prems(3) S(1)] Cons.prems(2) by auto
  obtain gs' jb' where r: "jb_run cs jb1 = Some (gs', jb')" "keeps_config jb1 jb'"
    "fl_origin (jb_framelist jb1) \<le> fl_origin (jb_framelist jb')"
    "delivered_ok S (fl_origin (jb_framelist jb1)) (fl_origin (jb_framelist jb')) gs'"
    using Cons.IH [OF e(2) _ e(3)] Cons.prems(2) e(1,4) S(2) by (auto simp: keeps_config_def)
  show ?case using e r delivered_append [OF e(6) r(4) e(5) r(3)] by (auto intro: keeps_config_trans)
qed


text \<open>
  a buffer that was created and neither set to adaptive nor to fixed mode never changes its
  prefetch, whatever jitter it sees.\<close>

theorem jbuf_created_never_adapts:
  assumes "pjmedia_jbuf_create mem fs ptime cap = Some jb0" "memory_ok fs cap mem" "0 < cap" "cap < 2 ^ 29" "ptime \<le> 200"
    "forward cs jb0"
  shows "\<exists>gs jb. jb_run cs jb0 = Some (gs, jb) \<and> jb_prefetch jb = jb_prefetch jb0"
proof -
  note jb0 = jbuf_create_inv [OF assms(1-5)]
  have "stored_in (set (frames_put fs cs)) (jb_win jb0)" by (simp add: stored_in_def jb0 flip: length_window)
  then show ?thesis using forward_run [OF jb0(1) assms(6), of "set (frames_put fs cs)"] jb0(3,5)
    unfolding keeps_config_def by blast
qed

section \<open>Which frames are accepted, peeked and removed\<close>

lemma win_store_status:
  assumes "length ss \<le> cap" "0 < cap"
  shows "fst (win_store cap i s (o1, ss)) =
    (if i < o1 \<and> o1 - i < MAX_MISORDER then PJ_ETOOSMALL
     else if o1 \<le> i \<and> nat (i - o1) < length ss \<and> ss ! nat (i - o1) \<noteq> Missing then PJ_EEXISTS else PJ_SUCCESS)"
proof (cases "fst (win_put cap i s (o1, ss)) = PJ_ETOOMANY")
  case True
  then obtain o2 where o2: "win_put cap i s (o1, ss) = (PJ_ETOOMANY, o2, ss)" "int cap \<le> i - o2"
    "fst (win_put cap i s (snd (win_remove (nat (i - o2 - int cap + 1)) (o2, ss)))) = PJ_SUCCESS"
    using win_put_too_many [OF _ assms] by metis
  have "\<not> (i < o1 \<and> o1 - i < MAX_MISORDER)" using True by (auto simp: win_put_def split: if_splits)
  moreover have "\<not> (o1 \<le> i \<and> nat (i - o1) < length ss)"
    using o2(1,2) assms(1) by (auto simp: win_put_def Let_def split: if_splits)
  ultimately show ?thesis using o2(1,3) by (auto simp: win_store_def)
next
  case False
  then have "fst (win_store cap i s (o1, ss)) = fst (win_put cap i s (o1, ss))" by (simp add: win_store_def case_prod_beta)
  then show ?thesis using False assms by (auto simp: win_put_def Let_def MAX_DROPOUT_def)
qed

text \<open>
  C19: a frame is refused exactly if it is late, that is at most \<^verbatim>\<open>MAX_MISORDER\<close> behind the next one to
  deliver, or if the slot of its number is taken. In particular a full buffer makes room for it.\<close>

theorem jbuf_put_refuses:
  assumes "jb_inv jb" "n \<le> length frame"
  defines "fl \<equiv> jb_framelist jb"
  shows "\<exists>refused jb'. pjmedia_jbuf_put_frame3 frame n bit_info seq ts jb = Some (refused, jb') \<and> jb_inv jb' \<and>
    (refused \<longleftrightarrow> seq < fl_origin fl \<and> fl_origin fl - seq < MAX_MISORDER \<or>
       fl_origin fl \<le> seq \<and> nat (seq - fl_origin fl) < fl_size fl \<and> window fl ! nat (seq - fl_origin fl) \<noteq> Missing)"
proof -
  have size: "length (window fl) \<le> jb_max_count jb" "0 < jb_max_count jb"
    using assms(1) by (auto simp: fl_def jb_inv_def buffer_ok_def fl_inv_def fl_shape_def)
  obtain jb' st w where r: "pjmedia_jbuf_put_frame3 frame n bit_info seq ts jb = Some (st \<noteq> PJ_SUCCESS, jb')" "jb_inv jb'"
    "win_store (jb_max_count jb) seq (Frame (take (min n (jb_frame_size jb)) frame) bit_info ts) (win_of fl) = (st, w)"
    using put_frame3_correct [OF assms(1,2), of bit_info seq ts] unfolding fl_def by metis
  have "st = (if seq < fl_origin fl \<and> fl_origin fl - seq < MAX_MISORDER then PJ_ETOOSMALL
     else if fl_origin fl \<le> seq \<and> nat (seq - fl_origin fl) < length (window fl) \<and> window fl ! nat (seq - fl_origin fl) \<noteq> Missing
     then PJ_EEXISTS else PJ_SUCCESS)"
    using r(3) win_store_status [OF size] unfolding win_of_def by (metis fst_conv)
  then show ?thesis using r(1,2) by auto
qed

text \<open>
  C30: peeking at an offset gives the slot at this position among those that are not discarded, but
  the sequence number it reports is too small by the number of discarded slots before it.\<close>

theorem jbuf_peek_number:
  assumes "jb_inv jb" "unat offset < length (kept (window (jb_framelist jb)))"
  shows "\<exists>k g. k < fl_size (jb_framelist jb) \<and> pjmedia_jbuf_peek_frame offset jb = Some g \<and>
    window (jb_framelist jb) ! k = kept (window (jb_framelist jb)) ! unat offset \<and>
    reports (window (jb_framelist jb) ! k) (fl_origin (jb_framelist jb) + int k -
      int (length (filter (\<lambda>s. s = Discarded) (take k (window (jb_framelist jb)))))) g"
proof -
  let ?w = "window (jb_framelist jb)"
  have inv: "fl_inv (jb_framelist jb)" using assms(1) by (simp add: jb_inv_def buffer_ok_def)
  obtain k g where k: "k < fl_size (jb_framelist jb)" "jb_framelist_peek offset (jb_framelist jb) = Some (Some g)"
    "?w ! k \<noteq> Discarded" "length (kept (take k ?w)) = unat offset"
    "reports (?w ! k) (fl_origin (jb_framelist jb) + int (unat offset)) g"
    using peek_correct [OF inv, of offset] assms(2) by auto
  have "?w = take k ?w @ ?w ! k # drop (Suc k) ?w" using k(1) by (simp add: id_take_nth_drop)
  then have "kept ?w = kept (take k ?w) @ ?w ! k # kept (drop (Suc k) ?w)"
    using k(3) by (metis (mono_tags, lifting) filter.simps(2) filter_append)
  then have nth: "kept ?w ! unat offset = ?w ! k" using k(4) by (metis nth_append_length)
  have "unat offset + length (filter (\<lambda>s. s = Discarded) (take k ?w)) = k"
    using kept_take [of k ?w] k(1,4) by simp
  then have eq: "fl_origin (jb_framelist jb) + int (unat offset) =
      fl_origin (jb_framelist jb) + int k - int (length (filter (\<lambda>s. s = Discarded) (take k ?w)))" by linarith
  have rep: "reports (?w ! k) (fl_origin (jb_framelist jb) + int k - int (length (filter (\<lambda>s. s = Discarded) (take k ?w)))) g"
    using k(5) unfolding eq .
  have "pjmedia_jbuf_peek_frame offset jb = Some g"
    using k(2) reports_type [OF k(5,3)] got_type_same [of g PJMEDIA_JB_MISSING_FRAME]
    by (auto simp: pjmedia_jbuf_peek_frame_def split: jb_slot.splits)
  then show ?thesis using k(1) nth rep by metis
qed

definition blank_memory :: "nat \<Rightarrow> nat \<Rightarrow> jb_memory" where
  "blank_memory fs cap =
     \<lparr>mem_content = replicate cap (replicate fs 0), mem_bit_info = replicate cap 0, mem_ts = replicate cap 0\<rparr>"

definition put_seq :: "int \<Rightarrow> jb_call" where
  "put_seq seq = Put [7] 1 0 seq 0"

definition drift_calls :: "jb_call list" where
  "drift_calls =
     Adaptive 0 0 0 # map put_seq [1, 2, 3, 4, 5, 6, 7, 8, 9, 10, 11] @
     [Get, put_seq 12, Get, put_seq 13, Get, put_seq 14, Get, put_seq 15, Get, put_seq 17, put_seq 16] @ replicate 14 Get"

text \<open>
  with frames of more than 200 ms the progressive algorithm may discard the same slot twice, and
  the count of discarded frames drifts. Here a buffer that was filled with eleven frames and
  drained again is empty, but reports an effective size of \<^verbatim>\<open>2^32 - 1\<close>.\<close>

theorem jbuf_discards_twice:
  "map_option (\<lambda>(gs, jb). (fl_size (jb_framelist jb), jb_framelist_eff_size (jb_framelist jb)))
     (Option.bind (pjmedia_jbuf_create (blank_memory 1 16) 1 250 16) (jb_run drift_calls)) = Some (0, - 1)"
  by code_simp

section \<open>Concrete runs\<close>

definition demo_jbuf :: pjmedia_jbuf where
  "demo_jbuf = the (pjmedia_jbuf_create (blank_memory 1 4) 1 20 4)"

definition demo_calls :: "jb_call list" where
  "demo_calls = [put_seq 5, put_seq 7, put_seq 6, Get, Get, put_seq 6, Get, Remove 1, Get]"

lemma demo_created: "pjmedia_jbuf_create (blank_memory 1 4) 1 20 4 = Some demo_jbuf"
  by (simp add: demo_jbuf_def pjmedia_jbuf_create_def Let_def)

lemma demo_memory: "memory_ok 1 4 (blank_memory 1 4)"
  by code_simp

lemma demo_calls_ok: "calls_ok demo_calls demo_jbuf"
  by code_simp

lemma demo_forward: "forward demo_calls demo_jbuf"
  by code_simp

lemma demo_jbuf_inv: "jb_inv demo_jbuf"
  using jbuf_create_inv(1) [OF demo_created demo_memory] by simp



theorem jbuf_created_never_adapts_witness:
  "\<exists>gs jb. jb_run demo_calls demo_jbuf = Some (gs, jb) \<and> jb_prefetch jb = jb_prefetch demo_jbuf"
proof -
  have c: "(0::nat) < 4" "(4::nat) < 2 ^ 29" "(20::pj_uint32_t) \<le> 200" by simp_all
  from jbuf_created_never_adapts [OF demo_created demo_memory c demo_forward] show ?thesis by blast
qed

theorem jbuf_put_refuses_witness:
  "\<exists>refused jb'. pjmedia_jbuf_put_frame3 [7] 1 0 5 0 demo_jbuf = Some (refused, jb') \<and> jb_inv jb'"
proof -
  have "(1::nat) \<le> length [7 :: pj_uint8_t]" by simp
  from jbuf_put_refuses [OF demo_jbuf_inv this, of 0 5 0] show ?thesis by blast
qed

definition demo_filled :: pjmedia_jbuf where
  "demo_filled = snd (the (pjmedia_jbuf_put_frame3 [7] 1 0 5 0 demo_jbuf))"

theorem jbuf_peek_number_witness:
  "\<exists>k g. k < fl_size (jb_framelist demo_filled) \<and> pjmedia_jbuf_peek_frame 0 demo_filled = Some g"
proof -
  obtain d jb where p: "pjmedia_jbuf_put_frame3 [7] 1 0 5 0 demo_jbuf = Some (d, jb)" "jb_inv jb"
    by (rule put_frame3_correct [OF demo_jbuf_inv, of 1 "[7]" 0 5 0]) simp_all
  then have i: "jb_inv demo_filled" by (simp add: demo_filled_def)
  have l: "unat (0 :: pj_uint32_t) < length (kept (window (jb_framelist demo_filled)))" by code_simp
  from jbuf_peek_number [OF i l] show ?thesis by blast
qed

end
