(* ===== verification/PJ_Base64.thy ===== *)
theory PJ_Base64
  imports PJ_Prelude
begin

text \<open>
  Base64 encoding and decoding, \<^verbatim>\<open>pjlib-util/src/pjlib-util/base64.c\<close>: decoding inverts encoding,
  never writes past what it announces, and the inputs on which it reads before its buffer or
  fails its own assertion are characterised. Characters are bytes; the \<^verbatim>\<open>int\<close> digits are
  integers, as the invalid one is negative.
\<close>

section \<open>Digits\<close>

definition INV :: int where
  "INV = -1"

definition PADDING :: pj_uint8_t where
  "PADDING = 61"

text \<open>The table, in the order of the source: \<^verbatim>\<open>A\<close>-\<^verbatim>\<open>Z\<close>, \<^verbatim>\<open>a\<close>-\<^verbatim>\<open>z\<close>, \<^verbatim>\<open>0\<close>-\<^verbatim>\<open>9\<close>, \<^verbatim>\<open>+\<close>, \<^verbatim>\<open>/\<close>.\<close>

definition base64_char :: "pj_uint8_t list" where
  "base64_char = map of_nat ([65..<91] @ [97..<123] @ [48..<58] @ [43, 47])"

definition base256_char :: "pj_uint8_t \<Rightarrow> int" where
  "base256_char c =
     (if 65 \<le> c \<and> c \<le> 90 then uint c - 65
      else if 97 \<le> c \<and> c \<le> 122 then uint c - 97 + 26
      else if 48 \<le> c \<and> c \<le> 57 then uint c - 48 + 52
      else if c = 43 then 62
      else if c = 47 then 63
      else INV)"

section \<open>Encoding\<close>

definition base256to64 :: "pj_uint8_t \<Rightarrow> pj_uint8_t \<Rightarrow> pj_uint8_t \<Rightarrow> nat \<Rightarrow> bytes" where
  "base256to64 c1 c2 c3 padding =
     [base64_char ! unat (drop_bit 2 c1),
      base64_char ! unat (push_bit 4 (c1 AND 0x3) OR drop_bit 4 (c2 AND 0xF0))] @
     (if padding = 0 then
        [base64_char ! unat (push_bit 2 (c2 AND 0xF) OR drop_bit 6 (c3 AND 0xC0)), base64_char ! unat (c3 AND 0x3F)]
      else if padding = 1 then
        [base64_char ! unat (push_bit 2 (c2 AND 0xF) OR drop_bit 6 (c3 AND 0xC0)), PADDING]
      else [PADDING, PADDING])"

definition PJ_BASE256_TO_BASE64_LEN :: "int \<Rightarrow> int" where
  "PJ_BASE256_TO_BASE64_LEN len = c_div (len * 4) 3 + 3"

definition PJ_BASE64_TO_BASE256_LEN :: "int \<Rightarrow> int" where
  "PJ_BASE64_TO_BASE256_LEN len = c_div (len * 3) 4"

fun encode_loop :: "bytes \<Rightarrow> bytes" where
  "encode_loop [] = []"
| "encode_loop [c1] = base256to64 c1 0 0 2"
| "encode_loop [c1, c2] = base256to64 c1 c2 0 1"
| "encode_loop (c1 # c2 # c3 # rest) = base256to64 c1 c2 c3 0 @ encode_loop rest"

text \<open>The output with its length; nothing is written when the buffer is too small.\<close>

definition pj_base64_encode :: "bytes \<Rightarrow> int \<Rightarrow> pj_status_t \<times> bytes" where
  "pj_base64_encode input out_len =
     (if \<not> out_len \<ge> PJ_BASE256_TO_BASE64_LEN (int (length input)) then (PJ_ETOOSMALL, [])
      else (PJ_SUCCESS, encode_loop input))"

section \<open>Decoding\<close>

text \<open>
  \<open>Reads_before\<close> is a call that reads \<^verbatim>\<open>buf[-1]\<close>, and \<open>Assertion_fails\<close> one that reaches
  \<^verbatim>\<open>pj_assert(j < *out_len)\<close> with a false condition.
\<close>

datatype decode_outcome = Decode pj_status_t bytes | Reads_before | Assertion_fails

text \<open>The loop that drops trailing padding, on the reversed text. \<open>None\<close> is the read before the buffer.\<close>

fun strip_padding :: "bytes \<Rightarrow> bytes option" where
  "strip_padding [] = None"
| "strip_padding (c # cs) = (if c = PADDING then strip_padding cs else Some (c # cs))"

text \<open>One digit: the \<^verbatim>\<open>do\<close> loop that skips invalid characters, unless the text ends.\<close>

fun next_digit :: "bytes \<Rightarrow> int \<times> bytes" where
  "next_digit [] = (INV, [])"
| "next_digit (b # bs) = (if base256_char b = INV \<and> bs \<noteq> [] then next_digit bs else (base256_char b, bs))"

text \<open>\<open>fill k bs\<close> reads the digits that are left to read, at most \<open>k\<close> of them.\<close>

fun fill :: "nat \<Rightarrow> bytes \<Rightarrow> int list \<times> bytes" where
  "fill 0 bs = ([], bs)"
| "fill (Suc k) bs =
     (if bs = [] then ([], bs)
      else let (d, bs) = next_digit bs; (ds, bs) = fill k bs in (d # ds, bs))"

definition out_byte1 :: "int \<Rightarrow> int \<Rightarrow> pj_uint8_t" where
  "out_byte1 c0 c1 = of_int (push_bit 2 c0 OR drop_bit 4 (c1 AND 0x30))"

definition out_byte2 :: "int \<Rightarrow> int \<Rightarrow> pj_uint8_t" where
  "out_byte2 c1 c2 = of_int (push_bit 4 (c1 AND 0x0F) OR drop_bit 2 (c2 AND 0x3C))"

definition out_byte3 :: "int \<Rightarrow> int \<Rightarrow> pj_uint8_t" where
  "out_byte3 c2 c3 = of_int (push_bit 6 (c2 AND 0x03) OR (c3 AND 0x3F))"

lemma next_digit_shorter: "bs \<noteq> [] \<Longrightarrow> length (snd (next_digit bs)) < length bs"
  by (induction bs rule: next_digit.induct) (auto intro: less_SucI)

lemma fill_shorter: "length (snd (fill k bs)) \<le> length bs"
proof (induction k arbitrary: bs)
  case (Suc k)
  show ?case
    using Suc.IH [of "snd (next_digit bs)"] next_digit_shorter [of bs] by (auto simp: case_prod_beta Let_def)
qed simp

lemma fill_consumes: "bs \<noteq> [] \<Longrightarrow> length (snd (fill (Suc k) bs)) < length bs"
  using fill_shorter [of k "snd (next_digit bs)"] next_digit_shorter [of bs] by (simp add: case_prod_beta Let_def)

function decode_loop :: "bytes \<Rightarrow> bytes" where
  "decode_loop bs =
     (if bs = [] then []
      else case fill 4 bs of
             ([c0, c1, c2, c3], rest) \<Rightarrow> [out_byte1 c0 c1, out_byte2 c1 c2, out_byte3 c2 c3] @ decode_loop rest
           | ([c0, c1, c2], rest) \<Rightarrow> [out_byte1 c0 c1, out_byte2 c1 c2]
           | ([c0, c1], rest) \<Rightarrow> [out_byte1 c0 c1]
           | _ \<Rightarrow> [])"
  by pat_completeness auto
termination
proof (relation "measure length", goal_cases)
  case (2 bs)
  have "length (snd (fill 4 bs)) < length bs" using fill_consumes [OF 2(1), of 3] by (simp add: numeral_eq_Suc del: fill.simps)
  then show ?case using 2 by (metis in_measure snd_conv)
qed simp

declare decode_loop.simps [simp del]

definition pj_base64_decode :: "bytes \<Rightarrow> int \<Rightarrow> decode_outcome" where
  "pj_base64_decode input out_len =
     (case strip_padding (rev input) of
        None \<Rightarrow> Reads_before
      | Some cs \<Rightarrow>
          if \<not> out_len \<ge> PJ_BASE64_TO_BASE256_LEN (int (length cs)) then Decode PJ_ETOOSMALL []
          else let out = decode_loop (rev cs)
               in if int (length out) < out_len then Decode PJ_SUCCESS out else Assertion_fails)"

section \<open>Decoding inverts encoding\<close>

text \<open>Bit identities of the three output bytes, for digits given as bytes.\<close>

lemma bit_word8_cases: "(n :: nat) < 8 \<Longrightarrow> n \<in> {0, 1, 2, 3, 4, 5, 6, 7}"
  by simp arith

lemma group_bits:
  fixes a b c :: pj_uint8_t
  shows "push_bit 2 (drop_bit 2 a) OR drop_bit 4 ((push_bit 4 (a AND 0x3) OR drop_bit 4 (b AND 0xF0)) AND 0x30) = a"
    "push_bit 4 ((push_bit 4 (a AND 0x3) OR drop_bit 4 (b AND 0xF0)) AND 0x0F) OR
       drop_bit 2 ((push_bit 2 (b AND 0xF) OR drop_bit 6 (c AND 0xC0)) AND 0x3C) = b"
    "push_bit 6 ((push_bit 2 (b AND 0xF) OR drop_bit 6 (c AND 0xC0)) AND 0x03) OR ((c AND 0x3F) AND 0x3F) = c"
proof -
  note bits = bit_or_iff bit_and_iff bit_push_bit_iff bit_drop_bit_eq o_apply
  have lt: "n < LENGTH(8) \<Longrightarrow> n \<in> {0, 1, 2, 3, 4, 5, 6, 7}" for n
    using bit_word8_cases by simp
  show "push_bit 2 (drop_bit 2 a) OR drop_bit 4 ((push_bit 4 (a AND 0x3) OR drop_bit 4 (b AND 0xF0)) AND 0x30) = a"
    by (rule bit_word_eqI, drule lt, simp only: bits) (elim insertE emptyE; simp)
  show "push_bit 4 ((push_bit 4 (a AND 0x3) OR drop_bit 4 (b AND 0xF0)) AND 0x0F) OR
       drop_bit 2 ((push_bit 2 (b AND 0xF) OR drop_bit 6 (c AND 0xC0)) AND 0x3C) = b"
    by (rule bit_word_eqI, drule lt, simp only: bits) (elim insertE emptyE; simp)
  show "push_bit 6 ((push_bit 2 (b AND 0xF) OR drop_bit 6 (c AND 0xC0)) AND 0x03) OR ((c AND 0x3F) AND 0x3F) = c"
    by (rule bit_word_eqI, drule lt, simp only: bits) (elim insertE emptyE; simp)
qed

text \<open>The four digits of a group are below 64.\<close>

lemma digit_bits:
  fixes a b c :: pj_uint8_t
  shows "unat (drop_bit 2 a) < 64" "unat (push_bit 4 (a AND 0x3) OR drop_bit 4 (b AND 0xF0)) < 64"
    "unat (push_bit 2 (b AND 0xF) OR drop_bit 6 (c AND 0xC0)) < 64" "unat (c AND 0x3F) < 64"
proof -
  note bits = bit_or_iff bit_and_iff bit_push_bit_iff bit_drop_bit_eq o_apply
  have lt: "n < LENGTH(8) \<Longrightarrow> n \<in> {0, 1, 2, 3, 4, 5, 6, 7}" for n
    using bit_word8_cases by simp
  have less: "unat w < 64" if "w AND 0x3F = w" for w :: pj_uint8_t
  proof -
    have "w \<le> 0x3F" using that word_and_le1 [of w "0x3F"] by simp
    then show ?thesis by (simp add: word_le_nat_alt)
  qed
  show "unat (drop_bit 2 a) < 64"
    by (rule less, rule bit_word_eqI, drule lt, simp only: bits) (elim insertE emptyE; simp add: bit_iff_odd_drop_bit)
  show "unat (push_bit 4 (a AND 0x3) OR drop_bit 4 (b AND 0xF0)) < 64"
    by (rule less, rule bit_word_eqI, drule lt, simp only: bits) (elim insertE emptyE; simp)
  show "unat (push_bit 2 (b AND 0xF) OR drop_bit 6 (c AND 0xC0)) < 64"
    by (rule less, rule bit_word_eqI, drule lt, simp only: bits) (elim insertE emptyE; simp)
  show "unat (c AND 0x3F) < 64" by (rule less) (simp add: and.assoc)
qed

lemma base64_char_inverse: "n < 64 \<Longrightarrow> base256_char (base64_char ! n) = int n \<and> base64_char ! n \<noteq> PADDING"
proof -
  have "list_all (\<lambda>n. base256_char (base64_char ! n) = int n \<and> base64_char ! n \<noteq> PADDING) [0..<64]" by code_simp
  then show "n < 64 \<Longrightarrow> ?thesis" by (simp add: list_all_iff)
qed

text \<open>A digit character: it stands for a byte below 64.\<close>

definition digit :: "pj_uint8_t \<Rightarrow> pj_uint8_t \<Rightarrow> bool" where
  "digit w c \<longleftrightarrow> c = base64_char ! unat w \<and> unat w < 64"

lemma digit_value: "digit w c \<Longrightarrow> base256_char c = uint w" "digit w c \<Longrightarrow> c \<noteq> PADDING"
  using base64_char_inverse [of "unat w"] by (auto simp: digit_def)

lemma digit_not_INV: "digit w c \<Longrightarrow> base256_char c \<noteq> INV"
proof
  assume "digit w c" "base256_char c = INV"
  then have "uint w = - 1" using digit_value(1) [of w c] by (simp add: INV_def)
  moreover have "0 \<le> uint w" by (rule uint_ge_0)
  ultimately show False by linarith
qed

lemma next_digit_digit: "digit w c \<Longrightarrow> next_digit (c # cs) = (uint w, cs)"
  using digit_value [of w c] digit_not_INV [of w c] by simp

lemma out_bytes:
  "out_byte1 (uint a) (uint b) = push_bit 2 a OR drop_bit 4 (b AND 0x30)"
  "out_byte2 (uint a) (uint b) = push_bit 4 (a AND 0x0F) OR drop_bit 2 (b AND 0x3C)"
  "out_byte3 (uint a) (uint b) = push_bit 6 (a AND 0x03) OR (b AND 0x3F)"
proof -
  have m: "uint x AND 0x30 = uint (x AND 0x30)" "uint x AND 0x3C = uint (x AND 0x3C)" "uint x AND 0x0F = uint (x AND 0x0F)"
    "uint x AND 0x03 = uint (x AND 0x03)" "uint x AND 0x3F = uint (x AND 0x3F)" for x :: pj_uint8_t
    by (simp_all add: unsigned_and_eq)
  have t: "take_bit 8 (uint x) = uint x" for x :: pj_uint8_t
    using unsigned_less [of x, where ?'a = int] by (intro take_bit_int_eq_self) simp_all
  have d: "drop_bit n (uint x) = uint (drop_bit n x)" for n and x :: pj_uint8_t
    by (simp add: unsigned_drop_bit_eq t)
  have p: "of_int (push_bit n (uint x)) = push_bit n x" for n and x :: pj_uint8_t by (simp add: push_bit_eq_mult)
  show "out_byte1 (uint a) (uint b) = push_bit 2 a OR drop_bit 4 (b AND 0x30)"
    "out_byte2 (uint a) (uint b) = push_bit 4 (a AND 0x0F) OR drop_bit 2 (b AND 0x3C)"
    "out_byte3 (uint a) (uint b) = push_bit 6 (a AND 0x03) OR (b AND 0x3F)"
    unfolding out_byte1_def out_byte2_def out_byte3_def m d by (simp_all only: of_int_or_eq p word_of_int_uint)
qed

lemma decode_group:
  assumes "digit d0 e0" "digit d1 e1" "digit d2 e2" "digit d3 e3"
  shows "decode_loop (e0 # e1 # e2 # e3 # rest) =
    [out_byte1 (uint d0) (uint d1), out_byte2 (uint d1) (uint d2), out_byte3 (uint d2) (uint d3)] @ decode_loop rest"
    "decode_loop [e0, e1, e2] = [out_byte1 (uint d0) (uint d1), out_byte2 (uint d1) (uint d2)]"
    "decode_loop [e0, e1] = [out_byte1 (uint d0) (uint d1)]"
  using assms by (simp_all add: decode_loop.simps [of "_ # _"] numeral_eq_Suc next_digit_digit del: next_digit.simps)

text \<open>The characters of a group, as digits.\<close>

lemma group_digits:
  obtains d0 d1 d2 d3 e0 e1 e2 e3 where "digit d0 e0" "digit d1 e1" "digit d2 e2" "digit d3 e3"
    "base256to64 a b c 0 = [e0, e1, e2, e3]" "base256to64 a b c 1 = [e0, e1, e2, PADDING]"
    "base256to64 a b c 2 = [e0, e1, PADDING, PADDING]"
    "out_byte1 (uint d0) (uint d1) = a" "out_byte2 (uint d1) (uint d2) = b" "out_byte3 (uint d2) (uint d3) = c"
proof -
  define d0 where "d0 = drop_bit 2 a"
  define d1 where "d1 = (push_bit 4 (a AND 0x3) OR drop_bit 4 (b AND 0xF0))"
  define d2 where "d2 = (push_bit 2 (b AND 0xF) OR drop_bit 6 (c AND 0xC0))"
  define d3 where "d3 = (c AND 0x3F)"
  have digits: "digit w (base64_char ! unat w)" if "unat w < 64" for w using that by (simp add: digit_def)
  note ds = digit_bits(1) [of a, folded d0_def, THEN digits] digit_bits(2) [of a b, folded d1_def, THEN digits]
    digit_bits(3) [of b c, folded d2_def, THEN digits] digit_bits(4) [of c, folded d3_def, THEN digits]
  note def = base256to64_def [of a b c, folded d0_def d1_def d2_def d3_def]
  have bits: "out_byte1 (uint d0) (uint d1) = a" "out_byte2 (uint d1) (uint d2) = b" "out_byte3 (uint d2) (uint d3) = c"
    unfolding out_bytes d0_def d1_def d2_def d3_def by (rule group_bits)+
  show ?thesis using ds bits by (intro that [of d0 _ d1 _ d2 _ d3]) (simp_all add: def)
qed

lemma encode_split:
  "\<exists>core p. encode_loop bs = core @ replicate p PADDING \<and> PADDING \<notin> set core \<and> decode_loop core = bs \<and>
     length core * 3 div 4 = length bs"
proof (induction bs rule: encode_loop.induct)
  case 1
  then show ?case by (intro exI [of _ "[]"] exI [of _ 0]) (simp add: decode_loop.simps)
next
  case (2 c1)
  obtain d0 d1 d2 d3 e0 e1 e2 e3 where g: "digit d0 e0" "digit d1 e1" "digit d2 e2" "digit d3 e3"
    "base256to64 c1 0 0 0 = [e0, e1, e2, e3]" "base256to64 c1 0 0 1 = [e0, e1, e2, PADDING]"
    "base256to64 c1 0 0 2 = [e0, e1, PADDING, PADDING]"
    "out_byte1 (uint d0) (uint d1) = c1" "out_byte2 (uint d1) (uint d2) = 0" "out_byte3 (uint d2) (uint d3) = 0"
    by (rule group_digits)
  have r: "replicate 2 PADDING = [PADDING, PADDING]" by (simp add: numeral_2_eq_2)
  show ?case using decode_group(3) [OF g(1-4)] digit_value(2) [OF g(1)] digit_value(2) [OF g(2)]
    by (intro exI [of _ "[e0, e1]"] exI [of _ 2]) (simp add: r g(7,8))
next
  case (3 c1 c2)
  obtain d0 d1 d2 d3 e0 e1 e2 e3 where g: "digit d0 e0" "digit d1 e1" "digit d2 e2" "digit d3 e3"
    "base256to64 c1 c2 0 0 = [e0, e1, e2, e3]" "base256to64 c1 c2 0 1 = [e0, e1, e2, PADDING]"
    "base256to64 c1 c2 0 2 = [e0, e1, PADDING, PADDING]"
    "out_byte1 (uint d0) (uint d1) = c1" "out_byte2 (uint d1) (uint d2) = c2" "out_byte3 (uint d2) (uint d3) = 0"
    by (rule group_digits)
  show ?case using decode_group(2) [OF g(1-4)] digit_value(2) [OF g(1)] digit_value(2) [OF g(2)] digit_value(2) [OF g(3)]
    by (intro exI [of _ "[e0, e1, e2]"] exI [of _ 1]) (simp add: g(6) [simplified] g(8,9))
next
  case (4 c1 c2 c3 rest)
  then obtain core p where ih: "encode_loop rest = core @ replicate p PADDING" "PADDING \<notin> set core" "decode_loop core = rest"
    "length core * 3 div 4 = length rest" by blast
  obtain d0 d1 d2 d3 e0 e1 e2 e3 where g: "digit d0 e0" "digit d1 e1" "digit d2 e2" "digit d3 e3"
    "base256to64 c1 c2 c3 0 = [e0, e1, e2, e3]" "base256to64 c1 c2 c3 1 = [e0, e1, e2, PADDING]"
    "base256to64 c1 c2 c3 2 = [e0, e1, PADDING, PADDING]"
    "out_byte1 (uint d0) (uint d1) = c1" "out_byte2 (uint d1) (uint d2) = c2" "out_byte3 (uint d2) (uint d3) = c3"
    by (rule group_digits)
  show ?case using ih decode_group(1) [OF g(1-4), of core] digit_value(2) [OF g(1)] digit_value(2) [OF g(2)]
      digit_value(2) [OF g(3)] digit_value(2) [OF g(4)]
    by (intro exI [of _ "[e0, e1, e2, e3] @ core"] exI [of _ p]) (simp add: g(5,8-10))
qed

lemma strip_padding_append: "PADDING \<notin> set core \<Longrightarrow> core \<noteq> [] \<Longrightarrow> strip_padding (replicate p PADDING @ rev core) = Some (rev core)"
proof (induction p)
  case 0
  then show ?case by (cases core rule: rev_cases) auto
qed simp

text \<open>
  C31: decoding what was encoded gives the bytes back, for every non-empty input and every pair of
  buffers of the sizes that the macros ask for, as long as the decoding buffer has one byte to spare.\<close>

theorem base64_roundtrip:
  assumes "bs \<noteq> []" "PJ_BASE256_TO_BASE64_LEN (int (length bs)) \<le> n" "int (length bs) < m"
  shows "\<exists>text. pj_base64_encode bs n = (PJ_SUCCESS, text) \<and> pj_base64_decode text m = Decode PJ_SUCCESS bs"
proof -
  obtain core p where c: "encode_loop bs = core @ replicate p PADDING" "PADDING \<notin> set core" "decode_loop core = bs"
    "length core * 3 div 4 = length bs" using encode_split by blast
  have "core \<noteq> []" using c(3) assms(1) by (auto simp: decode_loop.simps)
  then have s: "strip_padding (rev (encode_loop bs)) = Some (rev core)" using strip_padding_append [OF c(2)] by (simp add: c(1))
  have "PJ_BASE64_TO_BASE256_LEN (int (length core)) = int (length bs)"
    using c(4) by (simp add: PJ_BASE64_TO_BASE256_LEN_def c_div_nonneg flip: c(4))
  then have "pj_base64_decode (encode_loop bs) m = Decode PJ_SUCCESS bs"
    using s assms(3) c(3) by (simp add: pj_base64_decode_def)
  then show ?thesis using assms(2) by (simp add: pj_base64_encode_def)
qed

theorem base64_roundtrip_witness:
  "\<exists>text. pj_base64_encode [77, 97] 8 = (PJ_SUCCESS, text) \<and> pj_base64_decode text 3 = Decode PJ_SUCCESS [77, 97]"
proof -
  have "PJ_BASE256_TO_BASE64_LEN (int (length [77, 97 :: pj_uint8_t])) \<le> 8" by code_simp
  then show ?thesis by (intro base64_roundtrip) simp_all
qed

section \<open>What decoding writes and reads\<close>

lemma fill_length: "length (fst (fill k bs)) + length (snd (fill k bs)) \<le> length bs \<and> length (fst (fill k bs)) \<le> k"
proof (induction k arbitrary: bs)
  case (Suc k)
  show ?case
    using Suc.IH [of "snd (next_digit bs)"] next_digit_shorter [of bs] by (auto simp: case_prod_beta Let_def)
qed simp

text \<open>Any text of \<open>n\<close> characters, valid or not, decodes to at most \<open>3 n / 4\<close> bytes.\<close>

lemma decode_loop_length: "4 * length (decode_loop bs) \<le> 3 * length bs"
proof (induction bs rule: decode_loop.induct)
  case (1 bs)
  obtain ds rest where f: "fill 4 bs = (ds, rest)" by (cases "fill 4 bs")
  have l: "length ds + length rest \<le> length bs" using fill_length [of 4 bs] f by simp
  show ?case
  proof (cases "\<exists>c0 c1 c2 c3. ds = [c0, c1, c2, c3]")
    case True
    then obtain c0 c1 c2 c3 where ds: "ds = [c0, c1, c2, c3]" by blast
    show ?thesis
    proof (cases "bs = []")
      case True
      then show ?thesis by (simp add: decode_loop.simps)
    next
      case False
      have "4 * length (decode_loop rest) \<le> 3 * length rest" using 1 [OF False f [symmetric]] ds by simp
      then show ?thesis using False f ds l by (subst decode_loop.simps) simp
    qed
  next
    case False
    then show ?thesis using f l by (subst decode_loop.simps) (auto split: list.split)
  qed
qed

theorem decode_reads_before: "pj_base64_decode text m = Reads_before \<longleftrightarrow> set text \<subseteq> {PADDING}"
proof -
  have "strip_padding cs = None \<longleftrightarrow> set cs \<subseteq> {PADDING}" for cs by (induction cs rule: strip_padding.induct) auto
  from this [of "rev text"] show ?thesis by (auto simp: pj_base64_decode_def Let_def split: option.splits)
qed

text \<open>
  decoding what was encoded from some bytes into a buffer of exactly that many bytes passes the
  size check but fails the assertion at the end.\<close>

theorem base64_exact_buffer_asserts:
  assumes "bs \<noteq> []" "PJ_BASE256_TO_BASE64_LEN (int (length bs)) \<le> n"
  shows "\<exists>text. pj_base64_encode bs n = (PJ_SUCCESS, text) \<and> pj_base64_decode text (int (length bs)) = Assertion_fails"
proof -
  obtain core p where c: "encode_loop bs = core @ replicate p PADDING" "PADDING \<notin> set core" "decode_loop core = bs"
    "length core * 3 div 4 = length bs" using encode_split by blast
  have "core \<noteq> []" using c(3) assms(1) by (auto simp: decode_loop.simps)
  then have s: "strip_padding (rev (encode_loop bs)) = Some (rev core)" using strip_padding_append [OF c(2)] by (simp add: c(1))
  have "PJ_BASE64_TO_BASE256_LEN (int (length core)) = int (length bs)"
    using c(4) by (simp add: PJ_BASE64_TO_BASE256_LEN_def c_div_nonneg flip: c(4))
  then show ?thesis using s c(3) assms(2) by (simp add: pj_base64_decode_def pj_base64_encode_def)
qed

theorem base64_exact_buffer_asserts_witness:
  "\<exists>text. pj_base64_encode [77, 97] 8 = (PJ_SUCCESS, text) \<and> pj_base64_decode text (int (length [77, 97 :: pj_uint8_t])) = Assertion_fails"
proof -
  have "PJ_BASE256_TO_BASE64_LEN (int (length [77, 97 :: pj_uint8_t])) \<le> 8" by code_simp
  then show ?thesis by (intro base64_exact_buffer_asserts) simp_all
qed

text \<open>A line break after the text adds a byte that was never encoded.\<close>

lemma trailing_newline_adds_byte: "pj_base64_decode [81, 85, 73, 61, 10] 10 = Decode PJ_SUCCESS [65, 66, 63]"
  by code_simp

end
