(* ===== verification/PJ_Rtp.thy ===== *)
theory PJ_Rtp
  imports PJ_Prelude
begin

text \<open>
  RTP sessions, \<^verbatim>\<open>pjmedia/src/pjmedia/rtp.c\<close>: packets are built and taken apart, and the
  sequence numbers of a peer are followed across lost, reordered and repeated packets and
  across the wrap-around of the 16-bit counter. A header is a record whose 16- and 32-bit
  fields are in network byte order on a little-endian host, as the struct has them.
\<close>

abbreviation PJMEDIA_RTP_EINVER :: pj_status_t where "PJMEDIA_RTP_EINVER \<equiv> PJ_ECODE 220122"
abbreviation PJMEDIA_RTP_EINLEN :: pj_status_t where "PJMEDIA_RTP_EINLEN \<equiv> PJ_ECODE 220125"

section \<open>Byte order\<close>

definition pj_htons :: "pj_uint16_t \<Rightarrow> pj_uint16_t" where
  "pj_htons w = push_bit 8 w OR drop_bit 8 w"

definition pj_htonl :: "pj_uint32_t \<Rightarrow> pj_uint32_t" where
  "pj_htonl w = push_bit 24 w OR push_bit 8 (w AND 0xFF00) OR drop_bit 8 (w AND 0xFF0000) OR drop_bit 24 w"

abbreviation pj_ntohs :: "pj_uint16_t \<Rightarrow> pj_uint16_t" where "pj_ntohs \<equiv> pj_htons"
abbreviation pj_ntohl :: "pj_uint32_t \<Rightarrow> pj_uint32_t" where "pj_ntohl \<equiv> pj_htonl"

section \<open>Headers\<close>

record pjmedia_rtp_hdr =
  hdr_v :: "2 word"
  hdr_p :: "1 word"
  hdr_x :: "1 word"
  cc :: "4 word"
  hdr_m :: "1 word"
  pt :: "7 word"
  seq :: pj_uint16_t
  ts :: pj_uint32_t
  ssrc :: pj_uint32_t

text \<open>The 12 bytes of a header in memory, and the header that 12 bytes are.\<close>

definition le16 :: "pj_uint16_t \<Rightarrow> bytes" where
  "le16 w = [ucast w, ucast (drop_bit 8 w)]"

definition le32 :: "pj_uint32_t \<Rightarrow> bytes" where
  "le32 w = [ucast w, ucast (drop_bit 8 w), ucast (drop_bit 16 w), ucast (drop_bit 24 w)]"

definition hdr_bytes :: "pjmedia_rtp_hdr \<Rightarrow> bytes" where
  "hdr_bytes h =
     [push_bit 6 (ucast (hdr_v h)) OR push_bit 5 (ucast (hdr_p h)) OR push_bit 4 (ucast (hdr_x h)) OR ucast (cc h),
      push_bit 7 (ucast (hdr_m h)) OR ucast (pt h)] @ le16 (seq h) @ le32 (ts h) @ le32 (ssrc h)"

definition of_le16 :: "pj_uint8_t \<Rightarrow> pj_uint8_t \<Rightarrow> pj_uint16_t" where
  "of_le16 a b = ucast a OR push_bit 8 (ucast b)"

definition of_le32 :: "pj_uint8_t \<Rightarrow> pj_uint8_t \<Rightarrow> pj_uint8_t \<Rightarrow> pj_uint8_t \<Rightarrow> pj_uint32_t" where
  "of_le32 a b c d = ucast a OR push_bit 8 (ucast b) OR push_bit 16 (ucast c) OR push_bit 24 (ucast d)"

definition bytes_hdr :: "bytes \<Rightarrow> pjmedia_rtp_hdr" where
  "bytes_hdr bs =
     \<lparr>hdr_v = ucast (drop_bit 6 (bs ! 0)), hdr_p = ucast (drop_bit 5 (bs ! 0)), hdr_x = ucast (drop_bit 4 (bs ! 0)),
      cc = ucast (bs ! 0), hdr_m = ucast (drop_bit 7 (bs ! 1)), pt = ucast (bs ! 1),
      seq = of_le16 (bs ! 2) (bs ! 3),
      ts = of_le32 (bs ! 4) (bs ! 5) (bs ! 6) (bs ! 7),
      ssrc = of_le32 (bs ! 8) (bs ! 9) (bs ! 10) (bs ! 11)\<rparr>"

section \<open>Sequence numbers and sessions\<close>

record pjmedia_rtp_seq_session =
  max_seq :: pj_uint16_t
  cycles :: pj_uint32_t
  base_seq :: pj_uint32_t
  bad_seq :: pj_uint32_t
  probation :: pj_uint32_t

record pjmedia_rtp_session =
  out_hdr :: pjmedia_rtp_hdr
  seq_ctrl :: pjmedia_rtp_seq_session
  out_pt :: pj_uint16_t
  out_extseq :: pj_uint32_t
  peer_ssrc :: pj_uint32_t
  received :: pj_uint32_t

text \<open>The status of a received packet: its flags, and its distance from the previous one.\<close>

record pjmedia_rtp_status =
  bad :: bool
  badpt :: bool
  badssrc :: bool
  dup :: bool
  outorder :: bool
  in_probation :: bool
  restart :: bool
  diff :: pj_uint16_t

definition no_status :: pjmedia_rtp_status where
  "no_status = \<lparr>bad = False, badpt = False, badssrc = False, dup = False, outorder = False,
     in_probation = False, restart = False, diff = 0\<rparr>"

definition RTP_VERSION :: "2 word" where "RTP_VERSION = 2"
definition RTP_SEQ_MOD :: int where "RTP_SEQ_MOD = 65536"
definition RTP_MAX_DROPOUT :: int where "RTP_MAX_DROPOUT = 3000"
definition RTP_MAX_MISORDER :: int where "RTP_MAX_MISORDER = 100"
definition MIN_SEQUENTIAL :: int where "MIN_SEQUENTIAL = 2"

text \<open>
  The session is initialised with the values of the two calls of \<^verbatim>\<open>pj_rand\<close>, the first of which
  is only made when no identifier is given.
\<close>

definition pjmedia_rtp_session_init :: "int \<Rightarrow> int \<Rightarrow> int \<Rightarrow> pj_uint32_t \<Rightarrow> pjmedia_rtp_session" where
  "pjmedia_rtp_session_init rand_ssrc rand_seq default_pt sender_ssrc =
     (let sender_ssrc = (if sender_ssrc = 0 \<or> sender_ssrc = -1 then pj_htonl (of_int rand_ssrc) else pj_htonl sender_ssrc);
          extseq = of_int rand_seq AND 0x7FFF
      in \<lparr>out_hdr = \<lparr>hdr_v = RTP_VERSION, hdr_p = 0, hdr_x = 0, cc = 0, hdr_m = 0, pt = ucast (of_int default_pt :: pj_uint8_t),
            seq = pj_htons (ucast extseq), ts = 0, ssrc = sender_ssrc\<rparr>,
          seq_ctrl = \<lparr>max_seq = 0, cycles = 0, base_seq = 0, bad_seq = 0, probation = 0\<rparr>,
          out_pt = of_int default_pt, out_extseq = extseq, peer_ssrc = 0, received = 0\<rparr>)"

record pjmedia_rtp_session_setting =
  set_flags :: pj_uint8_t
  set_default_pt :: int
  set_sender_ssrc :: pj_uint32_t
  set_seq :: pj_uint16_t
  set_ts :: pj_uint32_t

definition pjmedia_rtp_session_init2 :: "int \<Rightarrow> int \<Rightarrow> pjmedia_rtp_session_setting \<Rightarrow> pjmedia_rtp_session" where
  "pjmedia_rtp_session_init2 rand_ssrc rand_seq s =
     (let ptype = (if set_flags s AND 1 \<noteq> 0 then set_default_pt s else 0);
          sender_ssrc = (if set_flags s AND 2 \<noteq> 0 then set_sender_ssrc s else 0);
          ses = pjmedia_rtp_session_init rand_ssrc rand_seq ptype sender_ssrc;
          ses = (if set_flags s AND 4 \<noteq> 0
                 then let ses = ses\<lparr>out_extseq := ucast (set_seq s)\<rparr>
                      in ses\<lparr>out_hdr := (out_hdr ses)\<lparr>seq := pj_htons (ucast (out_extseq ses))\<rparr>\<rparr>
                 else ses)
      in if set_flags s AND 8 \<noteq> 0 then ses\<lparr>out_hdr := (out_hdr ses)\<lparr>ts := pj_htonl (set_ts s)\<rparr>\<rparr> else ses)"

text \<open>No header is returned for an empty payload, which only moves the timestamp.\<close>

definition pjmedia_rtp_encode_rtp ::
  "pjmedia_rtp_session \<Rightarrow> int \<Rightarrow> int \<Rightarrow> int \<Rightarrow> int \<Rightarrow> pjmedia_rtp_hdr option \<times> pjmedia_rtp_session" where
  "pjmedia_rtp_encode_rtp ses ptype marker payload_len ts_len =
     (let ses = ses\<lparr>out_hdr := (out_hdr ses)\<lparr>ts := pj_htonl (pj_ntohl (ts (out_hdr ses)) + of_int ts_len)\<rparr>\<rparr>
      in if payload_len = 0 then (None, ses)
         else
           let ses = ses\<lparr>out_extseq := out_extseq ses + 1\<rparr>;
               ses = ses\<lparr>out_hdr := (out_hdr ses)
                 \<lparr>pt := ucast (if ptype = -1 then ucast (out_pt ses) else of_int ptype :: pj_uint8_t),
                  hdr_m := ucast (of_int marker :: pj_uint16_t),
                  seq := pj_htons (ucast (out_extseq ses))\<rparr>\<rparr>
           in (Some (out_hdr ses), ses))"

text \<open>
  Taking a packet apart, in a memory that starts with the packet and may hold more bytes after
  it. \<open>Unreadable\<close> is a read of bytes that the memory does not hold.
\<close>

datatype decoded = Decoded pj_status_t pjmedia_rtp_hdr bytes | Decode_error pj_status_t | Unreadable

definition pjmedia_rtp_decode_rtp :: "bytes \<Rightarrow> nat \<Rightarrow> decoded" where
  "pjmedia_rtp_decode_rtp mem pkt_len =
     (if length mem < 12 then Unreadable
      else
        let hdr = bytes_hdr mem
        in if hdr_v hdr \<noteq> RTP_VERSION then Decode_error PJMEDIA_RTP_EINVER
           else
             let offset = 12 + unat (cc hdr) * 4
             in if hdr_x hdr \<noteq> 0 \<and> length mem < offset + 4 then Unreadable
                else
                  let offset = (if hdr_x hdr \<noteq> 0
                                then offset + (unat (pj_ntohs (of_le16 (mem ! (offset + 2)) (mem ! (offset + 3)))) + 1) * 4
                                else offset)
                  in if offset > pkt_len then Decode_error PJMEDIA_RTP_EINLEN
                     else if length mem < pkt_len then Unreadable
                     else
                       let payloadlen = pkt_len - offset;
                           pad_len = unat (mem ! (pkt_len - 1));
                           payloadlen = (if hdr_p hdr \<noteq> 0 \<and> payloadlen > 0 \<and> pad_len \<le> payloadlen
                                         then payloadlen - pad_len else payloadlen)
                       in Decoded PJ_SUCCESS hdr (take payloadlen (drop offset mem)))"

section \<open>Following a peer's sequence numbers\<close>

definition pjmedia_rtp_seq_restart :: "pjmedia_rtp_seq_session \<Rightarrow> pj_uint16_t \<Rightarrow> pjmedia_rtp_seq_session" where
  "pjmedia_rtp_seq_restart s n = s\<lparr>base_seq := ucast n, max_seq := n, bad_seq := of_int (RTP_SEQ_MOD + 1), cycles := 0\<rparr>"

definition pjmedia_rtp_seq_init :: "pjmedia_rtp_seq_session \<Rightarrow> pj_uint16_t \<Rightarrow> pjmedia_rtp_seq_session" where
  "pjmedia_rtp_seq_init s n = (pjmedia_rtp_seq_restart s n)\<lparr>max_seq := n - 1, probation := of_int MIN_SEQUENTIAL\<rparr>"

text \<open>
  16-bit operands are promoted to \<^verbatim>\<open>int\<close> in the comparisons, so \<^verbatim>\<open>seq == max_seq + 1\<close> does not
  wrap.
\<close>

definition pjmedia_rtp_seq_update ::
  "pjmedia_rtp_seq_session \<Rightarrow> pj_uint16_t \<Rightarrow> pjmedia_rtp_status \<times> pjmedia_rtp_seq_session" where
  "pjmedia_rtp_seq_update s n =
     (let udelta = n - max_seq s
      in if probation s \<noteq> 0 then
           if uint n = uint (max_seq s) + 1 then
             let s = s\<lparr>probation := probation s - 1, max_seq := n\<rparr>
             in (no_status\<lparr>in_probation := probation s \<noteq> 0, diff := 1\<rparr>, s)
           else
             (no_status\<lparr>in_probation := True, bad := True, dup := n = max_seq s, outorder := n \<noteq> max_seq s\<rparr>,
              s\<lparr>probation := of_int (MIN_SEQUENTIAL - 1), max_seq := n\<rparr>)
         else if udelta = 0 then (no_status\<lparr>dup := True\<rparr>, s)
         else if uint udelta < RTP_MAX_DROPOUT then
           let s = (if n < max_seq s then s\<lparr>cycles := cycles s + of_int RTP_SEQ_MOD\<rparr> else s)
           in (no_status\<lparr>diff := udelta\<rparr>, s\<lparr>max_seq := n\<rparr>)
         else if uint udelta \<le> RTP_SEQ_MOD - RTP_MAX_MISORDER then
           if ucast n = bad_seq s then
             (no_status\<lparr>restart := True, in_probation := True, diff := 1\<rparr>, pjmedia_rtp_seq_restart s n)
           else
             (no_status\<lparr>bad := True, outorder := True\<rparr>, s\<lparr>bad_seq := of_int ((uint n + 1) mod RTP_SEQ_MOD)\<rparr>)
         else (no_status\<lparr>outorder := True\<rparr>, s))"

text \<open>\<open>st\<close> is the caller's status on entry, of which a packet of a wrong type only sets some fields.\<close>

definition pjmedia_rtp_session_update2 ::
  "pjmedia_rtp_session \<Rightarrow> pjmedia_rtp_hdr \<Rightarrow> pjmedia_rtp_status \<Rightarrow> bool \<Rightarrow> pjmedia_rtp_status \<times> pjmedia_rtp_session" where
  "pjmedia_rtp_session_update2 ses hdr st check_pt =
     (let ses = (if peer_ssrc ses = 0 then ses\<lparr>peer_ssrc := pj_ntohl (ssrc hdr)\<rparr> else ses);
          wrong = pj_ntohl (ssrc hdr) \<noteq> peer_ssrc ses;
          ses = (if wrong then ses\<lparr>peer_ssrc := pj_ntohl (ssrc hdr)\<rparr> else ses)
      in if check_pt \<and> ucast (pt hdr) \<noteq> out_pt ses then
           (no_status\<lparr>badssrc := wrong, bad := True, badpt := True, diff := diff st\<rparr>, ses)
         else
           let ses = (if received ses = 0 then ses\<lparr>seq_ctrl := pjmedia_rtp_seq_init (seq_ctrl ses) (pj_ntohs (seq hdr))\<rparr> else ses);
               (seq_st, ctrl) = pjmedia_rtp_seq_update (seq_ctrl ses) (pj_ntohs (seq hdr));
               ses = ses\<lparr>seq_ctrl := ctrl\<rparr>;
               ses = (if restart seq_st \<or> \<not> bad seq_st then ses\<lparr>received := received ses + 1\<rparr> else ses)
           in (seq_st, ses))"

definition pjmedia_rtp_session_update ::
  "pjmedia_rtp_session \<Rightarrow> pjmedia_rtp_hdr \<Rightarrow> pjmedia_rtp_status \<Rightarrow> pjmedia_rtp_status \<times> pjmedia_rtp_session" where
  "pjmedia_rtp_session_update ses hdr st = pjmedia_rtp_session_update2 ses hdr st True"

section \<open>Packets in memory\<close>

lemma htons_involutive [simp]: "pj_htons (pj_htons w) = w"
  by (rule bit_word_eqI) (auto simp: pj_htons_def bit_simps)

lemma bit32_cases:
  "(n :: nat) < 32 \<Longrightarrow> n \<in> {0, 1, 2, 3, 4, 5, 6, 7, 8, 9, 10, 11, 12, 13, 14, 15,
     16, 17, 18, 19, 20, 21, 22, 23, 24, 25, 26, 27, 28, 29, 30, 31}"
  by simp arith

lemma no_high_bit: "LENGTH('a) \<le> n \<Longrightarrow> \<not> bit (w :: 'a::len word) n"
  by (auto dest: bit_imp_le_length)

lemma word32_eqI: "(\<And>n. n < 32 \<Longrightarrow> bit a n = bit b n) \<Longrightarrow> a = b" for a b :: pj_uint32_t
  by (rule bit_word_eqI) simp

lemma htonl_involutive [simp]: "pj_htonl (pj_htonl w) = w"
  unfolding pj_htonl_def by (rule word32_eqI, drule bit32_cases) (elim insertE emptyE; simp add: bit_simps no_high_bit)

lemma le16_of_le16: "le16 w = [a, b] \<Longrightarrow> of_le16 a b = w"
  by (auto simp: le16_def of_le16_def bit_simps intro!: bit_word_eqI)

lemma le32_of_le32: "le32 w = [a, b, c, d] \<Longrightarrow> of_le32 a b c d = w"
  unfolding of_le32_def le32_def by (rule word32_eqI, drule bit32_cases) (elim insertE emptyE; clarsimp simp: bit_simps)

lemma hdr_roundtrip: "bytes_hdr (hdr_bytes h @ rest) = h"
proof -
  obtain a b where s: "le16 (seq h) = [a, b]" by (simp add: le16_def)
  obtain c d e f where t: "le32 (ts h) = [c, d, e, f]" by (simp add: le32_def)
  obtain i j k l where u: "le32 (ssrc h) = [i, j, k, l]" by (simp add: le32_def)
  note words = le16_of_le16 [OF s] le32_of_le32 [OF t] le32_of_le32 [OF u]
  show ?thesis
    by (rule pjmedia_rtp_hdr.equality)
       (simp_all add: bytes_hdr_def hdr_bytes_def s t u words, auto simp: bit_simps no_high_bit intro!: bit_word_eqI)
qed

lemma length_hdr_bytes [simp]: "length (hdr_bytes h) = 12"
  by (simp add: hdr_bytes_def le16_def le32_def)

text \<open>A header as sessions build them: version 2, and nothing between it and the payload.\<close>

definition plain_hdr :: "pjmedia_rtp_hdr \<Rightarrow> bool" where
  "plain_hdr h \<longleftrightarrow> hdr_v h = RTP_VERSION \<and> hdr_p h = 0 \<and> hdr_x h = 0 \<and> cc h = 0"

lemma decode_plain:
  "plain_hdr h \<Longrightarrow> pjmedia_rtp_decode_rtp (hdr_bytes h @ payload @ rest) (12 + length payload) = Decoded PJ_SUCCESS h payload"
  by (simp add: pjmedia_rtp_decode_rtp_def plain_hdr_def hdr_roundtrip Let_def)

text \<open>
  taking a packet apart reads beyond the packet only if it is shorter than a header, or has
  an extension and ends within the extension's header; the payload is a part of the packet.\<close>

theorem rtp_decode_bounds:
  assumes "pkt_len = length pkt" "12 \<le> pkt_len" "hdr_x (bytes_hdr pkt) \<noteq> 0 \<longrightarrow> 16 + 4 * unat (cc (bytes_hdr pkt)) \<le> pkt_len"
  shows "pjmedia_rtp_decode_rtp pkt pkt_len \<noteq> Unreadable \<and>
    (\<forall>st hdr payload. pjmedia_rtp_decode_rtp pkt pkt_len = Decoded st hdr payload \<longrightarrow>
       hdr = bytes_hdr pkt \<and>
       (\<exists>before after. pkt = before @ payload @ after \<and> 12 + 4 * unat (cc hdr) \<le> length before \<and> length after \<le> 255))"
proof -
  define hdr where "hdr = bytes_hdr pkt"
  define off0 where "off0 = 12 + unat (cc hdr) * 4"
  define off where "off = (if hdr_x hdr \<noteq> 0
    then off0 + (unat (pj_ntohs (of_le16 (pkt ! (off0 + 2)) (pkt ! (off0 + 3)))) + 1) * 4 else off0)"
  define pad where "pad = unat (pkt ! (pkt_len - 1))"
  define n where "n = (if hdr_p hdr \<noteq> 0 \<and> pkt_len - off > 0 \<and> pad \<le> pkt_len - off then pkt_len - off - pad else pkt_len - off)"
  have dec: "pjmedia_rtp_decode_rtp pkt pkt_len =
    (if hdr_v hdr \<noteq> RTP_VERSION then Decode_error PJMEDIA_RTP_EINVER
     else if off > pkt_len then Decode_error PJMEDIA_RTP_EINLEN else Decoded PJ_SUCCESS hdr (take n (drop off pkt)))"
    using assms unfolding pjmedia_rtp_decode_rtp_def Let_def hdr_def [symmetric] off0_def [symmetric] off_def [symmetric]
      pad_def [symmetric] n_def [symmetric] by (auto simp: hdr_def off0_def mult.commute)
  have "pad \<le> 255" using unsigned_less [of "pkt ! (pkt_len - 1)", where ?'a = nat] by (simp add: pad_def)
  then have n: "n \<le> pkt_len - off" "pkt_len - off \<le> n + 255" by (auto simp: n_def)
  have "off0 \<le> off" by (simp add: off_def)
  have "pkt = take off pkt @ take n (drop off pkt) @ drop (off + n) pkt"
    by (metis append_take_drop_id drop_drop add.commute)
  then have "\<exists>before after. pkt = before @ take n (drop off pkt) @ after \<and> 12 + 4 * unat (cc hdr) \<le> length before \<and> length after \<le> 255"
    if "off \<le> pkt_len" using that n assms(1) \<open>off0 \<le> off\<close>
    by (intro exI [of _ "take off pkt"] exI [of _ "drop (off + n) pkt"]) (auto simp: off0_def)
  then show ?thesis using dec by (auto simp flip: hdr_def)
qed

section \<open>Following a stream\<close>

text \<open>
  The numbers of a peer without wrap-around. A session follows number \<open>M\<close> when it holds its low
  16 bits, and the high ones in the count of cycles.
\<close>

definition tracks :: "pjmedia_rtp_seq_session \<Rightarrow> int \<Rightarrow> bool" where
  "tracks s M \<longleftrightarrow> probation s = 0 \<and> max_seq s = of_int M \<and> cycles s = of_int (M div 65536 * 65536)"

lemma tracks_extended: "tracks s M \<Longrightarrow> cycles s + ucast (max_seq s) = of_int M"
proof -
  assume "tracks s M"
  then have "cycles s + ucast (max_seq s) = of_int (M div 65536 * 65536) + of_int (M mod 65536)"
    by (simp add: tracks_def take_bit_eq_mod unsigned_of_int)
  also have "\<dots> = of_int M" by (simp only: of_int_add [symmetric] div_mult_mod_eq)
  finally show ?thesis .
qed

lemma uint_diff16: "uint (of_int N - of_int M :: pj_uint16_t) = (N - M) mod 65536"
  by (simp add: take_bit_eq_mod unsigned_of_int flip: of_int_diff)

lemma less16: "(of_int N :: pj_uint16_t) < of_int M \<longleftrightarrow> N mod 65536 < M mod 65536"
  by (simp add: word_less_def take_bit_eq_mod unsigned_of_int)

lemma cycle_step:
  fixes M N :: int
  assumes "M < N" "N < M + 3000"
  shows "N div 65536 * 65536 = (if N mod 65536 < M mod 65536 then M div 65536 * 65536 + 65536 else M div 65536 * 65536)"
proof -
  define q r q' r' where d: "q = M div 65536" "r = M mod 65536" "q' = N div 65536" "r' = N mod 65536"
  have eq: "M = q * 65536 + r" "N = q' * 65536 + r'" by (simp_all add: d)
  have lt: "0 \<le> r" "r < 65536" "0 \<le> r'" "r' < 65536" by (simp_all add: d)
  have "q' = (if r' < r then q + 1 else q)" using eq lt assms by (auto intro: antisym)
  then show ?thesis unfolding d [symmetric] by (auto simp: algebra_simps)
qed

text \<open>The step of a packet whose number is less than 100 before and less than 3000 after the greatest.\<close>

lemma seq_update_tracks:
  assumes "tracks s M" "M - 100 < N" "N < M + 3000"
  shows "\<exists>s'. pjmedia_rtp_seq_update s (of_int N) =
      (no_status\<lparr>dup := N = M, outorder := N < M, diff := of_int (max M N - M)\<rparr>, s') \<and> tracks s' (max M N) \<and>
      base_seq s' = base_seq s"
proof (cases "N = M")
  case True
  then show ?thesis using assms by (simp add: pjmedia_rtp_seq_update_def tracks_def no_status_def)
next
  case False
  note defs = RTP_MAX_DROPOUT_def RTP_MAX_MISORDER_def RTP_SEQ_MOD_def no_status_def
  define d where "d = (of_int N - of_int M :: pj_uint16_t)"
  have ud: "uint d = (N - M) mod 65536" unfolding d_def by (rule uint_diff16)
  have s: "probation s = 0" "max_seq s = of_int M" "cycles s = of_int (M div 65536 * 65536)" using assms(1) by (simp_all add: tracks_def)
  have upd: "pjmedia_rtp_seq_update s (of_int N) =
    (if d = 0 then (no_status\<lparr>dup := True\<rparr>, s)
     else if uint d < 3000 then
       (no_status\<lparr>diff := d\<rparr>, (if N mod 65536 < M mod 65536 then s\<lparr>cycles := cycles s + 65536\<rparr> else s)\<lparr>max_seq := of_int N\<rparr>)
     else (no_status\<lparr>outorder := True\<rparr>, s))" if "uint d < 3000 \<or> 65436 < uint d"
    using that by (auto simp: pjmedia_rtp_seq_update_def s defs less16 Let_def simp flip: d_def)
  show ?thesis
  proof (cases "M < N")
    case True
    then have u: "uint d = N - M" using ud assms(3) by simp
    then have d: "d \<noteq> 0" "uint d < 3000" using True assms(3) by auto
    define s' where "s' = (if N mod 65536 < M mod 65536 then s\<lparr>cycles := cycles s + 65536\<rparr> else s)\<lparr>max_seq := of_int N\<rparr>"
    have "cycles s' = of_int (N div 65536 * 65536)"
      unfolding cycle_step [OF True assms(3)] by (simp add: s'_def s(3))
    then have "tracks s' N" "base_seq s' = base_seq s" by (simp_all add: tracks_def s'_def s(1))
    moreover have "pjmedia_rtp_seq_update s (of_int N) = (no_status\<lparr>diff := d\<rparr>, s')" using upd d by (simp add: s'_def)
    moreover have "no_status\<lparr>dup := N = M, outorder := N < M, diff := of_int (max M N - M)\<rparr> = no_status\<lparr>diff := d\<rparr>"
      using True by (simp add: no_status_def d_def max_def)
    moreover have "max M N = N" using True by simp
    ultimately show ?thesis by metis
  next
    case lt: False
    then have "(N - M + 65536) mod 65536 = N - M + 65536" using False assms(2) by (intro mod_pos_pos_trivial) auto
    then have u: "uint d = N - M + 65536" using ud by simp
    then have "d \<noteq> 0" using lt assms(2) by auto
    moreover have "pjmedia_rtp_seq_update s (of_int N) = (no_status\<lparr>outorder := True\<rparr>, s)"
      using upd u assms(2) \<open>d \<noteq> 0\<close> by simp
    ultimately show ?thesis using assms(1) lt False by (simp add: no_status_def max_def)
  qed
qed

fun seq_updates :: "pjmedia_rtp_seq_session \<Rightarrow> pj_uint16_t list \<Rightarrow> pjmedia_rtp_status list \<times> pjmedia_rtp_seq_session" where
  "seq_updates s [] = ([], s)"
| "seq_updates s (n # ns) =
     (let (st, s) = pjmedia_rtp_seq_update s n; (sts, s) = seq_updates s ns in (st # sts, s))"

text \<open>Numbers that stay near the greatest one before them.\<close>

fun in_window :: "int \<Rightarrow> int list \<Rightarrow> bool" where
  "in_window M [] \<longleftrightarrow> True"
| "in_window M (n # ns) \<longleftrightarrow> M - 100 < n \<and> n < M + 3000 \<and> in_window (max M n) ns"

text \<open>
  C32: lost, repeated and reordered packets, and any number of wrap-arounds of the 16-bit counter,
  do not confuse the receiver: as long as each number is less than 100 before and less than 3000
  after the greatest before it, no packet is refused, the extended number held is that of the
  greatest packet, and the reported differences add up to it.\<close>

theorem rtp_seq_follows:
  assumes "tracks s M" "in_window M ns" "seq_updates s (map of_int ns) = (sts, s')"
  shows "cycles s' + ucast (max_seq s') = of_int (foldl max M ns) \<and>
    foldl max M ns = M + sum_list (map (\<lambda>st. uint (diff st)) sts) \<and>
    list_all (\<lambda>st. \<not> bad st \<and> \<not> restart st \<and> \<not> in_probation st) sts \<and> base_seq s' = base_seq s"
proof -
  have "tracks s' (foldl max M ns) \<and> foldl max M ns = M + sum_list (map (\<lambda>st. uint (diff st)) sts) \<and>
    list_all (\<lambda>st. \<not> bad st \<and> \<not> restart st \<and> \<not> in_probation st) sts \<and> base_seq s' = base_seq s"
    using assms
  proof (induction ns arbitrary: s M sts)
    case (Cons n ns)
    then obtain s1 where s1: "pjmedia_rtp_seq_update s (of_int n) =
        (no_status\<lparr>dup := n = M, outorder := n < M, diff := of_int (max M n - M)\<rparr>, s1)"
      "tracks s1 (max M n)" "base_seq s1 = base_seq s"
      using seq_update_tracks [of s M n] by auto
    obtain sts1 where r: "seq_updates s1 (map of_int ns) = (sts1, s')"
      "sts = no_status\<lparr>dup := n = M, outorder := n < M, diff := of_int (max M n - M)\<rparr> # sts1"
      using Cons.prems(3) s1(1) by (auto split: prod.splits)
    have "uint (of_int (max M n - M) :: pj_uint16_t) = max M n - M"
      using Cons.prems(2) by (simp add: uint_diff16 max_def)
    then show ?case using Cons.IH [OF s1(2) _ r(1)] Cons.prems(2) s1(3) r(2) by (auto simp: no_status_def)
  qed simp
  then show ?thesis using tracks_extended by blast
qed

theorem rtp_seq_follows_witness:
  "\<exists>sts s'. seq_updates \<lparr>max_seq = 65534, cycles = 0, base_seq = 7, bad_seq = 65537, probation = 0\<rparr> [0, 65535, 0, 2] = (sts, s') \<and>
     cycles s' + ucast (max_seq s') = 65538 \<and> map (uint \<circ> diff) sts = [2, 0, 0, 2]"
proof -
  let ?s = "\<lparr>max_seq = 65534, cycles = 0, base_seq = 7, bad_seq = 65537, probation = 0\<rparr>"
  have t: "tracks ?s 65534" "in_window 65534 [65536, 65535, 65536, 65538]" by (simp_all add: tracks_def)
  obtain sts s' where r: "seq_updates ?s (map of_int [65536, 65535, 65536, 65538]) = (sts, s')" by (cases "seq_updates ?s (map of_int [65536, 65535, 65536, 65538])")
  have e: "map of_int [65536, 65535, 65536, 65538] = [0, 65535, 0, 2 :: pj_uint16_t]" by code_simp
  have "cycles s' + ucast (max_seq s') = 65538" using rtp_seq_follows [OF t r] by simp
  moreover have "map (uint \<circ> diff) (fst (seq_updates ?s [0, 65535, 0, 2])) = [2, 0, 0, 2]" by code_simp
  moreover note r [unfolded e]
  ultimately show ?thesis by (metis fst_conv)
qed

text \<open>A peer that restarts with distant numbers is followed again from its second packet on.\<close>

lemma seq_resync:
  assumes "probation s = 0" "3000 \<le> uint (n - max_seq s)" "uint (n - max_seq s) < 65436" "ucast n \<noteq> bad_seq s" "uint n < 65535"
  shows "\<exists>st s1 s2. pjmedia_rtp_seq_update s n = (st, s1) \<and> bad st \<and> max_seq s1 = max_seq s \<and>
    pjmedia_rtp_seq_update s1 (n + 1) = (no_status\<lparr>restart := True, in_probation := True, diff := 1\<rparr>, s2) \<and>
    tracks s2 (uint (n + 1))"
proof -
  note defs = RTP_MAX_DROPOUT_def RTP_MAX_MISORDER_def RTP_SEQ_MOD_def
  define d where "d = n - max_seq s"
  have d: "3000 \<le> uint d" "uint d < 65436" using assms by (simp_all add: d_def)
  have d1: "n + 1 - max_seq s = d + 1" by (simp add: d_def)
  have ud1: "uint (d + 1) = uint d + 1" using d by (simp add: uint_word_ariths)
  have un1: "uint (n + 1) = uint n + 1" using assms(5) by (simp add: uint_word_ariths)
  define s1 where "s1 = s\<lparr>bad_seq := of_int ((uint n + 1) mod RTP_SEQ_MOD)\<rparr>"
  have "pjmedia_rtp_seq_update s n = (no_status\<lparr>bad := True, outorder := True\<rparr>, s1)"
    using d assms(1,4) by (auto simp: pjmedia_rtp_seq_update_def defs s1_def simp flip: d_def)
  moreover have b: "ucast (n + 1) = bad_seq s1"
  proof -
    have "ucast (n + 1) = (of_int (uint (n + 1)) :: pj_uint32_t)" by (rule ucast_eq)
    moreover have "(uint n + 1) mod RTP_SEQ_MOD = uint (n + 1)" using assms(5) by (simp add: un1 defs)
    ultimately show ?thesis by (simp add: s1_def)
  qed
  moreover have s1: "probation s1 = 0" "max_seq s1 = max_seq s" by (simp_all add: s1_def assms(1))
  moreover have "pjmedia_rtp_seq_update s1 (n + 1) =
      (no_status\<lparr>restart := True, in_probation := True, diff := 1\<rparr>, pjmedia_rtp_seq_restart s1 (n + 1))"
    using d ud1 b s1 by (auto simp: pjmedia_rtp_seq_update_def defs d1 Let_def)
  moreover have "tracks (pjmedia_rtp_seq_restart s1 (n + 1)) (uint (n + 1))"
    using unsigned_less [of "n + 1", where ?'a = int] by (simp add: tracks_def pjmedia_rtp_seq_restart_def s1_def assms(1) zdiv_eq_0_iff)
  ultimately show ?thesis by (simp add: no_status_def)
qed

section \<open>From sender to receiver\<close>

text \<open>
  The loop of a sender, which sends frames of a payload, a marker and a duration with its default
  payload type, and the loop of a receiver.
\<close>

fun send_frames :: "pjmedia_rtp_session \<Rightarrow> (bytes \<times> int \<times> int) list \<Rightarrow> bytes list" where
  "send_frames ses [] = []"
| "send_frames ses ((payload, marker, ts_len) # frames) =
     (case pjmedia_rtp_encode_rtp ses (-1) marker (int (length payload)) ts_len of
        (Some hdr, ses) \<Rightarrow> (hdr_bytes hdr @ payload) # send_frames ses frames
      | (None, ses) \<Rightarrow> send_frames ses frames)"

fun receive_packets :: "pjmedia_rtp_session \<Rightarrow> bytes list \<Rightarrow> (bytes \<times> pjmedia_rtp_status) list \<times> pjmedia_rtp_session" where
  "receive_packets ses [] = ([], ses)"
| "receive_packets ses (pkt # pkts) =
     (case pjmedia_rtp_decode_rtp pkt (length pkt) of
        Decoded status hdr payload \<Rightarrow>
          let (st, ses) = pjmedia_rtp_session_update ses hdr no_status;
              (rest, ses) = receive_packets ses pkts
          in ((payload, st) # rest, ses)
      | _ \<Rightarrow> receive_packets ses pkts)"

text \<open>A sender that is about to send number \<open>E + 1\<close>, and a receiver that saw \<open>k\<close> packets after number \<open>E\<close>.\<close>

definition sender_at :: "int \<Rightarrow> int \<Rightarrow> pjmedia_rtp_session \<Rightarrow> bool" where
  "sender_at ptype E ses \<longleftrightarrow> plain_hdr (out_hdr ses) \<and> out_extseq ses = of_int E \<and> out_pt ses = of_int ptype"

definition receiver_at :: "int \<Rightarrow> int \<Rightarrow> nat \<Rightarrow> pjmedia_rtp_session \<Rightarrow> bool" where
  "receiver_at ptype E k ses \<longleftrightarrow>
     out_pt ses = of_int ptype \<and> received ses = of_nat k \<and>
     (k = 1 \<longrightarrow> probation (seq_ctrl ses) = 1 \<and> max_seq (seq_ctrl ses) = of_int (E + 1) \<and> cycles (seq_ctrl ses) = 0) \<and>
     (2 \<le> k \<longrightarrow> tracks (seq_ctrl ses) (E + int k))"

lemma uint_of_int16: "0 \<le> k \<Longrightarrow> k < 65536 \<Longrightarrow> uint (of_int k :: pj_uint16_t) = k"
  by (simp add: unsigned_of_int take_bit_int_eq_self)

lemma ucast_of_int32: "ucast (of_int k :: pj_uint32_t) = (of_int k :: pj_uint16_t)"
  by (simp add: ucast_eq unsigned_of_int take_bit_eq_mod word_of_int_eq_iff mod_mod_cancel)

lemma send_step:
  assumes "sender_at ptype E ses" "0 \<le> ptype" "ptype \<le> 127" "n \<noteq> 0"
  obtains hdr ses' where "pjmedia_rtp_encode_rtp ses (-1) marker n ts_len = (Some hdr, ses')" "sender_at ptype (E + 1) ses'"
    "plain_hdr hdr" "ucast (pt hdr) = (of_int ptype :: pj_uint16_t)" "pj_ntohs (seq hdr) = of_int (E + 1)"
proof -
  obtain hdr ses' where e: "pjmedia_rtp_encode_rtp ses (-1) marker n ts_len = (Some hdr, ses')"
    using assms(4) by (simp add: pjmedia_rtp_encode_rtp_def Let_def)
  have "take_bit 7 ptype = ptype" using assms(2,3) by (intro take_bit_int_eq_self) simp_all
  then have "ucast (ucast (ucast (of_int ptype :: pj_uint16_t) :: pj_uint8_t) :: 7 word) = (of_int ptype :: pj_uint16_t)"
    using assms(2) by (simp add: ucast_eq unsigned_of_int take_bit_eq_mod)
  then have pt: "ucast (ucast (ucast (out_pt ses) :: pj_uint8_t) :: 7 word) = (of_int ptype :: pj_uint16_t)"
    using assms(1) by (simp add: sender_at_def)
  have seq: "ucast (out_extseq ses + 1) = (of_int (E + 1) :: pj_uint16_t)"
  proof -
    have "out_extseq ses + 1 = of_int (E + 1)" using assms(1) by (simp add: sender_at_def)
    then show ?thesis by (simp only: ucast_of_int32)
  qed
  have ses': "out_extseq ses' = out_extseq ses + 1" "out_pt ses' = out_pt ses" "out_hdr ses' = hdr"
    "pt hdr = ucast (ucast (out_pt ses) :: pj_uint8_t)" "seq hdr = pj_htons (ucast (out_extseq ses + 1))"
    "plain_hdr hdr = plain_hdr (out_hdr ses)"
    using e assms(4) by (auto simp: pjmedia_rtp_encode_rtp_def Let_def plain_hdr_def)
  show thesis
    by (rule that [OF e]) (use assms(1) ses' pt seq in \<open>simp_all add: sender_at_def\<close>)
qed

lemma receive_first:
  assumes "received ses = 0" "n \<noteq> 0" "out_pt ses = ucast (pt hdr)" "pj_ntohs (seq hdr) = n"
  shows "\<exists>ses'. pjmedia_rtp_session_update ses hdr st = (no_status\<lparr>in_probation := True, diff := 1\<rparr>, ses') \<and>
    received ses' = 1 \<and> out_pt ses' = out_pt ses \<and>
    probation (seq_ctrl ses') = 1 \<and> max_seq (seq_ctrl ses') = n \<and> cycles (seq_ctrl ses') = 0"
proof -
  have "uint n \<noteq> 0" "0 \<le> uint n" "uint n < 65536" using assms(2) unsigned_less [of n, where ?'a = int] by (simp_all add: uint_0_iff)
  then have "0 < uint n" by linarith
  then have "uint n = uint (of_int (uint n - 1) :: pj_uint16_t) + 1" using \<open>uint n < 65536\<close> by (subst uint_of_int16) auto
  then have "uint n = uint (n - 1) + 1" by simp
  then show ?thesis using assms
    by (simp add: pjmedia_rtp_session_update_def pjmedia_rtp_session_update2_def pjmedia_rtp_seq_init_def
        pjmedia_rtp_seq_restart_def pjmedia_rtp_seq_update_def MIN_SEQUENTIAL_def no_status_def Let_def)
qed

lemma receive_next:
  assumes "received ses \<noteq> 0" "out_pt ses = ucast (pt hdr)"
    "pjmedia_rtp_seq_update (seq_ctrl ses) (pj_ntohs (seq hdr)) = (seq_st, ctrl)" "\<not> bad seq_st"
  shows "\<exists>ses'. pjmedia_rtp_session_update ses hdr st = (seq_st, ses') \<and>
    received ses' = received ses + 1 \<and> out_pt ses' = out_pt ses \<and> seq_ctrl ses' = ctrl"
  using assms by (simp add: pjmedia_rtp_session_update_def pjmedia_rtp_session_update2_def Let_def)

lemma receive_step:
  assumes "receiver_at ptype E k ses" "0 \<le> E" "E < 32768" "Suc k < 2 ^ 32"
    "ucast (pt hdr) = (of_int ptype :: pj_uint16_t)" "pj_ntohs (seq hdr) = of_int (E + int k + 1)"
  obtains st ses' where "pjmedia_rtp_session_update ses hdr no_status = (st, ses')" "receiver_at ptype E (Suc k) ses'"
    "\<not> bad st" "\<not> dup st" "\<not> outorder st" "diff st = 1"
proof -
  note r = assms(1) [unfolded receiver_at_def]
  consider "k = 0" | "k = 1" | "2 \<le> k" by linarith
  then show thesis
  proof cases
    case 1
    have "(of_int (E + 1) :: pj_uint16_t) \<noteq> 0" using uint_of_int16 [of "E + 1"] assms(2,3) by auto
    then obtain ses' where "pjmedia_rtp_session_update ses hdr no_status = (no_status\<lparr>in_probation := True, diff := 1\<rparr>, ses')"
      "received ses' = 1" "out_pt ses' = out_pt ses" "probation (seq_ctrl ses') = 1"
      "max_seq (seq_ctrl ses') = of_int (E + 1)" "cycles (seq_ctrl ses') = 0"
      using receive_first [of ses "of_int (E + 1)" hdr no_status] r 1 assms(5,6) by (auto simp: add.commute)
    then show thesis using r 1 by (intro that [of "no_status\<lparr>in_probation := True, diff := 1\<rparr>" ses'])
      (auto simp: receiver_at_def no_status_def)
  next
    case 2
    define ctrl where "ctrl = (seq_ctrl ses)\<lparr>probation := 0, max_seq := of_int (E + 2)\<rparr>"
    have "uint (of_int (E + 2) :: pj_uint16_t) = uint (of_int (E + 1) :: pj_uint16_t) + 1"
      using uint_of_int16 [of "E + 1"] uint_of_int16 [of "E + 2"] assms(2,3) by simp
    then have "pjmedia_rtp_seq_update (seq_ctrl ses) (pj_ntohs (seq hdr)) = (no_status\<lparr>diff := 1\<rparr>, ctrl)"
      using r 2 assms(6) by (simp add: pjmedia_rtp_seq_update_def ctrl_def no_status_def add.commute)
    then obtain ses' where "pjmedia_rtp_session_update ses hdr no_status = (no_status\<lparr>diff := 1\<rparr>, ses')"
      "received ses' = received ses + 1" "out_pt ses' = out_pt ses" "seq_ctrl ses' = ctrl"
      using receive_next [of ses hdr _ ctrl no_status] r 2 assms(5) by (auto simp: no_status_def)
    then show thesis using r 2 assms(2,3) by (intro that [of "no_status\<lparr>diff := 1\<rparr>" ses'])
      (auto simp: receiver_at_def no_status_def tracks_def ctrl_def)
  next
    case 3
    then obtain ctrl where c: "pjmedia_rtp_seq_update (seq_ctrl ses) (pj_ntohs (seq hdr)) = (no_status\<lparr>diff := 1\<rparr>, ctrl)"
      "tracks ctrl (E + int (Suc k))"
      using seq_update_tracks [of "seq_ctrl ses" "E + int k" "E + int k + 1"] r assms(6) by (auto simp: no_status_def algebra_simps)
    have "unat (of_nat k :: pj_uint32_t) = k" using assms(4) by (simp add: unsigned_of_nat take_bit_nat_eq_self)
    then have "received ses \<noteq> 0" using r 3 by auto
    then obtain ses' where "pjmedia_rtp_session_update ses hdr no_status = (no_status\<lparr>diff := 1\<rparr>, ses')"
      "received ses' = received ses + 1" "out_pt ses' = out_pt ses" "seq_ctrl ses' = ctrl"
      using receive_next [OF _ _ c(1), of no_status] r 3 assms(5) by (auto simp: no_status_def)
    then show thesis using r 3 c(2) by (intro that [of "no_status\<lparr>diff := 1\<rparr>" ses'])
      (auto simp: receiver_at_def no_status_def)
  qed
qed

lemma stream_received:
  assumes "sender_at ptype (E + int k) snd_ses" "receiver_at ptype E k rcv_ses" "0 \<le> ptype" "ptype \<le> 127"
    "0 \<le> E" "E < 32768" "k + length frames < 2 ^ 32" "\<forall>(payload, _) \<in> set frames. payload \<noteq> []"
  shows "\<exists>out ses'. receive_packets rcv_ses (send_frames snd_ses frames) = (out, ses') \<and> map fst out = map fst frames \<and>
    list_all (\<lambda>(_, st). \<not> bad st \<and> \<not> dup st \<and> \<not> outorder st \<and> diff st = 1) out \<and>
    receiver_at ptype E (k + length frames) ses'"
  using assms
proof (induction frames arbitrary: k snd_ses rcv_ses)
  case Nil
  then show ?case by simp
next
  case (Cons f frames)
  obtain payload marker ts_len where f: "f = (payload, marker, ts_len)" by (cases f)
  have "int (length payload) \<noteq> 0" using Cons.prems(8) f by simp
  from send_step [OF Cons.prems(1,3,4) this] obtain hdr snd' where e:
    "pjmedia_rtp_encode_rtp snd_ses (-1) marker (int (length payload)) ts_len = (Some hdr, snd')"
    "sender_at ptype (E + int k + 1) snd'" "plain_hdr hdr" "ucast (pt hdr) = (of_int ptype :: pj_uint16_t)"
    "pj_ntohs (seq hdr) = of_int (E + int k + 1)" by metis
  have "Suc k < 2 ^ 32" using Cons.prems(7) by simp
  from receive_step [OF Cons.prems(2,5,6) this e(4,5)] obtain st rcv' where r:
    "pjmedia_rtp_session_update rcv_ses hdr no_status = (st, rcv')" "receiver_at ptype E (Suc k) rcv'"
    "\<not> bad st" "\<not> dup st" "\<not> outorder st" "diff st = 1" by metis
  have d: "pjmedia_rtp_decode_rtp (hdr_bytes hdr @ payload) (12 + length payload) = Decoded PJ_SUCCESS hdr payload"
    using decode_plain [OF e(3), of payload "[]"] by simp
  have snd': "sender_at ptype (E + int (Suc k)) snd'" using e(2) by (simp add: add.commute add.left_commute)
  from Cons.IH [OF snd' r(2) Cons.prems(3-6)] obtain out ses' where
    "receive_packets rcv' (send_frames snd' frames) = (out, ses')" "map fst out = map fst frames"
    "list_all (\<lambda>(_, st). \<not> bad st \<and> \<not> dup st \<and> \<not> outorder st \<and> diff st = 1) out"
    "receiver_at ptype E (Suc k + length frames) ses'"
    using Cons.prems(7,8) by auto
  then show ?case using d e(1) r by (simp add: f)
qed

lemma fresh_sessions:
  "sender_at ptype (uint (of_int rand_seq AND 0x7FFF :: pj_uint32_t)) (pjmedia_rtp_session_init rand_ssrc rand_seq ptype sender_ssrc)"
  "receiver_at ptype E 0 (pjmedia_rtp_session_init rand_ssrc' rand_seq' ptype receiver_ssrc)"
  by (simp_all add: sender_at_def receiver_at_def pjmedia_rtp_session_init_def plain_hdr_def Let_def)

text \<open>
  C16: what a session sends, another one receives. Every packet that the sender builds, however many
  wrap-arounds of its counter there are, is taken apart into the same payload, none of them is
  refused or taken as lost, repeated or late, and at the end the receiver's extended sequence
  number is the number of the last packet.\<close>

theorem rtp_stream_roundtrip:
  assumes "0 \<le> ptype" "ptype \<le> 127" "length frames < 2 ^ 32" "\<forall>(payload, _) \<in> set frames. payload \<noteq> []"
  shows "\<exists>out ses'.
    receive_packets (pjmedia_rtp_session_init r1 r2 ptype receiver_ssrc)
      (send_frames (pjmedia_rtp_session_init r3 r4 ptype sender_ssrc) frames) = (out, ses') \<and>
    map fst out = map fst frames \<and>
    list_all (\<lambda>(_, st). \<not> bad st \<and> \<not> dup st \<and> \<not> outorder st \<and> diff st = 1) out \<and>
    received ses' = of_nat (length frames) \<and>
    (2 \<le> length frames \<longrightarrow>
       cycles (seq_ctrl ses') + ucast (max_seq (seq_ctrl ses')) = (of_int r4 AND 0x7FFF) + of_nat (length frames))"
proof -
  define E where "E = uint (of_int r4 AND 0x7FFF :: pj_uint32_t)"
  have "(of_int r4 AND 0x7FFF :: pj_uint32_t) \<le> 0x7FFF" by (rule word_and_le1)
  then have E: "0 \<le> E" "E < 32768" by (simp_all add: E_def word_le_def)
  have s: "sender_at ptype (E + int 0) (pjmedia_rtp_session_init r3 r4 ptype sender_ssrc)" using fresh_sessions(1) by (simp add: E_def)
  have k: "0 + length frames < 2 ^ 32" using assms(3) by simp
  from stream_received [OF s fresh_sessions(2) assms(1,2) E k assms(4)] obtain out ses' where r:
    "receive_packets (pjmedia_rtp_session_init r1 r2 ptype receiver_ssrc)
      (send_frames (pjmedia_rtp_session_init r3 r4 ptype sender_ssrc) frames) = (out, ses')"
    "map fst out = map fst frames" "list_all (\<lambda>(_, st). \<not> bad st \<and> \<not> dup st \<and> \<not> outorder st \<and> diff st = 1) out"
    "receiver_at ptype E (0 + length frames) ses'" by blast
  have "cycles (seq_ctrl ses') + ucast (max_seq (seq_ctrl ses')) = of_int (E + int (length frames))" if "2 \<le> length frames"
    using r(4) that by (intro tracks_extended) (simp add: receiver_at_def)
  moreover have "of_int (E + int (length frames)) = (of_int r4 AND 0x7FFF :: pj_uint32_t) + of_nat (length frames)" by (simp add: E_def)
  ultimately show ?thesis using r by (auto simp: receiver_at_def)
qed

theorem rtp_stream_roundtrip_witness:
  "\<exists>out ses'.
    receive_packets (pjmedia_rtp_session_init 1 2 8 7)
      (send_frames (pjmedia_rtp_session_init 3 32767 8 0) [([1, 2], 1, 160), ([3], 0, 160), ([4], 0, 160)]) = (out, ses') \<and>
    map fst out = [[1, 2], [3], [4]] \<and> cycles (seq_ctrl ses') + ucast (max_seq (seq_ctrl ses')) = 32770"
proof -
  let ?f = "[([1, 2], 1, 160), ([3], 0, 160), ([4], 0, 160)] :: (bytes \<times> int \<times> int) list"
  have "\<forall>(payload, _) \<in> set ?f. payload \<noteq> []" by simp
  from rtp_stream_roundtrip [OF _ _ _ this, of 8 1 2 7 3 32767 0] show ?thesis by auto
qed

text \<open>
  the first packet of a session is refused if its payload type is another one, and also if its
  sequence number is zero, since the expected successor of 65535 is computed without wrap-around;
  and a change of the source identifier, although it is detected, is only reported for packets
  that are refused for their payload type.\<close>

theorem rtp_update_status:
  assumes "pjmedia_rtp_session_update ses hdr st = (st', ses')"
  shows "(received ses = 0 \<longrightarrow> bad st' = (ucast (pt hdr) \<noteq> out_pt ses \<or> seq hdr = 0)) \<and> (badssrc st' \<longrightarrow> badpt st') \<and>
    peer_ssrc ses' = pj_ntohl (ssrc hdr)"
proof -
  have "pj_htons 0 = 0" by code_simp
  then have z: "pj_ntohs (seq hdr) = 0 \<longleftrightarrow> seq hdr = 0" using htons_involutive [of "seq hdr"] by metis
  have "bad st' = (ucast (pt hdr) \<noteq> out_pt ses \<or> seq hdr = 0)" if r: "received ses = 0"
  proof (cases "ucast (pt hdr) \<noteq> out_pt ses")
    case False
    show ?thesis
    proof (cases "seq hdr = 0")
      case True
      then have n: "pj_ntohs (seq hdr) = 0" using z by simp
      have "uint (- 1 :: pj_uint16_t) = 65535" by code_simp
      then have "bad (fst (pjmedia_rtp_seq_update (pjmedia_rtp_seq_init c 0) 0))" for c
        by (simp add: pjmedia_rtp_seq_init_def pjmedia_rtp_seq_restart_def pjmedia_rtp_seq_update_def MIN_SEQUENTIAL_def Let_def)
      moreover have "fst (pjmedia_rtp_session_update ses hdr st) = fst (pjmedia_rtp_seq_update (pjmedia_rtp_seq_init (seq_ctrl ses) 0) 0)"
        using r False n by (simp add: pjmedia_rtp_session_update_def pjmedia_rtp_session_update2_def Let_def case_prod_beta)
      ultimately show ?thesis using assms True by simp
    next
      case nz: False
      then show ?thesis using receive_first [OF r, of "pj_ntohs (seq hdr)" hdr st] False z assms by (auto simp: no_status_def)
    qed
  qed (use assms in \<open>auto simp: pjmedia_rtp_session_update_def pjmedia_rtp_session_update2_def no_status_def Let_def split: if_splits\<close>)
  moreover have "badssrc st' \<longrightarrow> badpt st'" "peer_ssrc ses' = pj_ntohl (ssrc hdr)"
    using assms by (auto simp: pjmedia_rtp_session_update_def pjmedia_rtp_session_update2_def pjmedia_rtp_seq_update_def
        no_status_def Let_def split: if_splits)
  ultimately show ?thesis by blast
qed

theorem rtp_update_status_witness:
  "bad (fst (pjmedia_rtp_session_update (pjmedia_rtp_session_init 0 0 8 0) (out_hdr (pjmedia_rtp_session_init 1 0 8 9)) no_status))"
proof -
  let ?s = "pjmedia_rtp_session_init 0 0 8 0" and ?h = "out_hdr (pjmedia_rtp_session_init 1 0 8 9)"
  have "received ?s = 0" "seq ?h = 0" by code_simp+
  then show ?thesis using rtp_update_status [of ?s ?h no_status] by (metis prod.collapse)
qed

theorem rtp_decode_bounds_witness:
  "pjmedia_rtp_decode_rtp (hdr_bytes (out_hdr (pjmedia_rtp_session_init 1 0 8 9)) @ [1, 2]) 14 \<noteq> Unreadable"
proof -
  let ?p = "hdr_bytes (out_hdr (pjmedia_rtp_session_init 1 0 8 9)) @ [1, 2]"
  have "14 = length ?p" "12 \<le> (14 :: nat)" "hdr_x (bytes_hdr ?p) = 0" by (simp, simp, code_simp)
  then show ?thesis using rtp_decode_bounds [of 14 ?p] by simp
qed

text \<open>A packet of a bare header that announces an extension makes the code read past its end.\<close>

lemma decode_reads_past:
  "length pkt = 12 \<Longrightarrow> hdr_v (bytes_hdr pkt) = RTP_VERSION \<Longrightarrow> hdr_x (bytes_hdr pkt) \<noteq> 0 \<Longrightarrow>
   pjmedia_rtp_decode_rtp pkt 12 = Unreadable"
  by (simp add: pjmedia_rtp_decode_rtp_def Let_def)

end
