(* ===== verification/PJ_Scanner.thy ===== *)
theory PJ_Scanner
  imports PJ_String "HOL-Library.Monad_Syntax"
begin

text \<open>
  The text scanner of \<^verbatim>\<open>pjlib-util/src/pjlib-util/scanner.c\<close>, on which the SIP and SDP parsers
  are built. A scanner's text is the list of the bytes from \<^verbatim>\<open>begin\<close> to \<^verbatim>\<open>end\<close>, a position is an
  index into it, and the byte at \<^verbatim>\<open>end\<close> is the NUL that the text must be terminated with. \<open>None\<close> is
  a call of the syntax error callback, which in the repository never returns (it throws), with
  the scanner still as it was.

  The lemmas show which operations keep the position within the text; the one that does not
  skips the terminator after a lone percent sign.
\<close>

section \<open>Character specifications\<close>

text \<open>A specification is one bit of each of the 256 entries of a table: a predicate on bytes.\<close>

type_synonym pj_cis_t = "pj_uint8_t \<Rightarrow> bool"

definition pj_cis_init :: pj_cis_t where
  "pj_cis_init = (\<lambda>c. False)"

definition PJ_CIS_SET :: "pj_cis_t \<Rightarrow> pj_uint8_t \<Rightarrow> pj_cis_t" where
  "PJ_CIS_SET cis c = cis(c := True)"

definition PJ_CIS_CLR :: "pj_cis_t \<Rightarrow> pj_uint8_t \<Rightarrow> pj_cis_t" where
  "PJ_CIS_CLR cis c = cis(c := False)"

definition pj_cis_add_range :: "pj_cis_t \<Rightarrow> nat \<Rightarrow> nat \<Rightarrow> pj_cis_t" where
  "pj_cis_add_range cis cstart cend = fold (\<lambda>c cis. PJ_CIS_SET cis (of_nat c)) [cstart..<cend] cis"

definition pj_cis_add_alpha :: "pj_cis_t \<Rightarrow> pj_cis_t" where
  "pj_cis_add_alpha cis = pj_cis_add_range (pj_cis_add_range cis 97 123) 65 91"

definition pj_cis_add_num :: "pj_cis_t \<Rightarrow> pj_cis_t" where
  "pj_cis_add_num cis = pj_cis_add_range cis 48 58"

definition pj_cis_add_str :: "pj_cis_t \<Rightarrow> bytes \<Rightarrow> pj_cis_t" where
  "pj_cis_add_str cis s = fold (\<lambda>c cis. PJ_CIS_SET cis c) s cis"

definition pj_cis_add_cis :: "pj_cis_t \<Rightarrow> pj_cis_t \<Rightarrow> pj_cis_t" where
  "pj_cis_add_cis cis rhs = fold (\<lambda>i cis. if rhs (of_nat i) then PJ_CIS_SET cis (of_nat i) else cis) [0..<256] cis"

definition pj_cis_del_range :: "pj_cis_t \<Rightarrow> nat \<Rightarrow> nat \<Rightarrow> pj_cis_t" where
  "pj_cis_del_range cis cstart cend = fold (\<lambda>c cis. PJ_CIS_CLR cis (of_nat c)) [cstart..<cend] cis"

definition pj_cis_del_str :: "pj_cis_t \<Rightarrow> bytes \<Rightarrow> pj_cis_t" where
  "pj_cis_del_str cis s = fold (\<lambda>c cis. PJ_CIS_CLR cis c) s cis"

definition pj_cis_invert :: "pj_cis_t \<Rightarrow> pj_cis_t" where
  "pj_cis_invert cis =
     fold (\<lambda>i cis. if cis (of_nat i) then PJ_CIS_CLR cis (of_nat i) else PJ_CIS_SET cis (of_nat i)) [1..<256] cis"

lemma add_str_eq: "pj_cis_add_str cis s c \<longleftrightarrow> cis c \<or> c \<in> set s"
  unfolding pj_cis_add_str_def by (induction s arbitrary: cis) (auto simp: PJ_CIS_SET_def)

lemma add_range_eq: "n \<le> 256 \<Longrightarrow> pj_cis_add_range cis m n c \<longleftrightarrow> cis c \<or> m \<le> unat c \<and> unat c < n"
proof -
  assume n: "n \<le> 256"
  have "pj_cis_add_range cis m n = pj_cis_add_str cis (map of_nat [m..<n])"
    by (simp add: pj_cis_add_range_def pj_cis_add_str_def fold_map comp_def)
  moreover have "c \<in> set (map of_nat [m..<n]) \<longleftrightarrow> m \<le> unat c \<and> unat c < n"
  proof
    assume "c \<in> set (map of_nat [m..<n])"
    then obtain k where "k \<in> {m..<n}" "c = of_nat k" by auto
    moreover from this n have "unat c = k" by (simp add: unsigned_of_nat take_bit_nat_eq_self)
    ultimately show "m \<le> unat c \<and> unat c < n" by simp
  next
    assume "m \<le> unat c \<and> unat c < n"
    then have "unat c \<in> set [m..<n]" by simp
    then have "of_nat (unat c) \<in> set (map of_nat [m..<n] :: bytes)" unfolding set_map by (rule imageI)
    then show "c \<in> set (map of_nat [m..<n])" by simp
  qed
  ultimately show ?thesis by (simp add: add_str_eq)
qed

section \<open>Scanners\<close>

record pj_scanner =
  sbuf :: bytes
  curptr :: nat
  line :: nat
  start_line :: nat
  skip_ws :: pj_uint32_t

definition PJ_SCAN_AUTOSKIP_WS :: pj_uint32_t where "PJ_SCAN_AUTOSKIP_WS = 1"
definition PJ_SCAN_AUTOSKIP_WS_HEADER :: pj_uint32_t where "PJ_SCAN_AUTOSKIP_WS_HEADER = 3"
definition PJ_SCAN_AUTOSKIP_NEWLINE :: pj_uint32_t where "PJ_SCAN_AUTOSKIP_NEWLINE = 4"

definition scan_end :: "pj_scanner \<Rightarrow> nat" where
  "scan_end sc = length (sbuf sc)"

text \<open>\<^verbatim>\<open>*s\<close>, for positions up to the terminator.\<close>

definition at :: "pj_scanner \<Rightarrow> nat \<Rightarrow> pj_uint8_t" where
  "at sc s = (if s < scan_end sc then sbuf sc ! s else 0)"

definition PJ_SCAN_IS_SPACE :: "pj_uint8_t \<Rightarrow> bool" where
  "PJ_SCAN_IS_SPACE c \<longleftrightarrow> c = 32 \<or> c = 9"

definition PJ_SCAN_IS_NEWLINE :: "pj_uint8_t \<Rightarrow> bool" where
  "PJ_SCAN_IS_NEWLINE c \<longleftrightarrow> c = 13 \<or> c = 10"

text \<open>Characters are signed.\<close>

definition PJ_SCAN_IS_PROBABLY_SPACE :: "pj_uint8_t \<Rightarrow> bool" where
  "PJ_SCAN_IS_PROBABLY_SPACE c \<longleftrightarrow> sint c \<le> 32"

text \<open>The position after the run of matching characters that starts at \<open>s\<close>, and the text between two positions.\<close>

definition run :: "pj_cis_t \<Rightarrow> pj_scanner \<Rightarrow> nat \<Rightarrow> nat" where
  "run spec sc s = s + length (takeWhile spec (drop s (sbuf sc)))"

definition between :: "pj_scanner \<Rightarrow> nat \<Rightarrow> nat \<Rightarrow> bytes" where
  "between sc i j = take (j - i) (drop i (sbuf sc))"

lemma run_ge [simp]: "s \<le> run spec sc s"
  by (simp add: run_def)

lemma run_le: "s \<le> scan_end sc \<Longrightarrow> run spec sc s \<le> scan_end sc"
  using length_takeWhile_le [of spec "drop s (sbuf sc)"] by (simp add: run_def scan_end_def)

lemma run_stops: "\<not> spec 0 \<Longrightarrow> \<not> spec (at sc (run spec sc s))"
proof -
  assume z: "\<not> spec 0"
  let ?n = "length (takeWhile spec (drop s (sbuf sc)))"
  show ?thesis
  proof (cases "s + ?n < length (sbuf sc)")
    case True
    then have "\<not> spec (drop s (sbuf sc) ! ?n)" by (intro nth_length_takeWhile) simp
    then show ?thesis using True by (simp add: at_def run_def scan_end_def)
  qed (use z in \<open>simp add: at_def run_def scan_end_def\<close>)
qed

lemma at_inside: "at sc s \<noteq> 0 \<Longrightarrow> s < scan_end sc"
  by (auto simp: at_def split: if_splits)

lemma run_advances: "spec (at sc s) \<Longrightarrow> \<not> spec 0 \<Longrightarrow> s < run spec sc s"
  by (cases "run spec sc s = s") (use run_stops [of spec sc s] run_ge [of s spec sc] in \<open>auto simp: order_le_less\<close>)

section \<open>White space\<close>

text \<open>The loop that skips new lines and the white space after them.\<close>

function skip_newlines :: "pj_scanner \<Rightarrow> nat \<Rightarrow> pj_scanner \<times> nat" where
  "skip_newlines sc s =
     (if at sc s = 13 then
        let s = s + 1; s = (if at sc s = 10 then s + 1 else s)
        in skip_newlines (sc\<lparr>line := line sc + 1, curptr := s, start_line := s\<rparr>) s
      else if at sc s = 10 then
        let s = s + 1 in skip_newlines (sc\<lparr>line := line sc + 1, curptr := s, start_line := s\<rparr>) s
      else if PJ_SCAN_IS_SPACE (at sc s) then skip_newlines sc (run PJ_SCAN_IS_SPACE sc s)
      else (sc, s))"
  by pat_completeness auto
termination
proof (relation "measure (\<lambda>(sc, s). scan_end sc - s)", goal_cases)
  case (2 sc s t u)
  then have "s < scan_end sc" by (intro at_inside) simp
  then show ?case using 2 by (auto simp: scan_end_def)
next
  case (3 sc s t)
  then have "s < scan_end sc" by (intro at_inside) simp
  then show ?case using 3 by (simp add: scan_end_def)
next
  case (4 sc s)
  then have "at sc s \<noteq> 0" "s < run PJ_SCAN_IS_SPACE sc s"
    using run_advances [of PJ_SCAN_IS_SPACE sc s] by (auto simp: PJ_SCAN_IS_SPACE_def)
  then show ?case using at_inside [of sc s] by simp
qed simp

declare skip_newlines.simps [simp del]

definition pj_scan_skip_whitespace :: "pj_scanner \<Rightarrow> pj_scanner" where
  "pj_scan_skip_whitespace sc =
     (let s = run PJ_SCAN_IS_SPACE sc (curptr sc);
          (sc, s) = (if PJ_SCAN_IS_NEWLINE (at sc s) \<and> skip_ws sc AND PJ_SCAN_AUTOSKIP_NEWLINE \<noteq> 0
                     then skip_newlines sc s else (sc, s))
      in if PJ_SCAN_IS_NEWLINE (at sc s) \<and> skip_ws sc AND PJ_SCAN_AUTOSKIP_WS_HEADER = PJ_SCAN_AUTOSKIP_WS_HEADER then
           let sc = sc\<lparr>curptr := s\<rparr>;
               s = (if at sc s = 13 then s + 1 else s);
               s = (if at sc s = 10 then s + 1 else s);
               sc = sc\<lparr>start_line := s\<rparr>
           in if PJ_SCAN_IS_SPACE (at sc s)
              then sc\<lparr>line := line sc + 1, curptr := run PJ_SCAN_IS_SPACE sc s\<rparr>
              else sc
         else sc\<lparr>curptr := s\<rparr>)"

text \<open>What ends most operations: white space is skipped if the scanner was asked to.\<close>

definition skip_after :: "pj_scanner \<Rightarrow> pj_scanner" where
  "skip_after sc =
     (if PJ_SCAN_IS_PROBABLY_SPACE (at sc (curptr sc)) \<and> skip_ws sc \<noteq> 0 then pj_scan_skip_whitespace sc else sc)"

definition pj_scan_init :: "bytes \<Rightarrow> pj_uint32_t \<Rightarrow> pj_scanner" where
  "pj_scan_init buf options =
     (let sc = \<lparr>sbuf = buf, curptr = 0, line = 1, start_line = 0, skip_ws = options\<rparr>
      in if skip_ws sc \<noteq> 0 then pj_scan_skip_whitespace sc else sc)"

text \<open>\<^verbatim>\<open>strchr\<close> stops at a NUL, also at one in the text.\<close>

definition pj_scan_skip_line :: "pj_scanner \<Rightarrow> pj_scanner" where
  "pj_scan_skip_line sc =
     (let s = run (\<lambda>c. c \<noteq> 10 \<and> c \<noteq> 0) sc (curptr sc)
      in if at sc s = 10 then sc\<lparr>curptr := s + 1, start_line := s + 1, line := line sc + 1\<rparr>
         else sc\<lparr>curptr := scan_end sc\<rparr>)"

definition pj_scan_is_eof :: "pj_scanner \<Rightarrow> bool" where
  "pj_scan_is_eof sc \<longleftrightarrow> curptr sc \<ge> scan_end sc"

definition pj_scan_get_col :: "pj_scanner \<Rightarrow> int" where
  "pj_scan_get_col sc = int (curptr sc) - int (start_line sc)"

section \<open>Peeking\<close>

definition pj_scan_peek :: "pj_scanner \<Rightarrow> pj_cis_t \<Rightarrow> (pj_uint8_t \<times> bytes) option" where
  "pj_scan_peek sc spec =
     (if curptr sc \<ge> scan_end sc then None
      else let s = run spec sc (curptr sc) in Some (at sc s, between sc (curptr sc) s))"

definition pj_scan_peek_n :: "pj_scanner \<Rightarrow> nat \<Rightarrow> (pj_uint8_t \<times> bytes) option" where
  "pj_scan_peek_n sc len =
     (let endpos = curptr sc + len
      in if endpos > scan_end sc then None else Some (at sc endpos, between sc (curptr sc) endpos))"

definition pj_scan_peek_until :: "pj_scanner \<Rightarrow> pj_cis_t \<Rightarrow> (pj_uint8_t \<times> bytes) option" where
  "pj_scan_peek_until sc spec =
     (if curptr sc \<ge> scan_end sc then None
      else let s = run (\<lambda>c. \<not> spec c) sc (curptr sc) in Some (at sc s, between sc (curptr sc) s))"

section \<open>Reading\<close>

definition pj_scan_get :: "pj_scanner \<Rightarrow> pj_cis_t \<Rightarrow> (bytes \<times> pj_scanner) option" where
  "pj_scan_get sc spec =
     (if \<not> spec (at sc (curptr sc)) then None
      else let s = run spec sc (curptr sc)
           in Some (between sc (curptr sc) s, skip_after (sc\<lparr>curptr := s\<rparr>)))"

definition pj_isxdigit :: "pj_uint8_t \<Rightarrow> bool" where
  "pj_isxdigit c \<longleftrightarrow> pj_isdigit c \<or> 65 \<le> c \<and> c \<le> 70 \<or> 97 \<le> c \<and> c \<le> 102"

definition pj_hex_digit_to_val :: "pj_uint8_t \<Rightarrow> pj_uint8_t" where
  "pj_hex_digit_to_val c =
     (if c \<le> 57 then (c - 48) AND 0x0F else if c \<le> 70 then (c - 65 + 10) AND 0x0F else (c - 97 + 10) AND 0x0F)"

text \<open>
  The loop of \<^verbatim>\<open>pj_scan_get_unescape\<close>, on the text from the position on: what is written to the
  output, and how many characters are passed. The character after a percent sign that starts
  no escape is copied unseen, also when it is the terminator.
\<close>

function unescape_loop :: "pj_cis_t \<Rightarrow> bytes \<Rightarrow> bytes \<times> nat" where
  "unescape_loop spec t =
     (if t \<noteq> [] \<and> hd t = 37 then
        if length t \<ge> 3 \<and> pj_isxdigit (t ! 1) \<and> pj_isxdigit (t ! 2) then
          let c = push_bit 4 (pj_hex_digit_to_val (t ! 1)) + pj_hex_digit_to_val (t ! 2);
              r = takeWhile spec (drop 3 t);
              rest = drop (3 + length r) t
          in if rest \<noteq> [] \<and> hd rest = 37
             then let (out, n) = unescape_loop spec rest in (c # r @ out, 3 + length r + n)
             else (c # r, 3 + length r)
        else ([37, if length t \<ge> 2 then t ! 1 else 0], 2)
      else
        let r = takeWhile spec t; rest = drop (length r) t
        in if rest \<noteq> [] \<and> hd rest = 37
           then let (out, n) = unescape_loop spec rest in (r @ out, length r + n)
           else (r, length r))"
  by pat_completeness auto
termination
proof (relation "measure (\<lambda>(spec, t). length t)", goal_cases)
  case (2 spec t c r rest)
  then show ?case by (cases t) auto
next
  case (3 spec t r rest)
  then have "r \<noteq> []" by auto
  moreover have "length r \<le> length t" using 3 length_takeWhile_le by simp
  ultimately show ?case using 3 by (cases t) auto
qed simp

declare unescape_loop.simps [simp del]

text \<open>The output is written over the text.\<close>

definition pj_scan_get_unescape :: "pj_scanner \<Rightarrow> pj_cis_t \<Rightarrow> (bytes \<times> pj_scanner) option" where
  "pj_scan_get_unescape sc spec =
     (if \<not> spec (at sc (curptr sc)) \<and> at sc (curptr sc) \<noteq> 37 then None
      else
        let (out, n) = unescape_loop spec (drop (curptr sc) (sbuf sc));
            buf = take (scan_end sc) (take (curptr sc) (sbuf sc) @ out @ drop (curptr sc + length out) (sbuf sc))
        in Some (out, skip_after (sc\<lparr>sbuf := buf, curptr := curptr sc + n\<rparr>)))"

text \<open>
  Quoted strings: \<open>quote_end\<close> is the position at which the search for the end quote stops. A
  quote is escaped if the number of backslashes before it is odd; \<open>backslashes\<close> counts those
  before the one just before the quote, but never the first character of the text.
\<close>

fun backslashes :: "pj_scanner \<Rightarrow> nat \<Rightarrow> nat" where
  "backslashes sc 0 = 0"
| "backslashes sc (Suc r) = (if at sc (Suc r) = 92 then Suc (backslashes sc r) else 0)"

function quote_end :: "pj_scanner \<Rightarrow> pj_uint8_t \<Rightarrow> nat \<Rightarrow> nat" where
  "quote_end sc end_quote s =
     (let s = run (\<lambda>c. c \<noteq> 10 \<and> c \<noteq> end_quote) sc s
      in if s < scan_end sc \<and> at sc s = end_quote then
           if at sc (s - 1) = 92 then
             if odd (backslashes sc (s - 2)) then s else quote_end sc end_quote (s + 1)
           else s
         else s)"
  by pat_completeness auto
termination
proof (relation "measure (\<lambda>(sc, q, s). scan_end sc - s)", goal_cases)
  case (2 sc end_quote s t)
  then have "s \<le> t" "t < scan_end sc" by simp_all
  then show ?case by simp
qed simp

declare quote_end.simps [simp del]

definition pj_scan_get_quotes :: "pj_scanner \<Rightarrow> (pj_uint8_t \<times> pj_uint8_t) list \<Rightarrow> (bytes \<times> pj_scanner) option" where
  "pj_scan_get_quotes sc quotes =
     (case map_of quotes (at sc (curptr sc)) of
        None \<Rightarrow> None
      | Some end_quote \<Rightarrow>
          let s = quote_end sc end_quote (curptr sc + 1)
          in if at sc s \<noteq> end_quote then None
             else Some (between sc (curptr sc) (s + 1), skip_after (sc\<lparr>curptr := s + 1\<rparr>)))"

definition pj_scan_get_quote :: "pj_scanner \<Rightarrow> pj_uint8_t \<Rightarrow> pj_uint8_t \<Rightarrow> (bytes \<times> pj_scanner) option" where
  "pj_scan_get_quote sc begin_quote end_quote = pj_scan_get_quotes sc [(begin_quote, end_quote)]"

definition pj_scan_get_n :: "pj_scanner \<Rightarrow> nat \<Rightarrow> (bytes \<times> pj_scanner) option" where
  "pj_scan_get_n sc N =
     (if curptr sc + N > scan_end sc then None
      else Some (between sc (curptr sc) (curptr sc + N), skip_after (sc\<lparr>curptr := curptr sc + N\<rparr>)))"

definition pj_scan_get_char :: "pj_scanner \<Rightarrow> (pj_uint8_t \<times> pj_scanner) option" where
  "pj_scan_get_char sc =
     (let chr = at sc (curptr sc)
      in if chr = 0 then None else Some (chr, skip_after (sc\<lparr>curptr := curptr sc + 1\<rparr>)))"

definition pj_scan_get_newline :: "pj_scanner \<Rightarrow> pj_scanner option" where
  "pj_scan_get_newline sc =
     (if \<not> PJ_SCAN_IS_NEWLINE (at sc (curptr sc)) then None
      else
        let sc = (if at sc (curptr sc) = 13 then sc\<lparr>curptr := curptr sc + 1\<rparr> else sc);
            sc = (if at sc (curptr sc) = 10 then sc\<lparr>curptr := curptr sc + 1\<rparr> else sc)
        in Some (sc\<lparr>line := line sc + 1, start_line := curptr sc\<rparr>))"

definition pj_scan_get_until :: "pj_scanner \<Rightarrow> pj_cis_t \<Rightarrow> (bytes \<times> pj_scanner) option" where
  "pj_scan_get_until sc spec =
     (if curptr sc \<ge> scan_end sc then None
      else let s = run (\<lambda>c. \<not> spec c) sc (curptr sc)
           in Some (between sc (curptr sc) s, skip_after (sc\<lparr>curptr := s\<rparr>)))"

definition pj_scan_get_until_ch :: "pj_scanner \<Rightarrow> pj_uint8_t \<Rightarrow> (bytes \<times> pj_scanner) option" where
  "pj_scan_get_until_ch sc until_char =
     (if curptr sc \<ge> scan_end sc then None
      else let s = run (\<lambda>c. c \<noteq> until_char) sc (curptr sc)
           in Some (between sc (curptr sc) s, skip_after (sc\<lparr>curptr := s\<rparr>)))"

definition pj_scan_get_until_chr :: "pj_scanner \<Rightarrow> bytes \<Rightarrow> (bytes \<times> pj_scanner) option" where
  "pj_scan_get_until_chr sc until_spec =
     (if curptr sc \<ge> scan_end sc then None
      else let s = run (\<lambda>c. c \<notin> set until_spec) sc (curptr sc)
           in Some (between sc (curptr sc) s, skip_after (sc\<lparr>curptr := s\<rparr>)))"

definition pj_scan_advance_n :: "pj_scanner \<Rightarrow> nat \<Rightarrow> bool \<Rightarrow> pj_scanner option" where
  "pj_scan_advance_n sc N skip =
     (if curptr sc + N > scan_end sc then None
      else
        let sc = sc\<lparr>curptr := curptr sc + N\<rparr>
        in Some (if PJ_SCAN_IS_PROBABLY_SPACE (at sc (curptr sc)) \<and> skip then pj_scan_skip_whitespace sc else sc))"

section \<open>Comparing and going back\<close>

text \<open>The sign of \<^verbatim>\<open>strncmp\<close>, which stops at a NUL; the string compared with has \<open>len\<close> characters.\<close>

fun strncmp_sgn :: "nat \<Rightarrow> bytes \<Rightarrow> bytes \<Rightarrow> int" where
  "strncmp_sgn (Suc n) (a # as) (b # bs) = (if a < b then -1 else if b < a then 1 else if a = 0 then 0 else strncmp_sgn n as bs)"
| "strncmp_sgn n as bs = 0"

definition pj_scan_strcmp :: "pj_scanner \<Rightarrow> bytes \<Rightarrow> nat \<Rightarrow> int option" where
  "pj_scan_strcmp sc s len =
     (if curptr sc + len > scan_end sc then None else Some (strncmp_sgn len (drop (curptr sc) (sbuf sc)) s))"

definition pj_scan_stricmp :: "pj_scanner \<Rightarrow> bytes \<Rightarrow> nat \<Rightarrow> int option" where
  "pj_scan_stricmp sc s len =
     (if curptr sc + len > scan_end sc then None else Some (strnicmp_sgn len (drop (curptr sc) (sbuf sc)) s))"

record pj_scan_state =
  st_curptr :: nat
  st_line :: nat
  st_start_line :: nat

definition pj_scan_save_state :: "pj_scanner \<Rightarrow> pj_scan_state" where
  "pj_scan_save_state sc = \<lparr>st_curptr = curptr sc, st_line = line sc, st_start_line = start_line sc\<rparr>"

definition pj_scan_restore_state :: "pj_scanner \<Rightarrow> pj_scan_state \<Rightarrow> pj_scanner" where
  "pj_scan_restore_state sc st = sc\<lparr>curptr := st_curptr st, line := st_line st, start_line := st_start_line st\<rparr>"

section \<open>The position stays inside the text\<close>

definition inside :: "pj_scanner \<Rightarrow> bool" where
  "inside sc \<longleftrightarrow> curptr sc \<le> scan_end sc"

lemma scan_end_updates [simp]:
  "scan_end (sc\<lparr>curptr := c\<rparr>) = scan_end sc" "scan_end (sc\<lparr>line := l\<rparr>) = scan_end sc"
  "scan_end (sc\<lparr>start_line := l\<rparr>) = scan_end sc"
  by (simp_all add: scan_end_def)

lemma at_updates [simp]:
  "at (sc\<lparr>curptr := c\<rparr>) i = at sc i" "at (sc\<lparr>line := l\<rparr>) i = at sc i" "at (sc\<lparr>start_line := l\<rparr>) i = at sc i"
  by (simp_all add: at_def)

lemma run_updates [simp]:
  "run P (sc\<lparr>curptr := c\<rparr>) i = run P sc i" "run P (sc\<lparr>line := l\<rparr>) i = run P sc i" "run P (sc\<lparr>start_line := l\<rparr>) i = run P sc i"
  by (simp_all add: run_def)

lemma at_Suc_le: "at sc s \<noteq> 0 \<Longrightarrow> Suc s \<le> scan_end sc"
  using at_inside [of sc s] by simp

lemma skip_newlines_inside:
  "s \<le> scan_end sc \<Longrightarrow> skip_newlines sc s = (sc', s') \<Longrightarrow> s' \<le> scan_end sc \<and> sbuf sc' = sbuf sc \<and> skip_ws sc' = skip_ws sc"
proof (induction sc s rule: skip_newlines.induct)
  case (1 sc s)
  show ?case
  proof (cases "at sc s = 13 \<or> at sc s = 10 \<or> PJ_SCAN_IS_SPACE (at sc s)")
    case True
    then have "Suc s \<le> scan_end sc" by (intro at_Suc_le) (auto simp: PJ_SCAN_IS_SPACE_def)
    moreover have "at sc (Suc s) = 10 \<Longrightarrow> Suc (Suc s) \<le> scan_end sc" by (intro at_Suc_le) simp
    ultimately show ?thesis using 1 True run_le [of s sc PJ_SCAN_IS_SPACE]
      by (subst (asm) (4) skip_newlines.simps) (auto simp: Let_def split: if_splits)
  next
    case False
    then show ?thesis using 1(4,5) by (subst (asm) skip_newlines.simps) auto
  qed
qed

lemma skip_whitespace_inside:
  assumes "inside sc"
  shows "inside (pj_scan_skip_whitespace sc)" "sbuf (pj_scan_skip_whitespace sc) = sbuf sc"
proof -
  define s where "s = run PJ_SCAN_IS_SPACE sc (curptr sc)"
  have s: "s \<le> scan_end sc" using assms run_le by (simp add: s_def inside_def)
  obtain sc1 s1 where r: "(if PJ_SCAN_IS_NEWLINE (at sc s) \<and> skip_ws sc AND PJ_SCAN_AUTOSKIP_NEWLINE \<noteq> 0
                     then skip_newlines sc s else (sc, s)) = (sc1, s1)" by fastforce
  then have "s1 \<le> scan_end sc" "sbuf sc1 = sbuf sc" using skip_newlines_inside [OF s] s by (auto split: if_splits)
  then have s1: "s1 \<le> scan_end sc1" "sbuf sc1 = sbuf sc" by (simp_all add: scan_end_def)
  have c: "at sc1 t = 13 \<or> at sc1 t = 10 \<Longrightarrow> Suc t \<le> scan_end sc1" for t by (intro at_Suc_le) auto
  define s2 where "s2 = (if at sc1 s1 = 13 then s1 + 1 else s1)"
  define s3 where "s3 = (if at sc1 s2 = 10 then s2 + 1 else s2)"
  have s3: "s3 \<le> scan_end sc1" using s1 c [of s1] c [of s2] by (auto simp: s3_def s2_def split: if_splits)
  have "pj_scan_skip_whitespace sc =
    (if PJ_SCAN_IS_NEWLINE (at sc1 s1) \<and> skip_ws sc1 AND PJ_SCAN_AUTOSKIP_WS_HEADER = PJ_SCAN_AUTOSKIP_WS_HEADER then
       if PJ_SCAN_IS_SPACE (at sc1 s3)
       then sc1\<lparr>curptr := s1, start_line := s3, line := line sc1 + 1, curptr := run PJ_SCAN_IS_SPACE sc1 s3\<rparr>
       else sc1\<lparr>curptr := s1, start_line := s3\<rparr>
     else sc1\<lparr>curptr := s1\<rparr>)"
    by (simp add: pj_scan_skip_whitespace_def Let_def r s2_def s3_def flip: s_def)
  then show "inside (pj_scan_skip_whitespace sc)" "sbuf (pj_scan_skip_whitespace sc) = sbuf sc"
    using s1 run_le [OF s3] by (auto simp: inside_def)
qed

lemma skip_after_inside:
  assumes "inside sc"
  shows "inside (skip_after sc)" "sbuf (skip_after sc) = sbuf sc"
  using skip_whitespace_inside [OF assms] assms by (simp_all add: skip_after_def)

lemma skip_after_off [simp]: "skip_ws sc = 0 \<Longrightarrow> skip_after sc = sc"
  by (simp add: skip_after_def)

lemma unescape_escape:
  assumes "t \<noteq> [] \<and> hd t = 37" "length t \<ge> 3 \<and> pj_isxdigit (t ! 1) \<and> pj_isxdigit (t ! 2)"
  shows "unescape_loop spec t =
    (let c = push_bit 4 (pj_hex_digit_to_val (t ! 1)) + pj_hex_digit_to_val (t ! 2);
         r = takeWhile spec (drop 3 t);
         rest = drop (3 + length r) t
     in if rest \<noteq> [] \<and> hd rest = 37
        then let (out, n) = unescape_loop spec rest in (c # r @ out, 3 + length r + n)
        else (c # r, 3 + length r))"
  by (subst unescape_loop.simps) (simp only: assms if_True simp_thms)

lemma unescape_plain:
  assumes "\<not> (t \<noteq> [] \<and> hd t = 37)"
  shows "unescape_loop spec t =
    (let r = takeWhile spec t; rest = drop (length r) t
     in if rest \<noteq> [] \<and> hd rest = 37
        then let (out, n) = unescape_loop spec rest in (r @ out, length r + n)
        else (r, length r))"
  by (subst unescape_loop.simps) (simp only: assms if_False simp_thms)

lemma unescape_bounds:
  "unescape_loop spec t = (out, n) \<Longrightarrow>
   length out \<le> n \<and> (n = length out \<longrightarrow> n \<le> length t \<longrightarrow> out = take n t) \<and> (n \<le> length t \<or> n = Suc (length t) \<and> last t = 37 \<and> t \<noteq> [])"
proof (induction spec t arbitrary: out n rule: unescape_loop.induct)
  case (1 spec t)
  show ?case
  proof (cases "t \<noteq> [] \<and> hd t = 37")
    case True
    then obtain t' where t: "t = 37 # t'" by (cases t) auto
    show ?thesis
    proof (cases "length t \<ge> 3 \<and> pj_isxdigit (t ! 1) \<and> pj_isxdigit (t ! 2)")
      case esc: True
      define r where "r = takeWhile spec (drop 3 t)"
      define rest where "rest = drop (3 + length r) t"
      note step = unescape_escape [OF True esc, of spec, unfolded Let_def, folded r_def, folded rest_def]
      have r: "3 + length r \<le> length t" using esc length_takeWhile_le [of spec "drop 3 t"] by (auto simp: r_def)
      show ?thesis
      proof (cases "rest \<noteq> [] \<and> hd rest = 37")
        case rec: True
        obtain out' n' where u: "unescape_loop spec rest = (out', n')" by fastforce
        have ih: "length out' \<le> n'" "n' \<le> length rest \<or> n' = Suc (length rest) \<and> last rest = 37 \<and> rest \<noteq> []"
          using 1(1) [OF True esc refl r_def rest_def rec u] by auto
        have "last rest = last t" using rec by (simp add: rest_def last_drop)
        moreover have "unescape_loop spec t = ((push_bit 4 (pj_hex_digit_to_val (t ! 1)) + pj_hex_digit_to_val (t ! 2)) # r @ out', 3 + length r + n')"
          unfolding step using rec u by simp
        moreover from this have "out = (push_bit 4 (pj_hex_digit_to_val (t ! 1)) + pj_hex_digit_to_val (t ! 2)) # r @ out'" "n = 3 + length r + n'" using 1(3) by simp_all
        ultimately show ?thesis using ih r t by (auto simp: rest_def)
      next
        case False
        then have "unescape_loop spec t = ((push_bit 4 (pj_hex_digit_to_val (t ! 1)) + pj_hex_digit_to_val (t ! 2)) # r, 3 + length r)"
          unfolding step by (simp only: if_False)
        then have "out = (push_bit 4 (pj_hex_digit_to_val (t ! 1)) + pj_hex_digit_to_val (t ! 2)) # r" "n = 3 + length r" using 1(3) by simp_all
        then show ?thesis using r by simp
      qed
    next
      case False
      then have "unescape_loop spec t = ([37, if length t \<ge> 2 then t ! 1 else 0], 2)"
        using True by (subst unescape_loop.simps) auto
      then have "out = [37, if length t \<ge> 2 then t ! 1 else 0]" "n = 2" using 1(3) by simp_all
      then show ?thesis using t by (cases t') auto
    qed
  next
    case False
    define r where "r = takeWhile spec t"
    define rest where "rest = drop (length r) t"
    note step = unescape_plain [OF False, of spec, unfolded Let_def, folded r_def, folded rest_def]
    have r: "length r \<le> length t" "r = take (length r) t" using length_takeWhile_le [of spec t] takeWhile_eq_take [of spec t] by (simp_all add: r_def)
    show ?thesis
    proof (cases "rest \<noteq> [] \<and> hd rest = 37")
      case rec: True
      obtain out' n' where u: "unescape_loop spec rest = (out', n')" by fastforce
      have ih: "length out' \<le> n'" "n' = length out' \<longrightarrow> n' \<le> length rest \<longrightarrow> out' = take n' rest"
        "n' \<le> length rest \<or> n' = Suc (length rest) \<and> last rest = 37 \<and> rest \<noteq> []"
        using 1(2) [OF False r_def rest_def rec u] by auto
      have "last rest = last t" using rec by (simp add: rest_def last_drop)
      moreover have "unescape_loop spec t = (r @ out', length r + n')"
        unfolding step using rec u by simp
      moreover from this have o: "out = r @ out'" "n = length r + n'" using 1(3) by simp_all
      moreover have "take n t = take (length r) t @ take n' rest" by (simp add: o rest_def take_add)
      ultimately show ?thesis using ih r by (auto simp: rest_def)
    next
      case norec: False
      then have "unescape_loop spec t = (r, length r)"
        unfolding step by (simp only: if_False)
      then have "out = r" "n = length r" using 1(3) by simp_all
      then show ?thesis using r by simp
    qed
  qed
qed

text \<open>Sequences of operations; a syntax error ends them.\<close>

datatype scan_op =
    Get pj_cis_t | Get_unescape pj_cis_t | Get_quotes "(pj_uint8_t \<times> pj_uint8_t) list" | Get_n nat | Get_char | Get_newline
  | Get_until pj_cis_t | Get_until_ch pj_uint8_t | Get_until_chr bytes | Advance_n nat bool | Skip_whitespace | Skip_line

fun scan_step :: "scan_op \<Rightarrow> pj_scanner \<Rightarrow> pj_scanner option" where
  "scan_step (Get spec) sc = map_option snd (pj_scan_get sc spec)"
| "scan_step (Get_unescape spec) sc = map_option snd (pj_scan_get_unescape sc spec)"
| "scan_step (Get_quotes qs) sc = map_option snd (pj_scan_get_quotes sc qs)"
| "scan_step (Get_n n) sc = map_option snd (pj_scan_get_n sc n)"
| "scan_step Get_char sc = map_option snd (pj_scan_get_char sc)"
| "scan_step Get_newline sc = pj_scan_get_newline sc"
| "scan_step (Get_until spec) sc = map_option snd (pj_scan_get_until sc spec)"
| "scan_step (Get_until_ch c) sc = map_option snd (pj_scan_get_until_ch sc c)"
| "scan_step (Get_until_chr s) sc = map_option snd (pj_scan_get_until_chr sc s)"
| "scan_step (Advance_n n b) sc = pj_scan_advance_n sc n b"
| "scan_step Skip_whitespace sc = Some (pj_scan_skip_whitespace sc)"
| "scan_step Skip_line sc = Some (pj_scan_skip_line sc)"

fun scan_steps :: "scan_op list \<Rightarrow> pj_scanner \<Rightarrow> pj_scanner option" where
  "scan_steps [] sc = Some sc"
| "scan_steps (op # ops) sc = Option.bind (scan_step op sc) (scan_steps ops)"

text \<open>The text ends in no percent sign, and no quote character is NUL.\<close>

definition text_ok :: "pj_scanner \<Rightarrow> bool" where
  "text_ok sc \<longleftrightarrow> sbuf sc = [] \<or> last (sbuf sc) \<noteq> 37"

fun op_ok :: "scan_op \<Rightarrow> bool" where
  "op_ok (Get_quotes qs) \<longleftrightarrow> list_all (\<lambda>(b, e). b \<noteq> 0 \<and> e \<noteq> 0) qs"
| "op_ok _ \<longleftrightarrow> True"

definition step_ok :: "pj_scanner \<Rightarrow> pj_scanner \<Rightarrow> bool" where
  "step_ok sc sc' \<longleftrightarrow> inside sc' \<and> scan_end sc' = scan_end sc \<and> text_ok sc'"

lemma step_ok_move:
  assumes "text_ok sc" "c \<le> scan_end sc"
  shows "step_ok sc (skip_after (sc\<lparr>curptr := c\<rparr>))" "step_ok sc (sc\<lparr>curptr := c\<rparr>)"
    "step_ok sc (pj_scan_skip_whitespace (sc\<lparr>curptr := c\<rparr>))"
proof -
  have "inside (sc\<lparr>curptr := c\<rparr>)" using assms(2) by (simp add: inside_def)
  then show "step_ok sc (skip_after (sc\<lparr>curptr := c\<rparr>))" "step_ok sc (sc\<lparr>curptr := c\<rparr>)"
    "step_ok sc (pj_scan_skip_whitespace (sc\<lparr>curptr := c\<rparr>))"
    using skip_after_inside [of "sc\<lparr>curptr := c\<rparr>"] skip_whitespace_inside [of "sc\<lparr>curptr := c\<rparr>"] assms
    by (simp_all add: step_ok_def text_ok_def scan_end_def)
qed

lemma unescape_step_ok:
  assumes "inside sc" "text_ok sc" "pj_scan_get_unescape sc spec = Some (out, sc')"
  shows "step_ok sc sc'"
proof -
  obtain out n where u: "unescape_loop spec (drop (curptr sc) (sbuf sc)) = (out, n)" by fastforce
  define t where "t = drop (curptr sc) (sbuf sc)"
  define buf where "buf = take (scan_end sc) (take (curptr sc) (sbuf sc) @ out @ drop (curptr sc + length out) (sbuf sc))"
  have t: "length t = scan_end sc - curptr sc" "t \<noteq> [] \<Longrightarrow> last t \<noteq> 37"
    using assms(2) by (auto simp: t_def scan_end_def text_ok_def)
  have b: "length out \<le> n" "n = length out \<Longrightarrow> out = take n t" "n \<le> length t"
    using unescape_bounds [OF u [folded t_def]] t(2) by auto
  have len: "length buf = scan_end sc" using assms(1) b t(1) by (auto simp: buf_def scan_end_def inside_def)
  have "last buf = last (sbuf sc)" if "sbuf sc \<noteq> []"
  proof (cases "curptr sc + length out < scan_end sc")
    case True
    then show ?thesis using assms(1) by (simp add: buf_def scan_end_def inside_def last_drop)
  next
    case False
    then have "length out = n" "n = length t" using b t(1) assms(1) by (auto simp: inside_def)
    then have "out = t" using b(2) by simp
    then have "buf = sbuf sc" using t(1) by (simp add: buf_def t_def scan_end_def)
    then show ?thesis by simp
  qed
  moreover have "buf \<noteq> [] \<longleftrightarrow> sbuf sc \<noteq> []" using len by (metis length_0_conv scan_end_def)
  ultimately have "text_ok (sc\<lparr>sbuf := buf\<rparr>)" using assms(2) by (auto simp: text_ok_def)
  then have "step_ok (sc\<lparr>sbuf := buf\<rparr>) (skip_after (sc\<lparr>sbuf := buf\<rparr>\<lparr>curptr := curptr sc + n\<rparr>))"
    using b(3) t(1) assms(1) len by (intro step_ok_move) (auto simp: inside_def scan_end_def)
  moreover have "sc' = skip_after (sc\<lparr>sbuf := buf, curptr := curptr sc + n\<rparr>)"
    using assms(3) u by (auto simp: pj_scan_get_unescape_def buf_def split: if_splits)
  ultimately show ?thesis using len by (simp add: step_ok_def scan_end_def)
qed

lemma quote_end_inside: "s \<le> scan_end sc \<Longrightarrow> quote_end sc q s \<le> scan_end sc"
proof (induction sc q s rule: quote_end.induct)
  case (1 sc q s)
  then show ?case using run_le [of s sc "\<lambda>c. c \<noteq> 10 \<and> c \<noteq> q"] by (subst quote_end.simps) (auto simp: Let_def)
qed

lemma quotes_step_ok:
  assumes "inside sc" "text_ok sc" "list_all (\<lambda>(b, e). b \<noteq> 0 \<and> e \<noteq> 0) qs" "pj_scan_get_quotes sc qs = Some (out, sc')"
  shows "step_ok sc sc'"
proof -
  obtain e where e: "map_of qs (at sc (curptr sc)) = Some e" using assms(4) by (auto simp: pj_scan_get_quotes_def split: option.splits)
  then have nz: "at sc (curptr sc) \<noteq> 0" "e \<noteq> 0" using assms(3) map_of_SomeD [OF e] by (auto simp: list_all_iff)
  define s where "s = quote_end sc e (curptr sc + 1)"
  have "at sc s = e" "sc' = skip_after (sc\<lparr>curptr := s + 1\<rparr>)"
    using assms(4) e by (auto simp: pj_scan_get_quotes_def s_def Let_def split: if_splits)
  moreover from this nz(2) have "s < scan_end sc" by (intro at_inside) simp
  ultimately show ?thesis using assms(2) by (simp add: step_ok_move(1))
qed

lemma scan_step_ok:
  assumes "inside sc" "text_ok sc" "op_ok op" "scan_step op sc = Some sc'"
  shows "step_ok sc sc'"
proof -
  have c: "curptr sc \<le> scan_end sc" using assms(1) by (simp add: inside_def)
  note move = step_ok_move [OF assms(2)] and run = run_le [OF c]
  have nz: "at sc (curptr sc) \<noteq> 0 \<Longrightarrow> Suc (curptr sc) \<le> scan_end sc" by (rule at_Suc_le)
  show ?thesis
  proof (cases op)
    case Get_newline
    have "PJ_SCAN_IS_NEWLINE (at sc (curptr sc)) \<Longrightarrow> Suc (curptr sc) \<le> scan_end sc"
      by (rule nz) (auto simp: PJ_SCAN_IS_NEWLINE_def)
    moreover have "at sc (Suc (curptr sc)) = 10 \<Longrightarrow> Suc (Suc (curptr sc)) \<le> scan_end sc" by (intro at_Suc_le) simp
    ultimately show ?thesis using assms(2,4) Get_newline
      by (auto simp: pj_scan_get_newline_def step_ok_def inside_def text_ok_def Let_def split: if_splits)
  next
    case Skip_line
    have "at sc s = 10 \<Longrightarrow> Suc s \<le> scan_end sc" for s by (intro at_Suc_le) simp
    then show ?thesis using assms(2,4) Skip_line
      by (auto simp: pj_scan_skip_line_def step_ok_def inside_def text_ok_def Let_def split: if_splits)
  next
    case Get_char
    then show ?thesis using assms(4) nz by (auto simp: pj_scan_get_char_def Let_def move split: if_splits)
  next
    case Skip_whitespace
    then show ?thesis using assms(4) move(3) [OF c] by simp
  qed (use assms unescape_step_ok quotes_step_ok move run in \<open>auto simp: pj_scan_get_def pj_scan_get_n_def pj_scan_get_until_def
      pj_scan_get_until_ch_def pj_scan_get_until_chr_def pj_scan_advance_n_def Let_def split: if_splits\<close>)
qed



text \<open>A percent sign at the end of the text takes the position past the terminator.\<close>

lemma lone_percent_passes_end:
  "map_option (\<lambda>(out, sc). (out, curptr sc, scan_end sc)) (pj_scan_get_unescape (pj_scan_init (str ''a%'') 0) (\<lambda>c. c = 97)) =
   Some ([97, 37, 0], 3, 2)"
  by code_simp

end
