(* ===== verification/PJ_Sdp.thy ===== *)
theory PJ_Sdp
  imports PJ_Scanner
begin

text \<open>
  SDP session descriptions, \<^verbatim>\<open>pjmedia/src/pjmedia/sdp.c\<close>: the data, the operations on attributes,
  and validation; printing and parsing are in \<open>PJ_SdpText\<close>. An array with its count is a list. An attribute is found
  and removed by its address in the code; here by its value, which is the same as long as no
  array holds the same attribute twice, since a search returns the first match.

  The C strings of the code are the lists of their bytes. Text printed by \<^verbatim>\<open>snprintf\<close> with \<^verbatim>\<open>%.*s\<close>
  is taken as a whole, which holds for strings without NUL.
\<close>

section \<open>Status codes\<close>

abbreviation PJMEDIA_SDP_EINSDP :: pj_status_t where "PJMEDIA_SDP_EINSDP \<equiv> PJ_ECODE 220020"
abbreviation PJMEDIA_SDP_EINVER :: pj_status_t where "PJMEDIA_SDP_EINVER \<equiv> PJ_ECODE 220021"
abbreviation PJMEDIA_SDP_EINORIGIN :: pj_status_t where "PJMEDIA_SDP_EINORIGIN \<equiv> PJ_ECODE 220022"
abbreviation PJMEDIA_SDP_EINTIME :: pj_status_t where "PJMEDIA_SDP_EINTIME \<equiv> PJ_ECODE 220023"
abbreviation PJMEDIA_SDP_EINNAME :: pj_status_t where "PJMEDIA_SDP_EINNAME \<equiv> PJ_ECODE 220024"
abbreviation PJMEDIA_SDP_EINCONN :: pj_status_t where "PJMEDIA_SDP_EINCONN \<equiv> PJ_ECODE 220025"
abbreviation PJMEDIA_SDP_EMISSINGCONN :: pj_status_t where "PJMEDIA_SDP_EMISSINGCONN \<equiv> PJ_ECODE 220026"
abbreviation PJMEDIA_SDP_EINATTR :: pj_status_t where "PJMEDIA_SDP_EINATTR \<equiv> PJ_ECODE 220027"
abbreviation PJMEDIA_SDP_EINRTPMAP :: pj_status_t where "PJMEDIA_SDP_EINRTPMAP \<equiv> PJ_ECODE 220028"
abbreviation PJMEDIA_SDP_ERTPMAPTOOLONG :: pj_status_t where "PJMEDIA_SDP_ERTPMAPTOOLONG \<equiv> PJ_ECODE 220029"
abbreviation PJMEDIA_SDP_EMISSINGRTPMAP :: pj_status_t where "PJMEDIA_SDP_EMISSINGRTPMAP \<equiv> PJ_ECODE 220030"
abbreviation PJMEDIA_SDP_EINMEDIA :: pj_status_t where "PJMEDIA_SDP_EINMEDIA \<equiv> PJ_ECODE 220031"
abbreviation PJMEDIA_SDP_ENOFMT :: pj_status_t where "PJMEDIA_SDP_ENOFMT \<equiv> PJ_ECODE 220032"
abbreviation PJMEDIA_SDP_EINPT :: pj_status_t where "PJMEDIA_SDP_EINPT \<equiv> PJ_ECODE 220033"
abbreviation PJMEDIA_SDP_EINFMTP :: pj_status_t where "PJMEDIA_SDP_EINFMTP \<equiv> PJ_ECODE 220034"
abbreviation PJMEDIA_SDP_EINRTCP :: pj_status_t where "PJMEDIA_SDP_EINRTCP \<equiv> PJ_ECODE 220035"
abbreviation PJMEDIA_SDP_EINBANDW :: pj_status_t where "PJMEDIA_SDP_EINBANDW \<equiv> PJ_ECODE 220037"

abbreviation PJMEDIA_SDP_ETPORTNOTEQUAL :: pj_status_t where "PJMEDIA_SDP_ETPORTNOTEQUAL \<equiv> PJ_ECODE 220062"
abbreviation PJMEDIA_SDP_EFORMATNOTEQUAL :: pj_status_t where "PJMEDIA_SDP_EFORMATNOTEQUAL \<equiv> PJ_ECODE 220063"

section \<open>Data\<close>

definition PJMEDIA_MAX_SDP_FMT :: nat where "PJMEDIA_MAX_SDP_FMT = 32"
definition PJMEDIA_MAX_SDP_BANDW :: nat where "PJMEDIA_MAX_SDP_BANDW = 4"
definition PJMEDIA_MAX_SDP_ATTR :: nat where "PJMEDIA_MAX_SDP_ATTR = PJMEDIA_MAX_SDP_FMT * 2 + 4"
definition PJMEDIA_MAX_SDP_MEDIA :: nat where "PJMEDIA_MAX_SDP_MEDIA = 16"

record pjmedia_sdp_attr =
  attr_name :: bytes
  attr_value :: bytes

record pjmedia_sdp_conn =
  net_type :: bytes
  addr_type :: bytes
  addr :: bytes

record pjmedia_sdp_bandw =
  modifier :: bytes
  bandw_value :: pj_uint32_t

record pjmedia_sdp_media =
  media :: bytes
  port :: pj_uint16_t
  port_count :: pj_uint32_t
  transport :: bytes
  fmt :: "bytes list"
  m_conn :: "pjmedia_sdp_conn option"
  m_bandw :: "pjmedia_sdp_bandw list"
  m_attr :: "pjmedia_sdp_attr list"

record pjmedia_sdp_origin =
  o_user :: bytes
  o_id :: pj_uint32_t
  o_version :: pj_uint32_t
  o_net_type :: bytes
  o_addr_type :: bytes
  o_addr :: bytes

record pjmedia_sdp_session =
  origin :: pjmedia_sdp_origin
  s_name :: bytes
  s_conn :: "pjmedia_sdp_conn option"
  s_bandw :: "pjmedia_sdp_bandw list"
  time_start :: pj_uint32_t
  time_stop :: pj_uint32_t
  s_attr :: "pjmedia_sdp_attr list"
  s_media :: "pjmedia_sdp_media list"

text \<open>Cloning copies every field, so that a clone is the same value.\<close>

definition pjmedia_sdp_session_clone :: "pjmedia_sdp_session \<Rightarrow> pjmedia_sdp_session" where
  "pjmedia_sdp_session_clone rhs =
     \<lparr>origin = \<lparr>o_user = o_user (origin rhs), o_id = o_id (origin rhs), o_version = o_version (origin rhs),
        o_net_type = o_net_type (origin rhs), o_addr_type = o_addr_type (origin rhs), o_addr = o_addr (origin rhs)\<rparr>,
      s_name = s_name rhs, s_conn = s_conn rhs, s_bandw = s_bandw rhs, time_start = time_start rhs,
      time_stop = time_stop rhs, s_attr = s_attr rhs, s_media = s_media rhs\<rparr>"

lemma session_clone_id [simp]: "pjmedia_sdp_session_clone s = s"
  by (simp add: pjmedia_sdp_session_clone_def)

definition pjmedia_sdp_media_clone :: "pjmedia_sdp_media \<Rightarrow> pjmedia_sdp_media" where
  "pjmedia_sdp_media_clone rhs =
     \<lparr>media = media rhs, port = port rhs, port_count = port_count rhs, transport = transport rhs, fmt = fmt rhs,
      m_conn = m_conn rhs, m_bandw = m_bandw rhs, m_attr = m_attr rhs\<rparr>"

lemma media_clone_id [simp]: "pjmedia_sdp_media_clone m = m"
  by (simp add: pjmedia_sdp_media_clone_def)

section \<open>Attributes\<close>

definition pjmedia_sdp_attr_create :: "bytes \<Rightarrow> bytes option \<Rightarrow> pjmedia_sdp_attr" where
  "pjmedia_sdp_attr_create name value = \<lparr>attr_name = name, attr_value = (case value of Some v \<Rightarrow> v | None \<Rightarrow> [])\<rparr>"

text \<open>Payload numbers are compared as 32-bit \<^verbatim>\<open>unsigned\<close>.\<close>

definition pjmedia_sdp_attr_find :: "pjmedia_sdp_attr list \<Rightarrow> bytes \<Rightarrow> bytes option \<Rightarrow> pjmedia_sdp_attr option" where
  "pjmedia_sdp_attr_find attrs name c_fmt =
     (let c_pt = (case c_fmt of Some f \<Rightarrow> pj_strtoul f mod 2 ^ 32 | None \<Rightarrow> 0xFFFF)
      in find (\<lambda>a. pj_strcmp (attr_name a) name = 0 \<and>
                   (c_fmt \<noteq> None \<longrightarrow> pj_strtoul2_base10 (attr_value a) mod 2 ^ 32 = c_pt)) attrs)"

definition pjmedia_sdp_attr_add :: "pjmedia_sdp_attr list \<Rightarrow> pjmedia_sdp_attr \<Rightarrow> pj_status_t \<times> pjmedia_sdp_attr list" where
  "pjmedia_sdp_attr_add attrs a =
     (if \<not> length attrs < PJMEDIA_MAX_SDP_ATTR then (PJ_ETOOMANY, attrs) else (PJ_SUCCESS, attrs @ [a]))"

fun pjmedia_sdp_attr_remove_all :: "pjmedia_sdp_attr list \<Rightarrow> bytes \<Rightarrow> pjmedia_sdp_attr list" where
  "pjmedia_sdp_attr_remove_all [] name = []"
| "pjmedia_sdp_attr_remove_all (a # attrs) name =
     (if pj_strcmp (attr_name a) name = 0 then pjmedia_sdp_attr_remove_all attrs name
      else a # pjmedia_sdp_attr_remove_all attrs name)"

definition pjmedia_sdp_attr_remove :: "pjmedia_sdp_attr list \<Rightarrow> pjmedia_sdp_attr \<Rightarrow> pj_status_t \<times> pjmedia_sdp_attr list" where
  "pjmedia_sdp_attr_remove attrs a = (if a \<in> set attrs then PJ_SUCCESS else PJ_ENOTFOUND, remove1 a attrs)"

definition pjmedia_sdp_media_find_attr :: "pjmedia_sdp_media \<Rightarrow> bytes \<Rightarrow> bytes option \<Rightarrow> pjmedia_sdp_attr option" where
  "pjmedia_sdp_media_find_attr m name f = pjmedia_sdp_attr_find (m_attr m) name f"

definition pjmedia_sdp_media_add_attr :: "pjmedia_sdp_media \<Rightarrow> pjmedia_sdp_attr \<Rightarrow> pjmedia_sdp_media" where
  "pjmedia_sdp_media_add_attr m a = m\<lparr>m_attr := snd (pjmedia_sdp_attr_add (m_attr m) a)\<rparr>"

definition pjmedia_sdp_session_add_attr :: "pjmedia_sdp_session \<Rightarrow> pjmedia_sdp_attr \<Rightarrow> pjmedia_sdp_session" where
  "pjmedia_sdp_session_add_attr s a = s\<lparr>s_attr := snd (pjmedia_sdp_attr_add (s_attr s) a)\<rparr>"

definition pjmedia_sdp_media_remove_all_attr :: "pjmedia_sdp_media \<Rightarrow> bytes \<Rightarrow> pjmedia_sdp_media" where
  "pjmedia_sdp_media_remove_all_attr m name = m\<lparr>m_attr := pjmedia_sdp_attr_remove_all (m_attr m) name\<rparr>"

definition pjmedia_sdp_media_remove_attr :: "pjmedia_sdp_media \<Rightarrow> pjmedia_sdp_attr \<Rightarrow> pjmedia_sdp_media" where
  "pjmedia_sdp_media_remove_attr m a = m\<lparr>m_attr := snd (pjmedia_sdp_attr_remove (m_attr m) a)\<rparr>"

lemma remove_all_filter: "pjmedia_sdp_attr_remove_all attrs name = filter (\<lambda>a. attr_name a \<noteq> name) attrs"
  by (induction attrs) auto

section \<open>Tokens\<close>

definition TOKEN :: bytes where
  "TOKEN = [33, 35, 36, 37, 38, 39, 42, 43, 45, 46, 94, 95, 96, 123, 124, 125, 126]"

definition cs_token :: pj_cis_t where
  "cs_token = pj_cis_add_str (pj_cis_add_num (pj_cis_add_alpha pj_cis_init)) TOKEN"

definition cs_digit :: pj_cis_t where
  "cs_digit = pj_cis_add_num pj_cis_init"

lemma cs_digit_eq [code]: "cs_digit c = pj_isdigit c"
  by (simp add: cs_digit_def pj_cis_add_num_def add_range_eq pj_cis_init_def pj_isdigit_def word_le_nat_alt) linarith

lemma cs_token_eq [code]:
  "cs_token c = (97 \<le> c \<and> c \<le> 122 \<or> 65 \<le> c \<and> c \<le> 90 \<or> pj_isdigit c \<or> c \<in> set TOKEN)"
  by (simp add: cs_token_def pj_cis_add_num_def pj_cis_add_alpha_def add_range_eq add_str_eq pj_cis_init_def pj_isdigit_def
      word_le_nat_alt less_Suc_eq_le [symmetric])

section \<open>Format attributes\<close>

record pjmedia_sdp_rtpmap =
  rm_pt :: bytes
  rm_enc_name :: bytes
  rm_clock_rate :: pj_uint32_t
  rm_param :: bytes

text \<open>
  The parser fills the structure as it goes, and callers use it whatever the status is;
  \<open>uninit\<close> is what the caller's structure held before.
\<close>

definition pjmedia_sdp_attr_get_rtpmap ::
  "pjmedia_sdp_rtpmap \<Rightarrow> pjmedia_sdp_attr \<Rightarrow> pj_status_t \<times> pjmedia_sdp_rtpmap" where
  "pjmedia_sdp_attr_get_rtpmap uninit attr =
     (if pj_strcmp (attr_name attr) (str ''rtpmap'') \<noteq> 0 then (PJ_EINVALIDOP, uninit)
      else if length (attr_value attr) = 0 then (PJMEDIA_SDP_EINATTR, uninit)
      else
        let r = \<lparr>rm_pt = [], rm_enc_name = [], rm_clock_rate = 0, rm_param = []\<rparr>
        in case pj_scan_get (pj_scan_init (attr_value attr) PJ_SCAN_AUTOSKIP_WS) cs_token of
             None \<Rightarrow> (PJMEDIA_SDP_EINRTPMAP, r)
           | Some (token, sc) \<Rightarrow>
               let r = r\<lparr>rm_pt := token\<rparr>
               in case pj_scan_get sc cs_token of
                    None \<Rightarrow> (PJMEDIA_SDP_EINRTPMAP, r)
                  | Some (token, sc) \<Rightarrow>
                      let r = r\<lparr>rm_enc_name := token\<rparr>
                      in case pj_scan_get_char sc of
                           None \<Rightarrow> (PJMEDIA_SDP_EINRTPMAP, r)
                         | Some (c, sc) \<Rightarrow>
                             if c \<noteq> 47 then (PJMEDIA_SDP_EINRTPMAP, r)
                             else case pj_scan_get sc cs_digit of
                                    None \<Rightarrow> (PJMEDIA_SDP_EINRTPMAP, r)
                                  | Some (token, sc) \<Rightarrow>
                                      let r = r\<lparr>rm_clock_rate := of_nat (pj_strtoul token)\<rparr>
                                      in if at sc (curptr sc) = 47 then
                                           case pj_scan_get_char sc of
                                             None \<Rightarrow> (PJMEDIA_SDP_EINRTPMAP, r)
                                           | Some (c, sc) \<Rightarrow> (PJ_SUCCESS, r\<lparr>rm_param := between sc (curptr sc) (scan_end sc)\<rparr>)
                                         else (PJ_SUCCESS, r))"

definition pjmedia_sdp_rtpmap_to_attr :: "pjmedia_sdp_rtpmap \<Rightarrow> pj_status_t \<times> pjmedia_sdp_attr option" where
  "pjmedia_sdp_rtpmap_to_attr r =
     (if length (rm_enc_name r) = 0 \<or> rm_clock_rate r = 0 then (PJMEDIA_SDP_EINRTPMAP, None)
      else
        let text = rm_pt r @ [32] @ rm_enc_name r @ [47] @ pj_utoa (unat (rm_clock_rate r)) @
                   (if length (rm_param r) \<noteq> 0 then [47] else []) @ rm_param r
        in if length text \<ge> 128 then (PJMEDIA_SDP_ERTPMAPTOOLONG, None)
           else (PJ_SUCCESS, Some \<lparr>attr_name = str ''rtpmap'', attr_value = text\<rparr>))"

record pjmedia_sdp_fmtp =
  fp_fmt :: bytes
  fp_fmt_param :: bytes

definition pjmedia_sdp_attr_get_fmtp :: "pjmedia_sdp_attr \<Rightarrow> pj_status_t \<times> pjmedia_sdp_fmtp option" where
  "pjmedia_sdp_attr_get_fmtp attr =
     (if pj_strcmp (attr_name attr) (str ''fmtp'') \<noteq> 0 then (PJ_EINVALIDOP, None)
      else
        let token = takeWhile pj_isdigit (attr_value attr); rest = drop (length token) (attr_value attr)
        in if length token = 0 then (PJMEDIA_SDP_EINFMTP, None)
           else if rest = [] \<or> hd rest \<noteq> 32 then (PJMEDIA_SDP_EINFMTP, None)
           else (PJ_SUCCESS, Some \<lparr>fp_fmt = token, fp_fmt_param = tl rest\<rparr>))"

record pjmedia_sdp_rtcp_attr =
  rc_port :: pj_uint32_t
  rc_net_type :: bytes
  rc_addr_type :: bytes
  rc_addr :: bytes

definition pjmedia_sdp_attr_get_rtcp :: "pjmedia_sdp_attr \<Rightarrow> pj_status_t \<times> pjmedia_sdp_rtcp_attr option" where
  "pjmedia_sdp_attr_get_rtcp attr =
     (if pj_strcmp (attr_name attr) (str ''rtcp'') \<noteq> 0 then (PJ_EINVALIDOP, None)
      else
        let r = do {
              (token, sc) \<leftarrow> pj_scan_get (pj_scan_init (attr_value attr) PJ_SCAN_AUTOSKIP_WS) cs_token;
              if \<not> pj_scan_is_eof sc then do {
                (net, sc) \<leftarrow> pj_scan_get sc cs_token;
                (atype, sc) \<leftarrow> pj_scan_get sc cs_token;
                (a, sc) \<leftarrow> pj_scan_get sc cs_token;
                Some \<lparr>rc_port = of_nat (pj_strtoul token), rc_net_type = net, rc_addr_type = atype, rc_addr = a\<rparr>
              }
              else Some \<lparr>rc_port = of_nat (pj_strtoul token), rc_net_type = [], rc_addr_type = [], rc_addr = []\<rparr>
            }
        in case r of None \<Rightarrow> (PJMEDIA_SDP_EINRTCP, None) | Some r \<Rightarrow> (PJ_SUCCESS, Some r))"

section \<open>Validation\<close>

definition validate_sdp_conn :: "pjmedia_sdp_conn \<Rightarrow> pj_status_t" where
  "validate_sdp_conn c =
     (if pj_strcmp (net_type c) (str ''IN'') \<noteq> 0 then PJMEDIA_SDP_EINCONN
      else if \<not> (pj_strcmp (addr_type c) (str ''IP4'') = 0 \<or> pj_strcmp (addr_type c) (str ''IP6'') = 0) then PJMEDIA_SDP_EINCONN
      else if length (addr c) = 0 then PJMEDIA_SDP_EINCONN
      else PJ_SUCCESS)"

text \<open>
  The check of one payload type reads the first character of the format; the parser makes no
  empty formats, and for one that is empty that character is taken as \<open>NUL\<close>.
\<close>

definition fmt_char :: "bytes \<Rightarrow> pj_uint8_t" where
  "fmt_char f = (if f = [] then 0 else hd f)"

fun validate_fmts :: "pjmedia_sdp_media \<Rightarrow> bytes list \<Rightarrow> pj_status_t" where
  "validate_fmts m [] = PJ_SUCCESS"
| "validate_fmts m (f # fs) =
     (if pj_isdigit (fmt_char f) then
        let pt = pj_strtoul f mod 2 ^ 32
        in if \<not> pt \<le> 127 then PJMEDIA_SDP_EINPT
           else if port m \<noteq> 0 \<and> pt \<ge> 96 \<and> pjmedia_sdp_media_find_attr m (str ''rtpmap'') (Some f) = None
           then PJMEDIA_SDP_EMISSINGRTPMAP
           else validate_fmts m fs
      else validate_fmts m fs)"

fun validate_medias :: "pjmedia_sdp_session \<Rightarrow> bool \<Rightarrow> pjmedia_sdp_media list \<Rightarrow> pj_status_t" where
  "validate_medias sdp strict [] = PJ_SUCCESS"
| "validate_medias sdp strict (m # ms) =
     (if length (media m) = 0 then PJMEDIA_SDP_EINMEDIA
      else if length (transport m) = 0 then PJMEDIA_SDP_EINMEDIA
      else if \<not> (length (fmt m) \<noteq> 0 \<or> port m = 0) then PJMEDIA_SDP_ENOFMT
      else
        let status = (case m_conn m of Some c \<Rightarrow> validate_sdp_conn c | None \<Rightarrow> PJ_SUCCESS)
        in if status \<noteq> PJ_SUCCESS then status
           else if m_conn m = None \<and> s_conn sdp = None \<and> (strict \<or> port m \<noteq> 0) then PJMEDIA_SDP_EMISSINGCONN
           else let status = validate_fmts m (fmt m)
                in if status \<noteq> PJ_SUCCESS then status else validate_medias sdp strict ms)"

definition pjmedia_sdp_validate2 :: "pjmedia_sdp_session \<Rightarrow> bool \<Rightarrow> pj_status_t" where
  "pjmedia_sdp_validate2 sdp strict =
     (if length (o_user (origin sdp)) = 0 then PJMEDIA_SDP_EINORIGIN
      else if pj_strcmp (o_net_type (origin sdp)) (str ''IN'') \<noteq> 0 then PJMEDIA_SDP_EINORIGIN
      else if \<not> (pj_strcmp (o_addr_type (origin sdp)) (str ''IP4'') = 0 \<or> pj_strcmp (o_addr_type (origin sdp)) (str ''IP6'') = 0)
      then PJMEDIA_SDP_EINORIGIN
      else if length (o_addr (origin sdp)) = 0 then PJMEDIA_SDP_EINORIGIN
      else if length (s_name sdp) = 0 then PJMEDIA_SDP_EINNAME
      else
        let status = (case s_conn sdp of Some c \<Rightarrow> validate_sdp_conn c | None \<Rightarrow> PJ_SUCCESS)
        in if status \<noteq> PJ_SUCCESS then status else validate_medias sdp strict (s_media sdp))"

definition pjmedia_sdp_validate :: "pjmedia_sdp_session \<Rightarrow> pj_status_t" where
  "pjmedia_sdp_validate sdp = pjmedia_sdp_validate2 sdp True"

definition pjmedia_sdp_transport_cmp :: "bytes \<Rightarrow> bytes \<Rightarrow> pj_status_t" where
  "pjmedia_sdp_transport_cmp t1 t2 =
     (if pj_stricmp t1 t2 = 0 then PJ_SUCCESS
      else if (pj_stricmp t1 (str ''RTP/AVP'') = 0 \<or> pj_stricmp t1 (str ''RTP/SAVP'') = 0) \<and>
              (pj_stricmp t2 (str ''RTP/AVP'') = 0 \<or> pj_stricmp t2 (str ''RTP/SAVP'') = 0)
      then PJ_SUCCESS
      else PJMEDIA_SDP_ETPORTNOTEQUAL)"

definition pjmedia_sdp_media_deactivate :: "pjmedia_sdp_media \<Rightarrow> pjmedia_sdp_media" where
  "pjmedia_sdp_media_deactivate m = m\<lparr>port := 0, m_attr := []\<rparr>"

definition pjmedia_sdp_media_clone_deactivate :: "pjmedia_sdp_media \<Rightarrow> pjmedia_sdp_media" where
  "pjmedia_sdp_media_clone_deactivate rhs = pjmedia_sdp_media_deactivate (pjmedia_sdp_media_clone rhs)"

end
