(* ===== verification/PJ_SdpText.thy ===== *)
theory PJ_SdpText
  imports PJ_Sdp
begin

text \<open>
  Printing and parsing of SDP, from \<^verbatim>\<open>pjmedia/src/pjmedia/sdp.c\<close>. The printer checks the room left
  before each line; \<open>Overrun\<close> is a write past the end of the buffer. The parser's exceptions are
  error values; \<open>Bandw_overflow\<close> is a bandwidth line stored past the end of its array.

  The main lemmas are that the parser ends on every text, and that it reads back what the
  printer wrote.
\<close>

section \<open>Printing\<close>

datatype printed = Text bytes | No_room | Overrun

text \<open>One write: the room that the code checks for, and what it writes.\<close>

definition put :: "int \<Rightarrow> bytes \<Rightarrow> int \<Rightarrow> printed" where
  "put need t len = (if len < need then No_room else if int (length t) > len then Overrun else Text t)"

fun print_all :: "(int \<Rightarrow> printed) list \<Rightarrow> int \<Rightarrow> printed" where
  "print_all [] len = Text []"
| "print_all (f # fs) len =
     (case f len of
        Text t \<Rightarrow> (case print_all fs (len - int (length t)) of Text t' \<Rightarrow> Text (t @ t') | r \<Rightarrow> r)
      | r \<Rightarrow> r)"

text \<open>\<^verbatim>\<open>snprintf\<close> needs room for the NUL.\<close>

definition print_connection_info :: "pjmedia_sdp_conn \<Rightarrow> int \<Rightarrow> printed" where
  "print_connection_info c len =
     (let t = str ''c='' @ net_type c @ [32] @ addr_type c @ [32] @ addr c @ [13, 10]
      in if int (length t) \<ge> len then No_room else Text t)"

definition print_bandw :: "pjmedia_sdp_bandw \<Rightarrow> int \<Rightarrow> printed" where
  "print_bandw b =
     put (int (length (modifier b)) + 10 + 5) (str ''b='' @ modifier b @ [58] @ pj_utoa (unat (bandw_value b)) @ [13, 10])"

definition print_attr :: "pjmedia_sdp_attr \<Rightarrow> int \<Rightarrow> printed" where
  "print_attr a =
     put (int (length (attr_name a)) + int (length (attr_value a)) + 10)
       (str ''a='' @ attr_name a @ (if length (attr_value a) \<noteq> 0 then 58 # attr_value a else []) @ [13, 10])"

definition media_line :: "pjmedia_sdp_media \<Rightarrow> bytes" where
  "media_line m =
     str ''m='' @ media m @ [32] @ pj_utoa (unat (port m)) @
     (if port_count m > 1 then 47 # pj_utoa (unat (port_count m)) else []) @
     [32] @ transport m @ concat (map (\<lambda>f. 32 # f) (fmt m)) @ [13, 10]"

definition print_media_desc :: "pjmedia_sdp_media \<Rightarrow> int \<Rightarrow> printed" where
  "print_media_desc m =
     print_all
       ([put (int (length (media m)) + int (length (transport m)) + 12 + 24) (media_line m)] @
        (case m_conn m of Some c \<Rightarrow> [print_connection_info c] | None \<Rightarrow> []) @
        map print_bandw (m_bandw m) @ map print_attr (m_attr m))"

definition origin_lines :: "pjmedia_sdp_origin \<Rightarrow> bytes" where
  "origin_lines og =
     str ''v=0'' @ [13, 10] @ str ''o='' @ o_user og @ [32] @ pj_utoa (unat (o_id og)) @ [32] @ pj_utoa (unat (o_version og)) @
     [32] @ o_net_type og @ [32] @ o_addr_type og @ [32] @ o_addr og @ [13, 10]"

definition print_session :: "pjmedia_sdp_session \<Rightarrow> int \<Rightarrow> printed" where
  "print_session ses =
     print_all
       ([put (5 + 2 + int (length (o_user (origin ses))) + 18 + int (length (o_net_type (origin ses))) +
              int (length (o_addr (origin ses))) + 2) (origin_lines (origin ses)),
         put (8 + int (length (s_name ses))) (str ''s='' @ s_name ses @ [13, 10])] @
        (case s_conn ses of Some c \<Rightarrow> [print_connection_info c] | None \<Rightarrow> []) @
        map print_bandw (s_bandw ses) @
        [put 24 (str ''t='' @ pj_utoa (unat (time_start ses)) @ [32] @ pj_utoa (unat (time_stop ses)) @ [13, 10])] @
        map print_attr (s_attr ses) @ map print_media_desc (s_media ses))"

definition pjmedia_sdp_print :: "pjmedia_sdp_session \<Rightarrow> int \<Rightarrow> printed" where
  "pjmedia_sdp_print desc size' = print_session desc size'"

section \<open>Parsing one line\<close>

definition on_scanner_error :: "'a option" where
  "on_scanner_error = None"

definition parse_version :: "pj_scanner \<Rightarrow> pj_scanner option" where
  "parse_version sc =
     (if at sc (curptr sc + 1) \<noteq> 61 then on_scanner_error
      else if at sc (curptr sc + 2) \<noteq> 48 then on_scanner_error
      else Some (pj_scan_skip_line sc))"

definition parse_origin :: "pj_scanner \<Rightarrow> pjmedia_sdp_session \<Rightarrow> (pjmedia_sdp_session \<times> pj_scanner) option" where
  "parse_origin sc ses =
     (if at sc (curptr sc + 1) \<noteq> 61 then on_scanner_error
      else do {
        sc \<leftarrow> pj_scan_advance_n sc 2 False;
        (user, sc) \<leftarrow> pj_scan_get_until_ch sc 32;
        (_, sc) \<leftarrow> pj_scan_get_char sc;
        (id', sc) \<leftarrow> pj_scan_get_until_ch sc 32;
        (_, sc) \<leftarrow> pj_scan_get_char sc;
        (version, sc) \<leftarrow> pj_scan_get_until_ch sc 32;
        (_, sc) \<leftarrow> pj_scan_get_char sc;
        (net, sc) \<leftarrow> pj_scan_get_until_ch sc 32;
        (_, sc) \<leftarrow> pj_scan_get_char sc;
        (atype, sc) \<leftarrow> pj_scan_get_until_ch sc 32;
        (_, sc) \<leftarrow> pj_scan_get_char sc;
        (a, sc) \<leftarrow> pj_scan_get_until_chr sc [32, 9, 13, 10];
        Some (ses\<lparr>origin := \<lparr>o_user = user, o_id = of_nat (pj_strtoul id'), o_version = of_nat (pj_strtoul version),
                o_net_type = net, o_addr_type = atype, o_addr = a\<rparr>\<rparr>, pj_scan_skip_line sc)
      })"

definition parse_time :: "pj_scanner \<Rightarrow> pjmedia_sdp_session \<Rightarrow> (pjmedia_sdp_session \<times> pj_scanner) option" where
  "parse_time sc ses =
     (if at sc (curptr sc + 1) \<noteq> 61 then on_scanner_error
      else do {
        sc \<leftarrow> pj_scan_advance_n sc 2 False;
        (start, sc) \<leftarrow> pj_scan_get_until_ch sc 32;
        (_, sc) \<leftarrow> pj_scan_get_char sc;
        (stop, sc) \<leftarrow> pj_scan_get_until_chr sc [32, 9, 13, 10];
        Some (ses\<lparr>time_start := of_nat (pj_strtoul start), time_stop := of_nat (pj_strtoul stop)\<rparr>, pj_scan_skip_line sc)
      })"

definition parse_generic_line :: "pj_scanner \<Rightarrow> (bytes \<times> pj_scanner) option" where
  "parse_generic_line sc =
     (if at sc (curptr sc + 1) \<noteq> 61 then on_scanner_error
      else do {
        sc \<leftarrow> pj_scan_advance_n sc 2 False;
        (s, sc) \<leftarrow> pj_scan_get_until_chr sc [13, 10];
        sc \<leftarrow> pj_scan_get_newline sc;
        Some (s, sc)
      })"

definition parse_connection_info :: "pj_scanner \<Rightarrow> (pjmedia_sdp_conn \<times> pj_scanner) option" where
  "parse_connection_info sc = do {
     sc \<leftarrow> pj_scan_advance_n sc 2 False;
     (net, sc) \<leftarrow> pj_scan_get_until_ch sc 32;
     (_, sc) \<leftarrow> pj_scan_get_char sc;
     (atype, sc) \<leftarrow> pj_scan_get_until_ch sc 32;
     (_, sc) \<leftarrow> pj_scan_get_char sc;
     (a, sc) \<leftarrow> pj_scan_get_until_chr sc [47, 32, 9, 13, 10];
     Some (\<lparr>net_type = net, addr_type = atype, addr = a\<rparr>, pj_scan_skip_line sc)
   }"

definition parse_bandwidth_info :: "pj_scanner \<Rightarrow> (pjmedia_sdp_bandw \<times> pj_scanner) option" where
  "parse_bandwidth_info sc = do {
     sc \<leftarrow> pj_scan_advance_n sc 2 False;
     (m, sc) \<leftarrow> pj_scan_get_until_ch sc 58;
     (_, sc) \<leftarrow> pj_scan_get_char sc;
     (s, sc) \<leftarrow> pj_scan_get_until_chr sc [32, 9, 13, 10];
     Some (\<lparr>modifier = m, bandw_value = of_nat (pj_strtoul s)\<rparr>, pj_scan_skip_line sc)
   }"

section \<open>Progress of the scanner\<close>

text \<open>The same text, with no more of it left than before.\<close>

definition left :: "pj_scanner \<Rightarrow> nat" where
  "left sc = scan_end sc - curptr sc"

definition later :: "pj_scanner \<Rightarrow> pj_scanner \<Rightarrow> bool" where
  "later sc sc' \<longleftrightarrow> sbuf sc' = sbuf sc \<and> left sc' \<le> left sc"

lemma later_position: "sbuf sc' = sbuf sc \<Longrightarrow> curptr sc \<le> curptr sc' \<Longrightarrow> later sc sc'"
  by (simp add: later_def left_def scan_end_def diff_le_mono2)

lemma later_refl: "later sc sc"
  by (simp add: later_def)

lemma later_trans: "later a b \<Longrightarrow> later b c \<Longrightarrow> later a c"
  by (auto simp: later_def)

lemma skip_newlines_later: "skip_newlines sc s = (sc', s') \<Longrightarrow> sbuf sc' = sbuf sc \<and> s \<le> s'"
proof (induction sc s rule: skip_newlines.induct)
  case (1 sc s)
  consider "at sc s = 13" | "at sc s = 10" | "at sc s \<noteq> 13" "at sc s \<noteq> 10" "PJ_SCAN_IS_SPACE (at sc s)"
    | "at sc s \<noteq> 13" "at sc s \<noteq> 10" "\<not> PJ_SCAN_IS_SPACE (at sc s)" by blast
  then show ?case
  proof cases
    case 1
    define t where "t = (if at sc (s + 1) = 10 then s + 1 + 1 else s + 1)"
    have "skip_newlines (sc\<lparr>line := line sc + 1, curptr := t, start_line := t\<rparr>) t = (sc', s')"
      using "1.prems" 1 by (subst (asm) skip_newlines.simps) (simp add: t_def Let_def split: if_splits)
    from "1.IH"(1) [OF 1 refl t_def this] show ?thesis by (auto simp: t_def split: if_splits)
  next
    case 2
    then have "skip_newlines (sc\<lparr>line := line sc + 1, curptr := s + 1, start_line := s + 1\<rparr>) (s + 1) = (sc', s')"
      using "1.prems" by (subst (asm) skip_newlines.simps) (simp add: Let_def)
    from "1.IH"(2) [OF _ 2 refl this] show ?thesis using 2 by simp
  next
    case 3
    then have "skip_newlines sc (run PJ_SCAN_IS_SPACE sc s) = (sc', s')"
      using "1.prems" by (subst (asm) skip_newlines.simps) simp
    from "1.IH"(3) [OF 3 this] show ?thesis using order_trans [OF run_ge] by blast
  next
    case 4
    then show ?thesis using "1.prems" by (subst (asm) skip_newlines.simps) simp
  qed
qed

lemma skip_whitespace_later: "later sc (pj_scan_skip_whitespace sc)"
proof -
  define s where "s = run PJ_SCAN_IS_SPACE sc (curptr sc)"
  obtain sc1 s1 where r: "(if PJ_SCAN_IS_NEWLINE (at sc s) \<and> skip_ws sc AND PJ_SCAN_AUTOSKIP_NEWLINE \<noteq> 0
                     then skip_newlines sc s else (sc, s)) = (sc1, s1)" by fastforce
  then have 1: "curptr sc \<le> s1" "sbuf sc1 = sbuf sc"
    using skip_newlines_later [of sc s sc1 s1] order_trans [OF run_ge [of "curptr sc" PJ_SCAN_IS_SPACE sc], folded s_def, of s1]
    by (auto simp: s_def split: if_splits)
  have 2: "curptr sc \<le> run P sc1 s1" "curptr sc \<le> run P sc1 (Suc s1)" "curptr sc \<le> run P sc1 (Suc (Suc s1))" for P
    using 1 run_ge [of s1 P sc1] run_ge [of "Suc s1" P sc1] run_ge [of "Suc (Suc s1)" P sc1] by linarith+
  show ?thesis using 1 2 by (intro later_position) (simp_all add: pj_scan_skip_whitespace_def Let_def r flip: s_def)
qed

lemma skip_after_later: "later sc (skip_after sc)"
  using skip_whitespace_later by (simp add: skip_after_def later_refl)

lemma move_later: "curptr sc \<le> c \<Longrightarrow> later sc (skip_after (sc\<lparr>curptr := c\<rparr>))"
  using skip_after_later [of "sc\<lparr>curptr := c\<rparr>"] later_position [of "sc\<lparr>curptr := c\<rparr>" sc] later_trans by auto

lemma get_later:
  "pj_scan_get sc spec = Some (out, sc') \<Longrightarrow> later sc sc'"
  "pj_scan_get_until_ch sc c = Some (out, sc') \<Longrightarrow> later sc sc'"
  "pj_scan_get_until_chr sc s = Some (out, sc') \<Longrightarrow> later sc sc'"
  by (auto simp: pj_scan_get_def pj_scan_get_until_ch_def pj_scan_get_until_chr_def Let_def intro!: move_later split: if_splits)

lemma get_char_later: "pj_scan_get_char sc = Some (c, sc') \<Longrightarrow> later (sc\<lparr>curptr := Suc (curptr sc)\<rparr>) sc' \<and> curptr sc < scan_end sc"
  using skip_after_later [of "sc\<lparr>curptr := Suc (curptr sc)\<rparr>"] at_inside [of sc "curptr sc"]
  by (auto simp: pj_scan_get_char_def Let_def split: if_splits)

lemma advance_later: "pj_scan_advance_n sc 2 False = Some sc' \<Longrightarrow> sc' = sc\<lparr>curptr := curptr sc + 2\<rparr> \<and> curptr sc + 2 \<le> scan_end sc"
  by (auto simp: pj_scan_advance_n_def Let_def split: if_splits)

lemma skip_line_later: "later sc (pj_scan_skip_line sc)"
proof (cases "at sc (run (\<lambda>c. c \<noteq> 10 \<and> c \<noteq> 0) sc (curptr sc)) = 10")
  case True
  then show ?thesis by (intro later_position) (auto simp: pj_scan_skip_line_def Let_def intro: le_SucI)
qed (simp add: pj_scan_skip_line_def Let_def later_def left_def)

lemma get_newline_later: "pj_scan_get_newline sc = Some sc' \<Longrightarrow> later sc sc'"
  by (intro later_position) (auto simp: pj_scan_get_newline_def Let_def split: if_splits)

section \<open>Parsing media and attribute lines\<close>

text \<open>The format list of a media line. Formats beyond the maximum are logged and ignored.\<close>

function parse_fmts :: "pj_scanner \<Rightarrow> bytes list \<Rightarrow> (bytes list \<times> pj_scanner) option" where
  "parse_fmts sc fmts =
     (if at sc (curptr sc) \<noteq> 32 then Some (fmts, sc)
      else case pj_scan_get_char sc of
             None \<Rightarrow> None
           | Some (_, sc) \<Rightarrow>
               if at sc (curptr sc) = 13 \<or> at sc (curptr sc) = 10 then Some (fmts, sc)
               else case pj_scan_get sc cs_token of
                      None \<Rightarrow> None
                    | Some (f, sc) \<Rightarrow> parse_fmts sc (if length fmts < PJMEDIA_MAX_SDP_FMT then fmts @ [f] else fmts))"
  by pat_completeness auto
termination
proof (relation "measure (\<lambda>(sc, fmts). scan_end sc - curptr sc)", goal_cases)
  case (2 sc fmts a b sc1 c d sc2)
  then show ?case using get_char_later [of sc b sc1] get_later(1) [of sc1 cs_token d sc2] by (auto simp: later_def left_def scan_end_def)
qed simp

declare parse_fmts.simps [simp del]

definition parse_media :: "pj_scanner \<Rightarrow> (pjmedia_sdp_media \<times> pj_scanner) option" where
  "parse_media sc =
     (if at sc (curptr sc + 1) \<noteq> 61 then on_scanner_error
      else do {
        sc \<leftarrow> pj_scan_advance_n sc 2 False;
        (m, sc) \<leftarrow> pj_scan_get_until_ch sc 32;
        (_, sc) \<leftarrow> pj_scan_get_char sc;
        (p, sc) \<leftarrow> pj_scan_get sc cs_token;
        (n, sc) \<leftarrow> (if at sc (curptr sc) = 47 then do {
                     (_, sc) \<leftarrow> pj_scan_get_char sc;
                     (s, sc) \<leftarrow> pj_scan_get sc cs_token;
                     Some (of_nat (pj_strtoul s), sc)
                   }
                   else Some (0, sc));
        (c, sc) \<leftarrow> pj_scan_get_char sc;
        if c \<noteq> 32 then None else do {
          (t, sc) \<leftarrow> pj_scan_get_until_chr sc [32, 9, 13, 10];
          (fmts, sc) \<leftarrow> parse_fmts sc [];
          Some (\<lparr>media = m, port = of_nat (pj_strtoul p), port_count = n, transport = t, fmt = fmts,
                 m_conn = None, m_bandw = [], m_attr = []\<rparr>, pj_scan_skip_line sc)
        }
      })"

definition parse_attr :: "pj_scanner \<Rightarrow> (pjmedia_sdp_attr \<times> pj_scanner) option" where
  "parse_attr sc =
     (if at sc (curptr sc + 1) \<noteq> 61 then on_scanner_error
      else do {
        sc \<leftarrow> pj_scan_advance_n sc 2 False;
        (name, sc) \<leftarrow> pj_scan_get sc cs_token;
        (value, sc) \<leftarrow>
          (if at sc (curptr sc) \<noteq> 0 \<and> at sc (curptr sc) \<noteq> 13 \<and> at sc (curptr sc) \<noteq> 10 then do {
             (_, sc) \<leftarrow> (if at sc (curptr sc) = 58 then pj_scan_get_char sc else Some (0, sc));
             if at sc (curptr sc) \<noteq> 13 \<and> at sc (curptr sc) \<noteq> 10 then pj_scan_get_until_chr sc [13, 10] else Some ([], sc)
           }
           else Some ([], sc));
        Some (\<lparr>attr_name = name, attr_value = value\<rparr>, pj_scan_skip_line sc)
      })"

section \<open>Parsing a session\<close>

text \<open>
  What the local variable \<^verbatim>\<open>media\<close> points to: nothing, the last media of the session, or a media that
  did not fit into the session and is dropped.
\<close>

datatype cur_media = No_media | Last_media | Ignored_media pjmedia_sdp_media

record parse_state =
  p_session :: pjmedia_sdp_session
  p_media :: cur_media

datatype line_result = Line pj_scanner parse_state | Syntax_error pj_status_t | Bandw_overflow

definition update_media :: "(pjmedia_sdp_media \<Rightarrow> pjmedia_sdp_media) \<Rightarrow> (pjmedia_sdp_session \<Rightarrow> pjmedia_sdp_session) \<Rightarrow>
    parse_state \<Rightarrow> parse_state" where
  "update_media f g st =
     (case p_media st of
        No_media \<Rightarrow> st\<lparr>p_session := g (p_session st)\<rparr>
      | Last_media \<Rightarrow>
          st\<lparr>p_session := (p_session st)\<lparr>s_media := butlast (s_media (p_session st)) @ [f (last (s_media (p_session st)))]\<rparr>\<rparr>
      | Ignored_media m \<Rightarrow> st\<lparr>p_media := Ignored_media (f m)\<rparr>)"

definition cur_bandws :: "parse_state \<Rightarrow> pjmedia_sdp_bandw list" where
  "cur_bandws st =
     (case p_media st of
        No_media \<Rightarrow> s_bandw (p_session st)
      | Last_media \<Rightarrow> m_bandw (last (s_media (p_session st)))
      | Ignored_media m \<Rightarrow> m_bandw m)"

definition parse_line :: "pj_scanner \<Rightarrow> parse_state \<Rightarrow> line_result" where
  "parse_line sc st =
     (let cur_name = at sc (curptr sc)
      in if cur_name = 97 then
           case parse_attr sc of
             None \<Rightarrow> Syntax_error PJMEDIA_SDP_EINATTR
           | Some (a, sc) \<Rightarrow>
               Line sc (update_media (\<lambda>m. pjmedia_sdp_media_add_attr m a) (\<lambda>s. pjmedia_sdp_session_add_attr s a) st)
         else if cur_name = 111 then
           case parse_origin sc (p_session st) of
             None \<Rightarrow> Syntax_error PJMEDIA_SDP_EINORIGIN
           | Some (s, sc) \<Rightarrow> Line sc (st\<lparr>p_session := s\<rparr>)
         else if cur_name = 115 then
           case parse_generic_line sc of
             None \<Rightarrow> Syntax_error PJMEDIA_SDP_EINSDP
           | Some (n, sc) \<Rightarrow> Line sc (st\<lparr>p_session := (p_session st)\<lparr>s_name := n\<rparr>\<rparr>)
         else if cur_name = 99 then
           case parse_connection_info sc of
             None \<Rightarrow> Syntax_error PJMEDIA_SDP_EINCONN
           | Some (c, sc) \<Rightarrow> Line sc (update_media (\<lambda>m. m\<lparr>m_conn := Some c\<rparr>) (\<lambda>s. s\<lparr>s_conn := Some c\<rparr>) st)
         else if cur_name = 116 then
           case parse_time sc (p_session st) of
             None \<Rightarrow> Syntax_error PJMEDIA_SDP_EINTIME
           | Some (s, sc) \<Rightarrow> Line sc (st\<lparr>p_session := s\<rparr>)
         else if cur_name = 109 then
           case parse_media sc of
             None \<Rightarrow> Syntax_error PJMEDIA_SDP_EINMEDIA
           | Some (m, sc) \<Rightarrow>
               Line sc (if length (s_media (p_session st)) < PJMEDIA_MAX_SDP_MEDIA
                        then st\<lparr>p_session := (p_session st)\<lparr>s_media := s_media (p_session st) @ [m]\<rparr>, p_media := Last_media\<rparr>
                        else st\<lparr>p_media := Ignored_media m\<rparr>)
         else if cur_name = 118 then
           case parse_version sc of None \<Rightarrow> Syntax_error PJMEDIA_SDP_EINVER | Some sc \<Rightarrow> Line sc st
         else if cur_name = 13 \<or> cur_name = 10 then
           if list_all PJ_SCAN_IS_NEWLINE (drop (curptr sc + 1) (sbuf sc)) then Line (sc\<lparr>curptr := scan_end sc\<rparr>) st
           else Syntax_error PJMEDIA_SDP_EINSDP
         else if cur_name = 98 then
           case parse_bandwidth_info sc of
             None \<Rightarrow> Syntax_error PJMEDIA_SDP_EINBANDW
           | Some (b, sc) \<Rightarrow>
               if length (cur_bandws st) < PJMEDIA_MAX_SDP_BANDW
               then Line sc (update_media (\<lambda>m. m\<lparr>m_bandw := m_bandw m @ [b]\<rparr>) (\<lambda>s. s\<lparr>s_bandw := s_bandw s @ [b]\<rparr>) st)
               else Bandw_overflow
         else if 97 \<le> cur_name \<and> cur_name \<le> 122 then
           case parse_generic_line sc of None \<Rightarrow> Syntax_error PJMEDIA_SDP_EINSDP | Some (dummy, sc) \<Rightarrow> Line sc st
         else Syntax_error PJMEDIA_SDP_EINSDP)"

text \<open>Every line takes something from the text.\<close>

lemmas scan_later = get_later get_char_later advance_later get_newline_later

definition consumes :: "pj_scanner \<Rightarrow> pj_scanner \<Rightarrow> bool" where
  "consumes sc sc' \<longleftrightarrow> sbuf sc' = sbuf sc \<and> left sc' < left sc"

lemma consumes_2: "pj_scan_advance_n sc 2 False = Some sc1 \<Longrightarrow> later sc1 sc' \<Longrightarrow> consumes sc sc'"
  using advance_later [of sc sc1] by (auto simp: consumes_def later_def left_def scan_end_def)

lemma get_char_later': "pj_scan_get_char sc = Some (c, sc') \<Longrightarrow> later sc sc'"
  using get_char_later [of sc c sc'] later_position [of "sc\<lparr>curptr := Suc (curptr sc)\<rparr>" sc] later_trans by auto

lemma parse_fmts_later: "parse_fmts sc fmts = Some (out, sc') \<Longrightarrow> later sc sc'"
proof (induction sc fmts rule: parse_fmts.induct)
  case (1 sc fmts)
  show ?case
  proof (cases "at sc (curptr sc) = 32")
    case True
    obtain c sc1 where g: "pj_scan_get_char sc = Some (c, sc1)"
      using "1.prems" True by (subst (asm) parse_fmts.simps) (auto split: option.splits)
    show ?thesis
    proof (cases "at sc1 (curptr sc1) = 13 \<or> at sc1 (curptr sc1) = 10")
      case nl: True
      then show ?thesis using "1.prems" True g get_char_later' [OF g] by (subst (asm) parse_fmts.simps) auto
    next
      case False
      obtain f sc2 where f: "pj_scan_get sc1 cs_token = Some (f, sc2)"
        using "1.prems" True g False by (subst (asm) parse_fmts.simps) (auto split: option.splits)
      have "parse_fmts sc2 (if length fmts < PJMEDIA_MAX_SDP_FMT then fmts @ [f] else fmts) = Some (out, sc')"
        using "1.prems" True g False f by (subst (asm) parse_fmts.simps) simp
      then have "later sc2 sc'" using "1.IH" True g False f by auto
      then show ?thesis using get_char_later' [OF g] get_later(1) [OF f] later_trans by blast
    qed
  next
    case False
    then show ?thesis using "1.prems" by (subst (asm) parse_fmts.simps) (simp add: later_refl)
  qed
qed

lemmas line_later = get_later get_char_later' get_newline_later parse_fmts_later

lemma skip_line_left: "left (pj_scan_skip_line sc) \<le> left sc" "sbuf (pj_scan_skip_line sc) = sbuf sc"
  using skip_line_later [of sc] by (simp_all add: later_def)

lemma lines_consume:
  "parse_origin sc s = Some (s', sc') \<Longrightarrow> consumes sc sc'"
  "parse_time sc s = Some (s', sc') \<Longrightarrow> consumes sc sc'"
  "parse_generic_line sc = Some (t, sc') \<Longrightarrow> consumes sc sc'"
  "parse_connection_info sc = Some (c, sc') \<Longrightarrow> consumes sc sc'"
  "parse_bandwidth_info sc = Some (b, sc') \<Longrightarrow> consumes sc sc'"
  "parse_media sc = Some (m, sc') \<Longrightarrow> consumes sc sc'"
  "parse_attr sc = Some (a, sc') \<Longrightarrow> consumes sc sc'"
  by ((auto simp: parse_origin_def parse_time_def parse_generic_line_def parse_connection_info_def parse_bandwidth_info_def
      parse_media_def parse_attr_def on_scanner_error_def bind_eq_Some_conv split: if_splits
      dest!: line_later elim!: consumes_2), (auto simp: later_def skip_line_left(2) intro: order_trans [OF skip_line_left(1)])?)

lemma skip_line_consumes: "\<not> pj_scan_is_eof sc \<Longrightarrow> consumes sc (pj_scan_skip_line sc)"
  using run_ge [of "curptr sc" "\<lambda>c. c \<noteq> 10 \<and> c \<noteq> 0" sc]
  by (auto simp: consumes_def pj_scan_is_eof_def left_def pj_scan_skip_line_def Let_def simp del: run_ge)

lemma parse_line_consumes:
  assumes "\<not> pj_scan_is_eof sc" "parse_line sc st = Line sc' st'"
  shows "consumes sc sc'"
  using assms(2) skip_line_consumes [OF assms(1)] assms(1)
  by (auto simp: parse_line_def parse_version_def on_scanner_error_def Let_def split: if_splits option.splits dest: lines_consume)
     (auto simp: consumes_def left_def pj_scan_is_eof_def)

datatype sdp_result = Parsed pjmedia_sdp_session | Parse_failed pj_status_t | Overflows

function parse_lines :: "pj_scanner \<Rightarrow> parse_state \<Rightarrow> sdp_result" where
  "parse_lines sc st =
     (if pj_scan_is_eof sc then Parsed (p_session st)
      else case parse_line sc st of
             Line sc st \<Rightarrow> parse_lines sc st
           | Syntax_error e \<Rightarrow> Parse_failed e
           | Bandw_overflow \<Rightarrow> Overflows)"
  by pat_completeness auto
termination
proof (relation "measure (\<lambda>(sc, st). left sc)", goal_cases)
  case (2 sc st sc' st')
  then show ?case using parse_line_consumes by (simp add: consumes_def)
qed simp

declare parse_lines.simps [simp del]

definition direction_attr :: "pjmedia_sdp_attr \<Rightarrow> bool" where
  "direction_attr a \<longleftrightarrow> pj_strcmp (attr_name a) (str ''sendonly'') = 0 \<or> pj_strcmp (attr_name a) (str ''recvonly'') = 0 \<or>
     pj_strcmp (attr_name a) (str ''inactive'') = 0"

definition apply_media_direction :: "pjmedia_sdp_session \<Rightarrow> pjmedia_sdp_session" where
  "apply_media_direction sdp =
     (case find direction_attr (s_attr sdp) of
        None \<Rightarrow> sdp
      | Some dir_attr \<Rightarrow>
          sdp\<lparr>s_attr := snd (pjmedia_sdp_attr_remove (s_attr sdp) dir_attr),
              s_media := map (\<lambda>m. if list_ex (\<lambda>a. pj_strcmp (attr_name a) (str ''sendrecv'') = 0 \<or> direction_attr a) (m_attr m)
                                  then m else pjmedia_sdp_media_add_attr m dir_attr) (s_media sdp)\<rparr>)"

definition no_session :: pjmedia_sdp_session where
  "no_session = \<lparr>origin = \<lparr>o_user = [], o_id = 0, o_version = 0, o_net_type = [], o_addr_type = [], o_addr = []\<rparr>,
     s_name = [], s_conn = None, s_bandw = [], time_start = 0, time_stop = 0, s_attr = [], s_media = []\<rparr>"

definition pjmedia_sdp_parse :: "bytes \<Rightarrow> sdp_result" where
  "pjmedia_sdp_parse buf =
     (let sc = pj_scan_init buf 0;
          sc = sc\<lparr>curptr := run PJ_SCAN_IS_NEWLINE sc (curptr sc)\<rparr>
      in case parse_lines sc \<lparr>p_session = no_session, p_media = No_media\<rparr> of
           Parsed session \<Rightarrow> Parsed (apply_media_direction session)
         | r \<Rightarrow> r)"

section \<open>A scanner in the middle of a text\<close>

text \<open>The scanner that has passed \<open>pre\<close> and has \<open>rest\<close> before it, and its operations as rewrite rules.\<close>

definition mk :: "bytes \<Rightarrow> bytes \<Rightarrow> nat \<Rightarrow> nat \<Rightarrow> pj_scanner" where
  "mk pre rest l sl = \<lparr>sbuf = pre @ rest, curptr = length pre, line = l, start_line = sl, skip_ws = 0\<rparr>"

lemma mk_fields [simp]:
  "sbuf (mk pre rest l sl) = pre @ rest" "curptr (mk pre rest l sl) = length pre" "skip_ws (mk pre rest l sl) = 0"
  "scan_end (mk pre rest l sl) = length pre + length rest"
  by (simp_all add: mk_def scan_end_def)

lemma mk_at: "at (mk pre rest l sl) (length pre + n) = (if n < length rest then rest ! n else 0)"
  by (simp add: at_def nth_append)

lemma mk_at_0 [simp]: "n = length pre \<Longrightarrow> at (mk pre rest l sl) n = (case rest of [] \<Rightarrow> 0 | c # _ \<Rightarrow> c)"
  using mk_at [of pre rest l sl 0] by (cases rest) simp_all

lemma mk_at_1 [simp]: "n = Suc (length pre) \<Longrightarrow> at (mk pre (c # d # rest) l sl) n = d"
  using mk_at [of pre "c # d # rest" l sl 1] by simp

lemma mk_at_2 [simp]: "n = Suc (Suc (length pre)) \<Longrightarrow> at (mk pre (c # d # e # rest) l sl) n = e"
  using mk_at [of pre "c # d # e # rest" l sl 2] by simp

lemma mk_move: "rest = xs @ rest' \<Longrightarrow> (mk pre rest l sl)\<lparr>curptr := length pre + length xs\<rparr> = mk (pre @ xs) rest' l sl"
  by (simp add: mk_def)

lemma mk_run: "list_all P xs \<Longrightarrow> rest = [] \<or> \<not> P (hd rest) \<Longrightarrow> run P (mk pre (xs @ rest) l sl) (length pre) = length pre + length xs"
proof -
  assume a: "list_all P xs" "rest = [] \<or> \<not> P (hd rest)"
  have "takeWhile P rest = []" using a(2) by (cases rest) auto
  moreover have "takeWhile P (xs @ rest) = xs @ takeWhile P rest" using a(1) by (auto simp: takeWhile_append list_all_iff)
  ultimately show ?thesis by (simp add: run_def)
qed

lemma mk_between: "between (mk pre (xs @ rest) l sl) (length pre) (length pre + length xs) = xs"
  by (simp add: between_def)

lemma mk_get_until_ch:
  "c \<notin> set xs \<Longrightarrow> pj_scan_get_until_ch (mk pre (xs @ c # rest) l sl) c = Some (xs, mk (pre @ xs) (c # rest) l sl)"
proof -
  assume "c \<notin> set xs"
  then have "list_all (\<lambda>d. d \<noteq> c) xs" by (auto simp: list_all_iff)
  then show ?thesis
    using mk_run [of "\<lambda>d. d \<noteq> c" xs "c # rest" pre l sl] mk_move [of "xs @ c # rest" xs "c # rest" pre l sl]
    by (simp add: pj_scan_get_until_ch_def mk_between)
qed

lemma mk_get_until_chr:
  "list_all (\<lambda>c. c \<notin> set spec) xs \<Longrightarrow> c \<in> set spec \<Longrightarrow>
   pj_scan_get_until_chr (mk pre (xs @ c # rest) l sl) spec = Some (xs, mk (pre @ xs) (c # rest) l sl)"
  using mk_run [of "\<lambda>c. c \<notin> set spec" xs "c # rest" pre l sl] mk_move [of "xs @ c # rest" xs "c # rest" pre l sl]
  by (simp add: pj_scan_get_until_chr_def mk_between)

lemma mk_get:
  "list_all spec xs \<Longrightarrow> xs \<noteq> [] \<Longrightarrow> \<not> spec c \<Longrightarrow>
   pj_scan_get (mk pre (xs @ c # rest) l sl) spec = Some (xs, mk (pre @ xs) (c # rest) l sl)"
  using mk_run [of spec xs "c # rest" pre l sl] mk_move [of "xs @ c # rest" xs "c # rest" pre l sl] mk_between [of pre xs "c # rest" l sl]
  by (cases xs) (simp_all add: pj_scan_get_def)

lemma mk_get_char: "c \<noteq> 0 \<Longrightarrow> pj_scan_get_char (mk pre (c # rest) l sl) = Some (c, mk (pre @ [c]) rest l sl)"
  using mk_move [of "c # rest" "[c]" rest pre l sl] by (simp add: pj_scan_get_char_def)

lemma mk_advance: "pj_scan_advance_n (mk pre (c # d # rest) l sl) 2 False = Some (mk (pre @ [c, d]) rest l sl)"
  using mk_move [of "c # d # rest" "[c, d]" rest pre l sl] by (simp add: pj_scan_advance_n_def Let_def)

lemma mk_skip_line:
  "list_all (\<lambda>c. c \<noteq> 0 \<and> c \<noteq> 10) xs \<Longrightarrow>
   pj_scan_skip_line (mk pre (xs @ 10 # rest) l sl) = mk (pre @ xs @ [10]) rest (Suc l) (length pre + length xs + 1)"
  using mk_run [of "\<lambda>c. c \<noteq> 10 \<and> c \<noteq> 0" xs "10 # rest" pre l sl] mk_at [of pre "xs @ 10 # rest" l sl "length xs"]
  by (simp add: pj_scan_skip_line_def conj_commute Let_def) (simp add: mk_def)

lemma mk_skip_crlf:
  "pj_scan_skip_line (mk pre (13 # 10 # rest) l sl) = mk (pre @ [13, 10]) rest (Suc l) (length pre + 2)"
  using mk_skip_line [of "[13]" pre rest l sl] by simp

lemma mk_get_newline: "pj_scan_get_newline (mk pre (13 # 10 # rest) l sl) = Some (mk (pre @ [13, 10]) rest (Suc l) (length pre + 2))"
  by (simp add: pj_scan_get_newline_def PJ_SCAN_IS_NEWLINE_def Let_def) (simp add: mk_def)

lemma mk_eof: "pj_scan_is_eof (mk pre rest l sl) \<longleftrightarrow> rest = []"
  by (simp add: pj_scan_is_eof_def)

lemmas mk_rules = mk_get_until_ch mk_get_until_chr mk_get mk_get_char mk_advance mk_skip_crlf mk_get_newline

section \<open>Reading back what was printed\<close>

definition conn_text :: "pjmedia_sdp_conn \<Rightarrow> bytes" where
  "conn_text c = str ''c='' @ net_type c @ [32] @ addr_type c @ [32] @ addr c @ [13, 10]"

definition bandw_text :: "pjmedia_sdp_bandw \<Rightarrow> bytes" where
  "bandw_text b = str ''b='' @ modifier b @ [58] @ pj_utoa (unat (bandw_value b)) @ [13, 10]"

definition attr_text :: "pjmedia_sdp_attr \<Rightarrow> bytes" where
  "attr_text a = str ''a='' @ attr_name a @ (if length (attr_value a) \<noteq> 0 then 58 # attr_value a else []) @ [13, 10]"

definition name_text :: "bytes \<Rightarrow> bytes" where
  "name_text n = str ''s='' @ n @ [13, 10]"

definition time_text :: "pjmedia_sdp_session \<Rightarrow> bytes" where
  "time_text s = str ''t='' @ pj_utoa (unat (time_start s)) @ [32] @ pj_utoa (unat (time_stop s)) @ [13, 10]"

text \<open>Strings that survive: without the characters that end them, and without line ends and NUL.\<close>

definition free_of :: "bytes \<Rightarrow> bytes \<Rightarrow> bool" where
  "free_of bad xs \<longleftrightarrow> list_all (\<lambda>c. c \<notin> set bad) xs"

definition wf_conn :: "pjmedia_sdp_conn \<Rightarrow> bool" where
  "wf_conn c \<longleftrightarrow> free_of [32] (net_type c) \<and> free_of [32] (addr_type c) \<and> free_of [47, 32, 9, 13, 10] (addr c)"

definition wf_bandw :: "pjmedia_sdp_bandw \<Rightarrow> bool" where
  "wf_bandw b \<longleftrightarrow> free_of [58] (modifier b)"

definition wf_attr :: "pjmedia_sdp_attr \<Rightarrow> bool" where
  "wf_attr a \<longleftrightarrow> attr_name a \<noteq> [] \<and> list_all cs_token (attr_name a) \<and> free_of [13, 10] (attr_value a)"

lemma free_of_notin: "free_of [c] xs \<Longrightarrow> c \<notin> set xs"
  by (auto simp: free_of_def list_all_iff)

lemma digits_free: "list_all (\<lambda>c. c \<notin> {32, 9, 13, 10, 47, 58}) (pj_utoa n)"
  by (auto simp: list_all_iff pj_isdigit_def dest!: utoa_isdigit)

lemma digits_free_of: "set bad \<subseteq> {32, 9, 13, 10, 47, 58} \<Longrightarrow> free_of bad (pj_utoa n)"
  using digits_free [of n] by (auto simp: free_of_def list_all_iff)

lemma utoa_roundtrip: "of_nat (pj_strtoul (pj_utoa (unat w))) = (w :: pj_uint32_t)"
proof -
  have "unat w < 2 ^ 32" using unsigned_less [of w, where ?'a = nat] by simp
  then have "pj_strtoul (pj_utoa (unat w)) = unat w" using strtoul_utoa [of "unat w" "[]"] by simp
  then show ?thesis by simp
qed

lemma utoa_roundtrip16: "of_nat (pj_strtoul (pj_utoa (unat w))) = (w :: pj_uint16_t)"
proof -
  have "unat w < 2 ^ 16" using unsigned_less [of w, where ?'a = nat] by simp
  then have "pj_strtoul (pj_utoa (unat w)) = unat w" using strtoul_utoa [of "unat w" "[]"] by simp
  then show ?thesis by simp
qed

lemma parse_conn_text:
  assumes "wf_conn c"
  shows "\<exists>l' sl'. parse_connection_info (mk pre (conn_text c @ rest) l sl) = Some (c, mk (pre @ conn_text c) rest l' sl')"
  using assms
  by (simp add: parse_connection_info_def conn_text_def wf_conn_def mk_rules free_of_notin free_of_def [of "[47, 32, 9, 13, 10]"]) blast

lemma parse_bandw_text:
  assumes "wf_bandw b"
  shows "\<exists>l' sl'. parse_bandwidth_info (mk pre (bandw_text b @ rest) l sl) = Some (b, mk (pre @ bandw_text b) rest l' sl')"
  using assms digits_free_of [of "[32, 9, 13, 10]" "unat (bandw_value b)"]
  by (simp add: parse_bandwidth_info_def bandw_text_def wf_bandw_def mk_rules free_of_notin free_of_def [of "[32, 9, 13, 10]"] utoa_roundtrip) blast

lemma parse_attr_text:
  assumes "wf_attr a"
  shows "\<exists>l' sl'. parse_attr (mk pre (attr_text a @ rest) l sl) = Some (a, mk (pre @ attr_text a) rest l' sl')"
proof -
  have t: "\<not> cs_token 58" "\<not> cs_token 13" by (simp_all add: cs_token_eq TOKEN_def pj_isdigit_def)
  show ?thesis
  proof (cases "attr_value a")
    case Nil
    then show ?thesis using assms t by (simp add: parse_attr_def attr_text_def wf_attr_def mk_rules) blast
  next
    case (Cons v vs)
    then show ?thesis using assms t mk_get_until_chr [of "[13, 10]" "v # vs" 13]
      by (simp add: parse_attr_def attr_text_def wf_attr_def mk_rules free_of_def) blast
  qed
qed

lemma parse_name_text:
  assumes "free_of [13, 10] n"
  shows "\<exists>l' sl'. parse_generic_line (mk pre (name_text n @ rest) l sl) = Some (n, mk (pre @ name_text n) rest l' sl')"
  using assms by (simp add: parse_generic_line_def name_text_def mk_rules free_of_def) blast

lemma parse_time_text:
  "\<exists>l' sl'. parse_time (mk pre (time_text s @ rest) l sl) ses =
     Some (ses\<lparr>time_start := time_start s, time_stop := time_stop s\<rparr>, mk (pre @ time_text s) rest l' sl')"
  using digits_free_of [of "[32, 9, 13, 10]" "unat (time_stop s)"] digits_free_of [of "[32]" "unat (time_start s)"]
  by (simp add: parse_time_def time_text_def mk_rules free_of_notin free_of_def [of "[32, 9, 13, 10]"] utoa_roundtrip) blast

definition version_text :: bytes where
  "version_text = str ''v=0'' @ [13, 10]"

definition origin_text :: "pjmedia_sdp_origin \<Rightarrow> bytes" where
  "origin_text og =
     str ''o='' @ o_user og @ [32] @ pj_utoa (unat (o_id og)) @ [32] @ pj_utoa (unat (o_version og)) @
     [32] @ o_net_type og @ [32] @ o_addr_type og @ [32] @ o_addr og @ [13, 10]"

lemma origin_lines_text: "origin_lines og = version_text @ origin_text og"
  by (simp add: origin_lines_def version_text_def origin_text_def)

definition wf_origin :: "pjmedia_sdp_origin \<Rightarrow> bool" where
  "wf_origin og \<longleftrightarrow> free_of [32] (o_user og) \<and> free_of [32] (o_net_type og) \<and> free_of [32] (o_addr_type og) \<and>
     free_of [32, 9, 13, 10] (o_addr og)"

definition wf_fmt :: "bytes \<Rightarrow> bool" where
  "wf_fmt f \<longleftrightarrow> f \<noteq> [] \<and> list_all cs_token f"

definition wf_media :: "pjmedia_sdp_media \<Rightarrow> bool" where
  "wf_media m \<longleftrightarrow>
     free_of [32] (media m) \<and> free_of [32, 9, 13, 10] (transport m) \<and> port_count m \<noteq> 1 \<and>
     list_all wf_fmt (fmt m) \<and> length (fmt m) \<le> PJMEDIA_MAX_SDP_FMT \<and>
     (\<forall>c \<in> set_option (m_conn m). wf_conn c) \<and> list_all wf_bandw (m_bandw m) \<and> length (m_bandw m) \<le> PJMEDIA_MAX_SDP_BANDW \<and>
     list_all wf_attr (m_attr m) \<and> length (m_attr m) \<le> PJMEDIA_MAX_SDP_ATTR"

lemma parse_version_text: "\<exists>l' sl'. parse_version (mk pre (version_text @ rest) l sl) = Some (mk (pre @ version_text) rest l' sl')"
  using mk_skip_line [of "[118, 61, 48, 13]" pre rest l sl] by (simp add: parse_version_def version_text_def) blast

lemma parse_origin_text:
  assumes "wf_origin og"
  shows "\<exists>l' sl'. parse_origin (mk pre (origin_text og @ rest) l sl) ses = Some (ses\<lparr>origin := og\<rparr>, mk (pre @ origin_text og) rest l' sl')"
  using assms digits_free_of [of "[32]" "unat (o_id og)"] digits_free_of [of "[32]" "unat (o_version og)"]
  by (simp add: parse_origin_def origin_text_def wf_origin_def mk_rules free_of_notin free_of_def [of "[32, 9, 13, 10]"] utoa_roundtrip) blast

lemma cs_token_not: "\<not> cs_token 32" "\<not> cs_token 13" "\<not> cs_token 47" "\<not> cs_token 58" "\<not> cs_token 10"
  by (simp_all add: cs_token_eq TOKEN_def pj_isdigit_def)

lemma parse_fmts_text:
  "list_all wf_fmt fs \<Longrightarrow> length acc + length fs \<le> PJMEDIA_MAX_SDP_FMT \<Longrightarrow>
   parse_fmts (mk pre (concat (map (\<lambda>f. 32 # f) fs) @ 13 # rest) l sl) acc =
     Some (acc @ fs, mk (pre @ concat (map (\<lambda>f. 32 # f) fs)) (13 # rest) l sl)"
proof (induction fs arbitrary: pre acc)
  case Nil
  show ?case by (subst parse_fmts.simps) simp
next
  case (Cons f fs)
  have f: "f \<noteq> []" "list_all cs_token f" using Cons.prems(1) by (simp_all add: wf_fmt_def)
  obtain d ds where nx: "concat (map (\<lambda>f. 32 # f) fs) @ 13 # rest = d # ds" "\<not> cs_token d"
    using cs_token_not by (cases fs) auto
  have h: "hd f \<noteq> 13" "hd f \<noteq> 10" using f cs_token_not by (cases f; auto)+
  have get: "pj_scan_get (mk (pre @ [32]) (f @ concat (map (\<lambda>f. 32 # f) fs) @ 13 # rest) l sl) cs_token =
      Some (f, mk ((pre @ [32]) @ f) (concat (map (\<lambda>f. 32 # f) fs) @ 13 # rest) l sl)"
    unfolding nx(1) by (rule mk_get) (use f nx(2) in simp_all)
  have "parse_fmts (mk (pre @ 32 # f) (concat (map (\<lambda>f. 32 # f) fs) @ 13 # rest) l sl) (acc @ [f]) =
      Some ((acc @ [f]) @ fs, mk ((pre @ 32 # f) @ concat (map (\<lambda>f. 32 # f) fs)) (13 # rest) l sl)"
    using Cons.prems by (intro Cons.IH) simp_all
  then show ?case using Cons.prems(2) f(1) h get
    by (subst parse_fmts.simps) (cases f, simp_all add: mk_get_char)
qed

lemma parse_media_text:
  assumes "wf_media m"
  shows "\<exists>l' sl'. parse_media (mk pre (media_line m @ rest) l sl) =
    Some (m\<lparr>m_conn := None, m_bandw := [], m_attr := []\<rparr>, mk (pre @ media_line m) rest l' sl')"
proof -
  have w: "32 \<notin> set (media m)" "list_all (\<lambda>c. c \<notin> set [32, 9, 13, 10]) (transport m)"
    using assms by (simp_all add: wf_media_def free_of_def free_of_notin)
  have p: "pj_utoa n \<noteq> []" "list_all cs_token (pj_utoa n)" for n
    using pj_utoa_hd [of n] utoa_isdigit [of _ n] by (auto simp: list_all_iff cs_token_eq)
  define fs where "fs = concat (map (\<lambda>f. 32 # f) (fmt m))"
  have fm: "parse_fmts (mk pre (fs @ 13 # rest) l sl) [] = Some (fmt m, mk (pre @ fs) (13 # rest) l sl)" for pre rest l sl
    using parse_fmts_text [of "fmt m" "[]"] assms by (simp add: fs_def wf_media_def)
  obtain d ds where fd: "\<And>rest. fs @ 13 # rest = d # ds rest" "d \<in> {32, 13}"
  proof (cases "fmt m")
    case Nil
    then show thesis using that [of 13 "\<lambda>rest. rest"] by (simp add: fs_def)
  next
    case (Cons f fs')
    then show thesis using that [of 32 "\<lambda>rest. f @ concat (map (\<lambda>f. 32 # f) fs') @ 13 # rest"] by (simp add: fs_def)
  qed
  have tr: "pj_scan_get_until_chr (mk pre (transport m @ fs @ 13 # rest) l sl) [32, 9, 13, 10] =
      Some (transport m, mk (pre @ transport m) (fs @ 13 # rest) l sl)" for pre rest l sl
    unfolding fd(1) by (rule mk_get_until_chr) (use w(2) fd(2) in auto)
  have pc: "port_count m > 1 \<or> port_count m = 0" using assms by (cases "port_count m" "1 :: pj_uint32_t" rule: linorder_cases) (auto simp: wf_media_def)
  show ?thesis
  proof (cases "port_count m > 1")
    case True
    then show ?thesis using w(1) p tr fm cs_token_not
      by (simp add: parse_media_def media_line_def fs_def [symmetric] mk_rules utoa_roundtrip utoa_roundtrip16) blast
  next
    case False
    then have "port_count m = 0" using pc by blast
    then show ?thesis using w(1) p tr fm cs_token_not
      by (simp add: parse_media_def media_line_def fs_def [symmetric] mk_rules utoa_roundtrip16) blast
  qed
qed

text \<open>Reading a part of the text leads from one state of the parser to another.\<close>

definition leads :: "bytes \<Rightarrow> parse_state \<Rightarrow> bytes \<Rightarrow> parse_state \<Rightarrow> bool" where
  "leads t st rest st' \<longleftrightarrow>
     (\<forall>pre l sl. \<exists>pre' l' sl'. parse_lines (mk pre t l sl) st = parse_lines (mk pre' rest l' sl') st')"

lemma leads_refl: "leads t st t st"
  by (auto simp: leads_def)

lemma leads_trans: "leads t st t' st' \<Longrightarrow> leads t' st' t'' st'' \<Longrightarrow> leads t st t'' st''"
  unfolding leads_def by metis

lemma leads_end: "leads t st [] st' \<Longrightarrow> parse_lines (mk pre t l sl) st = Parsed (p_session st')"
proof -
  assume "leads t st [] st'"
  then obtain pre' l' sl' where "parse_lines (mk pre t l sl) st = parse_lines (mk pre' [] l' sl') st'" unfolding leads_def by blast
  then show ?thesis by (subst (asm) (2) parse_lines.simps) (simp add: mk_eof)
qed

lemma leads_line:
  assumes "\<exists>t'. t @ rest = c # t'"
    "\<And>pre l sl. at (mk pre (t @ rest) l sl) (length pre) = c \<Longrightarrow>
       \<exists>l' sl'. parse_line (mk pre (t @ rest) l sl) st = Line (mk (pre @ t) rest l' sl') st'"
  shows "leads (t @ rest) st rest st'"
  unfolding leads_def
proof (intro allI)
  fix pre l sl
  have "at (mk pre (t @ rest) l sl) (length pre) = c" using assms(1) by auto
  from assms(2) [OF this] obtain l' sl' where "parse_line (mk pre (t @ rest) l sl) st = Line (mk (pre @ t) rest l' sl') st'" by blast
  then have "parse_lines (mk pre (t @ rest) l sl) st = parse_lines (mk (pre @ t) rest l' sl') st'"
    using assms(1) by (subst parse_lines.simps) (auto simp: mk_eof)
  then show "\<exists>pre' l' sl'. parse_lines (mk pre (t @ rest) l sl) st = parse_lines (mk pre' rest l' sl') st'" by blast
qed

definition add_attr :: "pjmedia_sdp_attr \<Rightarrow> parse_state \<Rightarrow> parse_state" where
  "add_attr a = update_media (\<lambda>m. pjmedia_sdp_media_add_attr m a) (\<lambda>s. pjmedia_sdp_session_add_attr s a)"

definition add_bandw :: "pjmedia_sdp_bandw \<Rightarrow> parse_state \<Rightarrow> parse_state" where
  "add_bandw b = update_media (\<lambda>m. m\<lparr>m_bandw := m_bandw m @ [b]\<rparr>) (\<lambda>s. s\<lparr>s_bandw := s_bandw s @ [b]\<rparr>)"

definition set_conn :: "pjmedia_sdp_conn \<Rightarrow> parse_state \<Rightarrow> parse_state" where
  "set_conn c = update_media (\<lambda>m. m\<lparr>m_conn := Some c\<rparr>) (\<lambda>s. s\<lparr>s_conn := Some c\<rparr>)"

lemma first_char:
  "\<exists>t. attr_text a @ rest = 97 # t" "\<exists>t. bandw_text b @ rest = 98 # t" "\<exists>t. conn_text c @ rest = 99 # t"
  "\<exists>t. version_text @ rest = 118 # t" "\<exists>t. origin_text og @ rest = 111 # t" "\<exists>t. name_text n @ rest = 115 # t"
  "\<exists>t. time_text s @ rest = 116 # t" "\<exists>t. media_line m @ rest = 109 # t"
  by (simp_all add: attr_text_def bandw_text_def conn_text_def version_text_def origin_text_def name_text_def time_text_def media_line_def)

lemma leads_attr:
  assumes "wf_attr a"
  shows "leads (attr_text a @ rest) st rest (add_attr a st)"
  apply (rule leads_line [OF first_char(1)])
  subgoal premises c for pre l sl using parse_attr_text [OF assms, of pre rest l sl] c by (auto simp: parse_line_def add_attr_def simp del: mk_at_0) blast
  done

lemma leads_bandw:
  assumes "wf_bandw b" "length (cur_bandws st) < PJMEDIA_MAX_SDP_BANDW"
  shows "leads (bandw_text b @ rest) st rest (add_bandw b st)"
  apply (rule leads_line [OF first_char(2)])
  subgoal premises c for pre l sl using parse_bandw_text [OF assms(1), of pre rest l sl] assms(2) c by (auto simp: parse_line_def add_bandw_def simp del: mk_at_0) blast
  done

lemma leads_conn:
  assumes "wf_conn c"
  shows "leads (conn_text c @ rest) st rest (set_conn c st)"
  apply (rule leads_line [OF first_char(3)])
  subgoal premises c for pre l sl using parse_conn_text [OF assms, of pre rest l sl] c by (auto simp: parse_line_def set_conn_def simp del: mk_at_0) blast
  done

lemma leads_version:
  "leads (version_text @ rest) st rest (st)"
  apply (rule leads_line [OF first_char(4)])
  subgoal premises c for pre l sl using parse_version_text [of pre rest l sl] c by (auto simp: parse_line_def simp del: mk_at_0) blast
  done

lemma leads_origin:
  assumes "wf_origin og"
  shows "leads (origin_text og @ rest) st rest (st\<lparr>p_session := (p_session st)\<lparr>origin := og\<rparr>\<rparr>)"
  apply (rule leads_line [OF first_char(5)])
  subgoal premises c for pre l sl using parse_origin_text [OF assms, of pre rest l sl "p_session st"] c by (auto simp: parse_line_def simp del: mk_at_0) blast
  done

lemma leads_name:
  assumes "free_of [13, 10] n"
  shows "leads (name_text n @ rest) st rest (st\<lparr>p_session := (p_session st)\<lparr>s_name := n\<rparr>\<rparr>)"
  apply (rule leads_line [OF first_char(6)])
  subgoal premises c for pre l sl using parse_name_text [OF assms, of pre rest l sl] c by (auto simp: parse_line_def simp del: mk_at_0) blast
  done

lemma leads_time:
  "leads (time_text s @ rest) st rest (st\<lparr>p_session := (p_session st)\<lparr>time_start := time_start s, time_stop := time_stop s\<rparr>\<rparr>)"
  apply (rule leads_line [OF first_char(7)])
  subgoal premises c for pre l sl using parse_time_text [of pre s rest l sl "p_session st"] c by (auto simp: parse_line_def simp del: mk_at_0) blast
  done

lemma leads_media:
  assumes "wf_media m" "length (s_media (p_session st)) < PJMEDIA_MAX_SDP_MEDIA"
  shows "leads (media_line m @ rest) st rest (st\<lparr>p_session := (p_session st)\<lparr>s_media := s_media (p_session st) @ [m\<lparr>m_conn := None, m_bandw := [], m_attr := []\<rparr>]\<rparr>, p_media := Last_media\<rparr>)"
  apply (rule leads_line [OF first_char(8)])
  subgoal premises c for pre l sl using parse_media_text [OF assms(1), of pre rest l sl] assms(2) c by (auto simp: parse_line_def simp del: mk_at_0) blast
  done


lemma leads_attrs:
  assumes "list_all wf_attr as"
  shows "leads (concat (map attr_text as) @ rest) st rest (foldl (\<lambda>st a. add_attr a st) st as)"
  using assms
proof (induction as arbitrary: st)
  case (Cons a as)
  then show ?case using leads_trans [OF leads_attr [of a "concat (map attr_text as) @ rest" st]] by simp
qed (simp add: leads_refl)

lemma cur_bandws_add [simp]: "cur_bandws (add_bandw b st) = cur_bandws st @ [b]"
  by (cases "p_media st") (simp_all add: cur_bandws_def add_bandw_def update_media_def)

lemma leads_bandws:
  assumes "list_all wf_bandw bs" "length (cur_bandws st) + length bs \<le> PJMEDIA_MAX_SDP_BANDW"
  shows "leads (concat (map bandw_text bs) @ rest) st rest (foldl (\<lambda>st b. add_bandw b st) st bs)"
  using assms
proof (induction bs arbitrary: st)
  case (Cons b bs)
  then show ?case using leads_trans [OF leads_bandw [of b st "concat (map bandw_text bs) @ rest"]] by simp
qed (simp add: leads_refl)

text \<open>The effect of a list of lines, before the first media and in the last one.\<close>

definition in_session :: "pjmedia_sdp_session \<Rightarrow> parse_state" where
  "in_session s = \<lparr>p_session = s, p_media = No_media\<rparr>"

definition in_media :: "pjmedia_sdp_session \<Rightarrow> pjmedia_sdp_media list \<Rightarrow> pjmedia_sdp_media \<Rightarrow> parse_state" where
  "in_media s ms m = \<lparr>p_session = s\<lparr>s_media := ms @ [m]\<rparr>, p_media = Last_media\<rparr>"

lemma attrs_in_session:
  "length (s_attr s) + length as \<le> PJMEDIA_MAX_SDP_ATTR \<Longrightarrow>
   foldl (\<lambda>st a. add_attr a st) (in_session s) as = in_session (s\<lparr>s_attr := s_attr s @ as\<rparr>)"
proof (induction as arbitrary: s)
  case (Cons a as)
  have "add_attr a (in_session s) = in_session (s\<lparr>s_attr := s_attr s @ [a]\<rparr>)"
    using Cons.prems by (simp add: add_attr_def update_media_def in_session_def pjmedia_sdp_session_add_attr_def pjmedia_sdp_attr_add_def)
  then show ?case using Cons.IH [of "s\<lparr>s_attr := s_attr s @ [a]\<rparr>"] Cons.prems by simp
qed simp

lemma attrs_in_media:
  "length (m_attr m) + length as \<le> PJMEDIA_MAX_SDP_ATTR \<Longrightarrow>
   foldl (\<lambda>st a. add_attr a st) (in_media s ms m) as = in_media s ms (m\<lparr>m_attr := m_attr m @ as\<rparr>)"
proof (induction as arbitrary: m)
  case (Cons a as)
  have "add_attr a (in_media s ms m) = in_media s ms (m\<lparr>m_attr := m_attr m @ [a]\<rparr>)"
    using Cons.prems by (simp add: add_attr_def update_media_def in_media_def pjmedia_sdp_media_add_attr_def pjmedia_sdp_attr_add_def)
  then show ?case using Cons.IH [of "m\<lparr>m_attr := m_attr m @ [a]\<rparr>"] Cons.prems by simp
qed simp

lemma bandws_in_session: "foldl (\<lambda>st b. add_bandw b st) (in_session s) bs = in_session (s\<lparr>s_bandw := s_bandw s @ bs\<rparr>)"
  by (induction bs arbitrary: s) (simp_all add: add_bandw_def update_media_def in_session_def)

lemma bandws_in_media: "foldl (\<lambda>st b. add_bandw b st) (in_media s ms m) bs = in_media s ms (m\<lparr>m_bandw := m_bandw m @ bs\<rparr>)"
  by (induction bs arbitrary: m) (simp_all add: add_bandw_def update_media_def in_media_def)

definition media_text :: "pjmedia_sdp_media \<Rightarrow> bytes" where
  "media_text m =
     media_line m @ (case m_conn m of Some c \<Rightarrow> conn_text c | None \<Rightarrow> []) @
     concat (map bandw_text (m_bandw m)) @ concat (map attr_text (m_attr m))"

lemma leads_media_text:
  assumes "wf_media m" "length ms < PJMEDIA_MAX_SDP_MEDIA"
  shows "leads (media_text m @ rest) \<lparr>p_session = s\<lparr>s_media := ms\<rparr>, p_media = cur\<rparr> rest (in_media s ms m)"
proof -
  define tail where "tail = concat (map bandw_text (m_bandw m)) @ concat (map attr_text (m_attr m)) @ rest"
  define m0 where "m0 = m\<lparr>m_conn := None, m_bandw := [], m_attr := []\<rparr>"
  have 1: "leads (media_text m @ rest) \<lparr>p_session = s\<lparr>s_media := ms\<rparr>, p_media = cur\<rparr>
      ((case m_conn m of Some c \<Rightarrow> conn_text c | None \<Rightarrow> []) @ tail) (in_media s ms m0)"
    using leads_media [OF assms(1), of "\<lparr>p_session = s\<lparr>s_media := ms\<rparr>, p_media = cur\<rparr>"] assms(2)
    by (simp add: media_text_def tail_def in_media_def m0_def)
  have 2: "leads ((case m_conn m of Some c \<Rightarrow> conn_text c | None \<Rightarrow> []) @ tail) (in_media s ms m0)
      tail (in_media s ms (m0\<lparr>m_conn := m_conn m\<rparr>))"
  proof (cases "m_conn m")
    case (Some c)
    then show ?thesis using leads_conn [of c tail "in_media s ms m0"] assms(1)
      by (simp add: wf_media_def set_conn_def update_media_def in_media_def)
  next
    case None
    have "m0\<lparr>m_conn := None\<rparr> = m0" by (cases m) (simp add: m0_def)
    then show ?thesis using None by (simp add: leads_refl)
  qed
  have 3: "leads tail (in_media s ms (m0\<lparr>m_conn := m_conn m\<rparr>)) (concat (map attr_text (m_attr m)) @ rest)
      (in_media s ms (m0\<lparr>m_conn := m_conn m, m_bandw := m_bandw m\<rparr>))"
  proof -
    have "cur_bandws (in_media s ms (m0\<lparr>m_conn := m_conn m\<rparr>)) = []" by (simp add: cur_bandws_def in_media_def m0_def)
    then show ?thesis
      using leads_bandws [of "m_bandw m" "in_media s ms (m0\<lparr>m_conn := m_conn m\<rparr>)" "concat (map attr_text (m_attr m)) @ rest"] assms(1)
      by (simp add: tail_def wf_media_def bandws_in_media) (simp add: m0_def)
  qed
  have 4: "leads (concat (map attr_text (m_attr m)) @ rest) (in_media s ms (m0\<lparr>m_conn := m_conn m, m_bandw := m_bandw m\<rparr>))
      rest (in_media s ms m)"
    using leads_attrs [of "m_attr m" rest "in_media s ms (m0\<lparr>m_conn := m_conn m, m_bandw := m_bandw m\<rparr>)"] assms(1) attrs_in_media [of "m0\<lparr>m_conn := m_conn m, m_bandw := m_bandw m\<rparr>" "m_attr m" s ms]
    by (simp add: wf_media_def m0_def)
  show ?thesis using 1 2 3 4 leads_trans by blast
qed

lemma leads_medias:
  assumes "list_all wf_media ms'" "length ms + length ms' \<le> PJMEDIA_MAX_SDP_MEDIA"
  shows "\<exists>cur'. leads (concat (map media_text ms') @ rest) \<lparr>p_session = s\<lparr>s_media := ms\<rparr>, p_media = cur\<rparr>
    rest \<lparr>p_session = s\<lparr>s_media := ms @ ms'\<rparr>, p_media = cur'\<rparr>"
  using assms
proof (induction ms' arbitrary: ms cur)
  case (Cons m ms')
  have "leads (media_text m @ concat (map media_text ms') @ rest) \<lparr>p_session = s\<lparr>s_media := ms\<rparr>, p_media = cur\<rparr>
      (concat (map media_text ms') @ rest) \<lparr>p_session = s\<lparr>s_media := ms @ [m]\<rparr>, p_media = Last_media\<rparr>"
    using leads_media_text [of m ms "concat (map media_text ms') @ rest" s cur] Cons.prems by (simp add: in_media_def)
  moreover obtain cur' where "leads (concat (map media_text ms') @ rest) \<lparr>p_session = s\<lparr>s_media := ms @ [m]\<rparr>, p_media = Last_media\<rparr>
      rest \<lparr>p_session = s\<lparr>s_media := (ms @ [m]) @ ms'\<rparr>, p_media = cur'\<rparr>"
    using Cons.IH [of "ms @ [m]" Last_media] Cons.prems by auto
  ultimately show ?case using leads_trans by (auto intro: exI [of _ cur'])
qed (auto intro: leads_refl)

section \<open>The round trip\<close>

definition session_text :: "pjmedia_sdp_session \<Rightarrow> bytes" where
  "session_text s =
     version_text @ origin_text (origin s) @ name_text (s_name s) @ (case s_conn s of Some c \<Rightarrow> conn_text c | None \<Rightarrow> []) @
     concat (map bandw_text (s_bandw s)) @ time_text s @ concat (map attr_text (s_attr s)) @ concat (map media_text (s_media s))"

text \<open>
  Sessions that can be printed and read back: strings without the characters that end them, names
  and formats that are tokens, lists within their arrays, a port count that is not 1 (which is
  printed like 0), and no direction attribute of the whole session (which the parser moves into
  the media).
\<close>

definition wf_session :: "pjmedia_sdp_session \<Rightarrow> bool" where
  "wf_session s \<longleftrightarrow>
     wf_origin (origin s) \<and> free_of [13, 10] (s_name s) \<and> (\<forall>c \<in> set_option (s_conn s). wf_conn c) \<and>
     list_all wf_bandw (s_bandw s) \<and> length (s_bandw s) \<le> PJMEDIA_MAX_SDP_BANDW \<and>
     list_all wf_attr (s_attr s) \<and> length (s_attr s) \<le> PJMEDIA_MAX_SDP_ATTR \<and> \<not> list_ex direction_attr (s_attr s) \<and>
     list_all wf_media (s_media s) \<and> length (s_media s) \<le> PJMEDIA_MAX_SDP_MEDIA"

text \<open>A printer of a text: nothing else comes out, and with room enough the text does.\<close>

definition prints :: "(int \<Rightarrow> printed) \<Rightarrow> bytes \<Rightarrow> bool" where
  "prints f t \<longleftrightarrow> (\<forall>len u. f len = Text u \<longrightarrow> u = t) \<and> (\<exists>n. \<forall>len \<ge> n. f len = Text t)"

lemma prints_put: "prints (put need t) t"
  unfolding prints_def by (intro conjI allI exI [of _ "max need (int (length t))"]) (auto simp: put_def split: if_splits)

lemma prints_conn: "prints (print_connection_info c) (conn_text c)"
  unfolding prints_def by (intro conjI allI exI [of _ "int (length (conn_text c)) + 1"])
    (auto simp: print_connection_info_def conn_text_def Let_def split: if_splits)

lemma prints_all: "list_all2 prints fs ts \<Longrightarrow> prints (print_all fs) (concat ts)"
proof (induction fs ts rule: list_all2_induct)
  case Nil
  show ?case by (simp add: prints_def)
next
  case (Cons f fs t ts)
  obtain n n' where n: "\<forall>len \<ge> n. f len = Text t" "\<forall>len \<ge> n'. print_all fs len = Text (concat ts)"
    using Cons by (auto simp: prints_def)
  have "print_all (f # fs) len = Text (t @ concat ts)" if "max n (n' + int (length t)) \<le> len" for len
    using that n(1) [rule_format, of len] n(2) [rule_format, of "len - int (length t)"] by simp
  moreover have "u = t @ concat ts" if "print_all (f # fs) len = Text u" for len u
    using that Cons by (auto simp: prints_def split: printed.splits)
  ultimately show ?case unfolding prints_def concat.simps by blast
qed

lemma prints_map: "(\<And>x. prints (f x) (g x)) \<Longrightarrow> list_all2 prints (map f xs) (map g xs)"
  by (simp add: list_all2_conv_all_nth)

lemma prints_bandw: "prints (print_bandw b) (bandw_text b)"
  and prints_attr: "prints (print_attr a) (attr_text a)"
  unfolding print_bandw_def print_attr_def bandw_text_def attr_text_def by (rule prints_put)+

lemma prints_media: "prints (print_media_desc m) (media_text m)"
proof -
  have "prints (print_media_desc m) (concat ([media_line m] @ (case m_conn m of Some c \<Rightarrow> [conn_text c] | None \<Rightarrow> []) @
      map bandw_text (m_bandw m) @ map attr_text (m_attr m)))"
    unfolding print_media_desc_def
    by (intro prints_all list_all2_appendI prints_map prints_bandw prints_attr)
       (auto simp: prints_put prints_conn split: option.splits)
  then show ?thesis by (simp add: media_text_def split: option.splits)
qed

lemma prints_session: "prints (pjmedia_sdp_print s) (session_text s)"
proof -
  have "prints (print_session s) (concat ([origin_lines (origin s), name_text (s_name s)] @
      (case s_conn s of Some c \<Rightarrow> [conn_text c] | None \<Rightarrow> []) @ map bandw_text (s_bandw s) @ [time_text s] @
      map attr_text (s_attr s) @ map media_text (s_media s)))"
    unfolding print_session_def
    by (intro prints_all list_all2_appendI prints_map prints_bandw prints_attr prints_media)
       (auto simp: prints_put prints_conn time_text_def name_text_def split: option.splits)
  moreover have "pjmedia_sdp_print s = print_session s" by (simp add: pjmedia_sdp_print_def fun_eq_iff)
  ultimately show ?thesis by (simp add: session_text_def origin_lines_text split: option.splits)
qed

lemma parse_session_text:
  assumes "wf_session s"
  shows "pjmedia_sdp_parse (session_text s) = Parsed s"
proof -
  define r6 where "r6 = concat (map media_text (s_media s))"
  define r5 where "r5 = concat (map attr_text (s_attr s)) @ r6"
  define r4 where "r4 = time_text s @ r5"
  define r3 where "r3 = concat (map bandw_text (s_bandw s)) @ r4"
  define r2 where "r2 = (case s_conn s of Some c \<Rightarrow> conn_text c | None \<Rightarrow> []) @ r3"
  define s1 where "s1 = no_session\<lparr>origin := origin s, s_name := s_name s\<rparr>"
  define s2 where "s2 = s1\<lparr>s_conn := s_conn s\<rparr>"
  define s3 where "s3 = s2\<lparr>s_bandw := s_bandw s\<rparr>"
  define s4 where "s4 = s3\<lparr>time_start := time_start s, time_stop := time_stop s\<rparr>"
  define s5 where "s5 = s4\<lparr>s_attr := s_attr s\<rparr>"
  note w = assms [unfolded wf_session_def]
  have 1: "leads (session_text s) (in_session no_session) (name_text (s_name s) @ r2) (in_session (no_session\<lparr>origin := origin s\<rparr>))"
    using leads_trans [OF leads_version leads_origin [of "origin s" _ "in_session no_session"]] w
    by (simp add: session_text_def r2_def r3_def r4_def r5_def r6_def in_session_def)
  have 2: "leads (name_text (s_name s) @ r2) (in_session (no_session\<lparr>origin := origin s\<rparr>)) r2 (in_session s1)"
    using leads_name [of "s_name s" r2 "in_session (no_session\<lparr>origin := origin s\<rparr>)"] w by (simp add: s1_def in_session_def)
  have 3: "leads r2 (in_session s1) r3 (in_session s2)"
  proof (cases "s_conn s")
    case (Some c)
    then show ?thesis using leads_conn [of c r3 "in_session s1"] w by (simp add: r2_def s2_def set_conn_def update_media_def in_session_def)
  next
    case None
    then have "s2 = s1" by (simp add: s2_def s1_def no_session_def)
    then show ?thesis using None by (simp add: r2_def leads_refl)
  qed
  have 4: "leads r3 (in_session s2) r4 (in_session s3)"
    using leads_bandws [of "s_bandw s" "in_session s2" r4] w bandws_in_session [of s2]
    by (simp add: r3_def s3_def s2_def s1_def no_session_def cur_bandws_def in_session_def)
  have 5: "leads r4 (in_session s3) r5 (in_session s4)"
    using leads_time [of s r5 "in_session s3"] by (simp add: r4_def s4_def in_session_def)
  have 6: "leads r5 (in_session s4) r6 (in_session s5)"
    using leads_attrs [of "s_attr s" r6 "in_session s4"] w attrs_in_session [of s4 "s_attr s"]
    by (simp add: r5_def s5_def s4_def s3_def s2_def s1_def no_session_def)
  obtain cur where 7: "leads r6 (in_session s5) [] \<lparr>p_session = s5\<lparr>s_media := s_media s\<rparr>, p_media = cur\<rparr>"
    using leads_medias [of "s_media s" "[]" "[]" s5 No_media] w
    by (auto simp: r6_def in_session_def s5_def s4_def s3_def s2_def s1_def no_session_def)
  have "s5\<lparr>s_media := s_media s\<rparr> = s" by (simp add: s5_def s4_def s3_def s2_def s1_def no_session_def)
  moreover have "leads (session_text s) (in_session no_session) [] \<lparr>p_session = s5\<lparr>s_media := s_media s\<rparr>, p_media = cur\<rparr>"
    using 1 2 3 4 5 6 7 leads_trans by blast
  ultimately have p: "parse_lines (mk [] (session_text s) 1 0) (in_session no_session) = Parsed s" using leads_end by fastforce
  obtain t where t: "session_text s = 118 # t" by (simp add: session_text_def version_text_def)
  have "run PJ_SCAN_IS_NEWLINE (mk [] (session_text s) 1 0) 0 = 0" by (simp add: run_def t PJ_SCAN_IS_NEWLINE_def)
  moreover have "pj_scan_init (session_text s) 0 = mk [] (session_text s) 1 0" by (simp add: pj_scan_init_def mk_def)
  moreover have "apply_media_direction s = s"
  proof -
    have "find direction_attr (s_attr s) = None" using w by (auto simp: find_None_iff list_ex_iff)
    then show ?thesis by (simp add: apply_media_direction_def)
  qed
  moreover have cur0: "(mk [] t l sl)\<lparr>curptr := 0\<rparr> = mk [] t l sl" for t l sl by (simp add: mk_def)
  ultimately show ?thesis using p by (simp add: pjmedia_sdp_parse_def in_session_def cur0)
qed


definition example_media :: pjmedia_sdp_media where
  "example_media = \<lparr>media = str ''audio'', port = 4000, port_count = 2, transport = str ''RTP/AVP'', fmt = [str ''0'', str ''101''],
     m_conn = Some \<lparr>net_type = str ''IN'', addr_type = str ''IP4'', addr = str ''10.0.0.1''\<rparr>, m_bandw = [],
     m_attr = [\<lparr>attr_name = str ''rtpmap'', attr_value = str ''101 telephone-event/8000''\<rparr>, \<lparr>attr_name = str ''sendrecv'', attr_value = []\<rparr>]\<rparr>"

definition example_session :: pjmedia_sdp_session where
  "example_session = \<lparr>origin = \<lparr>o_user = str ''-'', o_id = 34, o_version = 35, o_net_type = str ''IN'', o_addr_type = str ''IP4'', o_addr = str ''h''\<rparr>,
     s_name = str ''a call'', s_conn = None, s_bandw = [\<lparr>modifier = str ''AS'', bandw_value = 84\<rparr>], time_start = 0, time_stop = 0,
     s_attr = [\<lparr>attr_name = str ''tool'', attr_value = str ''x''\<rparr>], s_media = [example_media]\<rparr>"


section \<open>Writes past the end\<close>



text \<open>
  The room that the printer checks for does not include all that it writes: not the formats of a
  media line, and not the address type and the full length of the numbers of the origin line.
\<close>

lemma media_line_overruns:
  "int (length (media m) + length (transport m)) + 36 \<le> len \<Longrightarrow> len < int (length (media_line m)) \<Longrightarrow> print_media_desc m len = Overrun"
  by (simp add: print_media_desc_def put_def)

lemma origin_line_overruns:
  "int (length (o_user (origin s)) + length (o_net_type (origin s)) + length (o_addr (origin s))) + 27 \<le> len \<Longrightarrow>
   len < int (length (origin_lines (origin s))) \<Longrightarrow> pjmedia_sdp_print s len = Overrun"
  by (simp add: pjmedia_sdp_print_def print_session_def put_def)

end
