(* ===== verification/PJ_SdpNeg.thy ===== *)
theory PJ_SdpNeg
  imports PJ_Sdp
begin

text \<open>
  The SDP offer/answer negotiator, \<^verbatim>\<open>pjmedia/src/pjmedia/sdp_neg.c\<close>: its state machine, the
  processing of a remote answer, and the making of a local answer from the local capability.

  A \<^verbatim>\<open>PJ_ASSERT_RETURN\<close> returns its status. An assertion with no return, a null pointer and a write
  past an array are faults, values of \<open>neg_fault\<close>. The descriptions that the negotiator keeps
  are clones that it owns, so that they are values of its record.

  The callbacks for the matching of formats belong to the codecs and are a parameter: a
  callback gets the two media, the positions of the formats, and whether it may modify the
  attributes of the answer; it returns a status and these attributes. \<open>env_uninit\<close> is what an uninitialised
  \<^verbatim>\<open>pjmedia_sdp_rtpmap\<close> on the stack holds.
\<close>

section \<open>Data\<close>

abbreviation PJMEDIA_SDPNEG_EINSTATE :: pj_status_t where "PJMEDIA_SDPNEG_EINSTATE \<equiv> PJ_ECODE 220040"
abbreviation PJMEDIA_SDPNEG_ENOINITIAL :: pj_status_t where "PJMEDIA_SDPNEG_ENOINITIAL \<equiv> PJ_ECODE 220041"
abbreviation PJMEDIA_SDPNEG_ENOACTIVE :: pj_status_t where "PJMEDIA_SDPNEG_ENOACTIVE \<equiv> PJ_ECODE 220042"
abbreviation PJMEDIA_SDPNEG_ENONEG :: pj_status_t where "PJMEDIA_SDPNEG_ENONEG \<equiv> PJ_ECODE 220043"
abbreviation PJMEDIA_SDPNEG_EINVANSMEDIA :: pj_status_t where "PJMEDIA_SDPNEG_EINVANSMEDIA \<equiv> PJ_ECODE 220045"
abbreviation PJMEDIA_SDPNEG_EINVANSTP :: pj_status_t where "PJMEDIA_SDPNEG_EINVANSTP \<equiv> PJ_ECODE 220046"
abbreviation PJMEDIA_SDPNEG_EANSNOMEDIA :: pj_status_t where "PJMEDIA_SDPNEG_EANSNOMEDIA \<equiv> PJ_ECODE 220047"
abbreviation PJMEDIA_SDPNEG_ENOMEDIA :: pj_status_t where "PJMEDIA_SDPNEG_ENOMEDIA \<equiv> PJ_ECODE 220048"
abbreviation PJMEDIA_SDPNEG_NOANSCODEC :: pj_status_t where "PJMEDIA_SDPNEG_NOANSCODEC \<equiv> PJ_ECODE 220049"
abbreviation PJMEDIA_SDPNEG_NOANSUNKNOWN :: pj_status_t where "PJMEDIA_SDPNEG_NOANSUNKNOWN \<equiv> PJ_ECODE 220051"

definition PJMEDIA_SDP_NEG_PREFER_REMOTE_CODEC_ORDER :: bool where "PJMEDIA_SDP_NEG_PREFER_REMOTE_CODEC_ORDER = True"
definition PJMEDIA_SDP_NEG_ANSWER_MULTIPLE_CODECS :: bool where "PJMEDIA_SDP_NEG_ANSWER_MULTIPLE_CODECS = False"
definition PJMEDIA_SDP_NEG_MAX_CUSTOM_FMT_NEG_CB :: nat where "PJMEDIA_SDP_NEG_MAX_CUSTOM_FMT_NEG_CB = 8"
definition PJMEDIA_SDP_NEG_ALLOW_MEDIA_CHANGE :: pj_uint32_t where "PJMEDIA_SDP_NEG_ALLOW_MEDIA_CHANGE = 1"

datatype pjmedia_sdp_neg_state =
  NEG_STATE_NULL | NEG_STATE_LOCAL_OFFER | NEG_STATE_REMOTE_OFFER | NEG_STATE_WAIT_NEGO | NEG_STATE_DONE

record pjmedia_sdp_neg =
  neg_state :: pjmedia_sdp_neg_state
  prefer_remote_codec_order :: bool
  answer_with_multiple_codecs :: bool
  has_remote_answer :: bool
  answer_was_remote :: bool
  initial_sdp :: "pjmedia_sdp_session option"
  active_local_sdp :: "pjmedia_sdp_session option"
  active_remote_sdp :: "pjmedia_sdp_session option"
  neg_local_sdp :: "pjmedia_sdp_session option"
  neg_remote_sdp :: "pjmedia_sdp_session option"

definition zero_neg :: pjmedia_sdp_neg where
  "zero_neg = \<lparr>neg_state = NEG_STATE_NULL, prefer_remote_codec_order = False, answer_with_multiple_codecs = False,
     has_remote_answer = False, answer_was_remote = False, initial_sdp = None, active_local_sdp = None,
     active_remote_sdp = None, neg_local_sdp = None, neg_remote_sdp = None\<rparr>"

datatype neg_fault = Assertion_failed | Null_pointer | Array_overflow

type_synonym 'a neg_result = "neg_fault + 'a"

text \<open>A registered callback: a format name and the address of a function, \<open>0\<close> for \<^verbatim>\<open>NULL\<close>.\<close>

record fmt_match_cb_t =
  cb_fmt_name :: bytes
  cb_func :: nat

type_synonym fmt_match_func =
  "pjmedia_sdp_media \<Rightarrow> nat \<Rightarrow> pjmedia_sdp_media \<Rightarrow> nat \<Rightarrow> bool \<Rightarrow> pj_status_t \<times> pjmedia_sdp_attr list"

record neg_env =
  fmt_match_cb :: "fmt_match_cb_t list"
  env_func :: "nat \<Rightarrow> fmt_match_func"
  env_uninit :: pjmedia_sdp_rtpmap

section \<open>Arrays\<close>

text \<open>
  An insertion into \<open>n\<close> elements moves those from \<open>pos\<close> on up by one; what stood at \<open>n\<close> is overwritten.
\<close>

definition pj_array_insert :: "'a list \<Rightarrow> nat \<Rightarrow> nat \<Rightarrow> 'a \<Rightarrow> 'a list" where
  "pj_array_insert xs n pos v = take pos xs @ v # drop pos (take n xs) @ drop (Suc n) xs"

definition pj_array_erase :: "'a list \<Rightarrow> nat \<Rightarrow> 'a list" where
  "pj_array_erase xs pos = take pos xs @ drop (Suc pos) xs"

definition find_from :: "nat \<Rightarrow> ('a \<Rightarrow> bool) \<Rightarrow> 'a list \<Rightarrow> nat option" where
  "find_from i P xs = find (\<lambda>j. P (xs ! j)) [i..<length xs]"

definition str_swap :: "'a list \<Rightarrow> nat \<Rightarrow> nat \<Rightarrow> 'a list" where
  "str_swap xs i j = xs[i := xs ! j, j := xs ! i]"

section \<open>Creation and queries\<close>

definition pjmedia_sdp_neg_create_w_local_offer :: "pjmedia_sdp_session \<Rightarrow> pj_status_t \<times> pjmedia_sdp_neg option" where
  "pjmedia_sdp_neg_create_w_local_offer local =
     (let status = pjmedia_sdp_validate local
      in if status \<noteq> PJ_SUCCESS then (status, None)
         else (PJ_SUCCESS, Some (zero_neg\<lparr>neg_state := NEG_STATE_LOCAL_OFFER,
                 prefer_remote_codec_order := PJMEDIA_SDP_NEG_PREFER_REMOTE_CODEC_ORDER,
                 answer_with_multiple_codecs := PJMEDIA_SDP_NEG_ANSWER_MULTIPLE_CODECS,
                 initial_sdp := Some (pjmedia_sdp_session_clone local),
                 neg_local_sdp := Some (pjmedia_sdp_session_clone local)\<rparr>)))"

definition pjmedia_sdp_neg_create_w_remote_offer ::
  "pjmedia_sdp_session option \<Rightarrow> pjmedia_sdp_session \<Rightarrow> pj_status_t \<times> pjmedia_sdp_neg option" where
  "pjmedia_sdp_neg_create_w_remote_offer initial remote =
     (let status = pjmedia_sdp_validate2 remote False
      in if status \<noteq> PJ_SUCCESS then (status, None)
         else
           let neg = zero_neg\<lparr>prefer_remote_codec_order := PJMEDIA_SDP_NEG_PREFER_REMOTE_CODEC_ORDER,
                       neg_remote_sdp := Some (pjmedia_sdp_session_clone remote)\<rparr>
           in case initial of
                Some initial \<Rightarrow>
                  let status = pjmedia_sdp_validate initial
                  in if status \<noteq> PJ_SUCCESS then (status, None)
                     else (PJ_SUCCESS, Some (neg\<lparr>initial_sdp := Some (pjmedia_sdp_session_clone initial),
                             neg_local_sdp := Some (pjmedia_sdp_session_clone initial), neg_state := NEG_STATE_WAIT_NEGO\<rparr>))
              | None \<Rightarrow> (PJ_SUCCESS, Some (neg\<lparr>neg_state := NEG_STATE_REMOTE_OFFER\<rparr>)))"

definition pjmedia_sdp_neg_set_prefer_remote_codec_order :: "pjmedia_sdp_neg \<Rightarrow> bool \<Rightarrow> pj_status_t \<times> pjmedia_sdp_neg" where
  "pjmedia_sdp_neg_set_prefer_remote_codec_order neg prefer_remote = (PJ_SUCCESS, neg\<lparr>prefer_remote_codec_order := prefer_remote\<rparr>)"

definition pjmedia_sdp_neg_set_answer_multiple_codecs :: "pjmedia_sdp_neg \<Rightarrow> bool \<Rightarrow> pj_status_t \<times> pjmedia_sdp_neg" where
  "pjmedia_sdp_neg_set_answer_multiple_codecs neg answer_multiple = (PJ_SUCCESS, neg\<lparr>answer_with_multiple_codecs := answer_multiple\<rparr>)"

definition pjmedia_sdp_neg_get_state :: "pjmedia_sdp_neg \<Rightarrow> pjmedia_sdp_neg_state" where
  "pjmedia_sdp_neg_get_state neg = neg_state neg"

definition sdp_or :: "pj_status_t \<Rightarrow> pjmedia_sdp_session option \<Rightarrow> pj_status_t \<times> pjmedia_sdp_session option" where
  "sdp_or e sdp = (if sdp = None then (e, None) else (PJ_SUCCESS, sdp))"

definition pjmedia_sdp_neg_get_active_local :: "pjmedia_sdp_neg \<Rightarrow> pj_status_t \<times> pjmedia_sdp_session option" where
  "pjmedia_sdp_neg_get_active_local neg = sdp_or PJMEDIA_SDPNEG_ENOACTIVE (active_local_sdp neg)"

definition pjmedia_sdp_neg_get_active_remote :: "pjmedia_sdp_neg \<Rightarrow> pj_status_t \<times> pjmedia_sdp_session option" where
  "pjmedia_sdp_neg_get_active_remote neg = sdp_or PJMEDIA_SDPNEG_ENOACTIVE (active_remote_sdp neg)"

definition pjmedia_sdp_neg_was_answer_remote :: "pjmedia_sdp_neg \<Rightarrow> bool" where
  "pjmedia_sdp_neg_was_answer_remote neg = answer_was_remote neg"

definition pjmedia_sdp_neg_get_neg_remote :: "pjmedia_sdp_neg \<Rightarrow> pj_status_t \<times> pjmedia_sdp_session option" where
  "pjmedia_sdp_neg_get_neg_remote neg = sdp_or PJMEDIA_SDPNEG_ENONEG (neg_remote_sdp neg)"

definition pjmedia_sdp_neg_get_neg_local :: "pjmedia_sdp_neg \<Rightarrow> pj_status_t \<times> pjmedia_sdp_session option" where
  "pjmedia_sdp_neg_get_neg_local neg = sdp_or PJMEDIA_SDPNEG_ENONEG (neg_local_sdp neg)"

section \<open>Offers and answers set by the application\<close>

text \<open>The media and session arguments are never \<^verbatim>\<open>NULL\<close> in the calls of this function.\<close>

definition sdp_media_clone_deactivate :: "pjmedia_sdp_media \<Rightarrow> pjmedia_sdp_media \<Rightarrow> pjmedia_sdp_session \<Rightarrow> pjmedia_sdp_media" where
  "sdp_media_clone_deactivate rem_med local_med local_sess =
     (let res = pjmedia_sdp_media_clone_deactivate rem_med
      in if m_conn res = None \<and> s_conn local_sess = None then
           if m_conn local_med \<noteq> None then res\<lparr>m_conn := m_conn local_med\<rparr>
           else res\<lparr>m_conn := Some \<lparr>net_type = str ''IN'', addr_type = str ''IP4'', addr = str ''127.0.0.1''\<rparr>\<rparr>
         else res)"

fun fix_media :: "pjmedia_sdp_session \<Rightarrow> pjmedia_sdp_media list \<Rightarrow> nat \<Rightarrow> pjmedia_sdp_media list \<Rightarrow> pjmedia_sdp_media list neg_result" where
  "fix_media local [] oi new = Inr new"
| "fix_media local (om # oms) oi new =
     (case find_from oi (\<lambda>nm. pj_strcmp (media nm) (media om) = 0) new of
        Some ni \<Rightarrow> fix_media local oms (Suc oi) (if ni \<noteq> oi then pj_array_insert new ni oi (new ! ni) else new)
      | None \<Rightarrow>
          if length new < PJMEDIA_MAX_SDP_MEDIA
          then fix_media local oms (Suc oi) (pj_array_insert new (length new) oi (sdp_media_clone_deactivate om om local))
          else Inl Array_overflow)"

fun add_missing :: "pjmedia_sdp_session \<Rightarrow> pjmedia_sdp_media list \<Rightarrow> pjmedia_sdp_media list \<Rightarrow> pjmedia_sdp_media list neg_result" where
  "add_missing local [] new = Inr new"
| "add_missing local (om # oms) new =
     (if length new < PJMEDIA_MAX_SDP_MEDIA
      then add_missing local oms (pj_array_insert new (length new) (length new) (sdp_media_clone_deactivate om om local))
      else Inl Array_overflow)"

definition pjmedia_sdp_neg_modify_local_offer2 ::
  "pjmedia_sdp_neg \<Rightarrow> pj_uint32_t \<Rightarrow> pjmedia_sdp_session \<Rightarrow> (pj_status_t \<times> pjmedia_sdp_neg) neg_result" where
  "pjmedia_sdp_neg_modify_local_offer2 neg flags local =
     (if neg_state neg \<noteq> NEG_STATE_DONE then Inr (PJMEDIA_SDPNEG_EINSTATE, neg)
      else
        let status = pjmedia_sdp_validate local
        in if status \<noteq> PJ_SUCCESS then Inr (status, neg)
           else
             let neg = neg\<lparr>neg_state := NEG_STATE_LOCAL_OFFER\<rparr>
             in case active_local_sdp neg of
                  None \<Rightarrow> Inl Null_pointer
                | Some old_offer \<Rightarrow>
                    let new_offer = (pjmedia_sdp_session_clone local)
                          \<lparr>origin := \<lparr>o_user = o_user (origin old_offer), o_id = o_id (origin old_offer),
                             o_version = o_version (origin old_offer) + 1, o_net_type = o_net_type (origin old_offer),
                             o_addr_type = o_addr_type (origin old_offer), o_addr = o_addr (origin old_offer)\<rparr>\<rparr>
                    in case (if flags AND PJMEDIA_SDP_NEG_ALLOW_MEDIA_CHANGE = 0
                             then fix_media local (s_media old_offer) 0 (s_media new_offer)
                             else add_missing local (drop (length (s_media new_offer)) (s_media old_offer)) (s_media new_offer)) of
                         Inl e \<Rightarrow> Inl e
                       | Inr medias \<Rightarrow>
                           let new_offer = new_offer\<lparr>s_media := medias\<rparr>
                           in Inr (PJ_SUCCESS, neg\<lparr>initial_sdp := Some new_offer,
                                     neg_local_sdp := Some (pjmedia_sdp_session_clone new_offer)\<rparr>))"

definition pjmedia_sdp_neg_modify_local_offer ::
  "pjmedia_sdp_neg \<Rightarrow> pjmedia_sdp_session \<Rightarrow> (pj_status_t \<times> pjmedia_sdp_neg) neg_result" where
  "pjmedia_sdp_neg_modify_local_offer neg local = pjmedia_sdp_neg_modify_local_offer2 neg 0 local"

definition pjmedia_sdp_neg_send_local_offer ::
  "pjmedia_sdp_neg \<Rightarrow> pj_status_t \<times> pjmedia_sdp_session option \<times> pjmedia_sdp_neg" where
  "pjmedia_sdp_neg_send_local_offer neg =
     (if \<not> (neg_state neg = NEG_STATE_DONE \<or> neg_state neg = NEG_STATE_LOCAL_OFFER) then (PJMEDIA_SDPNEG_EINSTATE, None, neg)
      else if neg_state neg = NEG_STATE_DONE then
        case active_local_sdp neg of
          None \<Rightarrow> (PJMEDIA_SDPNEG_ENOACTIVE, None, neg)
        | Some active \<Rightarrow>
            (PJ_SUCCESS, Some active,
             neg\<lparr>neg_state := NEG_STATE_LOCAL_OFFER, neg_local_sdp := Some (pjmedia_sdp_session_clone active),
                 initial_sdp := Some (pjmedia_sdp_session_clone active)\<rparr>)
      else (PJ_SUCCESS, neg_local_sdp neg, neg))"

definition pjmedia_sdp_neg_set_remote_answer :: "pjmedia_sdp_neg \<Rightarrow> pjmedia_sdp_session \<Rightarrow> pj_status_t \<times> pjmedia_sdp_neg" where
  "pjmedia_sdp_neg_set_remote_answer neg remote =
     (if neg_state neg \<noteq> NEG_STATE_LOCAL_OFFER then (PJMEDIA_SDPNEG_EINSTATE, neg)
      else (PJ_SUCCESS, neg\<lparr>neg_state := NEG_STATE_WAIT_NEGO, has_remote_answer := True,
              neg_remote_sdp := Some (pjmedia_sdp_session_clone remote)\<rparr>))"

definition pjmedia_sdp_neg_set_remote_offer :: "pjmedia_sdp_neg \<Rightarrow> pjmedia_sdp_session \<Rightarrow> pj_status_t \<times> pjmedia_sdp_neg" where
  "pjmedia_sdp_neg_set_remote_offer neg remote =
     (if neg_state neg \<noteq> NEG_STATE_DONE then (PJMEDIA_SDPNEG_EINSTATE, neg)
      else (PJ_SUCCESS, neg\<lparr>neg_state := NEG_STATE_REMOTE_OFFER, neg_remote_sdp := Some (pjmedia_sdp_session_clone remote)\<rparr>))"

text \<open>The argument is checked to be not \<^verbatim>\<open>NULL\<close> first, so that the second branch of the code is dead.\<close>

definition pjmedia_sdp_neg_set_local_answer :: "pjmedia_sdp_neg \<Rightarrow> pjmedia_sdp_session \<Rightarrow> pj_status_t \<times> pjmedia_sdp_neg" where
  "pjmedia_sdp_neg_set_local_answer neg local =
     (if neg_state neg \<noteq> NEG_STATE_REMOTE_OFFER then (PJMEDIA_SDPNEG_EINSTATE, neg)
      else
        let neg = neg\<lparr>neg_state := NEG_STATE_WAIT_NEGO\<rparr>; neg_local = pjmedia_sdp_session_clone local
        in case initial_sdp neg of
             Some initial \<Rightarrow>
               (PJ_SUCCESS, neg\<lparr>initial_sdp := Some (pjmedia_sdp_session_clone initial),
                  neg_local_sdp := Some (neg_local\<lparr>origin := (origin neg_local)\<lparr>o_id := o_id (origin initial)\<rparr>\<rparr>)\<rparr>)
           | None \<Rightarrow>
               (PJ_SUCCESS, neg\<lparr>neg_local_sdp := Some neg_local, initial_sdp := Some (pjmedia_sdp_session_clone local)\<rparr>))"

definition pjmedia_sdp_neg_has_local_answer :: "pjmedia_sdp_neg \<Rightarrow> bool neg_result" where
  "pjmedia_sdp_neg_has_local_answer neg =
     (if neg_state neg = NEG_STATE_WAIT_NEGO then Inr (\<not> has_remote_answer neg) else Inl Assertion_failed)"

definition pjmedia_sdp_neg_cancel_offer :: "pjmedia_sdp_neg \<Rightarrow> pj_status_t \<times> pjmedia_sdp_neg" where
  "pjmedia_sdp_neg_cancel_offer neg =
     (if \<not> (neg_state neg = NEG_STATE_LOCAL_OFFER \<or> neg_state neg = NEG_STATE_REMOTE_OFFER) then (PJMEDIA_SDPNEG_EINSTATE, neg)
      else
        let neg = neg\<lparr>neg_local_sdp := None, neg_remote_sdp := None, has_remote_answer := False\<rparr>;
            neg = (case active_local_sdp neg of
                     Some active \<Rightarrow>
                       if neg_state neg = NEG_STATE_LOCAL_OFFER
                       then neg\<lparr>active_local_sdp := Some (active\<lparr>origin := (origin active)\<lparr>o_version := o_version (origin active) + 1\<rparr>\<rparr>)\<rparr>
                       else neg
                   | None \<Rightarrow> neg)
        in (PJ_SUCCESS, neg\<lparr>neg_state := NEG_STATE_DONE\<rparr>))"

section \<open>Callbacks for formats\<close>

definition custom_fmt_match :: "neg_env \<Rightarrow> bytes \<Rightarrow> fmt_match_func" where
  "custom_fmt_match env fmt_name offer o_fmt_idx answer a_fmt_idx option =
     (case find (\<lambda>f. pj_stricmp fmt_name (cb_fmt_name f) = 0) (fmt_match_cb env) of
        Some f \<Rightarrow> env_func env (cb_func f) offer o_fmt_idx answer a_fmt_idx option
      | None \<Rightarrow> (PJ_SUCCESS, m_attr answer))"

definition pjmedia_sdp_neg_register_fmt_match_cb ::
  "fmt_match_cb_t list \<Rightarrow> bytes \<Rightarrow> nat \<Rightarrow> pj_status_t \<times> fmt_match_cb_t list" where
  "pjmedia_sdp_neg_register_fmt_match_cb cbs fmt_name cb =
     (let i = find_from 0 (\<lambda>f. pj_stricmp fmt_name (cb_fmt_name f) = 0) cbs
      in if cb = 0 then
           case i of None \<Rightarrow> (PJ_ENOTFOUND, cbs) | Some i \<Rightarrow> (PJ_SUCCESS, pj_array_erase cbs i)
         else
           case i of
             Some i \<Rightarrow> if cb \<noteq> cb_func (cbs ! i) then (PJ_EEXISTS, cbs) else (PJ_SUCCESS, cbs)
           | None \<Rightarrow>
               if length cbs \<ge> PJMEDIA_SDP_NEG_MAX_CUSTOM_FMT_NEG_CB then (PJ_ETOOMANY, cbs)
               else (PJ_SUCCESS, cbs @ [\<lparr>cb_fmt_name = fmt_name, cb_func = cb\<rparr>]))"

text \<open>The rtpmap that the code gets for a format: its status is ignored.\<close>

definition rtpmap_of :: "neg_env \<Rightarrow> pjmedia_sdp_media \<Rightarrow> bytes \<Rightarrow> pjmedia_sdp_rtpmap option" where
  "rtpmap_of env m f =
     (case pjmedia_sdp_media_find_attr m (str ''rtpmap'') (Some f) of
        None \<Rightarrow> None
      | Some a \<Rightarrow> Some (snd (pjmedia_sdp_attr_get_rtpmap (env_uninit env) a)))"

definition pt_num :: "bytes \<Rightarrow> nat" where
  "pt_num f = pj_strtoul f mod 2 ^ 32"

definition pjmedia_sdp_neg_fmt_match :: "neg_env \<Rightarrow> fmt_match_func" where
  "pjmedia_sdp_neg_fmt_match env offer o_fmt_idx answer a_fmt_idx option =
     (let o_fmt = fmt offer ! o_fmt_idx; a_fmt = fmt answer ! a_fmt_idx
      in if pt_num o_fmt < 96 \<or> pt_num a_fmt < 96 then
           if pt_num o_fmt = pt_num a_fmt then (PJ_SUCCESS, m_attr answer) else (PJMEDIA_SDP_EFORMATNOTEQUAL, m_attr answer)
         else case rtpmap_of env offer o_fmt of
                None \<Rightarrow> (PJ_EBUG, m_attr answer)
              | Some o_rtpmap \<Rightarrow>
                  case rtpmap_of env answer a_fmt of
                    None \<Rightarrow> (PJ_EBUG, m_attr answer)
                  | Some a_rtpmap \<Rightarrow>
                      if pj_stricmp (rm_enc_name o_rtpmap) (rm_enc_name a_rtpmap) \<noteq> 0 \<or> rm_clock_rate o_rtpmap \<noteq> rm_clock_rate a_rtpmap
                      then (PJMEDIA_SDP_EFORMATNOTEQUAL, m_attr answer)
                      else custom_fmt_match env (rm_enc_name o_rtpmap) offer o_fmt_idx answer a_fmt_idx option)"

text \<open>The rtpmap and fmtp attributes of a format are removed together with it.\<close>

definition remove_fmt_attr :: "bytes \<Rightarrow> bytes \<Rightarrow> pjmedia_sdp_media \<Rightarrow> pjmedia_sdp_media" where
  "remove_fmt_attr name f m =
     (case pjmedia_sdp_media_find_attr m name (Some f) of Some a \<Rightarrow> pjmedia_sdp_media_remove_attr m a | None \<Rightarrow> m)"

definition remove_fmt_attrs :: "bytes \<Rightarrow> pjmedia_sdp_media \<Rightarrow> pjmedia_sdp_media" where
  "remove_fmt_attrs f m = remove_fmt_attr (str ''fmtp'') f (remove_fmt_attr (str ''rtpmap'') f m)"

section \<open>Directions\<close>

datatype pjmedia_dir = PJMEDIA_DIR_NONE | PJMEDIA_DIR_ENCODING | PJMEDIA_DIR_DECODING | PJMEDIA_DIR_ENCODING_DECODING

definition has_dir :: "pjmedia_sdp_media \<Rightarrow> bytes \<Rightarrow> bool" where
  "has_dir m name \<longleftrightarrow> pjmedia_sdp_media_find_attr m name None \<noteq> None"

definition remove_all_media_directions :: "pjmedia_sdp_media \<Rightarrow> pjmedia_sdp_media" where
  "remove_all_media_directions m =
     (let m = pjmedia_sdp_media_remove_all_attr m (str ''inactive'');
          m = pjmedia_sdp_media_remove_all_attr m (str ''sendrecv'');
          m = pjmedia_sdp_media_remove_all_attr m (str ''sendonly'')
      in pjmedia_sdp_media_remove_all_attr m (str ''recvonly''))"

definition old_dir_of :: "pjmedia_sdp_media \<Rightarrow> pjmedia_dir" where
  "old_dir_of local =
     (if has_dir local (str ''sendonly'') then PJMEDIA_DIR_ENCODING
      else if has_dir local (str ''recvonly'') then PJMEDIA_DIR_DECODING
      else if has_dir local (str ''inactive'') then PJMEDIA_DIR_NONE
      else PJMEDIA_DIR_ENCODING_DECODING)"

definition update_media_direction :: "pjmedia_sdp_media \<Rightarrow> pjmedia_sdp_media \<Rightarrow> pjmedia_sdp_media" where
  "update_media_direction remote local =
     (let old_dir = old_dir_of local;
          new_dir =
            (if has_dir remote (str ''inactive'') then PJMEDIA_DIR_NONE
             else if has_dir remote (str ''sendonly'') then
               case old_dir of
                 PJMEDIA_DIR_ENCODING_DECODING \<Rightarrow> PJMEDIA_DIR_DECODING
               | PJMEDIA_DIR_DECODING \<Rightarrow> old_dir
               | _ \<Rightarrow> PJMEDIA_DIR_NONE
             else if has_dir remote (str ''recvonly'') then
               case old_dir of
                 PJMEDIA_DIR_ENCODING_DECODING \<Rightarrow> PJMEDIA_DIR_ENCODING
               | PJMEDIA_DIR_ENCODING \<Rightarrow> old_dir
               | _ \<Rightarrow> PJMEDIA_DIR_NONE
             else old_dir)
      in if new_dir \<noteq> old_dir then
           let local = remove_all_media_directions local
           in case new_dir of
                PJMEDIA_DIR_NONE \<Rightarrow> pjmedia_sdp_media_add_attr local (pjmedia_sdp_attr_create (str ''inactive'') None)
              | PJMEDIA_DIR_ENCODING \<Rightarrow> pjmedia_sdp_media_add_attr local (pjmedia_sdp_attr_create (str ''sendonly'') None)
              | PJMEDIA_DIR_DECODING \<Rightarrow> pjmedia_sdp_media_add_attr local (pjmedia_sdp_attr_create (str ''recvonly'') None)
              | PJMEDIA_DIR_ENCODING_DECODING \<Rightarrow> local
         else local)"

section \<open>Processing a remote answer\<close>

text \<open>
  The position of the format of the answer that matches a format of the offer, \<open>None\<close> for none. The callbacks are
  called without leave to modify the answer.
\<close>

definition answer_for_codec ::
  "neg_env \<Rightarrow> pjmedia_sdp_media \<Rightarrow> nat \<Rightarrow> pjmedia_sdp_media \<Rightarrow> pjmedia_sdp_rtpmap \<Rightarrow> nat \<Rightarrow> bool" where
  "answer_for_codec env offer i answer orm j =
     (case rtpmap_of env answer (fmt answer ! j) of
        None \<Rightarrow> False
      | Some ar \<Rightarrow>
          pj_stricmp (rm_enc_name orm) (rm_enc_name ar) = 0 \<and> rm_clock_rate orm = rm_clock_rate ar \<and>
          (pj_stricmp (rm_param orm) (rm_param ar) = 0 \<or> rm_param ar = [49]) \<and>
          fst (custom_fmt_match env (rm_enc_name orm) offer i answer j False) = PJ_SUCCESS)"

definition find_answer_fmt ::
  "neg_env \<Rightarrow> pjmedia_sdp_media \<Rightarrow> nat \<Rightarrow> pjmedia_sdp_media \<Rightarrow> pj_status_t + nat option" where
  "find_answer_fmt env offer i answer =
     (let f = fmt offer ! i
      in if pt_num f < 96 then Inr (find (\<lambda>j. pj_strcmp f (fmt answer ! j) = 0) [0..<length (fmt answer)])
         else case rtpmap_of env offer f of
                None \<Rightarrow> Inl PJ_EBUG
              | Some orm \<Rightarrow> Inr (find (answer_for_codec env offer i answer orm) [0..<length (fmt answer)]))"

text \<open>The first loop: the offer without the formats that have no match, and the positions of the matches.\<close>

function keep_matched ::
  "neg_env \<Rightarrow> pjmedia_sdp_media \<Rightarrow> pjmedia_sdp_media \<Rightarrow> nat \<Rightarrow> nat list \<Rightarrow> pj_status_t \<times> pjmedia_sdp_media \<times> nat list" where
  "keep_matched env offer answer i prior =
     (if i < length (fmt offer) then
        case find_answer_fmt env offer i answer of
          Inl e \<Rightarrow> (e, offer, prior)
        | Inr None \<Rightarrow>
            keep_matched env ((remove_fmt_attrs (fmt offer ! i) offer)\<lparr>fmt := pj_array_erase (fmt offer) i\<rparr>) answer i prior
        | Inr (Some j) \<Rightarrow> keep_matched env offer answer (Suc i) (prior @ [j])
      else (PJ_SUCCESS, offer, prior))"
  by pat_completeness auto
termination
  by (relation "measure (\<lambda>(env, offer, answer, i, prior). length (fmt offer) - i)") (auto simp: pj_array_erase_def)

declare keep_matched.simps [simp del]

text \<open>The exchange sort of the formats with their positions.\<close>

definition sort_round :: "nat \<Rightarrow> (nat \<times> 'a) list \<Rightarrow> (nat \<times> 'a) list" where
  "sort_round i ps =
     fold (\<lambda>j ps. if fst (ps ! i) > fst (ps ! j) then str_swap ps i j else ps) [i + 1..<length ps] ps"

definition resort_formats :: "(nat \<times> 'a) list \<Rightarrow> (nat \<times> 'a) list" where
  "resort_formats ps = fold sort_round [0..<length ps] ps"

text \<open>The last loop, with \<open>prior\<close> the sorted positions.\<close>

function remove_unmatched :: "nat list \<Rightarrow> pjmedia_sdp_media \<Rightarrow> nat \<Rightarrow> nat \<Rightarrow> pjmedia_sdp_media" where
  "remove_unmatched prior answer i del_cnt =
     (if i < length (fmt answer) then
        if i \<ge> length prior \<or> int (prior ! i) - int del_cnt \<noteq> int i
        then remove_unmatched prior ((remove_fmt_attrs (fmt answer ! i) answer)\<lparr>fmt := pj_array_erase (fmt answer) i\<rparr>) i (Suc del_cnt)
        else remove_unmatched prior answer (Suc i) del_cnt
      else answer)"
  by pat_completeness auto
termination
  by (relation "measure (\<lambda>(prior, answer, i, del_cnt). length (fmt answer) - i)") (auto simp: pj_array_erase_def)

declare remove_unmatched.simps [simp del]

text \<open>
  With asymmetric media the code looks for a common format, but compares the formats of the answer with each other; the
  reads beyond its formats are not reached, since the first comparison succeeds.
\<close>

definition asym_common :: "pjmedia_sdp_media \<Rightarrow> pjmedia_sdp_media \<Rightarrow> bool" where
  "asym_common offer answer \<longleftrightarrow>
     list_ex (\<lambda>rem_fmt. list_ex (\<lambda>j. j < length (fmt answer) \<and> pj_strcmp rem_fmt (fmt answer ! j) = 0) [0..<length (fmt offer)])
       (fmt answer)"

definition process_m_answer ::
  "neg_env \<Rightarrow> pjmedia_sdp_media \<Rightarrow> pjmedia_sdp_media \<Rightarrow> bool \<Rightarrow> pj_status_t \<times> pjmedia_sdp_media \<times> pjmedia_sdp_media" where
  "process_m_answer env offer answer allow_asym =
     (if pj_strcmp (media answer) (media offer) \<noteq> 0 then (PJMEDIA_SDPNEG_EINVANSMEDIA, offer, answer)
      else if pjmedia_sdp_transport_cmp (transport answer) (transport offer) \<noteq> PJ_SUCCESS then (PJMEDIA_SDPNEG_EINVANSTP, offer, answer)
      else if port answer = 0 then (PJ_SUCCESS, pjmedia_sdp_media_deactivate offer, answer)
      else if port offer = 0 then (PJ_SUCCESS, offer, answer)
      else
        let offer = update_media_direction answer offer
        in if allow_asym then
             if \<not> asym_common offer answer then (PJMEDIA_SDPNEG_EANSNOMEDIA, offer, answer) else (PJ_SUCCESS, offer, answer)
           else
             let (status, offer, prior) = keep_matched env offer answer 0 []
             in if status \<noteq> PJ_SUCCESS then (status, offer, answer)
                else if length (fmt offer) = 0 then (PJMEDIA_SDPNEG_EANSNOMEDIA, offer, answer)
                else
                  let sorted = resort_formats (zip prior (fmt offer))
                  in (PJ_SUCCESS, offer\<lparr>fmt := map snd sorted\<rparr>, remove_unmatched (map fst sorted) answer 0 0))"

text \<open>
  The media of the offer are taken one by one, \<open>done\<close> the ones dealt with; the position in the answer
  stays when the media types differ.
\<close>

fun process_medias ::
  "neg_env \<Rightarrow> pjmedia_sdp_session \<Rightarrow> bool \<Rightarrow> pjmedia_sdp_media list \<Rightarrow> pjmedia_sdp_media list \<Rightarrow> pjmedia_sdp_media list \<Rightarrow>
     nat \<Rightarrow> bool \<Rightarrow> pj_status_t \<times> pjmedia_sdp_media list \<times> pjmedia_sdp_media list" where
  "process_medias env offer allow_asym [] oms' ams ami has_active =
     (if has_active then PJ_SUCCESS else PJMEDIA_SDPNEG_ENOMEDIA, oms', ams)"
| "process_medias env offer allow_asym (om # oms) oms' ams ami has_active =
     (if ami = length ams then
        process_medias env offer allow_asym oms (oms' @ [pjmedia_sdp_media_deactivate om])
          (ams @ [sdp_media_clone_deactivate om om offer]) (Suc ami) has_active
      else
        let (status, om, am) = process_m_answer env om (ams ! ami) allow_asym
        in if status = PJMEDIA_SDPNEG_EINVANSMEDIA then
             process_medias env offer allow_asym oms (oms' @ [pjmedia_sdp_media_deactivate om]) (ams[ami := am]) ami has_active
           else if status = PJMEDIA_SDPNEG_EANSNOMEDIA then
             process_medias env offer allow_asym oms (oms' @ [pjmedia_sdp_media_deactivate om])
               (ams[ami := pjmedia_sdp_media_deactivate am]) (Suc ami) has_active
           else if status \<noteq> PJ_SUCCESS then (status, oms' @ om # oms, ams[ami := am])
           else process_medias env offer allow_asym oms (oms' @ [om]) (ams[ami := am]) (Suc ami) (has_active \<or> port om \<noteq> 0))"

definition process_answer ::
  "neg_env \<Rightarrow> pjmedia_sdp_session \<Rightarrow> pjmedia_sdp_session \<Rightarrow> bool \<Rightarrow> pj_status_t \<times> pjmedia_sdp_session \<times> pjmedia_sdp_session" where
  "process_answer env offer answer allow_asym =
     (let (status, oms, ams) = process_medias env offer allow_asym (s_media offer) [] (s_media answer) 0 False
      in (status, offer\<lparr>s_media := oms\<rparr>, answer\<lparr>s_media := ams\<rparr>))"

section \<open>Making an answer\<close>

text \<open>
  The payload type at the front of an attribute value is replaced. \<open>None\<close>: the value is so short, compared with the text
  of the old type, that its length would be negative or the new type is written past its buffer.
\<close>

definition rewrite_pt :: "bytes \<Rightarrow> bytes \<Rightarrow> bytes \<Rightarrow> bytes option" where
  "rewrite_pt attr_val old_pt new_pt =
     (let len_diff = int (length new_pt) - int (length old_pt);
          slen = int (length attr_val) + len_diff;
          room = (if len_diff > 0 then slen + 1 else int (length attr_val) + 1)
      in if slen < 0 \<or> int (length new_pt) > room then None
         else Some (take (nat slen) (new_pt @ drop (length old_pt) attr_val)))"

definition move_pt :: "bytes \<Rightarrow> bytes \<Rightarrow> bytes \<Rightarrow> pjmedia_sdp_media \<Rightarrow> (pjmedia_sdp_media \<times> pjmedia_sdp_attr list) option" where
  "move_pt name old_pt new_pt answer =
     (case pjmedia_sdp_media_find_attr answer name (Some old_pt) of
        None \<Rightarrow> Some (answer, [])
      | Some a \<Rightarrow>
          case rewrite_pt (attr_value a) old_pt new_pt of
            None \<Rightarrow> None
          | Some v \<Rightarrow> Some (pjmedia_sdp_media_remove_attr answer a, [a\<lparr>attr_value := v\<rparr>]))"

text \<open>\<open>pts\<close> holds the pairs \<^verbatim>\<open>pt_offer[i]\<close>, \<^verbatim>\<open>pt_answer[i]\<close> that are left, \<open>a_tmp\<close> the attributes put aside.\<close>

fun apply_symmetric_pts ::
  "(bytes \<times> bytes) list \<Rightarrow> nat \<Rightarrow> pjmedia_sdp_media \<Rightarrow> pjmedia_sdp_attr list \<Rightarrow> pjmedia_sdp_media option" where
  "apply_symmetric_pts [] i answer a_tmp = Some (foldl pjmedia_sdp_media_add_attr answer a_tmp)"
| "apply_symmetric_pts ((pt_offer, pt_answer) # pts) i answer a_tmp =
     (if pj_strcmp pt_answer pt_offer = 0 then apply_symmetric_pts pts (Suc i) answer a_tmp
      else case move_pt (str ''rtpmap'') pt_answer pt_offer (answer\<lparr>fmt := (fmt answer)[i := pt_offer]\<rparr>) of
             None \<Rightarrow> None
           | Some (answer, as1) \<Rightarrow>
               case move_pt (str ''fmtp'') pt_answer pt_offer answer of
                 None \<Rightarrow> None
               | Some (answer, as2) \<Rightarrow> apply_symmetric_pts pts (Suc i) answer (a_tmp @ as1 @ as2))"

definition apply_answer_symmetric_pt :: "pjmedia_sdp_media \<Rightarrow> (bytes \<times> bytes) list \<Rightarrow> pjmedia_sdp_media option" where
  "apply_answer_symmetric_pt answer pts = apply_symmetric_pts pts 0 answer []"

record match_state =
  master_has_codec :: bool
  master_has_other :: bool
  found_matching_codec :: bool
  found_matching_telephone_event :: bool
  found_matching_other :: bool
  pt_pairs :: "(bytes \<times> bytes) list"
  ms_preanswer :: pjmedia_sdp_media

definition ms_master :: "bool \<Rightarrow> pjmedia_sdp_media \<Rightarrow> match_state \<Rightarrow> pjmedia_sdp_media" where
  "ms_master prefer_remote offer st = (if prefer_remote then offer else ms_preanswer st)"

definition ms_slave :: "bool \<Rightarrow> pjmedia_sdp_media \<Rightarrow> match_state \<Rightarrow> pjmedia_sdp_media" where
  "ms_slave prefer_remote offer st = (if prefer_remote then ms_preanswer st else offer)"

text \<open>The formats of the offer and of the preanswer for the positions \<open>i\<close> in the master and \<open>j\<close> in the slave.\<close>

definition pt_pair :: "bool \<Rightarrow> pjmedia_sdp_media \<Rightarrow> nat \<Rightarrow> nat \<Rightarrow> match_state \<Rightarrow> bytes \<times> bytes" where
  "pt_pair prefer_remote offer i j st =
     (if prefer_remote then (fmt offer ! i, fmt (ms_preanswer st) ! j) else (fmt offer ! j, fmt (ms_preanswer st) ! i))"

definition rtpmaps_match :: "pjmedia_sdp_rtpmap \<Rightarrow> pjmedia_sdp_rtpmap \<Rightarrow> bool" where
  "rtpmaps_match orm lr \<longleftrightarrow>
     pj_stricmp (rm_enc_name orm) (rm_enc_name lr) = 0 \<and> rm_clock_rate orm = rm_clock_rate lr \<and>
     (pj_stricmp (rm_param orm) (rm_param lr) = 0 \<or> rm_param lr = [] \<and> rm_param orm = [49] \<or>
      rm_param orm = [] \<and> rm_param lr = [49])"

fun match_codec ::
  "neg_env \<Rightarrow> bool \<Rightarrow> pjmedia_sdp_media \<Rightarrow> nat \<Rightarrow> pjmedia_sdp_rtpmap \<Rightarrow> bool \<Rightarrow> nat list \<Rightarrow> match_state \<Rightarrow> match_state" where
  "match_codec env prefer_remote offer i orm is_codec [] st = st"
| "match_codec env prefer_remote offer i orm is_codec (j # js) st =
     (case rtpmap_of env (ms_slave prefer_remote offer st) (fmt (ms_slave prefer_remote offer st) ! j) of
        None \<Rightarrow> match_codec env prefer_remote offer i orm is_codec js st
      | Some lr \<Rightarrow>
          if \<not> rtpmaps_match orm lr then match_codec env prefer_remote offer i orm is_codec js st
          else if is_codec then
            let (status, attrs) =
                  custom_fmt_match env (rm_enc_name orm) offer (if prefer_remote then i else j) (ms_preanswer st)
                    (if prefer_remote then j else i) True;
                st = st\<lparr>ms_preanswer := (ms_preanswer st)\<lparr>m_attr := attrs\<rparr>\<rparr>
            in if status \<noteq> PJ_SUCCESS then match_codec env prefer_remote offer i orm is_codec js st
               else st\<lparr>found_matching_codec := True, pt_pairs := pt_pairs st @ [pt_pair prefer_remote offer i j st]\<rparr>
          else st\<lparr>found_matching_telephone_event := True, pt_pairs := pt_pairs st @ [pt_pair prefer_remote offer i j st]\<rparr>)"

definition match_static :: "bool \<Rightarrow> pjmedia_sdp_media \<Rightarrow> nat \<Rightarrow> match_state \<Rightarrow> match_state" where
  "match_static prefer_remote offer pt st =
     (case find (\<lambda>f. pt_num f = pt \<and> pj_isdigit (fmt_char f)) (fmt (ms_slave prefer_remote offer st)) of
        None \<Rightarrow> st
      | Some f \<Rightarrow> st\<lparr>found_matching_codec := True, pt_pairs := pt_pairs st @ [(f, f)]\<rparr>)"

definition match_other :: "bool \<Rightarrow> pjmedia_sdp_media \<Rightarrow> nat \<Rightarrow> bytes \<Rightarrow> match_state \<Rightarrow> match_state" where
  "match_other prefer_remote offer i f st =
     (case find_from 0 (\<lambda>g. pj_strcmp f g = 0) (fmt (ms_slave prefer_remote offer st)) of
        None \<Rightarrow> st
      | Some j \<Rightarrow> st\<lparr>found_matching_other := True, pt_pairs := pt_pairs st @ [pt_pair prefer_remote offer i j st]\<rparr>)"

text \<open>One round of the loop over the formats of the master.\<close>

definition match_fmt ::
  "neg_env \<Rightarrow> bool \<Rightarrow> bool \<Rightarrow> pjmedia_sdp_media \<Rightarrow> nat \<Rightarrow> match_state \<Rightarrow> pj_status_t \<times> match_state" where
  "match_fmt env prefer_remote multiple offer i st =
     (let master = ms_master prefer_remote offer st; f = fmt master ! i
      in if pj_isdigit (fmt_char f) then
           if pt_num f < 96 then
             let st = st\<lparr>master_has_codec := True\<rparr>
             in if \<not> multiple \<and> found_matching_codec st then (PJ_SUCCESS, st)
                else (PJ_SUCCESS, match_static prefer_remote offer (pt_num f) st)
           else case rtpmap_of env master f of
                  None \<Rightarrow> (PJMEDIA_SDP_EMISSINGRTPMAP, st)
                | Some orm \<Rightarrow>
                    let js = [0..<length (fmt (ms_slave prefer_remote offer st))]
                    in if pj_stricmp (rm_enc_name orm) (str ''telephone-event'') = 0 then
                         if found_matching_telephone_event st then (PJ_SUCCESS, st)
                         else (PJ_SUCCESS, match_codec env prefer_remote offer i orm False js st)
                       else
                         let st = st\<lparr>master_has_codec := True\<rparr>
                         in if \<not> multiple \<and> found_matching_codec st then (PJ_SUCCESS, st)
                            else (PJ_SUCCESS, match_codec env prefer_remote offer i orm True js st)
         else
           let st = st\<lparr>master_has_other := True\<rparr>
           in if found_matching_other st then (PJ_SUCCESS, st)
              else (PJ_SUCCESS, match_other prefer_remote offer i f st))"

fun match_fmts ::
  "neg_env \<Rightarrow> bool \<Rightarrow> bool \<Rightarrow> pjmedia_sdp_media \<Rightarrow> nat list \<Rightarrow> match_state \<Rightarrow> pj_status_t \<times> match_state" where
  "match_fmts env prefer_remote multiple offer [] st = (PJ_SUCCESS, st)"
| "match_fmts env prefer_remote multiple offer (i # is) st =
     (let (status, st) = match_fmt env prefer_remote multiple offer i st
      in if status \<noteq> PJ_SUCCESS then (status, st) else match_fmts env prefer_remote multiple offer is st)"

text \<open>The formats chosen are moved to the front; \<open>None\<close>: one is not found, which the code asserts.\<close>

fun order_fmts :: "bytes list \<Rightarrow> nat \<Rightarrow> bytes list \<Rightarrow> bytes list option" where
  "order_fmts [] i fs = Some fs"
| "order_fmts (pt # pts) i fs =
     (case find_from i (\<lambda>f. pj_strcmp f pt = 0) fs of
        None \<Rightarrow> None
      | Some j \<Rightarrow> order_fmts pts (Suc i) (str_swap fs i j))"

definition build_answer :: "pjmedia_sdp_media \<Rightarrow> (bytes \<times> bytes) list \<Rightarrow> pjmedia_sdp_media neg_result" where
  "build_answer preanswer pts =
     (let answer = pjmedia_sdp_media_clone preanswer; n = length pts
      in case order_fmts (map snd pts) 0 (fmt answer) of
           None \<Rightarrow> Inl Assertion_failed
         | Some fs \<Rightarrow>
             let answer = (fold remove_fmt_attrs (drop n fs) (answer\<lparr>fmt := fs\<rparr>))\<lparr>fmt := take n fs\<rparr>
             in case apply_answer_symmetric_pt answer pts of
                  None \<Rightarrow> Inl Array_overflow
                | Some answer \<Rightarrow> Inr answer)"

text \<open>The result: the status, the preanswer as the callbacks have left it, and the answer.\<close>

definition match_offer ::
  "neg_env \<Rightarrow> bool \<Rightarrow> bool \<Rightarrow> pjmedia_sdp_media \<Rightarrow> pjmedia_sdp_media \<Rightarrow> pjmedia_sdp_session \<Rightarrow>
     (pj_status_t \<times> pjmedia_sdp_media \<times> pjmedia_sdp_media option) neg_result" where
  "match_offer env prefer_remote multiple offer preanswer preanswer_sdp =
     (if port offer = 0 then Inr (PJ_SUCCESS, preanswer, Some (sdp_media_clone_deactivate offer preanswer preanswer_sdp))
      else if port preanswer = 0 then Inr (PJ_SUCCESS, preanswer, Some (pjmedia_sdp_media_clone preanswer))
      else
        let st = \<lparr>master_has_codec = False, master_has_other = False, found_matching_codec = False,
                  found_matching_telephone_event = False, found_matching_other = False, pt_pairs = [], ms_preanswer = preanswer\<rparr>;
            (status, st) = match_fmts env prefer_remote multiple offer [0..<length (fmt (ms_master prefer_remote offer st))] st
        in if status \<noteq> PJ_SUCCESS then Inr (status, ms_preanswer st, None)
           else if master_has_codec st \<and> \<not> found_matching_codec st then Inr (PJMEDIA_SDPNEG_NOANSCODEC, ms_preanswer st, None)
           else if master_has_other st \<and> \<not> found_matching_other st then Inr (PJMEDIA_SDPNEG_NOANSUNKNOWN, ms_preanswer st, None)
           else case build_answer (ms_preanswer st) (pt_pairs st) of
                  Inl e \<Rightarrow> Inl e
                | Inr answer \<Rightarrow> Inr (PJ_SUCCESS, ms_preanswer st, Some (update_media_direction offer answer)))"

text \<open>
  The search for a media of the local capability, \<open>ims\<close> with the flags \<open>used\<close>, that answers the media \<open>om\<close>.
\<close>

fun find_media ::
  "neg_env \<Rightarrow> bool \<Rightarrow> bool \<Rightarrow> pjmedia_sdp_session \<Rightarrow> pjmedia_sdp_media \<Rightarrow> nat list \<Rightarrow> pjmedia_sdp_media list \<Rightarrow> bool list \<Rightarrow>
     pj_status_t \<Rightarrow> (pj_status_t \<times> pjmedia_sdp_media list \<times> bool list \<times> pjmedia_sdp_media option) neg_result" where
  "find_media env prefer_remote multiple initial om [] ims used status = Inr (status, ims, used, None)"
| "find_media env prefer_remote multiple initial om (j # js) ims used status =
     (if pj_strcmp (media om) (media (ims ! j)) = 0 \<and> pj_strcmp (transport om) (transport (ims ! j)) = 0 \<and> \<not> used ! j then
        case match_offer env prefer_remote multiple om (ims ! j) initial of
          Inl e \<Rightarrow> Inl e
        | Inr (status2, im, am) \<Rightarrow>
            if status2 = PJ_SUCCESS then Inr (status, ims[j := im], used[j := True], am)
            else find_media env prefer_remote multiple initial om js (ims[j := im]) used status2
      else find_media env prefer_remote multiple initial om js ims used status)"

fun answer_medias ::
  "neg_env \<Rightarrow> bool \<Rightarrow> bool \<Rightarrow> pjmedia_sdp_session \<Rightarrow> pjmedia_sdp_media list \<Rightarrow> pjmedia_sdp_media list \<Rightarrow> bool list \<Rightarrow>
     pj_status_t \<Rightarrow> pjmedia_sdp_media list \<Rightarrow> (pj_status_t \<times> pjmedia_sdp_media list) neg_result" where
  "answer_medias env prefer_remote multiple initial [] ims used status ams = Inr (status, ams)"
| "answer_medias env prefer_remote multiple initial (om # oms) ims used status ams =
     (case find_media env prefer_remote multiple initial om [0..<length ims] ims used status of
        Inl e \<Rightarrow> Inl e
      | Inr (status, ims, used, found) \<Rightarrow>
          let am = (case found of Some am \<Rightarrow> am | None \<Rightarrow> sdp_media_clone_deactivate om om initial)
          in answer_medias env prefer_remote multiple initial oms ims used status (ams @ [am]))"

text \<open>
  The session of the answer is a clone of the initial one. The \<open>status\<close> that the code returns when no media is active
  starts as the result of the validation.
\<close>

definition create_answer ::
  "neg_env \<Rightarrow> bool \<Rightarrow> bool \<Rightarrow> pjmedia_sdp_session option \<Rightarrow> pjmedia_sdp_session \<Rightarrow>
     (pj_status_t \<times> pjmedia_sdp_session option) neg_result" where
  "create_answer env prefer_remote multiple initial offer =
     (let status = pjmedia_sdp_validate offer
      in if status \<noteq> PJ_SUCCESS then Inr (status, None)
         else case initial of
                None \<Rightarrow> Inr (PJ_ENOMEM, None)
              | Some initial \<Rightarrow>
                  case answer_medias env prefer_remote multiple initial (s_media offer) (s_media initial)
                         (replicate PJMEDIA_MAX_SDP_MEDIA False) status [] of
                    Inl e \<Rightarrow> Inl e
                  | Inr (status, ams) \<Rightarrow>
                      let answer = (pjmedia_sdp_session_clone initial)\<lparr>s_media := ams\<rparr>
                      in Inr (if list_ex (\<lambda>am. port am \<noteq> 0) ams then PJ_SUCCESS else status, Some answer))"

section \<open>Negotiation\<close>

definition neg_done :: "pj_status_t \<Rightarrow> pjmedia_sdp_neg \<Rightarrow> pj_status_t \<times> pjmedia_sdp_neg" where
  "neg_done status neg =
     (status, neg\<lparr>neg_state := NEG_STATE_DONE, answer_was_remote := has_remote_answer neg, neg_local_sdp := None,
                  neg_remote_sdp := None, has_remote_answer := False\<rparr>)"

definition pjmedia_sdp_neg_negotiate :: "neg_env \<Rightarrow> pjmedia_sdp_neg \<Rightarrow> bool \<Rightarrow> (pj_status_t \<times> pjmedia_sdp_neg) neg_result" where
  "pjmedia_sdp_neg_negotiate env neg allow_asym =
     (if neg_state neg \<noteq> NEG_STATE_WAIT_NEGO then Inr (PJMEDIA_SDPNEG_EINSTATE, neg)
      else case neg_remote_sdp neg of
             None \<Rightarrow> Inr (PJ_EBUG, neg)
           | Some remote \<Rightarrow>
               if has_remote_answer neg then
                 case neg_local_sdp neg of
                   None \<Rightarrow> Inr (neg_done PJ_EINVAL neg)
                 | Some local \<Rightarrow>
                     let (status, active, remote) = process_answer env local remote allow_asym
                     in Inr (neg_done status
                          (if status = PJ_SUCCESS then neg\<lparr>active_local_sdp := Some active, active_remote_sdp := Some remote\<rparr> else neg))
               else
                 case create_answer env (prefer_remote_codec_order neg) (answer_with_multiple_codecs neg) (neg_local_sdp neg) remote of
                   Inl e \<Rightarrow> Inl e
                 | Inr (status, answer) \<Rightarrow>
                     if status \<noteq> PJ_SUCCESS then Inr (neg_done status neg)
                     else case (case active_local_sdp neg of Some a \<Rightarrow> Some a | None \<Rightarrow> initial_sdp neg) of
                            None \<Rightarrow> Inl Null_pointer
                          | Some old \<Rightarrow>
                              let set_version = (\<lambda>a. a\<lparr>origin := (origin a)\<lparr>o_version := o_version (origin old) + 1\<rparr>\<rparr>)
                              in Inr (neg_done status (neg\<lparr>active_local_sdp := map_option set_version answer,
                                                          active_remote_sdp := Some remote\<rparr>)))"

end
