(* ===== verification/PJ_SdpNegProofs.thy ===== *)
theory PJ_SdpNegProofs
  imports PJ_SdpNeg "HOL-Library.Multiset"
begin

text \<open>
  Properties of the SDP negotiator: the states it goes through, media directions, the offer
  that modifies a session, the processing of a remote answer and the answer to an offer.
\<close>

section \<open>Directions\<close>

text \<open>Whether a media with a direction sends, and whether it receives.\<close>

definition sends :: "pjmedia_sdp_media \<Rightarrow> bool" where
  "sends m \<longleftrightarrow> old_dir_of m \<in> {PJMEDIA_DIR_ENCODING, PJMEDIA_DIR_ENCODING_DECODING}"

definition receives :: "pjmedia_sdp_media \<Rightarrow> bool" where
  "receives m \<longleftrightarrow> old_dir_of m \<in> {PJMEDIA_DIR_DECODING, PJMEDIA_DIR_ENCODING_DECODING}"

definition direction_names :: "bytes set" where
  "direction_names = {str ''inactive'', str ''sendrecv'', str ''sendonly'', str ''recvonly''}"

definition one_direction :: "pjmedia_sdp_media \<Rightarrow> bool" where
  "one_direction m \<longleftrightarrow> card (attr_name ` set (m_attr m) \<inter> direction_names) \<le> 1"

lemma has_dir_iff: "has_dir m name \<longleftrightarrow> name \<in> attr_name ` set (m_attr m)"
  by (auto simp: has_dir_def pjmedia_sdp_media_find_attr_def pjmedia_sdp_attr_find_def Let_def find_None_iff)

lemma remove_directions:
  "m_attr (remove_all_media_directions m) = filter (\<lambda>a. attr_name a \<notin> direction_names) (m_attr m)"
  by (simp add: remove_all_media_directions_def pjmedia_sdp_media_remove_all_attr_def remove_all_filter Let_def direction_names_def
      conj_commute conj_left_commute)

lemma remove_directions_frame [simp]:
  "fmt (remove_all_media_directions m) = fmt m" "media (remove_all_media_directions m) = media m"
  "transport (remove_all_media_directions m) = transport m" "port (remove_all_media_directions m) = port m"
  by (simp_all add: remove_all_media_directions_def pjmedia_sdp_media_remove_all_attr_def Let_def)

lemma add_attr_frame [simp]:
  "fmt (pjmedia_sdp_media_add_attr m a) = fmt m" "media (pjmedia_sdp_media_add_attr m a) = media m"
  "transport (pjmedia_sdp_media_add_attr m a) = transport m" "port (pjmedia_sdp_media_add_attr m a) = port m"
  by (simp_all add: pjmedia_sdp_media_add_attr_def)

lemma update_direction_frame [simp]:
  "fmt (update_media_direction r m) = fmt m" "media (update_media_direction r m) = media m"
  "transport (update_media_direction r m) = transport m" "port (update_media_direction r m) = port m"
  by (simp_all add: update_media_direction_def Let_def split: pjmedia_dir.split)

lemma one_directionD:
  assumes "one_direction m" "has_dir m a" "has_dir m b" "a \<in> direction_names" "b \<in> direction_names"
  shows "a = b"
  using assms card_le_Suc0_iff_eq [of "attr_name ` set (m_attr m) \<inter> direction_names"]
  by (auto simp: one_direction_def has_dir_iff)

lemma add_attr_room:
  "length (m_attr m) < PJMEDIA_MAX_SDP_ATTR \<Longrightarrow> m_attr (pjmedia_sdp_media_add_attr m a) = m_attr m @ [a]"
  by (simp add: pjmedia_sdp_media_add_attr_def pjmedia_sdp_attr_add_def)

lemma directions_room:
  assumes "length (m_attr m) < PJMEDIA_MAX_SDP_ATTR \<or> length (m_attr m) \<le> PJMEDIA_MAX_SDP_ATTR \<and> (\<exists>d \<in> direction_names. has_dir m d)"
  shows "length (m_attr (remove_all_media_directions m)) < PJMEDIA_MAX_SDP_ATTR"
proof -
  have "length (filter (\<lambda>a. attr_name a \<notin> direction_names) (m_attr m)) < length (m_attr m)" if "\<exists>d \<in> direction_names. has_dir m d"
    using that by (auto simp: has_dir_iff intro: length_filter_less)
  then show ?thesis using assms
    by (auto simp: remove_directions intro: le_less_trans [OF length_filter_le] less_le_trans)
qed

lemma direction_set:
  assumes "length (m_attr (remove_all_media_directions m)) < PJMEDIA_MAX_SDP_ATTR" "d \<in> direction_names" "d' \<in> direction_names"
  shows "has_dir (pjmedia_sdp_media_add_attr (remove_all_media_directions m) (pjmedia_sdp_attr_create d None)) d' \<longleftrightarrow> d' = d"
  using assms by (auto simp: has_dir_iff add_attr_room remove_directions pjmedia_sdp_attr_create_def)

lemma direction_distinct:
  "distinct [str ''inactive'', str ''sendrecv'', str ''sendonly'', str ''recvonly'']"
  by code_simp

lemma set_directions:
  assumes "length (m_attr (remove_all_media_directions m)) < PJMEDIA_MAX_SDP_ATTR"
  shows "old_dir_of (pjmedia_sdp_media_add_attr (remove_all_media_directions m) (pjmedia_sdp_attr_create (str ''inactive'') None)) = PJMEDIA_DIR_NONE"
    "old_dir_of (pjmedia_sdp_media_add_attr (remove_all_media_directions m) (pjmedia_sdp_attr_create (str ''sendonly'') None)) = PJMEDIA_DIR_ENCODING"
    "old_dir_of (pjmedia_sdp_media_add_attr (remove_all_media_directions m) (pjmedia_sdp_attr_create (str ''recvonly'') None)) = PJMEDIA_DIR_DECODING"
  using direction_set [OF assms] direction_distinct by (simp_all add: old_dir_of_def direction_names_def)

lemma added_kept:
  assumes "length (m_attr (remove_all_media_directions m)) < PJMEDIA_MAX_SDP_ATTR"
  shows "filter (\<lambda>a. attr_name a \<notin> direction_names)
      (m_attr (pjmedia_sdp_media_add_attr (remove_all_media_directions m) (pjmedia_sdp_attr_create d None))) =
    filter (\<lambda>a. attr_name a \<notin> direction_names) (m_attr m) @ (if d \<in> direction_names then [] else [pjmedia_sdp_attr_create d None])"
  using assms by (simp add: add_attr_room remove_directions pjmedia_sdp_attr_create_def)

lemma direction_names_simps [simp]:
  "str ''inactive'' \<in> direction_names" "str ''sendonly'' \<in> direction_names" "str ''recvonly'' \<in> direction_names"
  by (auto simp: direction_names_def)

text \<open>
  C36: Negotiation of the direction of a media line follows the offer/answer rules: the local
  side sends exactly if it was to send and the other side receives, and receives exactly if it
  was to receive and the other side sends, provided the other side gives one direction and the
  array of local attributes has room or holds a direction already. All other attributes stay.
\<close>

theorem neg_direction:
  assumes remote: "one_direction remote"
    and room: "length (m_attr local) < PJMEDIA_MAX_SDP_ATTR \<or>
                length (m_attr local) \<le> PJMEDIA_MAX_SDP_ATTR \<and> (\<exists>d \<in> direction_names. has_dir local d)"
  shows "(sends (update_media_direction remote local) \<longleftrightarrow> sends local \<and> receives remote) \<and>
         (receives (update_media_direction remote local) \<longleftrightarrow> receives local \<and> sends remote) \<and>
         filter (\<lambda>a. attr_name a \<notin> direction_names) (m_attr (update_media_direction remote local)) =
         filter (\<lambda>a. attr_name a \<notin> direction_names) (m_attr local)"
proof -
  note r = directions_room [OF room]
  define i so ro where names: "i = str ''inactive''" "so = str ''sendonly''" "ro = str ''recvonly''"
  have one: "has_dir remote so \<Longrightarrow> \<not> has_dir remote i \<and> \<not> has_dir remote ro" "has_dir remote ro \<Longrightarrow> \<not> has_dir remote i"
    using one_directionD [OF remote, of so i] one_directionD [OF remote, of so ro] one_directionD [OF remote, of ro i]
    by (auto simp: direction_names_def names)
  have mem: "i \<in> direction_names" "so \<in> direction_names" "ro \<in> direction_names" unfolding names by (rule direction_names_simps)+
  show ?thesis
    unfolding update_media_direction_def Let_def sends_def receives_def old_dir_of_def [of remote] names [symmetric]
    by (cases "old_dir_of local"; cases "has_dir remote so"; cases "has_dir remote ro"; cases "has_dir remote i";
        simp add: one mem set_directions [OF r, folded names] added_kept [OF r])
qed

section \<open>Arrays\<close>

lemma find_from_Some:
  assumes "find_from i P xs = Some j"
  shows "i \<le> j" "j < length xs" "P (xs ! j)" "\<And>k. i \<le> k \<Longrightarrow> k < j \<Longrightarrow> \<not> P (xs ! k)"
proof -
  obtain n where n: "n < length [i..<length xs]" "P (xs ! ([i..<length xs] ! n))" "j = [i..<length xs] ! n"
    "\<forall>k<n. \<not> P (xs ! ([i..<length xs] ! k))" using assms by (auto simp: find_from_def find_Some_iff)
  then show "i \<le> j" "j < length xs" "P (xs ! j)" by auto
  show "\<not> P (xs ! k)" if "i \<le> k" "k < j" for k
    using n that spec [OF n(4), of "k - i"] by auto
qed

lemma find_from_None: "find_from i P xs = None \<longleftrightarrow> (\<forall>j. i \<le> j \<and> j < length xs \<longrightarrow> \<not> P (xs ! j))"
  by (auto simp: find_from_def find_None_iff)

lemma array_move:
  assumes "i \<le> n" "n < length xs"
  shows "mset (pj_array_insert xs n i (xs ! n)) = mset xs" "take i (pj_array_insert xs n i (xs ! n)) = take i xs"
    "pj_array_insert xs n i (xs ! n) ! i = xs ! n"
proof -
  have "xs = take i xs @ drop i (take n xs) @ xs ! n # drop (Suc n) xs"
    using assms by (metis append_assoc append_take_drop_id id_take_nth_drop min.absorb1 take_take)
  then have "mset xs = mset (take i xs @ drop i (take n xs) @ xs ! n # drop (Suc n) xs)" by simp
  then show "mset (pj_array_insert xs n i (xs ! n)) = mset xs" by (simp add: pj_array_insert_def)
qed (use assms in \<open>auto simp: pj_array_insert_def nth_append\<close>)

lemma array_insert_end:
  assumes "i \<le> length xs"
  shows "mset (pj_array_insert xs (length xs) i v) = add_mset v (mset xs)" "take i (pj_array_insert xs (length xs) i v) = take i xs"
    "pj_array_insert xs (length xs) i v ! i = v"
proof -
  have "mset xs = mset (take i xs) + mset (drop i xs)" by (metis append_take_drop_id mset_append)
  then show "mset (pj_array_insert xs (length xs) i v) = add_mset v (mset xs)" by (simp add: pj_array_insert_def)
qed (use assms in \<open>auto simp: pj_array_insert_def nth_append\<close>)

section \<open>The offer that modifies a session\<close>

lemma clone_deactivate_frame [simp]:
  "media (sdp_media_clone_deactivate rm lm s) = media rm" "port (sdp_media_clone_deactivate rm lm s) = 0"
  "transport (sdp_media_clone_deactivate rm lm s) = transport rm" "fmt (sdp_media_clone_deactivate rm lm s) = fmt rm"
  by (simp_all add: sdp_media_clone_deactivate_def pjmedia_sdp_media_clone_deactivate_def pjmedia_sdp_media_deactivate_def Let_def)

text \<open>What the loop makes of the new media: the lines from \<open>oi\<close> on have the types of the old media.\<close>

definition lines_kept :: "pjmedia_sdp_media list \<Rightarrow> nat \<Rightarrow> pjmedia_sdp_media list \<Rightarrow> pjmedia_sdp_media list \<Rightarrow> bool" where
  "lines_kept oms oi new new' \<longleftrightarrow>
     take oi new' = take oi new \<and> oi + length oms \<le> length new' \<and> (\<forall>k < length oms. media (new' ! (oi + k)) = media (oms ! k)) \<and>
     (\<exists>extra. mset new' = mset new + mset extra \<and> length extra \<le> length oms \<and> (\<forall>m \<in> set extra. port m = 0))"

lemma lines_kept_step:
  assumes "lines_kept oms (Suc oi) mid new'" "take oi mid = take oi new" "oi < length mid" "media (mid ! oi) = media om"
    and "mset mid = mset new + mset ex" "length ex \<le> 1" "\<forall>m \<in> set ex. port m = 0"
  shows "lines_kept (om # oms) oi new new'"
proof -
  obtain extra where ex: "mset new' = mset mid + mset extra" "length extra \<le> length oms" "\<forall>m \<in> set extra. port m = 0"
    and t: "take (Suc oi) new' = take (Suc oi) mid" and l: "Suc oi + length oms \<le> length new'"
    and k: "\<forall>k < length oms. media (new' ! (Suc oi + k)) = media (oms ! k)"
    using assms(1) by (auto simp: lines_kept_def)
  have "take oi new' = take oi new" using arg_cong [OF t, of "take oi"] assms(2) by (simp add: min_def)
  moreover have "media (new' ! oi) = media om" using arg_cong [OF t, of "\<lambda>xs. xs ! oi"] assms(3,4) by simp
  then have "\<forall>k < length (om # oms). media (new' ! (oi + k)) = media ((om # oms) ! k)"
    using k by (auto simp: nth_Cons split: nat.split)
  moreover have "mset new' = mset new + mset (ex @ extra)" "length (ex @ extra) \<le> length (om # oms)"
    "\<forall>m \<in> set (ex @ extra). port m = 0" using ex assms(5-7) by auto
  ultimately show ?thesis using l unfolding lines_kept_def by (metis add_Suc_shift length_Cons)
qed

lemma fix_media_correct:
  "oi \<le> length new \<Longrightarrow> length new + length oms \<le> PJMEDIA_MAX_SDP_MEDIA \<Longrightarrow>
     \<exists>new'. fix_media local oms oi new = Inr new' \<and> lines_kept oms oi new new'"
proof (induction oms arbitrary: oi new)
  case Nil
  then show ?case by (auto simp: lines_kept_def)
next
  case (Cons om oms)
  let ?P = "\<lambda>nm. pj_strcmp (media nm) (media om) = 0"
  show ?case
  proof (cases "find_from oi ?P new")
    case None
    define new1 where "new1 = pj_array_insert new (length new) oi (sdp_media_clone_deactivate om om local)"
    note ins = array_insert_end [OF Cons.prems(1), of "sdp_media_clone_deactivate om om local", folded new1_def]
    have len: "length new1 = Suc (length new)" using arg_cong [OF ins(1), of size] by simp
    then obtain new' where new': "fix_media local oms (Suc oi) new1 = Inr new'" "lines_kept oms (Suc oi) new1 new'"
      using Cons.IH [of "Suc oi" new1] Cons.prems by auto
    then have "lines_kept (om # oms) oi new new'" using ins len Cons.prems(1)
      by (intro lines_kept_step [where mid = new1 and ex = "[sdp_media_clone_deactivate om om local]"]) auto
    then show ?thesis using new' None Cons.prems by (auto simp: new1_def)
  next
    case (Some ni)
    note f = find_from_Some [OF Some]
    define new1 where "new1 = (if ni \<noteq> oi then pj_array_insert new ni oi (new ! ni) else new)"
    have ins: "mset new1 = mset new" "take oi new1 = take oi new" "new1 ! oi = new ! ni"
      using array_move [OF f(1,2)] by (auto simp: new1_def)
    have len: "length new1 = length new" using arg_cong [OF ins(1), of size] by simp
    then obtain new' where new': "fix_media local oms (Suc oi) new1 = Inr new'" "lines_kept oms (Suc oi) new1 new'"
      using Cons.IH [of "Suc oi" new1] Cons.prems f by auto
    then have "lines_kept (om # oms) oi new new'" using ins len f
      by (intro lines_kept_step [where mid = new1 and ex = "[]"]) auto
    then show ?thesis using new' Some by (auto simp: new1_def)
  qed
qed


section \<open>The states of the negotiator\<close>

datatype neg_op =
    Set_prefer_remote bool | Set_answer_multiple bool | Modify_offer pj_uint32_t pjmedia_sdp_session | Send_offer
  | Set_remote_answer pjmedia_sdp_session | Set_remote_offer pjmedia_sdp_session | Set_local_answer pjmedia_sdp_session
  | Cancel_offer | Negotiate bool

fun neg_call :: "neg_env \<Rightarrow> neg_op \<Rightarrow> pjmedia_sdp_neg \<Rightarrow> (pj_status_t \<times> pjmedia_sdp_neg) neg_result" where
  "neg_call env (Set_prefer_remote b) neg = Inr (pjmedia_sdp_neg_set_prefer_remote_codec_order neg b)"
| "neg_call env (Set_answer_multiple b) neg = Inr (pjmedia_sdp_neg_set_answer_multiple_codecs neg b)"
| "neg_call env (Modify_offer flags sdp) neg = pjmedia_sdp_neg_modify_local_offer2 neg flags sdp"
| "neg_call env Send_offer neg = (case pjmedia_sdp_neg_send_local_offer neg of (status, _, neg) \<Rightarrow> Inr (status, neg))"
| "neg_call env (Set_remote_answer sdp) neg = Inr (pjmedia_sdp_neg_set_remote_answer neg sdp)"
| "neg_call env (Set_remote_offer sdp) neg = Inr (pjmedia_sdp_neg_set_remote_offer neg sdp)"
| "neg_call env (Set_local_answer sdp) neg = Inr (pjmedia_sdp_neg_set_local_answer neg sdp)"
| "neg_call env Cancel_offer neg = Inr (pjmedia_sdp_neg_cancel_offer neg)"
| "neg_call env (Negotiate asy) neg = pjmedia_sdp_neg_negotiate env neg asy"

text \<open>The negotiators that calls lead to, from one that was created with an offer of either side.\<close>

inductive neg_reachable :: "neg_env \<Rightarrow> pjmedia_sdp_neg \<Rightarrow> bool" for env where
  local_offer: "pjmedia_sdp_neg_create_w_local_offer local = (PJ_SUCCESS, Some neg) \<Longrightarrow> neg_reachable env neg"
| remote_offer: "pjmedia_sdp_neg_create_w_remote_offer initial remote = (PJ_SUCCESS, Some neg) \<Longrightarrow> neg_reachable env neg"
| call: "neg_reachable env neg \<Longrightarrow> neg_call env c neg = Inr (status, neg') \<Longrightarrow> neg_reachable env neg'"

text \<open>Which descriptions are there in which state.\<close>

definition neg_inv :: "pjmedia_sdp_neg \<Rightarrow> bool" where
  "neg_inv neg \<longleftrightarrow>
     (case neg_state neg of
        NEG_STATE_NULL \<Rightarrow> False
      | NEG_STATE_LOCAL_OFFER \<Rightarrow> neg_local_sdp neg \<noteq> None \<and> initial_sdp neg \<noteq> None \<and> \<not> has_remote_answer neg
      | NEG_STATE_REMOTE_OFFER \<Rightarrow> neg_remote_sdp neg \<noteq> None \<and> neg_local_sdp neg = None \<and> \<not> has_remote_answer neg
      | NEG_STATE_WAIT_NEGO \<Rightarrow> neg_local_sdp neg \<noteq> None \<and> neg_remote_sdp neg \<noteq> None \<and> initial_sdp neg \<noteq> None
      | NEG_STATE_DONE \<Rightarrow> neg_local_sdp neg = None \<and> neg_remote_sdp neg = None \<and> \<not> has_remote_answer neg) \<and>
     (active_local_sdp neg = None \<longleftrightarrow> active_remote_sdp neg = None)"

lemmas neg_op_defs =
  pjmedia_sdp_neg_set_prefer_remote_codec_order_def pjmedia_sdp_neg_set_answer_multiple_codecs_def
  pjmedia_sdp_neg_modify_local_offer2_def pjmedia_sdp_neg_send_local_offer_def pjmedia_sdp_neg_set_remote_answer_def
  pjmedia_sdp_neg_set_remote_offer_def pjmedia_sdp_neg_set_local_answer_def pjmedia_sdp_neg_cancel_offer_def

lemma neg_done_inv: "(active_local_sdp neg = None \<longleftrightarrow> active_remote_sdp neg = None) \<Longrightarrow> neg_inv (snd (neg_done s neg))"
  by (simp add: neg_done_def neg_inv_def)

lemma create_answer_session [simp]: "create_answer env p m initial offer \<noteq> Inr (PJ_SUCCESS, None)"
  by (auto simp: create_answer_def Let_def split: if_splits option.splits sum.splits)

lemma negotiate_inv:
  assumes "neg_inv neg" "pjmedia_sdp_neg_negotiate env neg asy = Inr (status, neg')"
  shows "neg_inv neg'"
proof (cases "neg_state neg = NEG_STATE_WAIT_NEGO")
  case True
  then obtain l r i where some: "neg_local_sdp neg = Some l" "neg_remote_sdp neg = Some r" "initial_sdp neg = Some i"
    and act: "active_local_sdp neg = None \<longleftrightarrow> active_remote_sdp neg = None" using assms(1) by (auto simp: neg_inv_def)
  note n = assms(2) [unfolded pjmedia_sdp_neg_negotiate_def, simplified True some, simplified]
  show ?thesis
  proof (cases "has_remote_answer neg")
    case True
    with n act show ?thesis
      by (auto simp: Let_def neg_done_def neg_inv_def split: if_splits prod.splits)
  next
    case False
    with n act show ?thesis
      by (auto simp: Let_def neg_done_def neg_inv_def split: if_splits sum.splits prod.splits option.splits)
  qed
qed (use assms in \<open>auto simp: pjmedia_sdp_neg_negotiate_def\<close>)

lemma neg_inv_options:
  "neg_inv (neg\<lparr>prefer_remote_codec_order := b\<rparr>) = neg_inv neg" "neg_inv (neg\<lparr>answer_with_multiple_codecs := b\<rparr>) = neg_inv neg"
  by (cases "neg_state neg"; simp add: neg_inv_def)+

lemma neg_call_inv:
  assumes "neg_inv neg" "neg_call env c neg = Inr (status, neg')"
  shows "neg_inv neg'"
proof (cases c)
  case (Negotiate asy)
  then show ?thesis using assms negotiate_inv by simp
next
  case (Set_prefer_remote b)
  then show ?thesis using assms by (auto simp: neg_op_defs neg_inv_options)
next
  case (Set_answer_multiple b)
  then show ?thesis using assms by (auto simp: neg_op_defs neg_inv_options)
qed (use assms in \<open>auto simp: neg_op_defs neg_inv_def Let_def split: if_splits option.splits sum.splits\<close>)

lemma neg_create_inv:
  "pjmedia_sdp_neg_create_w_local_offer local = (PJ_SUCCESS, Some neg) \<Longrightarrow> neg_inv neg"
  "pjmedia_sdp_neg_create_w_remote_offer initial remote = (PJ_SUCCESS, Some neg) \<Longrightarrow> neg_inv neg"
  by (auto simp: pjmedia_sdp_neg_create_w_local_offer_def pjmedia_sdp_neg_create_w_remote_offer_def neg_inv_def zero_neg_def Let_def
      split: if_splits option.splits)

lemma neg_reachable_inv: "neg_reachable env neg \<Longrightarrow> neg_inv neg"
  by (induction rule: neg_reachable.induct) (auto intro: neg_create_inv neg_call_inv)

text \<open>The other faults.\<close>

lemma fix_media_fault: "fix_media local oms oi new = Inl e \<Longrightarrow> e = Array_overflow"
  by (induction oms arbitrary: oi new) (auto split: option.splits if_splits)

lemma add_missing_fault: "add_missing local oms new = Inl e \<Longrightarrow> e = Array_overflow"
  by (induction oms arbitrary: new) (auto split: if_splits)

lemma match_offer_fault: "match_offer env p m om im s = Inl e \<Longrightarrow> e \<noteq> Null_pointer"
  by (auto simp: match_offer_def build_answer_def Let_def split: if_splits option.splits sum.splits prod.splits)

lemma find_media_fault: "find_media env p m s om js ims used st = Inl e \<Longrightarrow> e \<noteq> Null_pointer"
  by (induction js arbitrary: ims used st) (auto dest: match_offer_fault split: if_splits sum.splits)

lemma answer_medias_fault: "answer_medias env p m s oms ims used st ams = Inl e \<Longrightarrow> e \<noteq> Null_pointer"
  by (induction oms arbitrary: ims used st ams) (auto simp: Let_def dest: find_media_fault split: sum.splits)

lemma create_answer_fault: "create_answer env p m initial offer = Inl e \<Longrightarrow> e \<noteq> Null_pointer"
  by (auto simp: create_answer_def Let_def dest: answer_medias_fault split: if_splits option.splits sum.splits)

lemma modify_fault:
  "pjmedia_sdp_neg_modify_local_offer2 neg flags sdp = Inl Null_pointer \<longleftrightarrow>
     neg_state neg = NEG_STATE_DONE \<and> active_local_sdp neg = None \<and> pjmedia_sdp_validate sdp = PJ_SUCCESS"
  by (auto simp: pjmedia_sdp_neg_modify_local_offer2_def Let_def dest: fix_media_fault add_missing_fault
      split: option.splits sum.splits if_splits)

lemma negotiate_fault: "neg_inv neg \<Longrightarrow> pjmedia_sdp_neg_negotiate env neg asy \<noteq> Inl Null_pointer"
  by (auto simp: pjmedia_sdp_neg_negotiate_def neg_inv_def Let_def dest: create_answer_fault
      split: option.splits sum.splits if_splits prod.splits pjmedia_sdp_neg_state.splits)

text \<open>
  C13: Whatever calls are made, the descriptions that a state of the negotiator needs are there
  (the local offer while an answer is awaited, both sides before the negotiation, none after
  it), and a null pointer is followed in one case only: when the local offer is modified
  although no negotiation has succeeded yet.
\<close>

theorem neg_null_only_modify:
  assumes "neg_reachable env neg"
  shows "neg_inv neg \<and>
    (neg_call env c neg = Inl Null_pointer \<longleftrightarrow>
       (\<exists>flags sdp. c = Modify_offer flags sdp \<and> neg_state neg = NEG_STATE_DONE \<and> active_local_sdp neg = None \<and>
          pjmedia_sdp_validate sdp = PJ_SUCCESS))"
proof -
  have inv: "neg_inv neg" using assms by (rule neg_reachable_inv)
  then show ?thesis using modify_fault negotiate_fault by (cases c) (auto split: prod.splits)
qed

end
