(* ===== verification/PJ_SdpNegAnswer.thy ===== *)
theory PJ_SdpNegAnswer
  imports PJ_SdpNegProofs
begin

text \<open>
  The answer that the negotiator makes to an offer in its default configuration, one codec in
  the order of the offer: that it is made, and that it fits the offer.
\<close>

section \<open>The local capability\<close>

definition is_rtp_attr :: "pjmedia_sdp_attr \<Rightarrow> bool" where
  "is_rtp_attr a \<longleftrightarrow> attr_name a = str ''rtpmap'' \<or> attr_name a = str ''fmtp''"

definition attr_pt :: "pjmedia_sdp_attr \<Rightarrow> bytes" where
  "attr_pt a = takeWhile pj_isdigit (attr_value a)"

definition telephone_event :: "neg_env \<Rightarrow> pjmedia_sdp_media \<Rightarrow> bytes \<Rightarrow> bool" where
  "telephone_event env m f \<longleftrightarrow>
     (case rtpmap_of env m f of None \<Rightarrow> False | Some r \<Rightarrow> pj_stricmp (rm_enc_name r) (str ''telephone-event'') = 0)"

text \<open>
  What the application has to provide: formats that differ, attributes whose payload type is not written shorter than the
  format they belong to, no static payload type for telephone events, and no rtpmap for formats that are no numbers.
\<close>

definition capability_ok :: "neg_env \<Rightarrow> pjmedia_sdp_media \<Rightarrow> bool" where
  "capability_ok env m \<longleftrightarrow>
     distinct (fmt m) \<and>
     (\<forall>f \<in> set (fmt m). \<forall>a \<in> set (m_attr m). is_rtp_attr a \<and> pt_num (attr_pt a) = pt_num f \<longrightarrow> length f \<le> length (attr_pt a)) \<and>
     (\<forall>f \<in> set (fmt m). pt_num f < 96 \<longrightarrow> \<not> telephone_event env m f) \<and>
     (\<forall>f \<in> set (fmt m). \<not> pj_isdigit (fmt_char f) \<longrightarrow> rtpmap_of env m f = None)"

text \<open>What the callbacks may do to an answer: change the parameters in its fmtp attributes.\<close>

definition only_fmtp_changed :: "pjmedia_sdp_attr list \<Rightarrow> pjmedia_sdp_attr list \<Rightarrow> bool" where
  "only_fmtp_changed attrs attrs' \<longleftrightarrow>
     filter (\<lambda>a. attr_name a \<noteq> str ''fmtp'') attrs' = filter (\<lambda>a. attr_name a \<noteq> str ''fmtp'') attrs \<and>
     (\<forall>a \<in> set attrs'. attr_name a = str ''fmtp'' \<longrightarrow> (\<exists>b \<in> set attrs. attr_name b = str ''fmtp'' \<and> attr_pt a = attr_pt b))"

definition callbacks_ok :: "neg_env \<Rightarrow> bool" where
  "callbacks_ok env \<longleftrightarrow> (\<forall>k om i am j. only_fmtp_changed (m_attr am) (snd (env_func env k om i am j True)))"

lemma only_fmtp_refl: "only_fmtp_changed attrs attrs"
  by (auto simp: only_fmtp_changed_def)

lemma custom_only_fmtp: "callbacks_ok env \<Longrightarrow> only_fmtp_changed (m_attr am) (snd (custom_fmt_match env n om i am j True))"
  by (auto simp: custom_fmt_match_def callbacks_ok_def only_fmtp_refl split: option.split)

lemma strtoul_loop_digits: "strtoul_loop v s = strtoul_loop v (takeWhile pj_isdigit s)"
  by (induction v s rule: strtoul_loop.induct) auto

lemma strtoul_attr_pt: "pj_strtoul2_base10 (attr_value a) mod 2 ^ 32 = pt_num (attr_pt a)"
  by (simp add: strtoul2_eq pt_num_def attr_pt_def pj_strtoul_def flip: strtoul_loop_digits)

lemma find_attr_eq:
  "pjmedia_sdp_media_find_attr m name (Some f) = find (\<lambda>a. attr_name a = name \<and> pt_num (attr_pt a) = pt_num f) (m_attr m)"
  unfolding pjmedia_sdp_media_find_attr_def pjmedia_sdp_attr_find_def Let_def option.case strtoul_attr_pt pt_num_def [symmetric] by simp

lemma find_filter_eq: "(\<And>x. P x \<Longrightarrow> Q x) \<Longrightarrow> find P (filter Q xs) = find P xs"
  by (induction xs) auto

lemma rtpmap_of_cong:
  assumes "filter (\<lambda>a. attr_name a \<noteq> str ''fmtp'') (m_attr m') = filter (\<lambda>a. attr_name a \<noteq> str ''fmtp'') (m_attr m)"
  shows "rtpmap_of env m' f = rtpmap_of env m f"
proof -
  have key: "find (\<lambda>a. attr_name a = str ''rtpmap'' \<and> pt_num (attr_pt a) = pt_num f) (m_attr x) =
      find (\<lambda>a. attr_name a = str ''rtpmap'' \<and> pt_num (attr_pt a) = pt_num f) (filter (\<lambda>a. attr_name a \<noteq> str ''fmtp'') (m_attr x))" for x
    by (rule find_filter_eq [symmetric]) auto
  show ?thesis unfolding rtpmap_of_def find_attr_eq by (simp only: key [of m'] key [of m] assms)
qed

lemma capability_callback:
  assumes "only_fmtp_changed (m_attr m) attrs"
  shows "rtpmap_of env (m\<lparr>m_attr := attrs\<rparr>) f = rtpmap_of env m f" "capability_ok env m \<Longrightarrow> capability_ok env (m\<lparr>m_attr := attrs\<rparr>)"
proof -
  show rm: "rtpmap_of env (m\<lparr>m_attr := attrs\<rparr>) f = rtpmap_of env m f" for f
    using assms by (intro rtpmap_of_cong) (simp add: only_fmtp_changed_def)
  have old: "\<exists>b \<in> set (m_attr m). is_rtp_attr b \<and> attr_pt b = attr_pt a" if a: "a \<in> set attrs" "is_rtp_attr a" for a
  proof (cases "attr_name a = str ''fmtp''")
    case False
    then have "a \<in> set (filter (\<lambda>a. attr_name a \<noteq> str ''fmtp'') attrs)" using a by simp
    also have "\<dots> \<subseteq> set (m_attr m)" using assms by (auto simp: only_fmtp_changed_def)
    finally show ?thesis using a by blast
  next
    case True
    then obtain b where "b \<in> set (m_attr m)" "attr_name b = str ''fmtp''" "attr_pt a = attr_pt b"
      using a assms unfolding only_fmtp_changed_def by blast
    then show ?thesis by (auto simp: is_rtp_attr_def)
  qed
  then show "capability_ok env m \<Longrightarrow> capability_ok env (m\<lparr>m_attr := attrs\<rparr>)"
    unfolding capability_ok_def telephone_event_def rm by simp metis
qed

section \<open>Choosing the formats\<close>

text \<open>A format of the answer is one of the offer, or a static payload type with the same number.\<close>

definition offered :: "pjmedia_sdp_media \<Rightarrow> bytes \<Rightarrow> bool" where
  "offered om f \<longleftrightarrow> f \<in> set (fmt om) \<or> pt_num f < 96 \<and> (\<exists>g \<in> set (fmt om). pt_num g = pt_num f)"

text \<open>Each format of the capability is of one of three kinds, of which at most one is chosen.\<close>

definition found_for :: "neg_env \<Rightarrow> pjmedia_sdp_media \<Rightarrow> match_state \<Rightarrow> bytes \<Rightarrow> bool" where
  "found_for env pre st pa \<longleftrightarrow>
     (if \<not> pj_isdigit (fmt_char pa) then found_matching_other st
      else if telephone_event env pre pa then found_matching_telephone_event st
      else found_matching_codec st)"

definition match_inv :: "neg_env \<Rightarrow> pjmedia_sdp_media \<Rightarrow> pjmedia_sdp_media \<Rightarrow> match_state \<Rightarrow> bool" where
  "match_inv env om pre st \<longleftrightarrow>
     only_fmtp_changed (m_attr pre) (m_attr (ms_preanswer st)) \<and> ms_preanswer st = pre\<lparr>m_attr := m_attr (ms_preanswer st)\<rparr> \<and>
     distinct (map snd (pt_pairs st)) \<and>
     (\<forall>(po, pa) \<in> set (pt_pairs st). offered om po \<and> pa \<in> set (fmt pre) \<and> found_for env pre st pa)"

lemma only_fmtp_trans: "only_fmtp_changed a b \<Longrightarrow> only_fmtp_changed b c \<Longrightarrow> only_fmtp_changed a c"
  unfolding only_fmtp_changed_def by (intro conjI) (simp, metis)

lemma match_inv_pre:
  assumes "match_inv env om pre st"
  shows "rtpmap_of env (ms_preanswer st) f = rtpmap_of env pre f" "fmt (ms_preanswer st) = fmt pre"
proof -
  have p: "ms_preanswer st = pre\<lparr>m_attr := m_attr (ms_preanswer st)\<rparr>" using assms by (simp add: match_inv_def)
  show "rtpmap_of env (ms_preanswer st) f = rtpmap_of env pre f"
    using capability_callback(1) [of pre "m_attr (ms_preanswer st)" env f] assms by (simp add: match_inv_def flip: p)
  show "fmt (ms_preanswer st) = fmt pre" by (subst p) simp
qed

lemma match_inv_add:
  assumes "match_inv env om pre st" "offered om po" "pa \<in> set (fmt pre)" "\<not> found_for env pre st pa"
    and "pt_pairs st' = pt_pairs st @ [(po, pa)]" "ms_preanswer st' = ms_preanswer st" "found_for env pre st' pa"
    and "\<And>x. found_for env pre st x \<Longrightarrow> found_for env pre st' x"
  shows "match_inv env om pre st'"
  using assms unfolding match_inv_def by (auto split: prod.splits)

lemma match_inv_flags:
  assumes "match_inv env om pre st" "pt_pairs st' = pt_pairs st" "ms_preanswer st' = ms_preanswer st"
    and "\<And>x. found_for env pre st x \<Longrightarrow> found_for env pre st' x"
  shows "match_inv env om pre st'"
  using assms unfolding match_inv_def by (auto split: prod.splits)

lemma match_inv_callback:
  assumes "match_inv env om pre st" "only_fmtp_changed (m_attr (ms_preanswer st)) attrs"
  shows "match_inv env om pre (st\<lparr>ms_preanswer := (ms_preanswer st)\<lparr>m_attr := attrs\<rparr>\<rparr>)"
proof -
  have p: "ms_preanswer st = pre\<lparr>m_attr := m_attr (ms_preanswer st)\<rparr>" using assms by (simp add: match_inv_def)
  have "(ms_preanswer st)\<lparr>m_attr := attrs\<rparr> = pre\<lparr>m_attr := attrs\<rparr>" by (subst p) simp
  then show ?thesis using assms by (auto simp: match_inv_def found_for_def intro: only_fmtp_trans split: prod.splits)
qed

lemma match_static_inv:
  assumes "match_inv env om pre st" "capability_ok env pre" "\<not> found_matching_codec st" "g \<in> set (fmt om)" "pt_num g < 96"
  shows "match_inv env om pre (match_static True om (pt_num g) st)"
proof (cases "find (\<lambda>f. pt_num f = pt_num g \<and> pj_isdigit (fmt_char f)) (fmt pre)")
  case None
  then show ?thesis using assms by (simp add: match_static_def ms_slave_def match_inv_pre)
next
  case (Some f)
  then have f: "f \<in> set (fmt pre)" "pt_num f = pt_num g" "pj_isdigit (fmt_char f)" by (auto simp: find_Some_iff)
  have "\<not> telephone_event env pre f" using assms(2,5) f by (auto simp: capability_ok_def)
  then show ?thesis
    using Some assms f by (auto simp: match_static_def ms_slave_def match_inv_pre offered_def found_for_def intro!: match_inv_add [OF assms(1), of f f])
qed

lemma match_other_inv:
  assumes "match_inv env om pre st" "\<not> found_matching_other st" "i < length (fmt om)" "\<not> pj_isdigit (fmt_char (fmt om ! i))"
  shows "match_inv env om pre (match_other True om i (fmt om ! i) st)"
proof (cases "find_from 0 (\<lambda>g. pj_strcmp (fmt om ! i) g = 0) (fmt pre)")
  case None
  then show ?thesis using assms by (simp add: match_other_def ms_slave_def match_inv_pre)
next
  case (Some j)
  note j = find_from_Some [OF Some]
  then have "fmt pre ! j \<in> set (fmt pre)" "fmt pre ! j = fmt om ! i" by auto
  then show ?thesis
    using Some assms j
    by (auto simp: match_other_def ms_slave_def match_inv_pre pt_pair_def offered_def found_for_def intro!: match_inv_add [OF assms(1)])
qed

lemma match_codec_inv:
  assumes "match_inv env om pre st" "capability_ok env pre" "callbacks_ok env" "set js \<subseteq> {..<length (fmt pre)}" "i < length (fmt om)"
    and "if is_codec then \<not> found_matching_codec st \<and> pj_stricmp (rm_enc_name orm) (str ''telephone-event'') \<noteq> 0
         else \<not> found_matching_telephone_event st \<and> pj_stricmp (rm_enc_name orm) (str ''telephone-event'') = 0"
  shows "match_inv env om pre (match_codec env True om i orm is_codec js st)"
  using assms
proof (induction js arbitrary: st)
  case (Cons j js)
  note inv = Cons.prems(1)
  define pa where "pa = fmt pre ! j"
  show ?case
  proof (cases "\<exists>lr. rtpmap_of env pre pa = Some lr \<and> rtpmaps_match orm lr")
    case False
    then show ?thesis using Cons by (auto simp: ms_slave_def match_inv_pre [OF inv] simp flip: pa_def split: option.split)
  next
    case True
    then obtain lr where lr: "rtpmap_of env pre pa = Some lr" "rtpmaps_match orm lr" by blast
    have pa: "pa \<in> set (fmt pre)" using Cons.prems(4) by (simp add: pa_def)
    then have dig: "pj_isdigit (fmt_char pa)" using Cons.prems(2) lr by (auto simp: capability_ok_def)
    have te: "telephone_event env pre pa \<longleftrightarrow> pj_stricmp (rm_enc_name orm) (str ''telephone-event'') = 0"
    proof -
      have "pj_stricmp (rm_enc_name orm) (rm_enc_name lr) = 0" using lr by (simp add: rtpmaps_match_def)
      then show ?thesis unfolding telephone_event_def lr option.case using stricmp_trans stricmp_sym by blast
    qed
    have off: "offered om (fmt om ! i)" using Cons.prems(5) by (simp add: offered_def)
    show ?thesis
    proof (cases is_codec)
      case False
      then show ?thesis using Cons.prems dig te lr
        by (auto simp: ms_slave_def match_inv_pre [OF inv] pt_pair_def found_for_def simp flip: pa_def
            intro!: match_inv_add [OF inv off pa])
    next
      case True
      obtain status attrs where c: "custom_fmt_match env (rm_enc_name orm) om i (ms_preanswer st) j True = (status, attrs)" by fastforce
      then have "only_fmtp_changed (m_attr (ms_preanswer st)) attrs"
        using custom_only_fmtp [OF Cons.prems(3), of "ms_preanswer st" "rm_enc_name orm" om i j] by simp
      note inv1 = match_inv_callback [OF inv this]
      define st1 where "st1 = st\<lparr>ms_preanswer := (ms_preanswer st)\<lparr>m_attr := attrs\<rparr>\<rparr>"
      have flags: "found_matching_codec st1 = found_matching_codec st" by (simp add: st1_def)
      have "match_inv env om pre (match_codec env True om i orm is_codec js st1)"
        using Cons.IH [OF inv1 [folded st1_def]] Cons.prems True flags by auto
      moreover have "match_inv env om pre (st1\<lparr>found_matching_codec := True, pt_pairs := pt_pairs st1 @ [(fmt om ! i, pa)]\<rparr>)"
        using Cons.prems dig te True flags
        by (intro match_inv_add [OF inv1 [folded st1_def] off pa]) (auto simp: found_for_def)
      ultimately show ?thesis using lr True
        by (simp add: ms_slave_def match_inv_pre [OF inv] match_inv_pre [OF inv1 [folded st1_def]] pt_pair_def c st1_def [symmetric] flip: pa_def)
    qed
  qed
qed simp

lemma match_fmt_inv:
  assumes "match_inv env om pre st" "capability_ok env pre" "callbacks_ok env" "i < length (fmt om)"
    and "match_fmt env True False om i st = (status, st')"
  shows "match_inv env om pre st'"
proof -
  define f where "f = fmt om ! i"
  have f: "f \<in> set (fmt om)" using assms(4) by (simp add: f_def)
  note flag = match_inv_flags [OF assms(1)]
  have codec: "match_inv env om pre (st\<lparr>master_has_codec := True\<rparr>)" by (rule flag) (simp_all add: found_for_def)
  have other: "match_inv env om pre (st\<lparr>master_has_other := True\<rparr>)" by (rule flag) (simp_all add: found_for_def)
  note eq = assms(5) [unfolded match_fmt_def ms_master_def Let_def if_True f_def [symmetric]]
  have js: "set [0..<length (fmt (ms_slave True om st))] \<subseteq> {..<length (fmt pre)}"
    by (auto simp: ms_slave_def match_inv_pre [OF assms(1)])
  consider (static) "pj_isdigit (fmt_char f)" "pt_num f < 96" | (dynamic) "pj_isdigit (fmt_char f)" "\<not> pt_num f < 96"
    | (other) "\<not> pj_isdigit (fmt_char f)" by blast
  then show ?thesis
  proof cases
    case static
    then show ?thesis using eq codec match_static_inv [OF codec assms(2) _ f] by (auto split: if_splits)
  next
    case other
    then show ?thesis using eq \<open>match_inv env om pre (st\<lparr>master_has_other := True\<rparr>)\<close>
        match_other_inv [OF \<open>match_inv env om pre (st\<lparr>master_has_other := True\<rparr>)\<close> _ assms(4)]
      by (auto simp flip: f_def split: if_splits)
  next
    case dynamic
    show ?thesis
    proof (cases "rtpmap_of env om f")
      case None
      then show ?thesis using eq dynamic assms(1) by simp
    next
      case (Some orm)
      then show ?thesis
        using eq dynamic assms(1) codec match_codec_inv [OF assms(1-3) js assms(4), of False orm]
          match_codec_inv [OF codec assms(2,3) js assms(4), of True orm]
        by (auto split: if_splits)
    qed
  qed
qed

lemma match_fmts_inv:
  assumes "match_inv env om pre st" "capability_ok env pre" "callbacks_ok env" "set is \<subseteq> {..<length (fmt om)}"
    and "match_fmts env True False om is st = (status, st')"
  shows "match_inv env om pre st'"
  using assms
proof (induction "is" arbitrary: st)
  case (Cons i "is")
  obtain s1 st1 where 1: "match_fmt env True False om i st = (s1, st1)" by fastforce
  with match_fmt_inv [OF Cons.prems(1-3) _ 1] Cons show ?case by (auto split: if_splits)
qed simp

section \<open>Building the answer\<close>

lemma str_swap_set: "i < length fs \<Longrightarrow> j < length fs \<Longrightarrow> mset (str_swap fs i j) = mset fs"
  by (simp add: str_swap_def mset_swap)

lemma order_fmts_correct:
  assumes "distinct fs" "distinct pts" "set pts \<subseteq> set (drop i fs)"
  shows "\<exists>fs'. order_fmts pts i fs = Some fs' \<and> mset fs' = mset fs \<and> take i fs' = take i fs \<and>
           take (length pts) (drop i fs') = pts"
  using assms
proof (induction pts arbitrary: i fs)
  case (Cons pt pts)
  obtain j where j: "find_from i (\<lambda>f. pj_strcmp f pt = 0) fs = Some j"
  proof (cases "find_from i (\<lambda>f. pj_strcmp f pt = 0) fs")
    case None
    from Cons.prems(3) obtain k where "k < length (drop i fs)" "drop i fs ! k = pt" by (auto simp: in_set_conv_nth)
    then have "\<not> (\<forall>j. i \<le> j \<and> j < length fs \<longrightarrow> fs ! j \<noteq> pt)" by (auto intro!: exI [of _ "i + k"])
    with None show ?thesis by (simp add: find_from_None)
  qed
  note ij = find_from_Some [OF j]
  define fs1 where "fs1 = str_swap fs i j"
  have i: "i < length fs" using ij by simp
  have m: "mset fs1 = mset fs" using i ij by (simp add: fs1_def str_swap_set)
  then have d: "distinct fs1" and len: "length fs1 = length fs" using Cons.prems(1) mset_eq_imp_distinct_iff mset_eq_length by blast+
  have fi: "fs1 ! i = pt" "take i fs1 = take i fs" using i ij by (cases "i = j"; auto simp: fs1_def str_swap_def)+
  have "set fs1 = set fs" using m mset_eq_setD by blast
  then have "set pts \<subseteq> set (drop (Suc i) fs1)"
  proof (intro subsetI)
    fix x assume x: "x \<in> set pts"
    then have "x \<in> set (drop i fs)" "x \<noteq> pt" using Cons.prems by auto
    then have "x \<notin> set (take i fs)" using Cons.prems(1) by (metis append_take_drop_id disjoint_iff distinct_append)
    moreover have "x \<in> set fs1" using \<open>x \<in> set (drop i fs)\<close> \<open>set fs1 = set fs\<close> by (metis in_set_dropD)
    moreover have "fs1 = take i fs1 @ fs1 ! i # drop (Suc i) fs1" using i len by (metis id_take_nth_drop)
    ultimately show "x \<in> set (drop (Suc i) fs1)" using fi \<open>x \<noteq> pt\<close> by (metis UnE set_ConsD set_append)
  qed
  then obtain fs' where fs': "order_fmts pts (Suc i) fs1 = Some fs'" "mset fs' = mset fs1" "take (Suc i) fs' = take (Suc i) fs1"
    "take (length pts) (drop (Suc i) fs') = pts" using Cons.IH [OF d] Cons.prems(2) by auto
  have len': "i < length fs'" using fs'(2) i len by (metis mset_eq_length)
  have "take i fs' = take i fs" using arg_cong [OF fs'(3), of "take i"] fi by (simp add: min_def)
  moreover have "fs' ! i = pt" using arg_cong [OF fs'(3), of "\<lambda>xs. xs ! i"] fi by simp
  then have "take (length (pt # pts)) (drop i fs') = pt # pts" using len' fs'(4) by (simp flip: Cons_nth_drop_Suc)
  ultimately show ?case using j fs' m by (simp add: fs1_def)
qed simp

text \<open>What the operations on attributes leave alone.\<close>

definition same_line :: "pjmedia_sdp_media \<Rightarrow> pjmedia_sdp_media \<Rightarrow> bool" where
  "same_line m m' \<longleftrightarrow> media m' = media m \<and> transport m' = transport m \<and> port m' = port m"

lemma same_line_trans: "same_line a b \<Longrightarrow> same_line b c \<Longrightarrow> same_line a c"
  by (simp add: same_line_def)

lemma remove_fmt_attr_frame:
  "fmt (remove_fmt_attr n f m) = fmt m" "same_line m (remove_fmt_attr n f m)" "set (m_attr (remove_fmt_attr n f m)) \<subseteq> set (m_attr m)"
  by (auto simp: remove_fmt_attr_def pjmedia_sdp_media_remove_attr_def pjmedia_sdp_attr_remove_def same_line_def
      split: option.split dest: notin_set_remove1 set_mp [OF set_remove1_subset])

lemma remove_fmt_attrs_frame:
  "fmt (remove_fmt_attrs f m) = fmt m" "same_line m (remove_fmt_attrs f m)" "set (m_attr (remove_fmt_attrs f m)) \<subseteq> set (m_attr m)"
proof -
  note a = remove_fmt_attr_frame [where n = "str ''rtpmap''" and f = f and m = m]
  note b = remove_fmt_attr_frame [where n = "str ''fmtp''" and f = f and m = "remove_fmt_attr (str ''rtpmap'') f m"]
  show "fmt (remove_fmt_attrs f m) = fmt m" unfolding remove_fmt_attrs_def b(1) a(1) ..
  show "same_line m (remove_fmt_attrs f m)" unfolding remove_fmt_attrs_def using a(2) b(2) by (rule same_line_trans)
  show "set (m_attr (remove_fmt_attrs f m)) \<subseteq> set (m_attr m)" unfolding remove_fmt_attrs_def using b(3) a(3) by (rule subset_trans)
qed

lemma remove_all_fmts_frame:
  "same_line m (fold remove_fmt_attrs fs m) \<and> set (m_attr (fold remove_fmt_attrs fs m)) \<subseteq> set (m_attr m)"
proof (induction fs arbitrary: m)
  case (Cons f fs)
  note f = remove_fmt_attrs_frame [where f = f and m = m]
  show ?case using Cons [of "remove_fmt_attrs f m"] same_line_trans [OF f(2)] f(3) by auto
qed (simp add: same_line_def)

lemma add_attrs_frame: "fmt (foldl pjmedia_sdp_media_add_attr m as) = fmt m" "same_line m (foldl pjmedia_sdp_media_add_attr m as)"
  by (induction as arbitrary: m) (simp_all add: same_line_def)

lemma rewrite_pt_ok: "length old \<le> length v \<Longrightarrow> \<exists>v'. rewrite_pt v old new = Some v'"
  by (auto simp: rewrite_pt_def Let_def)

text \<open>The payload types in the attributes of a media are not shorter than a format.\<close>

definition pts_long :: "pjmedia_sdp_media \<Rightarrow> bytes \<Rightarrow> bool" where
  "pts_long m f \<longleftrightarrow> (\<forall>a \<in> set (m_attr m). is_rtp_attr a \<and> pt_num (attr_pt a) = pt_num f \<longrightarrow> length f \<le> length (attr_pt a))"

lemma pts_long_subset: "pts_long m f \<Longrightarrow> set (m_attr m') \<subseteq> set (m_attr m) \<Longrightarrow> pts_long m' f"
  by (auto simp: pts_long_def)

lemma move_pt_ok:
  assumes "pts_long m old" "name = str ''rtpmap'' \<or> name = str ''fmtp''"
  shows "\<exists>m' as. move_pt name old new m = Some (m', as) \<and> fmt m' = fmt m \<and> same_line m m' \<and> set (m_attr m') \<subseteq> set (m_attr m)"
proof (cases "pjmedia_sdp_media_find_attr m name (Some old)")
  case None
  then show ?thesis by (simp add: move_pt_def same_line_def)
next
  case (Some a)
  then have a: "a \<in> set (m_attr m)" "attr_name a = name" "pt_num (attr_pt a) = pt_num old"
    unfolding find_attr_eq by (auto simp: find_Some_iff)
  then have "length old \<le> length (attr_pt a)" using assms unfolding pts_long_def is_rtp_attr_def by blast
  then have "length old \<le> length (attr_value a)" unfolding attr_pt_def by (rule order_trans) (rule length_takeWhile_le)
  then obtain v where "rewrite_pt (attr_value a) old new = Some v" using rewrite_pt_ok by blast
  then show ?thesis using Some set_remove1_subset [of a "m_attr m"]
    by (simp add: move_pt_def pjmedia_sdp_media_remove_attr_def pjmedia_sdp_attr_remove_def same_line_def)
qed

lemma symmetric_pts_ok:
  assumes "\<forall>(po, pa) \<in> set pts. pts_long m pa" "drop i (fmt m) = map snd pts" "i \<le> length (fmt m)"
  shows "\<exists>m'. apply_symmetric_pts pts i m a_tmp = Some m' \<and> fmt m' = take i (fmt m) @ map fst pts \<and> same_line m m'"
  using assms
proof (induction pts arbitrary: i m a_tmp)
  case Nil
  then show ?case using add_attrs_frame by simp
next
  case (Cons p pts)
  obtain po pa where p: "p = (po, pa)" by fastforce
  have i: "i < length (fmt m)" using Cons.prems(2) by (metis drop_all list.simps(9) list.discI not_less)
  have hd: "fmt m ! i = pa" "drop (Suc i) (fmt m) = map snd pts"
    using Cons.prems(2) i p by (simp_all add: Cons_nth_drop_Suc [symmetric])
  show ?case
  proof (cases "pa = po")
    case True
    obtain m' where "apply_symmetric_pts pts (Suc i) m a_tmp = Some m'" "fmt m' = take (Suc i) (fmt m) @ map fst pts" "same_line m m'"
      using Cons.IH [of m "Suc i" a_tmp] Cons.prems(1) i hd by auto
    then show ?thesis using True p hd i by (simp add: take_Suc_conv_app_nth)
  next
    case False
    define m0 where "m0 = m\<lparr>fmt := (fmt m)[i := po]\<rparr>"
    have long: "pts_long m0 pa" "\<forall>(po, pa) \<in> set pts. pts_long m0 pa" using Cons.prems(1) p by (auto simp: m0_def pts_long_def)
    obtain m1 as1 where 1: "move_pt (str ''rtpmap'') pa po m0 = Some (m1, as1)" "fmt m1 = fmt m0" "same_line m0 m1"
      "set (m_attr m1) \<subseteq> set (m_attr m0)" using move_pt_ok [OF long(1)] by blast
    have long1: "pts_long m1 pa" using pts_long_subset [OF long(1) 1(4)] .
    obtain m2 as2 where 2: "move_pt (str ''fmtp'') pa po m1 = Some (m2, as2)" "fmt m2 = fmt m1" "same_line m1 m2"
      "set (m_attr m2) \<subseteq> set (m_attr m1)" using move_pt_ok [OF long1] by blast
    have "\<forall>(po, pa) \<in> set pts. pts_long m2 pa" using long(2) pts_long_subset 1(4) 2(4) by blast
    moreover have "drop (Suc i) (fmt m2) = map snd pts" "Suc i \<le> length (fmt m2)" using hd i 1(2) 2(2) by (simp_all add: m0_def)
    ultimately obtain m' where m': "apply_symmetric_pts pts (Suc i) m2 (a_tmp @ as1 @ as2) = Some m'"
      "fmt m' = take (Suc i) (fmt m2) @ map fst pts" "same_line m2 m'" using Cons.IH by blast
    have "take (Suc i) (fmt m2) = take i (fmt m) @ [po]" using i 1(2) 2(2) by (simp add: m0_def take_Suc_conv_app_nth)
    moreover have "same_line m m'" using 1(3) 2(3) m'(3) by (simp add: m0_def same_line_def)
    ultimately show ?thesis using False p 1(1) 2(1) m'(1,2) by (simp flip: m0_def)
  qed
qed

lemma match_inv_capability:
  assumes "match_inv env om pre st" "capability_ok env pre"
  shows "capability_ok env (ms_preanswer st)" "same_line pre (ms_preanswer st)"
proof -
  have p: "ms_preanswer st = pre\<lparr>m_attr := m_attr (ms_preanswer st)\<rparr>" and "only_fmtp_changed (m_attr pre) (m_attr (ms_preanswer st))"
    using assms(1) by (simp_all add: match_inv_def)
  from capability_callback(2) [OF this(2) assms(2)] show "capability_ok env (ms_preanswer st)" by (simp flip: p)
  show "same_line pre (ms_preanswer st)" by (subst p) (simp add: same_line_def)
qed

lemma build_answer_ok:
  assumes "match_inv env om pre st" "capability_ok env pre"
  shows "\<exists>am. build_answer (ms_preanswer st) (pt_pairs st) = Inr am \<and> fmt am = map fst (pt_pairs st) \<and> same_line pre am"
proof -
  let ?pre = "ms_preanswer st" and ?n = "length (pt_pairs st)"
  note cap = match_inv_capability(1) [OF assms] and line = match_inv_capability(2) [OF assms]
  have pas: "distinct (map snd (pt_pairs st))" "set (map snd (pt_pairs st)) \<subseteq> set (fmt ?pre)"
    using assms(1) by (auto simp: match_inv_def match_inv_pre(2) [OF assms(1)])
  then obtain fs where fs: "order_fmts (map snd (pt_pairs st)) 0 (fmt ?pre) = Some fs" "mset fs = mset (fmt ?pre)"
    "take ?n fs = map snd (pt_pairs st)" using order_fmts_correct [of "fmt ?pre" "map snd (pt_pairs st)" 0] cap by (auto simp: capability_ok_def)
  define m where "m = (fold remove_fmt_attrs (drop ?n fs) (?pre\<lparr>fmt := fs\<rparr>))\<lparr>fmt := take ?n fs\<rparr>"
  have m: "same_line ?pre m" "set (m_attr m) \<subseteq> set (m_attr ?pre)"
    using remove_all_fmts_frame [of "?pre\<lparr>fmt := fs\<rparr>" "drop ?n fs"] by (simp_all add: m_def same_line_def)
  have "\<forall>(po, pa) \<in> set (pt_pairs st). pts_long m pa"
  proof clarify
    fix po pa assume "(po, pa) \<in> set (pt_pairs st)"
    then have "pa \<in> set (fmt ?pre)" using pas(2) by force
    then show "pts_long m pa" using cap m(2) by (auto simp: capability_ok_def pts_long_def)
  qed
  then obtain am where "apply_symmetric_pts (pt_pairs st) 0 m [] = Some am" "fmt am = map fst (pt_pairs st)" "same_line m am"
    using symmetric_pts_ok [of "pt_pairs st" m 0 "[]"] fs(3) by (auto simp: m_def)
  moreover from this have "same_line pre am" using line m(1) by (simp add: same_line_def)
  ultimately show ?thesis using fs(1) by (simp add: build_answer_def apply_answer_symmetric_pt_def Let_def flip: m_def)
qed

section \<open>Answering the media of an offer\<close>

text \<open>An answer to one media line: of the same kind, and if it is accepted, with formats that were offered.\<close>

definition answer_fits :: "pjmedia_sdp_media \<Rightarrow> pjmedia_sdp_media \<Rightarrow> bool" where
  "answer_fits om am \<longleftrightarrow> media am = media om \<and> transport am = transport om \<and>
     (port am \<noteq> 0 \<longrightarrow> port om \<noteq> 0 \<and> (\<forall>f \<in> set (fmt am). offered om f))"

lemma match_offer_ok:
  assumes "capability_ok env im" "callbacks_ok env" "media im = media om" "transport im = transport om"
  shows "\<exists>status im' am. match_offer env True False om im sdp = Inr (status, im', am) \<and> capability_ok env im' \<and> same_line im im' \<and>
           (status = PJ_SUCCESS \<longrightarrow> (\<exists>a. am = Some a \<and> answer_fits om a))"
proof -
  consider (off) "port om = 0" | (reject) "port om \<noteq> 0" "port im = 0" | (match) "port om \<noteq> 0" "port im \<noteq> 0" by blast
  then show ?thesis
  proof cases
    case match
    define st0 where "st0 = \<lparr>master_has_codec = False, master_has_other = False, found_matching_codec = False,
      found_matching_telephone_event = False, found_matching_other = False, pt_pairs = [], ms_preanswer = im\<rparr>"
    obtain status st where r: "match_fmts env True False om [0..<length (fmt om)] st0 = (status, st)" by fastforce
    have "match_inv env om im st0" by (simp add: match_inv_def st0_def only_fmtp_refl)
    then have inv: "match_inv env om im st" by (rule match_fmts_inv [OF _ assms(1,2) _ r]) auto
    obtain am where am: "build_answer (ms_preanswer st) (pt_pairs st) = Inr am" "fmt am = map fst (pt_pairs st)" "same_line im am"
      using build_answer_ok [OF inv assms(1)] by blast
    have "answer_fits om (update_media_direction om am)"
      using am match assms(3,4) inv by (auto simp: answer_fits_def same_line_def match_inv_def)
    moreover have "capability_ok env (ms_preanswer st)" "same_line im (ms_preanswer st)"
      using match_inv_capability [OF inv assms(1)] by simp_all
    ultimately show ?thesis
      using match r am(1) by (auto simp: match_offer_def ms_master_def Let_def simp flip: st0_def)
  qed (use assms in \<open>auto simp: match_offer_def answer_fits_def same_line_def\<close>)
qed

lemma find_media_ok:
  assumes "list_all (capability_ok env) ims" "callbacks_ok env" "set js \<subseteq> {..<length ims}"
  shows "\<exists>status ims' used' am. find_media env True False initial om js ims used st = Inr (status, ims', used', am) \<and>
           list_all (capability_ok env) ims' \<and> (\<forall>a. am = Some a \<longrightarrow> answer_fits om a)"
  using assms
proof (induction js arbitrary: ims used st)
  case (Cons j js)
  show ?case
  proof (cases "media om = media (ims ! j) \<and> transport om = transport (ims ! j) \<and> \<not> used ! j")
    case False
    then show ?thesis using Cons by auto
  next
    case True
    have "capability_ok env (ims ! j)" using Cons.prems by (simp add: list_all_length)
    then obtain status im am where m: "match_offer env True False om (ims ! j) initial = Inr (status, im, am)" "capability_ok env im"
      "status = PJ_SUCCESS \<longrightarrow> (\<exists>a. am = Some a \<and> answer_fits om a)"
      using match_offer_ok [of env "ims ! j" om] Cons.prems(2) True by metis
    have "list_all (capability_ok env) (ims[j := im])" using Cons.prems(1) m(2) by (rule list_all_update)
    then show ?thesis using True m Cons.IH [of "ims[j := im]" used status] Cons.prems by auto
  qed
qed simp

lemma answer_medias_ok:
  assumes "list_all (capability_ok env) ims" "callbacks_ok env"
  shows "\<exists>status ams'. answer_medias env True False initial oms ims used st ams = Inr (status, ams @ ams') \<and> list_all2 answer_fits oms ams'"
  using assms
proof (induction oms arbitrary: ims used st ams)
  case (Cons om oms)
  obtain st1 ims1 used1 found where f: "find_media env True False initial om [0..<length ims] ims used st = Inr (st1, ims1, used1, found)"
    "list_all (capability_ok env) ims1" "\<forall>a. found = Some a \<longrightarrow> answer_fits om a"
    using find_media_ok [OF Cons.prems, of "[0..<length ims]" initial om used st] by (auto simp: atLeast0LessThan)
  define am where "am = (case found of Some am \<Rightarrow> am | None \<Rightarrow> sdp_media_clone_deactivate om om initial)"
  have "answer_fits om (sdp_media_clone_deactivate om om initial)" by (simp add: answer_fits_def)
  then have "answer_fits om am" using f(3) by (cases found) (simp_all add: am_def)
  moreover obtain status ams' where "answer_medias env True False initial oms ims1 used1 st1 (ams @ [am]) = Inr (status, (ams @ [am]) @ ams')"
    "list_all2 answer_fits oms ams'" using Cons.IH [OF f(2) Cons.prems(2), of used1 st1 "ams @ [am]"] by blast
  ultimately show ?case using f(1) by (auto simp flip: am_def intro!: exI [of _ "am # ams'"])
qed simp

text \<open>
  C12: In its default configuration the negotiator answers every valid offer, without running
  into an assertion and without overrunning a buffer, if the media of the local capability have
  different formats with attributes that fit them and the callbacks of the codecs change
  nothing but format parameters. The answer has one line for each line of the offer, in order,
  of the same type and transport; a line is accepted only if it was active in the offer, and
  then with formats that were offered.
\<close>

theorem neg_default_answer:
  assumes "callbacks_ok env" "\<forall>im \<in> set (s_media initial). capability_ok env im" "pjmedia_sdp_validate offer = PJ_SUCCESS"
  shows "\<exists>status answer. create_answer env True False (Some initial) offer = Inr (status, Some answer) \<and>
           answer = initial\<lparr>s_media := s_media answer\<rparr> \<and> list_all2 answer_fits (s_media offer) (s_media answer) \<and>
           (status \<noteq> PJ_SUCCESS \<longrightarrow> (\<forall>am \<in> set (s_media answer). port am = 0))"
proof -
  obtain status ams where "answer_medias env True False initial (s_media offer) (s_media initial) (replicate PJMEDIA_MAX_SDP_MEDIA False)
      PJ_SUCCESS [] = Inr (status, ams)" "list_all2 answer_fits (s_media offer) ams"
    using answer_medias_ok [of env "s_media initial" initial "s_media offer" "replicate PJMEDIA_MAX_SDP_MEDIA False" PJ_SUCCESS "[]"] assms(1,2)
    by (auto simp: list_all_iff)
  then show ?thesis using assms(3) by (auto simp: create_answer_def list_ex_iff)
qed

text \<open>
  An offer none of whose media can be answered, since the local capability has no media of
  that type, is answered with success nevertheless, with every line refused: the error that
  the code starts with is overwritten by the result of the validation.
\<close>

theorem neg_no_media_is_success:
  assumes "pjmedia_sdp_validate offer = PJ_SUCCESS"
    and "\<forall>om \<in> set (s_media offer). \<forall>im \<in> set (s_media initial). media im \<noteq> media om"
  shows "\<exists>answer. create_answer env prefer_remote multiple (Some initial) offer = Inr (PJ_SUCCESS, Some answer) \<and>
           length (s_media answer) = length (s_media offer) \<and> (\<forall>am \<in> set (s_media answer). port am = 0)"
proof -
  have none: "find_media env prefer_remote multiple initial om js (s_media initial) used st = Inr (st, s_media initial, used, None)"
    if "om \<in> set (s_media offer)" "set js \<subseteq> {..<length (s_media initial)}" for om js used st
  proof -
    have "media om \<noteq> media (s_media initial ! j)" if "j < length (s_media initial)" for j
      using that \<open>om \<in> set (s_media offer)\<close> assms(2) by (metis nth_mem)
    then show ?thesis using that(2) by (induction js) auto
  qed
  have "\<exists>ams'. answer_medias env prefer_remote multiple initial oms (s_media initial) used st ams = Inr (st, ams @ ams') \<and>
          length ams' = length oms \<and> (\<forall>am \<in> set ams'. port am = 0)" if "set oms \<subseteq> set (s_media offer)" for oms used st ams
    using that
  proof (induction oms arbitrary: ams)
    case (Cons om oms)
    obtain ams' where "answer_medias env prefer_remote multiple initial oms (s_media initial) used st (ams @ [sdp_media_clone_deactivate om om initial]) =
        Inr (st, (ams @ [sdp_media_clone_deactivate om om initial]) @ ams')" "length ams' = length oms" "\<forall>am \<in> set ams'. port am = 0"
      using Cons.IH [of "ams @ [sdp_media_clone_deactivate om om initial]"] Cons.prems by auto
    then show ?case using none [of om "[0..<length (s_media initial)]" used st] Cons.prems
      by (auto simp: atLeast0LessThan intro!: exI [of _ "sdp_media_clone_deactivate om om initial # ams'"])
  qed simp
  then obtain ams where "answer_medias env prefer_remote multiple initial (s_media offer) (s_media initial)
      (replicate PJMEDIA_MAX_SDP_MEDIA False) PJ_SUCCESS [] = Inr (PJ_SUCCESS, ams)" "length ams = length (s_media offer)"
    "\<forall>am \<in> set ams. port am = 0" by fastforce
  then show ?thesis using assms(1) by (auto simp: create_answer_def list_ex_iff)
qed

end
