(* ===== verification/PJ_SdpNegRemote.thy ===== *)
theory PJ_SdpNegRemote
  imports PJ_SdpNegAnswer
begin

text \<open>
  The processing of a remote answer: the formats of the local offer and of the answer are cut
  down to those that match and brought into the same order.
\<close>

section \<open>The exchange sort\<close>

lemma length_str_swap [simp]: "length (str_swap xs i j) = length xs"
  by (simp add: str_swap_def)

lemma sort_round_upto:
  fixes ps :: "(nat \<times> 'a) list"
  assumes "i < length ps" "j \<le> length ps" "i < j"
  defines "qs \<equiv> fold (\<lambda>j ps. if fst (ps ! i) > fst (ps ! j) then str_swap ps i j else ps) [i + 1..<j] ps"
  shows "mset qs = mset ps \<and> take i qs = take i ps \<and> (\<forall>k. i \<le> k \<and> k < j \<longrightarrow> fst (qs ! i) \<le> fst (qs ! k))"
  using assms(2,3) unfolding qs_def
proof (induction j)
  case (Suc j)
  show ?case
  proof (cases "i < j")
    case False
    then have "j = i" using Suc.prems by simp
    then show ?thesis by (auto simp: le_less_Suc_eq)
  next
    case True
    define rs where "rs = fold (\<lambda>j ps. if fst (ps ! i) > fst (ps ! j) then str_swap ps i j else ps) [i + 1..<j] ps"
    have rs: "mset rs = mset ps" "take i rs = take i ps" "\<forall>k. i \<le> k \<and> k < j \<longrightarrow> fst (rs ! i) \<le> fst (rs ! k)"
      using Suc.IH Suc.prems True by (auto simp: rs_def)
    have len: "length rs = length ps" using rs(1) mset_eq_length by blast
    have "fst (str_swap rs i j ! i) \<le> fst (str_swap rs i j ! k)" if "fst (rs ! j) < fst (rs ! i)" "i \<le> k" "k < Suc j" for k
    proof -
      have "fst (rs ! i) \<le> fst (rs ! k)" if "k < j" using rs(3) \<open>i \<le> k\<close> that by blast
      then show ?thesis using that True len Suc.prems assms(1) by (cases "k = i"; cases "k = j") (auto simp: str_swap_def nth_list_update)
    qed
    moreover have "fst (rs ! i) \<le> fst (rs ! k)" if "\<not> fst (rs ! j) < fst (rs ! i)" "i \<le> k" "k < Suc j" for k
      using rs(3) that by (cases "k = j") auto
    moreover have "mset (str_swap rs i j) = mset ps" "take i (str_swap rs i j) = take i ps"
      using rs(1,2) True len Suc.prems str_swap_set [of i rs j] by (auto simp: str_swap_def)
    moreover have "[i + 1..<Suc j] = [i + 1..<j] @ [j]" using True by simp
    ultimately show ?thesis using rs(1,2) unfolding \<open>[i + 1..<Suc j] = [i + 1..<j] @ [j]\<close> fold_append o_apply rs_def [symmetric] by simp
  qed
qed simp

lemma sort_round_correct:
  assumes "i < length ps"
  shows "mset (sort_round i ps) = mset ps" "take i (sort_round i ps) = take i ps"
    "\<And>k. i \<le> k \<Longrightarrow> k < length ps \<Longrightarrow> fst (sort_round i ps ! i) \<le> fst (sort_round i ps ! k)"
  using sort_round_upto [OF assms order_refl assms] by (auto simp: sort_round_def)

lemma resort_upto:
  assumes "i \<le> length ps"
  shows "mset (fold sort_round [0..<i] ps) = mset ps \<and>
    (\<forall>a b. a < i \<and> a \<le> b \<and> b < length ps \<longrightarrow> fst (fold sort_round [0..<i] ps ! a) \<le> fst (fold sort_round [0..<i] ps ! b))"
  using assms
proof (induction i)
  case (Suc i)
  define qs where "qs = fold sort_round [0..<i] ps"
  have qs: "mset qs = mset ps" "\<And>a b. a < i \<Longrightarrow> a \<le> b \<Longrightarrow> b < length ps \<Longrightarrow> fst (qs ! a) \<le> fst (qs ! b)"
    using Suc by (auto simp: qs_def)
  have len: "length qs = length ps" using qs(1) mset_eq_length by blast
  note r = sort_round_correct [of i qs]
  have i: "i < length qs" using Suc.prems len by simp
  have len': "length (sort_round i qs) = length ps" using r(1) [OF i] len mset_eq_length by metis
  have pre: "sort_round i qs ! a = qs ! a" if "a < i" for a
    using r(2) [OF i] that by (metis nth_take)
  have "fst (sort_round i qs ! a) \<le> fst (sort_round i qs ! b)" if "a < Suc i" "a \<le> b" "b < length ps" for a b
  proof (cases "a < i")
    case True
    then have "sort_round i qs ! a = qs ! a" by (rule pre)
    moreover have "sort_round i qs ! b \<in> set (drop a (sort_round i qs))" using that len' by (auto simp: in_set_conv_nth intro!: exI [of _ "b - a"])
    moreover have "set (drop a (sort_round i qs)) = set (drop a qs)"
    proof -
      have t: "take a (sort_round i qs) = take a qs" using arg_cong [OF r(2) [OF i], of "take a"] True by (simp add: min_def)
      have "mset (take a xs) + mset (drop a xs) = mset xs" for xs :: "(nat \<times> 'a) list" by (metis append_take_drop_id mset_append)
      from this [of "sort_round i qs"] this [of qs] have "mset (drop a (sort_round i qs)) = mset (drop a qs)"
        using r(1) [OF i] t by (metis add_left_cancel)
      then show ?thesis by (rule mset_eq_setD)
    qed
    ultimately obtain c where "c < length (drop a qs)" "sort_round i qs ! b = drop a qs ! c" by (metis in_set_conv_nth)
    then show ?thesis using qs(2) [OF True, of "a + c"] len pre [OF True] by simp
  next
    case False
    then show ?thesis using r(3) [OF i, of b] that len by (cases "a = i") auto
  qed
  then show ?case using qs(1) r(1) [OF i] by (simp add: qs_def)
qed simp

lemma resort_correct:
  "mset (resort_formats ps) = mset ps" "sorted (map fst (resort_formats ps))"
proof -
  have r: "mset (resort_formats ps) = mset ps"
    "\<And>a b. a < length ps \<Longrightarrow> a \<le> b \<Longrightarrow> b < length ps \<Longrightarrow> fst (resort_formats ps ! a) \<le> fst (resort_formats ps ! b)"
    using resort_upto [of "length ps" ps] by (auto simp: resort_formats_def)
  then show "mset (resort_formats ps) = mset ps" by simp
  have "length (resort_formats ps) = length ps" using r(1) mset_eq_length by blast
  then show "sorted (map fst (resort_formats ps))" using r(2) by (auto simp: sorted_iff_nth_mono)
qed

section \<open>Removing what does not match\<close>

lemma remove_unmatched_fmt:
  assumes "sorted_wrt (<) prior" "\<forall>j \<in> set prior. j < length F" "i \<le> length prior"
    and "fmt m = map (nth F) (take i prior) @ drop (i + del) F" "i < length prior \<longrightarrow> i + del \<le> prior ! i"
  shows "fmt (remove_unmatched prior m i del) = map (nth F) prior"
  using assms
proof (induction prior m i del rule: remove_unmatched.induct)
  case (1 prior m i del)
  have len: "length (fmt m) = i + (length F - (i + del))" using "1.prems"(3,4) by simp
  show ?case
  proof (cases "i < length (fmt m)")
    case False
    have "i = length prior"
    proof (rule ccontr)
      assume "i \<noteq> length prior"
      then have "i < length prior" using "1.prems"(3) by simp
      then have "i + del \<le> prior ! i" "prior ! i < length F" using "1.prems"(2,5) by auto
      then show False using False len by simp
    qed
    moreover have "drop (i + del) F = []" using False len by simp
    ultimately show ?thesis using False "1.prems"(4) by (subst remove_unmatched.simps) simp
  next
    case True
    then have id: "i + del < length F" using len by simp
    show ?thesis
    proof (cases "i \<ge> length prior \<or> int (prior ! i) - int del \<noteq> int i")
      case del: True
      let ?m = "(remove_fmt_attrs (fmt m ! i) m)\<lparr>fmt := pj_array_erase (fmt m) i\<rparr>"
      have "fmt ?m = map (nth F) (take i prior) @ drop (i + Suc del) F"
        using "1.prems"(3,4) id by (simp add: pj_array_erase_def min_def drop_Suc Cons_nth_drop_Suc [symmetric])
      moreover have "i < length prior \<longrightarrow> i + Suc del \<le> prior ! i" using "1.prems"(5) del by auto
      ultimately have "fmt (remove_unmatched prior ?m i (Suc del)) = map (nth F) prior"
        using "1.IH"(1) [OF True del] "1.prems" by blast
      then show ?thesis using True del by (subst remove_unmatched.simps) simp
    next
      case keep: False
      then have i: "i < length prior" "prior ! i = i + del" by auto
      have "fmt m = map (nth F) (take (Suc i) prior) @ drop (Suc i + del) F"
        using "1.prems"(4) i id by (simp add: take_Suc_conv_app_nth Cons_nth_drop_Suc [symmetric])
      moreover have "Suc i < length prior \<longrightarrow> Suc i + del \<le> prior ! Suc i"
        using sorted_wrt_nth_less [OF "1.prems"(1), of i "Suc i"] i by auto
      ultimately have "fmt (remove_unmatched prior m (Suc i) del) = map (nth F) prior"
        using "1.IH"(2) [OF True keep] "1.prems" i by auto
      then show ?thesis using True keep by (subst remove_unmatched.simps) simp
    qed
  qed
qed

text \<open>A format of the offer and one of the answer: equal, or for the same codec by some rtpmap of the offer.\<close>

definition codec_pair :: "neg_env \<Rightarrow> pjmedia_sdp_media \<Rightarrow> pjmedia_sdp_media \<Rightarrow> bytes \<Rightarrow> bytes \<Rightarrow> bool" where
  "codec_pair env offer answer f g \<longleftrightarrow> f = g \<or>
     (\<exists>a ar. a \<in> set (m_attr offer) \<and> attr_name a = str ''rtpmap'' \<and> pt_num (attr_pt a) = pt_num f \<and> rtpmap_of env answer g = Some ar \<and>
        pj_stricmp (rm_enc_name (snd (pjmedia_sdp_attr_get_rtpmap (env_uninit env) a))) (rm_enc_name ar) = 0 \<and>
        rm_clock_rate (snd (pjmedia_sdp_attr_get_rtpmap (env_uninit env) a)) = rm_clock_rate ar)"

lemma codec_pair_mono: "codec_pair env m answer f g \<Longrightarrow> set (m_attr m) \<subseteq> set (m_attr m') \<Longrightarrow> codec_pair env m' answer f g"
  unfolding codec_pair_def by blast

lemma find_answer_fmt_pair:
  assumes "find_answer_fmt env offer i answer = Inr (Some j)"
  shows "j < length (fmt answer)" "codec_pair env offer answer (fmt offer ! i) (fmt answer ! j)"
proof -
  let ?f = "fmt offer ! i"
  have "j < length (fmt answer) \<and> codec_pair env offer answer ?f (fmt answer ! j)"
  proof (cases "pt_num ?f < 96")
    case True
    then show ?thesis using assms by (auto simp: find_answer_fmt_def Let_def find_Some_iff codec_pair_def)
  next
    case False
    then obtain orm where orm: "rtpmap_of env offer ?f = Some orm"
      and j: "find (answer_for_codec env offer i answer orm) [0..<length (fmt answer)] = Some j"
      using assms by (auto simp: find_answer_fmt_def Let_def split: option.splits)
    then have *: "j < length (fmt answer)" "answer_for_codec env offer i answer orm j" by (auto simp: find_Some_iff)
    obtain a where a: "pjmedia_sdp_media_find_attr offer (str ''rtpmap'') (Some ?f) = Some a"
      "orm = snd (pjmedia_sdp_attr_get_rtpmap (env_uninit env) a)" using orm unfolding rtpmap_of_def by (auto split: option.splits)
    then have "a \<in> set (m_attr offer)" "attr_name a = str ''rtpmap''" "pt_num (attr_pt a) = pt_num ?f"
      unfolding find_attr_eq by (auto simp: find_Some_iff)
    then show ?thesis using * a(2) unfolding codec_pair_def answer_for_codec_def by (auto split: option.splits)
  qed
  then show "j < length (fmt answer)" "codec_pair env offer answer ?f (fmt answer ! j)" by auto
qed

lemma keep_matched_correct:
  assumes "keep_matched env m answer i prior = (PJ_SUCCESS, m', prior')"
    and "length prior = i" "i \<le> length (fmt m)" "set (m_attr m) \<subseteq> set (m_attr m0)" "set (fmt m) \<subseteq> set (fmt m0)"
    and "\<forall>k < i. prior ! k < length (fmt answer) \<and> codec_pair env m0 answer (fmt m ! k) (fmt answer ! (prior ! k))"
  shows "length prior' = length (fmt m') \<and> set (fmt m') \<subseteq> set (fmt m0) \<and>
    (\<forall>k < length (fmt m'). prior' ! k < length (fmt answer) \<and> codec_pair env m0 answer (fmt m' ! k) (fmt answer ! (prior' ! k)))"
  using assms
proof (induction env m answer i prior rule: keep_matched.induct)
  case (1 env m answer i prior)
  show ?case
  proof (cases "i < length (fmt m)")
    case False
    then show ?thesis using "1.prems" by (subst (asm) keep_matched.simps) auto
  next
    case i: True
    show ?thesis
    proof (cases "find_answer_fmt env m i answer")
      case (Inl e)
      then have "keep_matched env m answer i prior = (e, m, prior)" using i by (subst keep_matched.simps) simp
      moreover have "e \<noteq> PJ_SUCCESS" using Inl by (auto simp: find_answer_fmt_def Let_def split: if_splits option.splits)
      ultimately show ?thesis using "1.prems"(1) by simp
    next
      case (Inr r)
      show ?thesis
      proof (cases r)
        case None
        define m1 where "m1 = (remove_fmt_attrs (fmt m ! i) m)\<lparr>fmt := pj_array_erase (fmt m) i\<rparr>"
        have k: "keep_matched env m1 answer i prior = (PJ_SUCCESS, m', prior')"
          using "1.prems"(1) i Inr None by (subst (asm) keep_matched.simps) (simp add: m1_def)
        have "set (m_attr m1) \<subseteq> set (m_attr m0)" using remove_fmt_attrs_frame(3) [of "fmt m ! i" m] "1.prems"(4) by (auto simp: m1_def)
        moreover have "set (fmt m1) \<subseteq> set (fmt m0)" using "1.prems"(5) by (auto simp: m1_def pj_array_erase_def dest: in_set_takeD in_set_dropD)
        moreover have "i \<le> length (fmt m1)" "\<forall>k < i. fmt m1 ! k = fmt m ! k" using i by (auto simp: m1_def pj_array_erase_def nth_append)
        ultimately show ?thesis using "1.IH"(1) [OF i Inr None, folded m1_def] k "1.prems"(2,6) by simp
      next
        case (Some j)
        have k: "keep_matched env m answer (Suc i) (prior @ [j]) = (PJ_SUCCESS, m', prior')"
          using "1.prems"(1) i Inr Some by (subst (asm) keep_matched.simps) simp
        have "j < length (fmt answer)" "codec_pair env m0 answer (fmt m ! i) (fmt answer ! j)"
          using find_answer_fmt_pair [of env m i answer j] Inr Some codec_pair_mono "1.prems"(4) by auto
        then have "\<forall>k < Suc i. (prior @ [j]) ! k < length (fmt answer) \<and>
            codec_pair env m0 answer (fmt m ! k) (fmt answer ! ((prior @ [j]) ! k))"
          using "1.prems"(2,6) by (auto simp: nth_append less_Suc_eq)
        then show ?thesis using "1.IH"(2) [OF i Inr Some] k "1.prems"(2-5) i by simp
      qed
    qed
  qed
qed


end
