(* ===== verification/PJ_SdpNegDemo.thy ===== *)
theory PJ_SdpNegDemo
  imports PJ_SdpNegRemote
begin

text \<open>
  Concrete negotiations: witnesses of the properties of the negotiator, and inputs on which the
  code does not do what it means to.
\<close>

section \<open>Examples\<close>

text \<open>A capability for two codecs and telephone events, an offer with other payload types, and a codec with a callback.\<close>

definition neg_attr :: "string \<Rightarrow> string \<Rightarrow> pjmedia_sdp_attr" where
  "neg_attr n v = \<lparr>attr_name = str n, attr_value = str v\<rparr>"

definition neg_media :: "pj_uint16_t \<Rightarrow> string list \<Rightarrow> pjmedia_sdp_attr list \<Rightarrow> pjmedia_sdp_media" where
  "neg_media p fs as = \<lparr>media = str ''audio'', port = p, port_count = 1, transport = str ''RTP/AVP'', fmt = map str fs,
     m_conn = None, m_bandw = [], m_attr = as\<rparr>"

definition neg_session :: "pjmedia_sdp_media list \<Rightarrow> pjmedia_sdp_session" where
  "neg_session ms = \<lparr>origin = \<lparr>o_user = str ''-'', o_id = 1, o_version = 1, o_net_type = str ''IN'', o_addr_type = str ''IP4'', o_addr = str ''10.0.0.1''\<rparr>,
     s_name = str ''call'', s_conn = Some \<lparr>net_type = str ''IN'', addr_type = str ''IP4'', addr = str ''10.0.0.1''\<rparr>, s_bandw = [],
     time_start = 0, time_stop = 0, s_attr = [], s_media = ms\<rparr>"

definition demo_env :: neg_env where
  "demo_env = \<lparr>fmt_match_cb = [\<lparr>cb_fmt_name = str ''speex'', cb_func = 1\<rparr>],
     env_func = (\<lambda>k om i am j modify. (PJ_SUCCESS, m_attr am)),
     env_uninit = \<lparr>rm_pt = [], rm_enc_name = [], rm_clock_rate = 0, rm_param = []\<rparr>\<rparr>"

definition demo_cap :: pjmedia_sdp_media where
  "demo_cap = neg_media 4000 [''98'', ''0'', ''96'']
     [neg_attr ''rtpmap'' ''98 speex/16000'', neg_attr ''rtpmap'' ''96 telephone-event/8000'', neg_attr ''fmtp'' ''96 0-15'', neg_attr ''sendrecv'' '''']"

definition demo_offer :: pjmedia_sdp_media where
  "demo_offer = neg_media 5000 [''104'', ''0'', ''101'']
     [neg_attr ''rtpmap'' ''104 speex/16000'', neg_attr ''rtpmap'' ''101 telephone-event/8000'', neg_attr ''sendonly'' '''']"

definition demo_reply :: pjmedia_sdp_media where
  "demo_reply = neg_media 6000 [''0'', ''97'', ''8''] [neg_attr ''rtpmap'' ''97 SPEEX/16000'']"

definition demo_video :: pjmedia_sdp_media where
  "demo_video = demo_cap\<lparr>media := str ''video'', port := 4002\<rparr>"

text \<open>Evaluation of formats and rtpmap attributes.\<close>

lemmas rtpmap_eval =
  pjmedia_sdp_attr_get_rtpmap_def pj_scan_init_def pj_scan_get_def pj_scan_get_char_def skip_after_def pj_scan_skip_whitespace_def
  run_def at_def between_def scan_end_def cs_token_eq cs_digit_eq pj_isdigit_def TOKEN_def PJ_SCAN_IS_SPACE_def PJ_SCAN_IS_NEWLINE_def
  PJ_SCAN_IS_PROBABLY_SPACE_def PJ_SCAN_AUTOSKIP_WS_def PJ_SCAN_AUTOSKIP_NEWLINE_def PJ_SCAN_AUTOSKIP_WS_HEADER_def pj_strtoul_def neg_attr_def

lemmas neg_eval =
  neg_media_def neg_session_def demo_reply_def demo_video_def neg_attr_def demo_cap_def demo_offer_def demo_env_def Let_def rtpmap_of_def find_attr_eq attr_pt_def pt_num_def
  pj_strtoul_def pj_isdigit_def fmt_char_def rtpmap_eval

lemmas match_eval =
  neg_eval create_answer_def match_offer_def ms_master_def ms_slave_def match_fmt_def match_static_def match_other_def pt_pair_def
  rtpmaps_match_def custom_fmt_match_def build_answer_def find_from_def str_swap_def remove_fmt_attrs_def remove_fmt_attr_def
  apply_answer_symmetric_pt_def move_pt_def rewrite_pt_def pjmedia_sdp_media_remove_attr_def pjmedia_sdp_attr_remove_def
  update_media_direction_def old_dir_of_def has_dir_iff remove_all_media_directions_def pjmedia_sdp_media_remove_all_attr_def remove_all_filter
  pjmedia_sdp_media_add_attr_def pjmedia_sdp_attr_add_def pjmedia_sdp_attr_create_def PJMEDIA_MAX_SDP_ATTR_def PJMEDIA_MAX_SDP_FMT_def
  PJMEDIA_MAX_SDP_MEDIA_def pj_stricmp_def pj_tolower_def pj_array_erase_def find_answer_fmt_def answer_for_codec_def sort_round_def resort_formats_def
  process_m_answer_def pjmedia_sdp_transport_cmp_def keep_matched.simps remove_unmatched.simps upt_rec

lemma demo_env_ok: "callbacks_ok demo_env"
  by (simp add: callbacks_ok_def demo_env_def only_fmtp_refl)

lemma demo_cap_ok: "capability_ok demo_env demo_cap"
  by (simp add: capability_ok_def is_rtp_attr_def telephone_event_def neg_eval pj_stricmp_def)

lemma demo_valid: "pjmedia_sdp_validate (neg_session [demo_offer]) = PJ_SUCCESS" "pjmedia_sdp_validate (neg_session [demo_cap]) = PJ_SUCCESS"
  "pjmedia_sdp_validate (neg_session [demo_video]) = PJ_SUCCESS"
  by (simp_all add: pjmedia_sdp_validate_def pjmedia_sdp_validate2_def validate_sdp_conn_def neg_eval)

lemma demo_media [simp]: "s_media (neg_session ms) = ms"
  by (simp add: neg_session_def)

theorem neg_default_answer_witness:
  "\<exists>status answer. create_answer demo_env True False (Some (neg_session [demo_cap])) (neg_session [demo_offer]) = Inr (status, Some answer) \<and>
     list_all2 answer_fits [demo_offer] (s_media answer)"
  using neg_default_answer [of demo_env "neg_session [demo_cap]" "neg_session [demo_offer]"] demo_env_ok demo_cap_ok demo_valid by auto

text \<open>The answer takes over the payload types of the offer.\<close>

lemma demo_answer:
  "(case create_answer demo_env True False (Some (neg_session [demo_cap])) (neg_session [demo_offer]) of
      Inr (status, Some answer) \<Rightarrow> (status, s_media answer)) =
   (PJ_SUCCESS, [neg_media 4000 [''104'', ''101'']
     [neg_attr ''rtpmap'' ''104 speex/16000'', neg_attr ''rtpmap'' ''101 telephone-event/8000'', neg_attr ''fmtp'' ''101 0-15'', neg_attr ''recvonly'' '''']])"
  using demo_valid(1) by (simp add: match_eval)

theorem neg_no_media_is_success_witness:
  "\<exists>answer. create_answer demo_env True False (Some (neg_session [demo_cap\<lparr>media := str ''video''\<rparr>])) (neg_session [demo_offer]) =
     Inr (PJ_SUCCESS, Some answer) \<and> length (s_media answer) = 1"
proof -
  have "media (demo_cap\<lparr>media := str ''video''\<rparr>) \<noteq> media demo_offer" by (simp add: demo_offer_def neg_media_def)
  then show ?thesis
    using neg_no_media_is_success [of "neg_session [demo_offer]" "neg_session [demo_cap\<lparr>media := str ''video''\<rparr>]" demo_env True False] demo_valid
    by auto
qed


theorem neg_direction_witness:
  "receives (update_media_direction demo_offer demo_cap) \<and> \<not> sends (update_media_direction demo_offer demo_cap)"
proof -
  have "one_direction demo_offer" "length (m_attr demo_cap) < PJMEDIA_MAX_SDP_ATTR" "receives demo_cap" "sends demo_offer" "\<not> receives demo_offer"
    by (simp_all add: one_direction_def direction_names_def PJMEDIA_MAX_SDP_ATTR_def PJMEDIA_MAX_SDP_FMT_def receives_def sends_def old_dir_of_def
        has_dir_iff neg_attr_def neg_media_def demo_cap_def demo_offer_def)
  then show ?thesis using neg_direction [of demo_offer demo_cap] by blast
qed

text \<open>A session with an audio line that is modified to video.\<close>

definition demo_done :: pjmedia_sdp_neg where
  "demo_done = zero_neg\<lparr>neg_state := NEG_STATE_DONE, active_local_sdp := Some (neg_session [demo_cap]),
     active_remote_sdp := Some (neg_session [demo_offer])\<rparr>"


theorem neg_null_only_modify_witness:
  "\<exists>neg. neg_inv neg \<and> neg_state neg = NEG_STATE_DONE \<and> neg_call demo_env (Modify_offer 0 (neg_session [demo_cap])) neg = Inl Null_pointer"
proof -
  define neg where "neg = the (snd (pjmedia_sdp_neg_create_w_local_offer (neg_session [demo_cap])))"
  have c: "pjmedia_sdp_neg_create_w_local_offer (neg_session [demo_cap]) = (PJ_SUCCESS, Some neg)"
    using demo_valid by (simp add: neg_def pjmedia_sdp_neg_create_w_local_offer_def)
  define neg' where "neg' = snd (pjmedia_sdp_neg_cancel_offer neg)"
  have "neg_call demo_env Cancel_offer neg = Inr (PJ_SUCCESS, neg')" and n: "neg_state neg' = NEG_STATE_DONE" "active_local_sdp neg' = None"
    using demo_valid by (auto simp: neg'_def neg_def pjmedia_sdp_neg_create_w_local_offer_def pjmedia_sdp_neg_cancel_offer_def zero_neg_def)
  then have "neg_reachable demo_env neg'" using neg_reachable.local_offer [OF c] neg_reachable.call by blast
  from neg_null_only_modify [OF this, of "Modify_offer 0 (neg_session [demo_cap])"] show ?thesis using n demo_valid by auto
qed

section \<open>Flaws\<close>

text \<open>With asymmetric media the check for a common format is vacuous.\<close>

lemma asym_accepts_anything: "fmt offer \<noteq> [] \<Longrightarrow> fmt answer \<noteq> [] \<Longrightarrow> asym_common offer answer"
proof -
  assume "fmt offer \<noteq> []" "fmt answer \<noteq> []"
  then have "fmt answer ! 0 \<in> set (fmt answer)" "0 \<in> set [0..<length (fmt offer)]" by auto
  then show ?thesis unfolding asym_common_def list_ex_iff by fastforce
qed

text \<open>With several codecs in the answer, an offer that names a payload type twice runs into the assertion.\<close>

lemma repeated_payload_type_asserts:
  "match_offer demo_env True True (neg_media 5000 [''0'', ''0''] []) (neg_media 4000 [''0''] []) (neg_session []) = Inl Assertion_failed"
  by (simp add: match_eval)

text \<open>An offer of telephone events only is accepted without any format by a side that does not have them.\<close>

lemma no_format_accepted:
  "(case match_offer demo_env True False (neg_media 5000 [''101''] [neg_attr ''rtpmap'' ''101 telephone-event/8000'']) (neg_media 4000 [''0''] [])
      (neg_session []) of Inr (status, im, Some am) \<Rightarrow> (status, port am, fmt am)) = (PJ_SUCCESS, 4000, [])"
  by (simp add: match_eval)

text \<open>Two formats of the offer that match one format of the answer make the answer lose a format that was agreed on.\<close>

lemma double_match_loses_format:
  "(case process_m_answer demo_env
        (neg_media 4000 [''96'', ''97'', ''0''] [neg_attr ''rtpmap'' ''96 H264/90000'', neg_attr ''rtpmap'' ''97 H264/90000''])
        (neg_media 5000 [''96'', ''0''] [neg_attr ''rtpmap'' ''96 H264/90000'']) False of
      (status, om, am) \<Rightarrow> (status, fmt om, fmt am)) = (PJ_SUCCESS, map str [''96'', ''97'', ''0''], map str [''96''])"
  by (simp add: match_eval)

text \<open>The media array overflows when 16 new media are offered in a session with a line of another type.\<close>

lemma modify_overflows:
  assumes "neg_state neg = NEG_STATE_DONE" "active_local_sdp neg = Some old" "pjmedia_sdp_validate local = PJ_SUCCESS"
    and "s_media old = om # oms" "length (s_media local) = PJMEDIA_MAX_SDP_MEDIA" "\<forall>m \<in> set (s_media local). media m \<noteq> media om"
  shows "pjmedia_sdp_neg_modify_local_offer neg local = Inl Array_overflow"
proof -
  have "find_from 0 (\<lambda>nm. pj_strcmp (media nm) (media om) = 0) (s_media local) = None"
    using assms(6) by (auto simp: find_from_None)
  then show ?thesis using assms
    by (simp add: pjmedia_sdp_neg_modify_local_offer_def pjmedia_sdp_neg_modify_local_offer2_def Let_def)
qed

end
