(* ===== verification/PJ_Circbuf.thy ===== *)
theory PJ_Circbuf
  imports PJ_Prelude
begin

text \<open>
  The circular buffer of audio samples, \<^verbatim>\<open>pjmedia/include/pjmedia/circbuf.h\<close>. Pointers into the buffer are
  offsets, \<^verbatim>\<open>unsigned\<close> numbers are natural numbers with the wrap-around at \<^verbatim>\<open>2^32\<close> written out, and
  \<open>None\<close> is \<^verbatim>\<open>NULL\<close>. A buffer that holds the samples \<open>x1 .. xn\<close> behaves as this list; that packing it keeps them
  is the part that is not obvious.
\<close>

section \<open>The code\<close>

type_synonym pj_int16_t = "16 word"

record pjmedia_circ_buf =
  cb_buf :: "pj_int16_t list"
  cb_capacity :: nat
  cb_start :: nat
  cb_len :: nat

text \<open>\<^verbatim>\<open>n\<close> samples at an offset, and samples stored at an offset.\<close>

definition samples_at :: "pj_int16_t list \<Rightarrow> nat \<Rightarrow> nat \<Rightarrow> pj_int16_t list" where
  "samples_at buf p n = take n (drop p buf)"

definition pjmedia_copy_samples :: "pj_int16_t list \<Rightarrow> nat \<Rightarrow> pj_int16_t list \<Rightarrow> pj_int16_t list" where
  "pjmedia_copy_samples buf dst xs = take dst buf @ xs @ drop (dst + length xs) buf"

definition pjmedia_move_samples :: "pj_int16_t list \<Rightarrow> nat \<Rightarrow> nat \<Rightarrow> nat \<Rightarrow> pj_int16_t list" where
  "pjmedia_move_samples buf dst src n = pjmedia_copy_samples buf dst (samples_at buf src n)"

definition pjmedia_circ_buf_create :: "nat \<Rightarrow> pjmedia_circ_buf" where
  "pjmedia_circ_buf_create capacity = \<lparr>cb_buf = replicate capacity 0, cb_capacity = capacity, cb_start = 0, cb_len = 0\<rparr>"

definition pjmedia_circ_buf_reset :: "pjmedia_circ_buf \<Rightarrow> pj_status_t \<times> pjmedia_circ_buf" where
  "pjmedia_circ_buf_reset cb = (PJ_SUCCESS, cb\<lparr>cb_start := 0, cb_len := 0\<rparr>)"

definition pjmedia_circ_buf_get_len :: "pjmedia_circ_buf \<Rightarrow> nat" where
  "pjmedia_circ_buf_get_len cb = cb_len cb"

definition pjmedia_circ_buf_set_len :: "pjmedia_circ_buf \<Rightarrow> nat \<Rightarrow> pjmedia_circ_buf" where
  "pjmedia_circ_buf_set_len cb len = cb\<lparr>cb_len := len\<rparr>"

definition pjmedia_circ_buf_adv_read_ptr :: "pjmedia_circ_buf \<Rightarrow> nat \<Rightarrow> pj_status_t \<times> pjmedia_circ_buf" where
  "pjmedia_circ_buf_adv_read_ptr cb n =
     (if n \<ge> cb_len cb then pjmedia_circ_buf_reset cb
      else
        let start = cb_start cb + n;
            start = (if start \<ge> cb_capacity cb then start - cb_capacity cb else start)
        in (PJ_SUCCESS, cb\<lparr>cb_start := start, cb_len := cb_len cb - n\<rparr>))"

definition pjmedia_circ_buf_adv_write_ptr :: "pjmedia_circ_buf \<Rightarrow> nat \<Rightarrow> pj_status_t \<times> pjmedia_circ_buf" where
  "pjmedia_circ_buf_adv_write_ptr cb n =
     (if (n + cb_len cb) mod 2 ^ 32 > cb_capacity cb then (PJ_ETOOBIG, cb)
      else (PJ_SUCCESS, cb\<lparr>cb_len := (cb_len cb + n) mod 2 ^ 32\<rparr>))"

text \<open>Two regions, each with its offset and length.\<close>

definition pjmedia_circ_buf_get_read_regions :: "pjmedia_circ_buf \<Rightarrow> nat \<times> nat \<times> nat option \<times> nat" where
  "pjmedia_circ_buf_get_read_regions cb =
     (if cb_start cb + cb_len cb > cb_capacity cb
      then (cb_start cb, cb_capacity cb - cb_start cb, Some 0, cb_len cb - (cb_capacity cb - cb_start cb))
      else (cb_start cb, cb_len cb, None, 0))"

definition pjmedia_circ_buf_get_write_regions :: "pjmedia_circ_buf \<Rightarrow> nat \<times> nat \<times> nat option \<times> nat" where
  "pjmedia_circ_buf_get_write_regions cb =
     (let reg1 = cb_start cb + cb_len cb;
          reg1 = (if reg1 \<ge> cb_capacity cb then reg1 - cb_capacity cb else reg1);
          reg1_len = cb_capacity cb - cb_len cb
      in if reg1 + reg1_len > cb_capacity cb then (reg1, cb_capacity cb - reg1, Some 0, cb_start cb)
         else (reg1, reg1_len, None, 0))"

text \<open>Samples read are part of the result; \<open>the\<close> stands for the use of the second region, which may be \<^verbatim>\<open>NULL\<close>.\<close>

definition pjmedia_circ_buf_read :: "pjmedia_circ_buf \<Rightarrow> nat \<Rightarrow> pj_status_t \<times> pj_int16_t list \<times> pjmedia_circ_buf" where
  "pjmedia_circ_buf_read cb n =
     (if n > cb_len cb then (PJ_ETOOBIG, [], cb)
      else
        let (reg1, reg1cnt, reg2, reg2cnt) = pjmedia_circ_buf_get_read_regions cb;
            data = (if reg1cnt \<ge> n then samples_at (cb_buf cb) reg1 n
                    else samples_at (cb_buf cb) reg1 reg1cnt @ samples_at (cb_buf cb) (the reg2) (n - reg1cnt));
            (status, cb) = pjmedia_circ_buf_adv_read_ptr cb n
        in (status, data, cb))"

definition pjmedia_circ_buf_write :: "pjmedia_circ_buf \<Rightarrow> pj_int16_t list \<Rightarrow> pj_status_t \<times> pjmedia_circ_buf" where
  "pjmedia_circ_buf_write cb data =
     (if length data > cb_capacity cb - cb_len cb then (PJ_ETOOBIG, cb)
      else
        let (reg1, reg1cnt, reg2, reg2cnt) = pjmedia_circ_buf_get_write_regions cb;
            buf = (if reg1cnt \<ge> length data then pjmedia_copy_samples (cb_buf cb) reg1 data
                   else pjmedia_copy_samples (pjmedia_copy_samples (cb_buf cb) reg1 (take reg1cnt data)) (the reg2) (drop reg1cnt data))
        in pjmedia_circ_buf_adv_write_ptr (cb\<lparr>cb_buf := buf\<rparr>) (length data))"

definition pjmedia_circ_buf_copy :: "pjmedia_circ_buf \<Rightarrow> nat \<Rightarrow> nat \<Rightarrow> pj_status_t \<times> pj_int16_t list" where
  "pjmedia_circ_buf_copy cb start_idx n =
     (if (n + start_idx) mod 2 ^ 32 > cb_len cb then (PJ_ETOOBIG, [])
      else
        let (reg1, reg1cnt, reg2, reg2cnt) = pjmedia_circ_buf_get_read_regions cb
        in if reg1cnt > start_idx then
             let tmp_len = min (reg1cnt - start_idx) n
             in (PJ_SUCCESS, samples_at (cb_buf cb) (reg1 + start_idx) tmp_len @
                   (if tmp_len < n then samples_at (cb_buf cb) (the reg2) (n - tmp_len) else []))
           else (PJ_SUCCESS, samples_at (cb_buf cb) (the reg2 + start_idx - reg1cnt) n))"

text \<open>
  The loop that rolls the samples to the left: the buffer and the first region, with the gap between the regions.
  It would not end with a gap of zero, for which the function returns before.
\<close>

function roll_left :: "pj_int16_t list \<Rightarrow> nat \<Rightarrow> nat \<Rightarrow> nat \<Rightarrow> nat \<Rightarrow> nat \<Rightarrow> (pj_int16_t list \<times> nat) option" where
  "roll_left buf reg1 reg1cnt reg2 reg2cnt gap =
     (let gap = (if gap > reg2cnt then reg2cnt else gap);
          buf = pjmedia_move_samples buf (reg1 - gap) reg1 reg1cnt;
          buf = pjmedia_copy_samples buf (reg1 + reg1cnt - gap) (samples_at buf reg2 gap);
          buf = (if gap < reg2cnt then pjmedia_move_samples buf reg2 (reg2 + gap) (reg2cnt - gap) else buf)
      in if gap = 0 then None
         else if reg2cnt - gap > 0 then roll_left buf (reg1 - gap) (reg1cnt + gap) reg2 (reg2cnt - gap) gap
         else Some (buf, reg1 - gap))"
  by pat_completeness auto
termination by (relation "measure (\<lambda>(buf, reg1, reg1cnt, reg2, reg2cnt, gap). reg2cnt)") auto

declare roll_left.simps [simp del]

definition pjmedia_circ_buf_pack_buffer :: "pjmedia_circ_buf \<Rightarrow> (pj_status_t \<times> pjmedia_circ_buf) option" where
  "pjmedia_circ_buf_pack_buffer cb =
     (let (reg1, reg1cnt, reg2, reg2cnt) = pjmedia_circ_buf_get_read_regions cb;
          gap = cb_capacity cb - pjmedia_circ_buf_get_len cb
      in if reg2cnt \<noteq> 0 \<and> gap = 0 then Some (PJ_ETOOBIG, cb)
         else case (if reg2cnt \<noteq> 0 then roll_left (cb_buf cb) reg1 reg1cnt (the reg2) reg2cnt gap else Some (cb_buf cb, reg1)) of
                None \<Rightarrow> None
              | Some (buf, reg1) \<Rightarrow>
                  let buf = (if reg1 \<noteq> 0 then pjmedia_move_samples buf 0 reg1 (pjmedia_circ_buf_get_len cb) else buf)
                  in Some (PJ_SUCCESS, cb\<lparr>cb_buf := buf, cb_start := 0\<rparr>))"

section \<open>The samples in the buffer\<close>

definition circ_inv :: "pjmedia_circ_buf \<Rightarrow> bool" where
  "circ_inv cb \<longleftrightarrow> length (cb_buf cb) = cb_capacity cb \<and> cb_len cb \<le> cb_capacity cb \<and> cb_capacity cb < 2 ^ 31 \<and>
     (cb_start cb < cb_capacity cb \<or> cb_start cb = 0)"

definition circ_samples :: "pjmedia_circ_buf \<Rightarrow> pj_int16_t list" where
  "circ_samples cb = map (\<lambda>i. cb_buf cb ! ((cb_start cb + i) mod cb_capacity cb)) [0..<cb_len cb]"

lemma length_circ_samples [simp]: "length (circ_samples cb) = cb_len cb"
  by (simp add: circ_samples_def)

lemma wrap_index: "s < c \<Longrightarrow> i < c \<Longrightarrow> (s + i) mod c = (if s + i < c then s + i else s + i - c)" for s i c :: nat
  by (auto simp: mod_if)

lemma samples_at_nth: "p + n \<le> length buf \<Longrightarrow> i < n \<Longrightarrow> samples_at buf p n ! i = buf ! (p + i)"
  by (simp add: samples_at_def)

lemma samples_at_0 [simp]: "samples_at buf p 0 = []"
  by (simp add: samples_at_def)

lemma length_samples_at: "p + n \<le> length buf \<Longrightarrow> length (samples_at buf p n) = n"
  by (simp add: samples_at_def)

lemma length_copy_samples: "d + length xs \<le> length buf \<Longrightarrow> length (pjmedia_copy_samples buf d xs) = length buf"
  by (simp add: pjmedia_copy_samples_def)

lemma copy_samples_nth:
  "d + length xs \<le> length buf \<Longrightarrow> i < length buf \<Longrightarrow>
   pjmedia_copy_samples buf d xs ! i = (if d \<le> i \<and> i < d + length xs then xs ! (i - d) else buf ! i)"
  by (auto simp: pjmedia_copy_samples_def nth_append)

lemma nonempty_start: "circ_inv cb \<Longrightarrow> cb_len cb > 0 \<Longrightarrow> cb_start cb < cb_capacity cb"
  by (auto simp: circ_inv_def)

lemma read_regions:
  assumes "circ_inv cb" "pjmedia_circ_buf_get_read_regions cb = (reg1, n1, reg2, n2)"
  shows "circ_samples cb = samples_at (cb_buf cb) reg1 n1 @ samples_at (cb_buf cb) 0 n2" "n1 + n2 = cb_len cb"
    "n2 > 0 \<Longrightarrow> reg2 = Some 0" "reg1 + n1 \<le> length (cb_buf cb)" "n2 \<le> length (cb_buf cb)" "reg1 = cb_start cb"
    "n2 > 0 \<Longrightarrow> reg1 + n1 = cb_capacity cb"
proof -
  show r: "n1 + n2 = cb_len cb" "n2 > 0 \<Longrightarrow> reg2 = Some 0" "reg1 + n1 \<le> length (cb_buf cb)" "n2 \<le> length (cb_buf cb)"
    "reg1 = cb_start cb" "n2 > 0 \<Longrightarrow> reg1 + n1 = cb_capacity cb"
    using assms by (auto simp: pjmedia_circ_buf_get_read_regions_def circ_inv_def split: if_splits)
  show "circ_samples cb = samples_at (cb_buf cb) reg1 n1 @ samples_at (cb_buf cb) 0 n2"
  proof (rule nth_equalityI)
    fix i assume "i < length (circ_samples cb)"
    then have i: "i < cb_len cb" by simp
    then have "cb_start cb < cb_capacity cb" "i < cb_capacity cb" using nonempty_start [OF assms(1)] assms(1) by (auto simp: circ_inv_def)
    then have "circ_samples cb ! i = cb_buf cb ! (if cb_start cb + i < cb_capacity cb then cb_start cb + i else cb_start cb + i - cb_capacity cb)"
      using i by (simp add: circ_samples_def wrap_index)
    moreover have "i < n1 \<longleftrightarrow> cb_start cb + i < cb_capacity cb"
      using assms(2) i by (auto simp: pjmedia_circ_buf_get_read_regions_def split: if_splits)
    moreover have "cb_start cb + i - cb_capacity cb = i - n1" if "\<not> i < n1"
      using that assms(2) i \<open>cb_start cb < cb_capacity cb\<close> by (auto simp: pjmedia_circ_buf_get_read_regions_def split: if_splits)
    ultimately show "circ_samples cb ! i = (samples_at (cb_buf cb) reg1 n1 @ samples_at (cb_buf cb) 0 n2) ! i"
      using i r by (auto simp: nth_append length_samples_at samples_at_nth)
  qed (use r in \<open>simp add: length_samples_at\<close>)
qed

lemma write_regions:
  assumes "circ_inv cb" "pjmedia_circ_buf_get_write_regions cb = (reg1, n1, reg2, n2)" "cb_capacity cb > 0"
  shows "n1 + n2 = cb_capacity cb - cb_len cb" "n2 > 0 \<Longrightarrow> reg2 = Some 0" "reg1 + n1 \<le> cb_capacity cb" "n2 \<le> cb_start cb"
    "j < n1 \<Longrightarrow> (cb_start cb + (cb_len cb + j)) mod cb_capacity cb = reg1 + j"
    "j < n2 \<Longrightarrow> (cb_start cb + (cb_len cb + (n1 + j))) mod cb_capacity cb = j"
    "n2 > 0 \<Longrightarrow> reg1 + n1 = cb_capacity cb \<and> reg1 = cb_start cb + cb_len cb"
proof -
  have s: "cb_start cb < cb_capacity cb" using assms by (auto simp: circ_inv_def)
  note d = pjmedia_circ_buf_get_write_regions_def circ_inv_def
  show r: "n1 + n2 = cb_capacity cb - cb_len cb" "n2 > 0 \<Longrightarrow> reg2 = Some 0" "reg1 + n1 \<le> cb_capacity cb" "n2 \<le> cb_start cb"
    "n2 > 0 \<Longrightarrow> reg1 + n1 = cb_capacity cb \<and> reg1 = cb_start cb + cb_len cb"
    using assms s by (auto simp: d Let_def split: if_splits)
  have *: "cb_start cb + cb_len cb = reg1 \<or> cb_start cb + cb_len cb = reg1 + cb_capacity cb"
    using assms s by (auto simp: d Let_def split: if_splits)
  show "(cb_start cb + (cb_len cb + j)) mod cb_capacity cb = reg1 + j" if "j < n1"
  proof -
    have "(reg1 + j + cb_capacity cb) mod cb_capacity cb = reg1 + j" "(reg1 + j) mod cb_capacity cb = reg1 + j" using that r(3) by simp_all
    moreover have "cb_start cb + (cb_len cb + j) = reg1 + j \<or> cb_start cb + (cb_len cb + j) = (reg1 + j) + cb_capacity cb" using * by auto
    ultimately show ?thesis by metis
  qed
  show "(cb_start cb + (cb_len cb + (n1 + j))) mod cb_capacity cb = j" if "j < n2"
  proof -
    have "cb_start cb + (cb_len cb + (n1 + j)) = j + cb_capacity cb" "j < cb_capacity cb" using r that s by auto
    then show ?thesis by (metis mod_add_self2 mod_less)
  qed
qed

lemma write_regions_free:
  assumes "circ_inv cb" "pjmedia_circ_buf_get_write_regions cb = (reg1, n1, reg2, n2)" "i < cb_len cb"
  defines "k \<equiv> (cb_start cb + i) mod cb_capacity cb"
  shows "k < cb_capacity cb" "n2 \<le> k" "k < reg1 \<or> reg1 + n1 \<le> k"
proof -
  have s: "cb_start cb < cb_capacity cb" "i < cb_capacity cb" "cb_len cb \<le> cb_capacity cb"
    using nonempty_start [OF assms(1)] assms(1,3) by (auto simp: circ_inv_def)
  then have k: "k = (if cb_start cb + i < cb_capacity cb then cb_start cb + i else cb_start cb + i - cb_capacity cb)"
    by (simp add: k_def wrap_index)
  show "k < cb_capacity cb" using s by (simp add: k_def)
  show "n2 \<le> k" "k < reg1 \<or> reg1 + n1 \<le> k"
    using assms(2,3) s k by (auto simp: pjmedia_circ_buf_get_write_regions_def Let_def split: if_splits)
qed

lemma circ_samples_append:
  assumes "\<And>i. i < cb_len cb \<Longrightarrow> buf' ! ((cb_start cb + i) mod cb_capacity cb) = cb_buf cb ! ((cb_start cb + i) mod cb_capacity cb)"
    "\<And>j. j < length data \<Longrightarrow> buf' ! ((cb_start cb + (cb_len cb + j)) mod cb_capacity cb) = data ! j"
  shows "circ_samples (cb\<lparr>cb_buf := buf', cb_len := cb_len cb + length data\<rparr>) = circ_samples cb @ data"
proof (rule nth_equalityI)
  fix i assume "i < length (circ_samples (cb\<lparr>cb_buf := buf', cb_len := cb_len cb + length data\<rparr>))"
  then have i: "i < cb_len cb + length data" by simp
  show "circ_samples (cb\<lparr>cb_buf := buf', cb_len := cb_len cb + length data\<rparr>) ! i = (circ_samples cb @ data) ! i"
  proof (cases "i < cb_len cb")
    case True
    then show ?thesis using assms(1) [of i] by (simp add: circ_samples_def nth_append)
  next
    case False
    then show ?thesis using assms(2) [of "i - cb_len cb"] i by (simp add: circ_samples_def nth_append)
  qed
qed simp

text \<open>What a write does to the buffer: the new samples follow the old ones, which stay where they are.\<close>

lemma circ_write_buffer:
  assumes "circ_inv cb" "length data \<le> cb_capacity cb - cb_len cb"
    "pjmedia_circ_buf_get_write_regions cb = (reg1, n1, reg2, n2)"
  defines "buf' \<equiv> if n1 \<ge> length data then pjmedia_copy_samples (cb_buf cb) reg1 data
     else pjmedia_copy_samples (pjmedia_copy_samples (cb_buf cb) reg1 (take n1 data)) (the reg2) (drop n1 data)"
  shows "length buf' = cb_capacity cb"
    "i < cb_len cb \<Longrightarrow> buf' ! ((cb_start cb + i) mod cb_capacity cb) = cb_buf cb ! ((cb_start cb + i) mod cb_capacity cb)"
    "j < length data \<Longrightarrow> buf' ! ((cb_start cb + (cb_len cb + j)) mod cb_capacity cb) = data ! j"
proof -
  have l: "length (cb_buf cb) = cb_capacity cb" using assms(1) by (simp add: circ_inv_def)
  have reg: "reg1 + n1 \<le> cb_capacity cb" "n1 + n2 = cb_capacity cb - cb_len cb" "n2 \<le> reg1" "n2 \<le> cb_capacity cb"
    "n1 < length data \<Longrightarrow> reg2 = Some 0"
    using assms(1-3) by (auto simp: pjmedia_circ_buf_get_write_regions_def circ_inv_def Let_def split: if_splits)
  then show "length buf' = cb_capacity cb"
    using l assms(2) by (auto simp: buf'_def length_copy_samples min_def)
  have nth: "buf' ! k = (if reg1 \<le> k \<and> k < reg1 + min n1 (length data) then data ! (k - reg1)
      else if k < length data - n1 then data ! (n1 + k) else cb_buf cb ! k)" if "k < cb_capacity cb" for k
    using that reg l assms(2) by (auto simp: buf'_def length_copy_samples copy_samples_nth min_def)
  show "buf' ! ((cb_start cb + i) mod cb_capacity cb) = cb_buf cb ! ((cb_start cb + i) mod cb_capacity cb)" if "i < cb_len cb"
    using write_regions_free [OF assms(1,3) that] reg assms(2) by (auto simp: nth)
  show "buf' ! ((cb_start cb + (cb_len cb + j)) mod cb_capacity cb) = data ! j" if j: "j < length data"
  proof -
    have c: "cb_capacity cb > 0" using j assms(2) by auto
    note w = write_regions [OF assms(1,3) c]
    show ?thesis
    proof (cases "j < n1")
      case True
      then show ?thesis using w(3) w(5) [of j] nth [of "reg1 + j"] j reg by simp
    next
      case False
      then have "j - n1 < n2" "j - n1 < length data - n1" using j assms(2) reg by linarith+
      then show ?thesis using w(6) [of "j - n1"] nth [of "j - n1"] False j reg by simp
    qed
  qed
qed

text \<open>One operation each, on the samples.\<close>

lemma circ_write_ok:
  assumes "circ_inv cb" "length data \<le> cb_capacity cb - cb_len cb" "pjmedia_circ_buf_write cb data = (status, cb')"
  shows "status = PJ_SUCCESS" "circ_samples cb' = circ_samples cb @ data" "circ_inv cb'" "cb_capacity cb' = cb_capacity cb"
proof -
  obtain reg1 n1 reg2 n2 where w: "pjmedia_circ_buf_get_write_regions cb = (reg1, n1, reg2, n2)" by (metis prod_cases4)
  define buf' where "buf' = (if n1 \<ge> length data then pjmedia_copy_samples (cb_buf cb) reg1 data
    else pjmedia_copy_samples (pjmedia_copy_samples (cb_buf cb) reg1 (take n1 data)) (the reg2) (drop n1 data))"
  have "length data + cb_len cb \<le> cb_capacity cb" "cb_capacity cb < 2 ^ 32" using assms(1,2) by (auto simp: circ_inv_def)
  then have e: "pjmedia_circ_buf_write cb data = (PJ_SUCCESS, cb\<lparr>cb_buf := buf', cb_len := cb_len cb + length data\<rparr>)"
    using assms(2) w by (auto simp: pjmedia_circ_buf_write_def pjmedia_circ_buf_adv_write_ptr_def buf'_def Let_def)
  show "status = PJ_SUCCESS" "cb_capacity cb' = cb_capacity cb" using e assms(3) by auto
  note b = circ_write_buffer [OF assms(1,2) w, folded buf'_def]
  show "circ_samples cb' = circ_samples cb @ data"
    using circ_samples_append [of cb buf' data] b(2,3) e assms(3) by auto
  show "circ_inv cb'" using b(1) e assms(1-3) by (auto simp: circ_inv_def)
qed

lemma circ_adv_read_samples:
  assumes "circ_inv cb" "pjmedia_circ_buf_adv_read_ptr cb n = (status, cb')"
  shows "status = PJ_SUCCESS" "circ_samples cb' = drop n (circ_samples cb)" "circ_inv cb'" "cb_capacity cb' = cb_capacity cb"
proof -
  show "status = PJ_SUCCESS" "circ_inv cb'" "cb_capacity cb' = cb_capacity cb"
    using assms by (auto simp: pjmedia_circ_buf_adv_read_ptr_def pjmedia_circ_buf_reset_def circ_inv_def Let_def split: if_splits)
  show "circ_samples cb' = drop n (circ_samples cb)"
  proof (cases "n \<ge> cb_len cb")
    case True
    then show ?thesis using assms(2) by (auto simp: pjmedia_circ_buf_adv_read_ptr_def pjmedia_circ_buf_reset_def circ_samples_def)
  next
    case False
    define start where "start = (if cb_start cb + n \<ge> cb_capacity cb then cb_start cb + n - cb_capacity cb else cb_start cb + n)"
    have "(start + i) mod cb_capacity cb = (cb_start cb + (n + i)) mod cb_capacity cb" for i
    proof -
      have "cb_start cb + (n + i) = start + i \<or> cb_start cb + (n + i) = start + i + cb_capacity cb" by (auto simp: start_def)
      then show ?thesis by (metis mod_add_self2)
    qed
    moreover have "cb' = cb\<lparr>cb_start := start, cb_len := cb_len cb - n\<rparr>"
      using False assms(2) by (auto simp: pjmedia_circ_buf_adv_read_ptr_def start_def Let_def)
    ultimately show ?thesis by (intro nth_equalityI) (auto simp: circ_samples_def)
  qed
qed

lemma take_region: "p + n \<le> length buf \<Longrightarrow> m \<le> n \<Longrightarrow> take m (samples_at buf p n) = samples_at buf p m"
  by (simp add: samples_at_def min_def)

lemma drop_region: "p + n \<le> length buf \<Longrightarrow> drop m (samples_at buf p n) = samples_at buf (p + m) (n - m)"
  by (simp add: samples_at_def drop_take add.commute)

lemma circ_read_ok:
  assumes "circ_inv cb" "n \<le> cb_len cb" "pjmedia_circ_buf_read cb n = (status, data, cb')"
  shows "status = PJ_SUCCESS" "circ_samples cb = data @ circ_samples cb'" "length data = n" "circ_inv cb'"
    "cb_capacity cb' = cb_capacity cb"
proof -
  obtain reg1 n1 reg2 n2 where r: "pjmedia_circ_buf_get_read_regions cb = (reg1, n1, reg2, n2)" by (metis prod_cases4)
  obtain st cb2 where a: "pjmedia_circ_buf_adv_read_ptr cb n = (st, cb2)" by (metis surj_pair)
  note reg = read_regions [OF assms(1) r]
  have e: "status = st" "cb' = cb2" "data = (if n1 \<ge> n then samples_at (cb_buf cb) reg1 n
      else samples_at (cb_buf cb) reg1 n1 @ samples_at (cb_buf cb) (the reg2) (n - n1))"
    using assms(2,3) r a by (auto simp: pjmedia_circ_buf_read_def)
  have d: "data = take n (circ_samples cb)"
    using e(3) reg assms(2) by (auto simp: take_region length_samples_at)
  show "status = PJ_SUCCESS" "circ_samples cb = data @ circ_samples cb'" "circ_inv cb'" "cb_capacity cb' = cb_capacity cb"
    using circ_adv_read_samples [OF assms(1) a] e(1,2) d by auto
  show "length data = n" using d assms(2) by simp
qed

lemma circ_copy_ok:
  assumes "circ_inv cb" "start_idx + n \<le> cb_len cb"
  shows "pjmedia_circ_buf_copy cb start_idx n = (PJ_SUCCESS, take n (drop start_idx (circ_samples cb)))"
proof -
  obtain reg1 n1 reg2 n2 where r: "pjmedia_circ_buf_get_read_regions cb = (reg1, n1, reg2, n2)" by (metis prod_cases4)
  note reg = read_regions [OF assms(1) r]
  have "n + start_idx < 2 ^ 32" using assms by (auto simp: circ_inv_def)
  then show ?thesis
    using reg assms(2) r
    by (auto simp: pjmedia_circ_buf_copy_def drop_region take_region length_samples_at Let_def min_def)
qed


text \<open>
  Packing. Before each round of the loop the first region ends at the end of the buffer, the second one is at its
  start, and the gap between them is free; a round moves one gap full of samples from the second to the first.
\<close>

lemma roll_step:
  assumes "buf = A @ B @ M @ G @ R" "length G = length A"
  defines "g \<equiv> length A" and "r \<equiv> length (A @ B @ M @ G)"
  defines "buf1 \<equiv> pjmedia_move_samples buf (r - g) r (length R)"
  defines "buf2 \<equiv> pjmedia_copy_samples buf1 (r + length R - g) (samples_at buf1 0 g)"
  shows "buf2 = A @ B @ M @ R @ A"
    "\<exists>E. pjmedia_move_samples buf2 0 (0 + g) (length B) = B @ E @ M @ R @ A \<and> length E = g"
proof -
  have 1: "buf1 = A @ B @ M @ R @ drop (length R) (G @ R)"
    using assms(1,2) by (simp add: buf1_def pjmedia_move_samples_def pjmedia_copy_samples_def samples_at_def g_def r_def)
  show 2: "buf2 = A @ B @ M @ R @ A"
    using assms(2) by (simp add: buf2_def 1 pjmedia_copy_samples_def samples_at_def g_def r_def)
  show "\<exists>E. pjmedia_move_samples buf2 0 (0 + g) (length B) = B @ E @ M @ R @ A \<and> length E = g"
    by (rule exI [of _ "drop (length B) (A @ B)"]) (simp add: 2 g_def pjmedia_move_samples_def pjmedia_copy_samples_def samples_at_def)
qed

lemma buffer_split:
  assumes "g \<le> n" "n + g \<le> reg1" "reg1 + r = length buf"
  obtains A B M G R where "buf = A @ B @ M @ G @ R" "length A = g" "length B = n - g" "length G = g" "length (A @ B @ M @ G) = reg1"
    "length R = r"
proof
  let ?A = "take g buf" and ?B = "take (n - g) (drop g buf)" and ?M = "take (reg1 - g - n) (drop n buf)"
    and ?G = "take g (drop (reg1 - g) buf)" and ?R = "drop reg1 buf"
  have "take n buf = ?A @ ?B" using assms(1) by (metis le_add_diff_inverse take_add)
  moreover have "take (reg1 - g) buf = take n buf @ ?M"
    using take_add [of n "reg1 - g - n" buf] assms(2) by simp
  moreover have "take reg1 buf = take (reg1 - g) buf @ ?G"
    using take_add [of "reg1 - g" g buf] assms(2) by simp
  ultimately show "buf = ?A @ ?B @ ?M @ ?G @ ?R" using append_take_drop_id [of reg1 buf] by simp
qed (use assms in auto)

lemma roll_left_ok:
  assumes "0 < gap" "0 < n" "reg1 + r = length buf" "n + min gap n \<le> reg1"
  shows "\<exists>buf'. roll_left buf reg1 r 0 n gap = Some (buf', reg1 - n) \<and> length buf' = length buf \<and>
    samples_at buf' (reg1 - n) (r + n) = samples_at buf reg1 r @ samples_at buf 0 n"
  using assms
proof (induction n arbitrary: buf reg1 r gap rule: less_induct)
  case (less n)
  define g where "g = min gap n"
  have g: "0 < g" "g \<le> n" "n + g \<le> reg1" "(if gap > n then n else gap) = g" using less.prems by (auto simp: g_def)
  obtain A B M G R where b: "buf = A @ B @ M @ G @ R" "length A = g" "length B = n - g" "length G = g" "length (A @ B @ M @ G) = reg1" "length R = r"
    by (rule buffer_split [OF g(2,3) less.prems(3)])
  define buf2 where "buf2 = pjmedia_copy_samples (pjmedia_move_samples buf (reg1 - g) reg1 r) (reg1 + r - g)
    (samples_at (pjmedia_move_samples buf (reg1 - g) reg1 r) 0 g)"
  obtain E where step: "buf2 = A @ B @ M @ R @ A" "pjmedia_move_samples buf2 0 (0 + g) (n - g) = B @ E @ M @ R @ A" "length E = g"
    using roll_step [OF b(1), unfolded b(2,5,6,3), OF b(4), folded buf2_def] by blast
  have old: "samples_at buf reg1 r = R" "samples_at buf 0 n = A @ B"
    using b g(2) by (auto simp: samples_at_def)
  have u: "roll_left buf reg1 r 0 n gap = (if n - g > 0 then roll_left (B @ E @ M @ R @ A) (reg1 - g) (r + g) 0 (n - g) g else Some (buf2, reg1 - g))"
    using g step by (subst roll_left.simps) (auto simp: Let_def buf2_def)
  show ?case
  proof (cases "n - g > 0")
    case True
    have len: "length (B @ E @ M @ R @ A) = length buf" "reg1 - g + (r + g) = length (B @ E @ M @ R @ A)"
      using b step(3) g by auto
    have "n - g + min g (n - g) \<le> reg1 - g" using g by linarith
    from less.IH [OF _ g(1) True len(2) this] g obtain buf' where
      buf': "roll_left (B @ E @ M @ R @ A) (reg1 - g) (r + g) 0 (n - g) g = Some (buf', reg1 - g - (n - g))" "length buf' = length buf"
      "samples_at buf' (reg1 - g - (n - g)) (r + g + (n - g)) =
         samples_at (B @ E @ M @ R @ A) (reg1 - g) (r + g) @ samples_at (B @ E @ M @ R @ A) 0 (n - g)"
      using len(1) by auto
    have "samples_at (B @ E @ M @ R @ A) (reg1 - g) (r + g) = R @ A" "samples_at (B @ E @ M @ R @ A) 0 (n - g) = B"
      using b step(3) g by (auto simp: samples_at_def)
    then show ?thesis using buf' u True old g by auto
  next
    case False
    then have "B = []" "n = g" using b g by auto
    then have "samples_at buf2 (reg1 - n) (r + n) = R @ A" "length buf2 = length buf"
      using b step(1) by (auto simp: samples_at_def)
    then show ?thesis using u False old \<open>B = []\<close> \<open>n = g\<close> by simp
  qed
qed

lemma circ_samples_start: "cb_start cb = 0 \<Longrightarrow> cb_len cb \<le> cb_capacity cb \<Longrightarrow> circ_inv cb \<Longrightarrow> circ_samples cb = take (cb_len cb) (cb_buf cb)"
  by (intro nth_equalityI) (auto simp: circ_samples_def circ_inv_def)

lemma circ_pack_ok:
  assumes "circ_inv cb" "\<not> (cb_len cb = cb_capacity cb \<and> cb_start cb \<noteq> 0)"
  shows "\<exists>buf'. pjmedia_circ_buf_pack_buffer cb = Some (PJ_SUCCESS, cb\<lparr>cb_buf := buf', cb_start := 0\<rparr>) \<and>
    length buf' = cb_capacity cb \<and> take (cb_len cb) buf' = circ_samples cb"
proof -
  obtain reg1 n1 reg2 n2 where r: "pjmedia_circ_buf_get_read_regions cb = (reg1, n1, reg2, n2)" by (metis prod_cases4)
  note reg = read_regions [OF assms(1) r]
  have l: "length (cb_buf cb) = cb_capacity cb" "cb_len cb \<le> cb_capacity cb" using assms(1) by (auto simp: circ_inv_def)
  have "\<exists>buf1 p. (if n2 \<noteq> 0 then roll_left (cb_buf cb) reg1 n1 (the reg2) n2 (cb_capacity cb - cb_len cb) else Some (cb_buf cb, reg1)) = Some (buf1, p) \<and>
      length buf1 = cb_capacity cb \<and> p + cb_len cb \<le> cb_capacity cb \<and> samples_at buf1 p (cb_len cb) = circ_samples cb"
  proof (cases "n2 = 0")
    case True
    then show ?thesis using reg l by auto
  next
    case False
    have "reg1 = 0 \<Longrightarrow> n2 = 0" using reg(2,4,7) l by (cases "n2 = 0") auto
    then have gap: "0 < cb_capacity cb - cb_len cb" using assms(2) l False reg(6) by auto
    then have "n2 + min (cb_capacity cb - cb_len cb) n2 \<le> reg1" using reg(2,7) False by auto
    from roll_left_ok [OF gap _ _ this, of n1 "cb_buf cb"] show ?thesis using reg False l by auto
  qed
  then obtain buf1 p where b: "(if n2 \<noteq> 0 then roll_left (cb_buf cb) reg1 n1 (the reg2) n2 (cb_capacity cb - cb_len cb) else Some (cb_buf cb, reg1)) = Some (buf1, p)"
    "length buf1 = cb_capacity cb" "p + cb_len cb \<le> cb_capacity cb" "samples_at buf1 p (cb_len cb) = circ_samples cb"
    by blast
  define buf' where "buf' = (if p \<noteq> 0 then pjmedia_move_samples buf1 0 p (cb_len cb) else buf1)"
  have "\<not> (n2 \<noteq> 0 \<and> cb_capacity cb - cb_len cb = 0)" using reg assms(2) l by auto
  then have "pjmedia_circ_buf_pack_buffer cb = Some (PJ_SUCCESS, cb\<lparr>cb_buf := buf', cb_start := 0\<rparr>)"
    using r b(1) by (auto simp: pjmedia_circ_buf_pack_buffer_def pjmedia_circ_buf_get_len_def buf'_def Let_def split: if_splits)
  moreover have "length buf' = cb_capacity cb" using b(2,3) by (auto simp: buf'_def pjmedia_move_samples_def length_copy_samples length_samples_at)
  moreover have "take (cb_len cb) buf' = circ_samples cb"
    using b(2-4) by (auto simp: buf'_def pjmedia_move_samples_def pjmedia_copy_samples_def samples_at_def)
  ultimately show ?thesis by blast
qed

lemma circ_pack_full:
  assumes "circ_inv cb" "cb_len cb = cb_capacity cb" "cb_start cb \<noteq> 0"
  shows "pjmedia_circ_buf_pack_buffer cb = Some (PJ_ETOOBIG, cb)"
  using assms by (auto simp: pjmedia_circ_buf_pack_buffer_def pjmedia_circ_buf_get_read_regions_def pjmedia_circ_buf_get_len_def circ_inv_def Let_def)

section \<open>The buffer as a queue\<close>

text \<open>
  What the users of the buffer (WSOLA, the delay buffer) rely on: a queue of samples with a fixed room. The operations
  of a user are a sequence of writes, reads and packings; the samples that went in and those that came out are kept.
\<close>

datatype fifo_op = FWrite "pj_int16_t list" | FRead nat | FPack

fun fifo_run :: "('b \<Rightarrow> pj_int16_t list \<Rightarrow> pj_status_t \<times> 'b) \<Rightarrow> ('b \<Rightarrow> nat \<Rightarrow> pj_status_t \<times> pj_int16_t list \<times> 'b) \<Rightarrow> ('b \<Rightarrow> 'b) \<Rightarrow>
    'b \<Rightarrow> fifo_op list \<Rightarrow> pj_int16_t list \<times> pj_int16_t list \<times> 'b" where
  "fifo_run put get pack b [] = ([], [], b)"
| "fifo_run put get pack b (FWrite xs # ops) =
     (let (status, b) = put b xs; (i, out, b) = fifo_run put get pack b ops
      in ((if status = PJ_SUCCESS then xs else []) @ i, out, b))"
| "fifo_run put get pack b (FRead n # ops) =
     (let (status, xs, b) = get b n; (i, out, b) = fifo_run put get pack b ops in (i, xs @ out, b))"
| "fifo_run put get pack b (FPack # ops) = fifo_run put get pack (pack b) ops"

locale sample_fifo =
  fixes inv :: "'b \<Rightarrow> bool" and samples :: "'b \<Rightarrow> pj_int16_t list" and size_of :: "'b \<Rightarrow> nat"
    and put :: "'b \<Rightarrow> pj_int16_t list \<Rightarrow> pj_status_t \<times> 'b"
    and get :: "'b \<Rightarrow> nat \<Rightarrow> pj_status_t \<times> pj_int16_t list \<times> 'b"
    and pack :: "'b \<Rightarrow> 'b"
  assumes bounded: "inv b \<Longrightarrow> length (samples b) \<le> size_of b"
    and put_fits: "inv b \<Longrightarrow> length (samples b) + length xs \<le> size_of b \<Longrightarrow> put b xs = (st, b') \<Longrightarrow>
      st = PJ_SUCCESS \<and> inv b' \<and> samples b' = samples b @ xs \<and> size_of b' = size_of b"
    and put_full: "inv b \<Longrightarrow> length (samples b) + length xs > size_of b \<Longrightarrow> put b xs = (PJ_ETOOBIG, b)"
    and get_some: "inv b \<Longrightarrow> n \<le> length (samples b) \<Longrightarrow> get b n = (st, ys, b') \<Longrightarrow>
      st = PJ_SUCCESS \<and> inv b' \<and> samples b = ys @ samples b' \<and> length ys = n \<and> size_of b' = size_of b"
    and get_short: "inv b \<Longrightarrow> n > length (samples b) \<Longrightarrow> get b n = (PJ_ETOOBIG, [], b)"
    and pack_keeps: "inv b \<Longrightarrow> inv (pack b) \<and> samples (pack b) = samples b \<and> size_of (pack b) = size_of b"
begin

lemma put_step:
  assumes "inv b" "put b xs = (st, b')"
  shows "inv b' \<and> size_of b' = size_of b \<and> samples b' = samples b @ (if st = PJ_SUCCESS then xs else [])"
  using put_fits [OF assms(1) _ assms(2)] put_full [OF assms(1), of xs] assms
  by (cases "length (samples b) + length xs \<le> size_of b") auto

lemma get_step:
  assumes "inv b" "get b n = (st, ys, b')"
  shows "inv b' \<and> size_of b' = size_of b \<and> samples b = ys @ samples b'"
  using get_some [OF assms(1) _ assms(2)] get_short [OF assms(1), of n] assms
  by (cases "n \<le> length (samples b)") auto

lemma run_in_order:
  "inv b \<Longrightarrow> fifo_run put get pack b ops = (i, out, b') \<Longrightarrow>
   inv b' \<and> size_of b' = size_of b \<and> samples b @ i = out @ samples b'"
proof (induction ops arbitrary: b i out)
  case (Cons op ops)
  show ?case
  proof (cases op)
    case (FWrite xs)
    obtain st b1 where p: "put b xs = (st, b1)" by (metis surj_pair)
    obtain i1 out1 where run: "fifo_run put get pack b1 ops = (i1, out1, b')"
      using Cons.prems(2) p FWrite by (auto split: prod.splits)
    show ?thesis using Cons.IH [OF _ run] put_step [OF Cons.prems(1) p] Cons.prems(2) FWrite p run by (auto split: if_splits)
  next
    case (FRead n)
    obtain st ys b1 where p: "get b n = (st, ys, b1)" by (metis prod_cases3)
    obtain i1 out1 where run: "fifo_run put get pack b1 ops = (i1, out1, b')"
      using Cons.prems(2) p FRead by (auto split: prod.splits)
    show ?thesis using Cons.IH [OF _ run] get_step [OF Cons.prems(1) p] Cons.prems(2) FRead p run by auto
  next
    case FPack
    then show ?thesis using Cons.IH [of "pack b"] pack_keeps [OF Cons.prems(1)] Cons.prems(2) by auto
  qed
qed auto

lemma run_backlog:
  assumes "inv b" "fifo_run put get pack b ops = (i, out, b')"
  shows "length (samples b) + length i \<le> length out + size_of b"
proof -
  have "inv b'" "size_of b' = size_of b" "samples b @ i = out @ samples b'" using run_in_order [OF assms] by auto
  then show ?thesis using bounded [of b'] by (metis add_left_mono length_append)
qed

end

text \<open>The buffer, packed when it can be.\<close>

definition circ_tidy :: "pjmedia_circ_buf \<Rightarrow> pjmedia_circ_buf" where
  "circ_tidy cb = (case pjmedia_circ_buf_pack_buffer cb of None \<Rightarrow> cb | Some (status, cb') \<Rightarrow> cb')"

lemma circ_tidy_keeps:
  assumes "circ_inv cb"
  shows "circ_inv (circ_tidy cb)" "circ_samples (circ_tidy cb) = circ_samples cb" "cb_capacity (circ_tidy cb) = cb_capacity cb"
proof -
  have "circ_inv (circ_tidy cb) \<and> circ_samples (circ_tidy cb) = circ_samples cb \<and> cb_capacity (circ_tidy cb) = cb_capacity cb"
  proof (cases "cb_len cb = cb_capacity cb \<and> cb_start cb \<noteq> 0")
    case True
    then show ?thesis using circ_pack_full [OF assms] assms by (simp add: circ_tidy_def)
  next
    case False
    obtain buf' where b: "pjmedia_circ_buf_pack_buffer cb = Some (PJ_SUCCESS, cb\<lparr>cb_buf := buf', cb_start := 0\<rparr>)"
      "length buf' = cb_capacity cb" "take (cb_len cb) buf' = circ_samples cb" using circ_pack_ok [OF assms False] by blast
    have i: "circ_inv (cb\<lparr>cb_buf := buf', cb_start := 0\<rparr>)" using assms b(2) by (auto simp: circ_inv_def)
    moreover have "circ_samples (cb\<lparr>cb_buf := buf', cb_start := 0\<rparr>) = circ_samples cb"
      using circ_samples_start [OF _ _ i] b(3) assms by (simp add: circ_inv_def)
    ultimately show ?thesis using b(1) by (simp add: circ_tidy_def)
  qed
  then show "circ_inv (circ_tidy cb)" "circ_samples (circ_tidy cb) = circ_samples cb" "cb_capacity (circ_tidy cb) = cb_capacity cb" by auto
qed

interpretation cb: sample_fifo circ_inv circ_samples cb_capacity pjmedia_circ_buf_write pjmedia_circ_buf_read circ_tidy
proof
  fix b st b' xs n ys
  assume b: "circ_inv b"
  then show "length (circ_samples b) \<le> cb_capacity b" by (simp add: circ_inv_def)
  show "st = PJ_SUCCESS \<and> circ_inv b' \<and> circ_samples b' = circ_samples b @ xs \<and> cb_capacity b' = cb_capacity b"
    if "length (circ_samples b) + length xs \<le> cb_capacity b" "pjmedia_circ_buf_write b xs = (st, b')"
    using circ_write_ok [OF b _ that(2)] that(1) by auto
  show "pjmedia_circ_buf_write b xs = (PJ_ETOOBIG, b)" if "length (circ_samples b) + length xs > cb_capacity b"
    using that b by (auto simp: pjmedia_circ_buf_write_def circ_inv_def)
  show "st = PJ_SUCCESS \<and> circ_inv b' \<and> circ_samples b = ys @ circ_samples b' \<and> length ys = n \<and> cb_capacity b' = cb_capacity b"
    if "n \<le> length (circ_samples b)" "pjmedia_circ_buf_read b n = (st, ys, b')"
    using circ_read_ok [OF b _ that(2)] that(1) by auto
  show "pjmedia_circ_buf_read b n = (PJ_ETOOBIG, [], b)" if "n > length (circ_samples b)"
    using that by (simp add: pjmedia_circ_buf_read_def)
  show "circ_inv (circ_tidy b) \<and> circ_samples (circ_tidy b) = circ_samples b \<and> cb_capacity (circ_tidy b) = cb_capacity b"
    using circ_tidy_keeps [OF b] by simp
qed

section \<open>Properties\<close>

lemmas circ_eval = pjmedia_circ_buf_create_def pjmedia_circ_buf_write_def pjmedia_circ_buf_read_def circ_tidy_def
  pjmedia_circ_buf_pack_buffer_def pjmedia_circ_buf_get_read_regions_def pjmedia_circ_buf_get_write_regions_def
  pjmedia_circ_buf_adv_read_ptr_def pjmedia_circ_buf_adv_write_ptr_def pjmedia_circ_buf_reset_def
  pjmedia_circ_buf_get_len_def pjmedia_move_samples_def pjmedia_copy_samples_def samples_at_def roll_left.simps

lemma circ_create_inv: "capacity < 2 ^ 31 \<Longrightarrow> circ_inv (pjmedia_circ_buf_create capacity)"
  by (simp add: circ_inv_def pjmedia_circ_buf_create_def)

text \<open>
  C17: A circular buffer created with a capacity below 2^31 is a queue: whatever sequence of writes, reads and packings is
  run on it, the samples read are, in their order, the samples that the successful writes wrote, those that are not
  read yet are still in the buffer, and the buffer never holds more than its capacity.
\<close>

theorem circbuf_is_queue:
  assumes "capacity < 2 ^ 31"
    "fifo_run pjmedia_circ_buf_write pjmedia_circ_buf_read circ_tidy (pjmedia_circ_buf_create capacity) ops = (written, read, cb)"
  shows "written = read @ circ_samples cb \<and> length written \<le> length read + capacity \<and> pjmedia_circ_buf_get_len cb = length written - length read"
proof -
  note i = circ_create_inv [OF assms(1)]
  have "circ_samples (pjmedia_circ_buf_create capacity) = []" "cb_capacity (pjmedia_circ_buf_create capacity) = capacity"
    by (simp_all add: circ_samples_def pjmedia_circ_buf_create_def)
  then have "written = read @ circ_samples cb" "length written \<le> length read + capacity"
    using cb.run_in_order [OF i assms(2)] cb.run_backlog [OF i assms(2)] by auto
  then show ?thesis by (simp add: pjmedia_circ_buf_get_len_def)
qed

theorem circbuf_is_queue_witness:
  "(4::nat) < 2 ^ 31 \<and>
   (\<exists>cb. fifo_run pjmedia_circ_buf_write pjmedia_circ_buf_read circ_tidy (pjmedia_circ_buf_create 4)
        [FWrite [1, 2, 3], FRead 2, FWrite [4, 5], FWrite [6, 7], FPack, FRead 1] = ([1, 2, 3, 4, 5], [1, 2, 3], cb) \<and> circ_samples cb = [4, 5])"
proof -
  define r where "r = fifo_run pjmedia_circ_buf_write pjmedia_circ_buf_read circ_tidy (pjmedia_circ_buf_create 4)
        [FWrite [1, 2, 3], FRead 2, FWrite [4, 5], FWrite [6, 7], FPack, FRead 1]"
  have e: "fst r = [1, 2, 3, 4, 5]" "fst (snd r) = [1, 2, 3]" unfolding r_def by (simp_all add: circ_eval)
  have "fst r = fst (snd r) @ circ_samples (snd (snd r))"
    using circbuf_is_queue [of 4 "[FWrite [1, 2, 3], FRead 2, FWrite [4, 5], FWrite [6, 7], FPack, FRead 1]" "fst r" "fst (snd r)" "snd (snd r)"]
    unfolding r_def [symmetric] by simp
  then have "r = ([1, 2, 3, 4, 5], [1, 2, 3], snd (snd r)) \<and> circ_samples (snd (snd r)) = [4, 5]" using e by (simp add: prod_eq_iff)
  then show ?thesis unfolding r_def [symmetric] by auto
qed

text \<open>
  C37: Packing always ends and never loses a sample: unless the buffer is full and does not start at its first cell, in
  which case it answers PJ_ETOOBIG and changes nothing, the samples are afterwards at the start of the buffer, contiguous
  and in their order, with the length and the capacity unchanged.
\<close>

theorem circbuf_pack:
  assumes "circ_inv cb"
  shows "if cb_len cb = cb_capacity cb \<and> cb_start cb \<noteq> 0 then pjmedia_circ_buf_pack_buffer cb = Some (PJ_ETOOBIG, cb)
    else (\<exists>buf'. pjmedia_circ_buf_pack_buffer cb = Some (PJ_SUCCESS, cb\<lparr>cb_buf := buf', cb_start := 0\<rparr>) \<and>
       length buf' = cb_capacity cb \<and> take (cb_len cb) buf' = circ_samples cb)"
  using circ_pack_full [OF assms] circ_pack_ok [OF assms] by auto

theorem circbuf_pack_witness:
  "\<exists>buf'. pjmedia_circ_buf_pack_buffer \<lparr>cb_buf = [4, 5, 0, 1, 2, 3], cb_capacity = 6, cb_start = 3, cb_len = 5\<rparr> =
      Some (PJ_SUCCESS, \<lparr>cb_buf = buf', cb_capacity = 6, cb_start = 0, cb_len = 5\<rparr>) \<and> take 5 buf' = [1, 2, 3, 4, 5]"
  using circbuf_pack [of "\<lparr>cb_buf = [4, 5, 0, 1, 2, 3], cb_capacity = 6, cb_start = 3, cb_len = 5\<rparr>"]
  by (auto simp: circ_inv_def circ_samples_def upt_rec)

text \<open>
  Flaw: the check of \<^verbatim>\<open>pjmedia_circ_buf_adv_write_ptr\<close> adds in 32 bits. A count close to 2^32 passes it and shortens
  the buffer.
\<close>

lemma circ_adv_write_wraps:
  assumes "circ_inv cb" "cb_len cb > 0"
  shows "pjmedia_circ_buf_adv_write_ptr cb (2 ^ 32 - 1) = (PJ_SUCCESS, cb\<lparr>cb_len := cb_len cb - 1\<rparr>)"
proof -
  have "(2 ^ 32 - 1 + cb_len cb) mod 2 ^ 32 = (cb_len cb - 1 + 2 ^ 32) mod 2 ^ 32" using assms(2) by simp
  also have "\<dots> = cb_len cb - 1" using assms by (subst mod_add_self2) (auto simp: circ_inv_def)
  finally have "(2 ^ 32 - 1 + cb_len cb) mod 2 ^ 32 = cb_len cb - 1" .
  moreover have "\<not> cb_capacity cb < cb_len cb - 1" using assms by (auto simp: circ_inv_def)
  ultimately show ?thesis by (simp only: pjmedia_circ_buf_adv_write_ptr_def add.commute [of "cb_len cb"] if_False)
qed

end
