(* ===== verification/PJ_Pool.thy ===== *)
theory PJ_Pool
  imports PJ_Prelude
begin

text \<open>
  Memory pools, \<^verbatim>\<open>pjlib/src/pj/pool.c\<close>, the inline functions of \<^verbatim>\<open>pool_i.h\<close>, and pools on a buffer of the
  caller, \<^verbatim>\<open>pool_buf.c\<close>. Addresses are natural numbers below \<^verbatim>\<open>2^64\<close> and sizes (\<^verbatim>\<open>pj_size_t\<close>) natural
  numbers whose wrap-around is written out; the structures have the sizes of a 64-bit target. The functions of a
  factory's policy are arguments, as they are function pointers in the code. What a factory promises is stated as a locale, in which
  the properties of a pool are proved. The names of pools, which only logs use, are not modelled.
\<close>

section \<open>The code\<close>

record pj_pool_block =
  pb_addr :: nat
  pb_buf :: nat
  pb_cur :: nat
  pb_end :: nat

text \<open>The list of blocks starts with the newest one; the last one shares its memory with the pool.\<close>

record pj_pool_t =
  po_addr :: nat
  po_factory_data :: nat
  po_capacity :: nat
  po_increment_size :: nat
  po_block_list :: "pj_pool_block list"

definition sizeof_pool :: nat where "sizeof_pool = 128"
definition sizeof_block :: nat where "sizeof_block = 40"
definition PJ_POOL_ALIGNMENT :: nat where "PJ_POOL_ALIGNMENT = 4"

lemmas pool_sizeof = sizeof_pool_def sizeof_block_def PJ_POOL_ALIGNMENT_def

definition ALIGN_PTR :: "nat \<Rightarrow> nat" where
  "ALIGN_PTR p = p + nat ((- int p) mod int PJ_POOL_ALIGNMENT)"

text \<open>
  The result of an allocation: a pointer, \<^verbatim>\<open>NULL\<close> (after the callback of the pool has been called, which by default
  raises an exception), or a failed assertion.
\<close>

datatype pool_result = PR_ptr nat | PR_null | PR_assert

type_synonym 'f block_alloc = "'f \<Rightarrow> nat \<Rightarrow> nat option \<times> 'f"
type_synonym 'f block_free = "'f \<Rightarrow> nat \<Rightarrow> nat \<Rightarrow> 'f"

definition pool_round :: "nat \<Rightarrow> nat" where
  "pool_round sz =
     (if sz mod PJ_POOL_ALIGNMENT \<noteq> 0 then (sz + PJ_POOL_ALIGNMENT) mod 2 ^ 64 div PJ_POOL_ALIGNMENT * PJ_POOL_ALIGNMENT else sz)"

definition pj_pool_alloc_from_block :: "pj_pool_block \<Rightarrow> nat \<Rightarrow> nat option \<times> pj_pool_block" where
  "pj_pool_alloc_from_block block sz =
     (if nat ((int (pb_end block) - int (pb_cur block)) mod 2 ^ 64) \<ge> pool_round sz
      then (Some (pb_cur block), block\<lparr>pb_cur := pb_cur block + pool_round sz\<rparr>)
      else (None, block))"

definition pj_pool_create_block :: "'f block_alloc \<Rightarrow> 'f \<Rightarrow> pj_pool_t \<Rightarrow> nat \<Rightarrow> (pj_pool_block option \<times> pj_pool_t \<times> 'f) option" where
  "pj_pool_create_block block_alloc f pool sz =
     (if sz < sizeof_block then None
      else case block_alloc f sz of
        (None, f) \<Rightarrow> Some (None, pool, f)
      | (Some block, f) \<Rightarrow>
          let b = \<lparr>pb_addr = block, pb_buf = block + sizeof_block, pb_cur = ALIGN_PTR (block + sizeof_block), pb_end = block + sz\<rparr>
          in Some (Some b, pool\<lparr>po_capacity := (po_capacity pool + sz) mod 2 ^ 64, po_block_list := b # po_block_list pool\<rparr>, f))"

fun find_in_blocks :: "pj_pool_block list \<Rightarrow> nat \<Rightarrow> nat option \<times> pj_pool_block list" where
  "find_in_blocks [] sz = (None, [])"
| "find_in_blocks (block # blocks) sz =
     (case pj_pool_alloc_from_block block sz of
        (Some p, block) \<Rightarrow> (Some p, block # blocks)
      | (None, block) \<Rightarrow> let (p, blocks) = find_in_blocks blocks sz in (p, block # blocks))"

text \<open>The size of the block by which a pool grows.\<close>

definition grow_size :: "nat \<Rightarrow> nat \<Rightarrow> nat" where
  "grow_size increment_size sz =
     (if increment_size < (sz + sizeof_block + PJ_POOL_ALIGNMENT) mod 2 ^ 64
      then (sz + increment_size + sizeof_block + PJ_POOL_ALIGNMENT) mod 2 ^ 64 div increment_size * increment_size mod 2 ^ 64
      else increment_size)"

definition pj_pool_allocate_find :: "'f block_alloc \<Rightarrow> 'f \<Rightarrow> pj_pool_t \<Rightarrow> nat \<Rightarrow> pool_result \<times> pj_pool_t \<times> 'f" where
  "pj_pool_allocate_find block_alloc f pool sz =
     (case find_in_blocks (po_block_list pool) sz of
        (Some p, blocks) \<Rightarrow> (PR_ptr p, pool\<lparr>po_block_list := blocks\<rparr>, f)
      | (None, _) \<Rightarrow>
          if po_increment_size pool = 0 then (PR_null, pool, f)
          else case pj_pool_create_block block_alloc f pool (grow_size (po_increment_size pool) sz) of
                 None \<Rightarrow> (PR_assert, pool, f)
               | Some (None, pool, f) \<Rightarrow> (PR_null, pool, f)
               | Some (Some block, pool, f) \<Rightarrow>
                   (case pj_pool_alloc_from_block block sz of
                      (Some p, block) \<Rightarrow> (PR_ptr p, pool\<lparr>po_block_list := block # tl (po_block_list pool)\<rparr>, f)
                    | (None, block) \<Rightarrow> (PR_assert, pool, f)))"

definition pj_pool_alloc :: "'f block_alloc \<Rightarrow> 'f \<Rightarrow> pj_pool_t \<Rightarrow> nat \<Rightarrow> pool_result \<times> pj_pool_t \<times> 'f" where
  "pj_pool_alloc block_alloc f pool sz =
     (case pj_pool_alloc_from_block (hd (po_block_list pool)) sz of
        (Some p, block) \<Rightarrow> (PR_ptr p, pool\<lparr>po_block_list := block # tl (po_block_list pool)\<rparr>, f)
      | (None, _) \<Rightarrow> pj_pool_allocate_find block_alloc f pool sz)"

text \<open>\<^verbatim>\<open>calloc\<close> clears the memory that it gives out; its first and last address are part of the result.\<close>

definition pj_pool_calloc :: "'f block_alloc \<Rightarrow> 'f \<Rightarrow> pj_pool_t \<Rightarrow> nat \<Rightarrow> nat \<Rightarrow> pool_result \<times> (nat \<times> nat) \<times> pj_pool_t \<times> 'f" where
  "pj_pool_calloc block_alloc f pool n sz =
     (let (r, pool, f) = pj_pool_alloc block_alloc f pool (sz * n mod 2 ^ 64)
      in (r, (case r of PR_ptr p \<Rightarrow> (p, p + sz * n mod 2 ^ 64) | _ \<Rightarrow> (0, 0)), pool, f))"

definition pj_pool_get_capacity :: "pj_pool_t \<Rightarrow> nat" where
  "pj_pool_get_capacity pool = po_capacity pool"

definition pj_pool_get_used_size :: "pj_pool_t \<Rightarrow> nat" where
  "pj_pool_get_used_size pool =
     foldl (\<lambda>used b. (used + (pb_cur b - pb_buf b) + sizeof_block) mod 2 ^ 64) sizeof_pool (po_block_list pool)"

definition pj_pool_init_int :: "pj_pool_t \<Rightarrow> nat \<Rightarrow> pj_pool_t" where
  "pj_pool_init_int pool increment_size = pool\<lparr>po_increment_size := increment_size\<rparr>"

definition pj_pool_create_int :: "'f block_alloc \<Rightarrow> 'f \<Rightarrow> nat \<Rightarrow> nat \<Rightarrow> pj_pool_t option \<times> 'f" where
  "pj_pool_create_int block_alloc f initial_size increment_size =
     (if initial_size < sizeof_pool + sizeof_block then (None, f)
      else case block_alloc f initial_size of
        (None, f) \<Rightarrow> (None, f)
      | (Some buffer, f) \<Rightarrow>
          let block = buffer + sizeof_pool;
              b = \<lparr>pb_addr = block, pb_buf = block + sizeof_block, pb_cur = ALIGN_PTR (block + sizeof_block), pb_end = buffer + initial_size\<rparr>;
              pool = \<lparr>po_addr = buffer, po_factory_data = 0, po_capacity = 0, po_increment_size = 0, po_block_list = [b]\<rparr>
          in (Some ((pj_pool_init_int pool increment_size)\<lparr>po_capacity := initial_size\<rparr>), f))"

text \<open>
  A reset frees the blocks from the second oldest to the newest.
\<close>

definition free_block :: "'f block_free \<Rightarrow> pj_pool_block \<Rightarrow> 'f \<Rightarrow> 'f" where
  "free_block block_free b f = block_free f (pb_addr b) (pb_end b - pb_addr b)"

definition reset_pool :: "'f block_free \<Rightarrow> 'f \<Rightarrow> pj_pool_t \<Rightarrow> pj_pool_t \<times> 'f" where
  "reset_pool block_free f pool =
     (if po_block_list pool = [] then (pool, f)
      else
        let f = fold (free_block block_free) (rev (butlast (po_block_list pool))) f;
            block = last (po_block_list pool);
            block = block\<lparr>pb_cur := ALIGN_PTR (pb_buf block)\<rparr>
        in (pool\<lparr>po_block_list := [block], po_capacity := pb_end block - po_addr pool\<rparr>, f))"

definition pj_pool_reset :: "'f block_free \<Rightarrow> 'f \<Rightarrow> pj_pool_t \<Rightarrow> pj_pool_t \<times> 'f" where
  "pj_pool_reset block_free f pool = reset_pool block_free f pool"

definition pj_pool_destroy_int :: "'f block_free \<Rightarrow> 'f \<Rightarrow> pj_pool_t \<Rightarrow> 'f" where
  "pj_pool_destroy_int block_free f pool =
     (let (pool, f) = reset_pool block_free f pool
      in block_free f (po_addr pool) (pb_end (hd (po_block_list pool)) - po_addr pool))"

text \<open>
  Pools on a buffer: the allocator of this factory hands out one buffer, which the thread that creates the pool has set
  (\<^verbatim>\<open>None\<close> when it is not set).
\<close>

definition stack_alloc :: "(nat \<times> nat) option block_alloc" where
  "stack_alloc param sz =
     (case param of None \<Rightarrow> (None, None)
      | Some (stack_buf, param_size) \<Rightarrow> if sz \<le> param_size then (Some stack_buf, None) else (None, None))"

definition pj_pool_create_on_buf :: "nat \<Rightarrow> nat \<Rightarrow> pj_pool_t option \<times> (nat \<times> nat) option" where
  "pj_pool_create_on_buf buf sz =
     (if buf = 0 \<or> sz = 0 then (None, None)
      else
        let align_diff = buf mod PJ_POOL_ALIGNMENT;
            (buf, sz) = (if align_diff \<noteq> 0 then (buf + align_diff, nat ((int sz - int align_diff) mod 2 ^ 64)) else (buf, sz))
        in pj_pool_create_int stack_alloc (Some (buf, sz)) sz 0)"

section \<open>A pool and its blocks\<close>

text \<open>
  The chunks of memory that a pool holds, each with its address and size, and when a pool is well formed. Every allocation
  is a multiple of four bytes from an address that is one.
\<close>

definition block_ok :: "pj_pool_block \<Rightarrow> bool" where
  "block_ok b \<longleftrightarrow> pb_buf b = pb_addr b + sizeof_block \<and> pb_buf b \<le> pb_cur b \<and> pb_cur b \<le> pb_end b \<and> pb_end b < 2 ^ 64 \<and>
     pb_addr b mod 8 = 0 \<and> pb_cur b mod 4 = 0"

definition block_chunk :: "pj_pool_block \<Rightarrow> nat \<times> nat" where
  "block_chunk b = (pb_addr b, pb_end b - pb_addr b)"

definition pool_chunks :: "pj_pool_t \<Rightarrow> (nat \<times> nat) list" where
  "pool_chunks pool = map block_chunk (butlast (po_block_list pool)) @ [(po_addr pool, pb_end (last (po_block_list pool)) - po_addr pool)]"

definition pool_ok :: "pj_pool_t \<Rightarrow> bool" where
  "pool_ok pool \<longleftrightarrow> po_block_list pool \<noteq> [] \<and> list_all block_ok (po_block_list pool) \<and>
     pb_addr (last (po_block_list pool)) = po_addr pool + sizeof_pool \<and> po_increment_size pool < 2 ^ 62"

text \<open>The size of all chunks of a collection.\<close>

definition total_size :: "(nat \<times> nat) multiset \<Rightarrow> nat" where
  "total_size M = (\<Sum>c \<in># M. snd c)"

lemma total_size_simps [simp]: "total_size {#} = 0" "total_size (add_mset c M) = snd c + total_size M" "total_size (M + N) = total_size M + total_size N"
  by (simp_all add: total_size_def)

definition sane_size :: "nat \<Rightarrow> bool" where
  "sane_size n \<longleftrightarrow> n < 2 ^ 62"

lemma pool_round_sane: "sane_size n \<Longrightarrow> n \<le> pool_round n \<and> pool_round n \<le> n + 3 \<and> pool_round n mod 4 = 0"
  by (auto simp: pool_round_def sane_size_def PJ_POOL_ALIGNMENT_def) presburger+

lemma ALIGN_PTR_aligned: "p mod 4 = 0 \<Longrightarrow> ALIGN_PTR p = p"
  by (simp add: ALIGN_PTR_def PJ_POOL_ALIGNMENT_def) presburger

lemma alloc_from_block_ok:
  assumes "block_ok b" "sane_size n"
  shows "pj_pool_alloc_from_block b n =
    (if pb_cur b + pool_round n \<le> pb_end b then (Some (pb_cur b), b\<lparr>pb_cur := pb_cur b + pool_round n\<rparr>) else (None, b))"
proof -
  have "(int (pb_end b) - int (pb_cur b)) mod 2 ^ 64 = int (pb_end b - pb_cur b)"
    using assms(1) by (auto simp: block_ok_def of_nat_diff)
  then show ?thesis using assms(1) by (auto simp: pj_pool_alloc_from_block_def block_ok_def)
qed

lemma alloc_from_block_keeps:
  assumes "block_ok b" "sane_size n" "pj_pool_alloc_from_block b n = (r, b')"
  shows "block_ok b'" "block_chunk b' = block_chunk b" "pb_addr b' = pb_addr b" "pb_buf b' = pb_buf b" "pb_end b' = pb_end b"
  using assms(3) assms(1) pool_round_sane [OF assms(2)]
  by (auto simp: alloc_from_block_ok [OF assms(1,2)] block_ok_def block_chunk_def mod_add_eq [symmetric] split: if_splits)

text \<open>An allocation takes its memory from one of the blocks.\<close>

definition takes :: "pj_pool_block list \<Rightarrow> pj_pool_block list \<Rightarrow> nat \<Rightarrow> nat \<Rightarrow> bool" where
  "takes bs bs' p n \<longleftrightarrow> (\<exists>xs b ys. bs = xs @ b # ys \<and> bs' = xs @ b\<lparr>pb_cur := pb_cur b + pool_round n\<rparr> # ys \<and> p = pb_cur b \<and>
     pb_cur b + pool_round n \<le> pb_end b)"

lemma takes_hd: "takes (b # ys) (b\<lparr>pb_cur := pb_cur b + pool_round n\<rparr> # ys) (pb_cur b) n"
  if "pb_cur b + pool_round n \<le> pb_end b"
  using that unfolding takes_def by (intro exI [of _ "[]"] exI [of _ b] exI [of _ ys]) simp

lemma takes_tl: "takes bs bs' p n \<Longrightarrow> takes (c # bs) (c # bs') p n"
  unfolding takes_def by (metis append_Cons)

lemma find_in_blocks_ok:
  assumes "list_all block_ok bs" "sane_size n" "find_in_blocks bs n = (r, bs')"
  shows "(r = None \<and> bs' = bs) \<or> (\<exists>p. r = Some p \<and> takes bs bs' p n)"
  using assms
proof (induction bs arbitrary: bs' r)
  case (Cons b bs)
  then show ?case
  proof (cases "pb_cur b + pool_round n \<le> pb_end b")
    case True
    then show ?thesis using Cons.prems takes_hd [OF True] by (auto simp: alloc_from_block_ok)
  next
    case False
    then obtain bs1 where "find_in_blocks bs n = (r, bs1)" "bs' = b # bs1"
      using Cons.prems by (auto simp: alloc_from_block_ok split: prod.splits)
    then show ?thesis using Cons.IH Cons.prems takes_tl by fastforce
  qed
qed simp

lemma takes_keeps:
  assumes "takes bs bs' p n" "list_all block_ok bs" "sane_size n"
  shows "list_all block_ok bs'" "map block_chunk bs' = map block_chunk bs" "map pb_end bs' = map pb_end bs"
    "map pb_addr bs' = map pb_addr bs" "length bs' = length bs"
  using assms pool_round_sane [OF assms(3)]
  by (auto simp: takes_def block_chunk_def block_ok_def list_all_iff mod_add_eq [symmetric])

lemma last_map_eq: "map f xs = map f ys \<Longrightarrow> xs \<noteq> [] \<Longrightarrow> f (last xs) = f (last ys)"
  by (metis last_map map_is_Nil_conv)

lemma takes_pool:
  assumes "takes (po_block_list pool) bs' p n" "pool_ok pool" "sane_size n"
  shows "pool_ok (pool\<lparr>po_block_list := bs'\<rparr>)" "pool_chunks (pool\<lparr>po_block_list := bs'\<rparr>) = pool_chunks pool"
proof -
  have ok: "list_all block_ok (po_block_list pool)" "po_block_list pool \<noteq> []" using assms(2) by (auto simp: pool_ok_def)
  note k = takes_keeps [OF assms(1) ok(1) assms(3)]
  have ne: "bs' \<noteq> []" using k(5) ok(2) by auto
  have l: "pb_addr (last bs') = pb_addr (last (po_block_list pool))" "pb_end (last bs') = pb_end (last (po_block_list pool))"
    using last_map_eq [OF k(4) ne] last_map_eq [OF k(3) ne] by auto
  show "pool_ok (pool\<lparr>po_block_list := bs'\<rparr>)" using k ne l assms(2) by (auto simp: pool_ok_def)
  have "map block_chunk (butlast bs') = map block_chunk (butlast (po_block_list pool))" using k(2) by (simp add: map_butlast)
  then show "pool_chunks (pool\<lparr>po_block_list := bs'\<rparr>) = pool_chunks pool" using l by (simp add: pool_chunks_def)
qed

lemma grow_size_eq:
  "grow_size inc n = (if inc < (n + 44) mod 2 ^ 64 then (n + inc + 44) mod 2 ^ 64 div inc * inc mod 2 ^ 64 else inc)"
  unfolding grow_size_def pool_sizeof by (simp add: add.assoc)

lemma grow_size_sane:
  assumes "0 < inc" "inc < 2 ^ 62" "sane_size n"
  shows "n + 44 \<le> grow_size inc n \<and> grow_size inc n < 2 ^ 64"
proof (cases "inc < n + 44")
  case True
  let ?q = "(n + inc + 44) div inc"
  have eq: "?q * inc + (n + inc + 44) mod inc = n + inc + 44" by (rule div_mult_mod_eq)
  moreover have "(n + inc + 44) mod inc < inc" using assms(1) by simp
  ultimately have b: "n + 44 \<le> ?q * inc" "?q * inc \<le> n + inc + 44" by linarith+
  have "n + inc + 44 < 2 ^ 64" using assms by (simp add: sane_size_def)
  moreover from this b have "?q * inc < 2 ^ 64" by linarith
  ultimately have "grow_size inc n = ?q * inc" using True by (simp add: grow_size_eq)
  then show ?thesis using b \<open>?q * inc < 2 ^ 64\<close> by simp
next
  case False
  then show ?thesis using assms by (auto simp: grow_size_def pool_sizeof sane_size_def)
qed

text \<open>A new block.\<close>

definition new_block :: "nat \<Rightarrow> nat \<Rightarrow> pj_pool_block" where
  "new_block a n = \<lparr>pb_addr = a, pb_buf = a + sizeof_block, pb_cur = a + sizeof_block, pb_end = a + n\<rparr>"

lemma new_block_ok: "a mod 8 = 0 \<Longrightarrow> 40 \<le> n \<Longrightarrow> a + n < 2 ^ 64 \<Longrightarrow> block_ok (new_block a n) \<and> block_chunk (new_block a n) = (a, n)"
  by (auto simp: new_block_def block_ok_def block_chunk_def sizeof_block_def)

text \<open>What the functions of the policy leave alone, the operations of a pool leave alone.\<close>

lemma create_frame:
  assumes "\<And>f n. g (snd (block_alloc f n)) = g f"
  shows "g (snd (pj_pool_create_int block_alloc f n inc)) = g f"
  using assms [of f n] by (auto simp: pj_pool_create_int_def Let_def split: prod.splits option.splits)

lemma alloc_frame:
  assumes "\<And>f n. g (snd (block_alloc f n)) = g f"
  shows "g (snd (snd (pj_pool_alloc block_alloc f pool n))) = g f"
  using assms [of f "grow_size (po_increment_size pool) n"]
  by (auto simp: pj_pool_alloc_def pj_pool_allocate_find_def pj_pool_create_block_def Let_def split: prod.splits option.splits if_splits)

lemma reset_frame:
  assumes "\<And>f a n. g (block_free f a n) = g f"
  shows "g (snd (reset_pool block_free f pool)) = g f"
proof -
  have "g (fold (free_block block_free) bs f) = g f" for bs
    by (induction bs arbitrary: f) (auto simp: free_block_def assms)
  then show ?thesis by (auto simp: reset_pool_def Let_def)
qed

lemma destroy_frame:
  assumes "\<And>f a n. g (block_free f a n) = g f"
  shows "g (pj_pool_destroy_int block_free f pool) = g f"
  using reset_frame [of g block_free f pool, OF assms] by (auto simp: pj_pool_destroy_int_def assms split: prod.splits)

section \<open>What a factory promises\<close>

text \<open>
  A factory owns a number of chunks of memory. A chunk that it hands out is aligned, not \<^verbatim>\<open>NULL\<close>, lies inside the
  address space and apart from all others; a chunk that is given back, at the size that was asked for, is owned no more.
\<close>

definition apart :: "nat \<times> nat \<Rightarrow> nat \<times> nat \<Rightarrow> bool" where
  "apart c d \<longleftrightarrow> fst c + snd c \<le> fst d \<or> fst d + snd d \<le> fst c"

definition chunk_ok :: "nat \<times> nat \<Rightarrow> bool" where
  "chunk_ok c \<longleftrightarrow> 0 < fst c \<and> 0 < snd c \<and> fst c mod 8 = 0 \<and> fst c + snd c < 2 ^ 64"

locale pool_factory =
  fixes inv :: "'f \<Rightarrow> bool" and owned :: "'f \<Rightarrow> (nat \<times> nat) multiset"
    and block_alloc :: "'f block_alloc" and block_free :: "'f block_free"
  assumes alloc_some: "inv f \<Longrightarrow> 0 < n \<Longrightarrow> n < 2 ^ 64 \<Longrightarrow> block_alloc f n = (Some a, f') \<Longrightarrow>
      inv f' \<and> owned f' = add_mset (a, n) (owned f) \<and> chunk_ok (a, n) \<and> (\<forall>c \<in># owned f. apart (a, n) c)"
    and alloc_none: "inv f \<Longrightarrow> block_alloc f n = (None, f') \<Longrightarrow> inv f' \<and> owned f' = owned f"
    and free_owned: "inv f \<Longrightarrow> (a, n) \<in># owned f \<Longrightarrow> inv (block_free f a n) \<and> owned (block_free f a n) = owned f - {#(a, n)#}"
begin

lemma create_block_ok:
  assumes "inv f" "g < 2 ^ 64" "40 \<le> g" "block_alloc f g = (Some a, f1)"
  shows "block_ok (new_block a g)" "pj_pool_create_block block_alloc f pool g = Some (Some (new_block a g),
      pool\<lparr>po_capacity := (po_capacity pool + g) mod 2 ^ 64, po_block_list := new_block a g # po_block_list pool\<rparr>, f1)"
proof -
  have c: "chunk_ok (a, g)" using alloc_some [OF assms(1) _ assms(2,4)] assms(3) by auto
  then show "block_ok (new_block a g)" using new_block_ok [of a g] assms(3) by (auto simp: chunk_ok_def)
  have "ALIGN_PTR (a + sizeof_block) = a + sizeof_block"
    using c by (intro ALIGN_PTR_aligned) (auto simp: chunk_ok_def sizeof_block_def)
  then show "pj_pool_create_block block_alloc f pool g = Some (Some (new_block a g),
      pool\<lparr>po_capacity := (po_capacity pool + g) mod 2 ^ 64, po_block_list := new_block a g # po_block_list pool\<rparr>, f1)"
    using assms(3,4) by (auto simp: pj_pool_create_block_def new_block_def sizeof_block_def Let_def)
qed

lemma alloc_cases:
  assumes "inv f" "pool_ok pool" "sane_size n" "pj_pool_alloc block_alloc f pool n = (r, pool', f')"
  obtains (old) bs' p where "r = PR_ptr p" "f' = f" "pool' = pool\<lparr>po_block_list := bs'\<rparr>" "takes (po_block_list pool) bs' p n"
  | (null) "r = PR_null" "pool' = pool" "inv f'" "owned f' = owned f"
      "po_increment_size pool = 0 \<or> fst (block_alloc f (grow_size (po_increment_size pool) n)) = None"
  | (new) a g b where "r = PR_ptr (pb_cur b)" "block_alloc f g = (Some a, f')" "40 \<le> g" "g < 2 ^ 64" "b = new_block a g"
      "pool' = pool\<lparr>po_capacity := (po_capacity pool + g) mod 2 ^ 64,
         po_block_list := b\<lparr>pb_cur := pb_cur b + pool_round n\<rparr> # po_block_list pool\<rparr>"
      "pb_cur b + pool_round n \<le> pb_end b"
proof -
  obtain h bs where bs: "po_block_list pool = h # bs" "block_ok h" "list_all block_ok (h # bs)"
    using assms(2) by (cases "po_block_list pool") (auto simp: pool_ok_def)
  obtain fr fbs where fb: "find_in_blocks (po_block_list pool) n = (fr, fbs)" by (metis surj_pair)
  note cases_fb = find_in_blocks_ok [OF _ assms(3) fb]
  let ?g = "grow_size (po_increment_size pool) n"
  note alloc_unfold = assms(4) [unfolded pj_pool_alloc_def bs(1) list.sel alloc_from_block_ok [OF bs(2) assms(3)]]
  show thesis
  proof (cases "pb_cur h + pool_round n \<le> pb_end h")
    case True
    then show ?thesis using old [of "pb_cur h" "h\<lparr>pb_cur := pb_cur h + pool_round n\<rparr> # bs"] takes_hd [OF True, of bs] alloc_unfold bs(1) by auto
  next
    case False
    then have af: "pj_pool_allocate_find block_alloc f pool n = (r, pool', f')" using alloc_unfold bs(1) by auto
    consider (found) p where "fr = Some p" "takes (po_block_list pool) fbs p n" | (full) "fr = None" using cases_fb bs by auto
    then show ?thesis
    proof cases
      case found
      then show ?thesis using old [of p fbs] af fb by (auto simp: pj_pool_allocate_find_def)
    next
      case full
      show ?thesis
      proof (cases "po_increment_size pool = 0")
        case True
        then show ?thesis using null af fb full assms(1) by (auto simp: pj_pool_allocate_find_def)
      next
        case inc: False
        have g: "n + 44 \<le> ?g" "?g < 2 ^ 64" using grow_size_sane [OF _ _ assms(3)] inc assms(2) by (auto simp: pool_ok_def)
        obtain ar f1 where ba: "block_alloc f ?g = (ar, f1)" by (metis surj_pair)
        show ?thesis
        proof (cases ar)
          case None
          then show ?thesis
            using null af fb full inc g ba alloc_none [OF assms(1), of ?g f1]
            by (auto simp: pj_pool_allocate_find_def pj_pool_create_block_def sizeof_block_def)
        next
          case (Some a)
          note cb = create_block_ok [OF assms(1) g(2) _ ba [unfolded Some]]
          have fits: "pb_cur (new_block a ?g) + pool_round n \<le> pb_end (new_block a ?g)"
            using pool_round_sane [OF assms(3)] g by (auto simp: new_block_def sizeof_block_def)
          then show ?thesis
            using new [of "new_block a ?g" ?g a] cb af fb full inc g ba Some alloc_from_block_ok [OF _ assms(3)]
            by (auto simp: pj_pool_allocate_find_def)
        qed
      qed
    qed
  qed
qed

text \<open>What the operations keep: a pool stays well formed, and the memory that the factory owns changes exactly as that of the pool.\<close>

lemma alloc_keeps:
  assumes "inv f" "pool_ok pool" "sane_size n" "pj_pool_alloc block_alloc f pool n = (r, pool', f')"
  shows "inv f' \<and> pool_ok pool' \<and> owned f' + mset (pool_chunks pool) = owned f + mset (pool_chunks pool') \<and> r \<noteq> PR_assert \<and>
    po_addr pool' = po_addr pool \<and> po_factory_data pool' = po_factory_data pool \<and> last (pool_chunks pool') = last (pool_chunks pool) \<and>
    (po_capacity pool = total_size (mset (pool_chunks pool)) mod 2 ^ 64 \<longrightarrow> po_capacity pool' = total_size (mset (pool_chunks pool')) mod 2 ^ 64)"
proof (rule alloc_cases [OF assms], goal_cases)
  case (1 bs' p)
  then show ?thesis using takes_pool [OF _ assms(2,3)] assms(1) by auto
next
  case 2
  then show ?thesis using assms(2) by auto
next
  case (3 a g b)
  note c = alloc_some [OF assms(1) _ 3(4,2)]
  have b: "block_ok b" "block_chunk b = (a, g)" using new_block_ok [of a g] c 3 by (auto simp: chunk_ok_def)
  have "takes [b] [b\<lparr>pb_cur := pb_cur b + pool_round n\<rparr>] (pb_cur b) n" by (rule takes_hd [OF 3(7)])
  from takes_keeps(1,2) [OF this _ assms(3)] b
  have "block_ok (b\<lparr>pb_cur := pb_cur b + pool_round n\<rparr>)" "block_chunk (b\<lparr>pb_cur := pb_cur b + pool_round n\<rparr>) = (a, g)" by auto
  then have p: "pool_chunks pool' = (a, g) # pool_chunks pool" using 3 assms(2) by (auto simp: pool_ok_def pool_chunks_def)
  have "(total_size (mset (pool_chunks pool)) mod 2 ^ 64 + g) mod 2 ^ 64 = (g + total_size (mset (pool_chunks pool))) mod 2 ^ 64"
    by (metis add.commute mod_add_left_eq)
  then show ?thesis using c 3 assms(2) p \<open>block_ok (b\<lparr>pb_cur := _\<rparr>)\<close> by (auto simp: pool_ok_def pool_chunks_def)
qed

text \<open>Where the memory comes from: behind everything that the block has given out, or from a chunk of its own.\<close>

lemma alloc_region:
  assumes "inv f" "pool_ok pool" "sane_size n" "pj_pool_alloc block_alloc f pool n = (PR_ptr p, pool', f')"
  shows "\<exists>b b'. b' \<in> set (po_block_list pool') \<and> pb_buf b' \<le> p \<and> p + n \<le> pb_cur b' \<and> p mod 4 = 0 \<and>
    pb_cur b = p \<and> pb_addr b \<le> p \<and> p + n \<le> pb_end b \<and> (b \<in> set (po_block_list pool) \<or> (\<forall>c \<in># owned f. apart (block_chunk b) c))"
proof (rule alloc_cases [OF assms], goal_cases)
  case (1 bs' p')
  then obtain xs b ys where b: "po_block_list pool = xs @ b # ys" "bs' = xs @ b\<lparr>pb_cur := pb_cur b + pool_round n\<rparr> # ys" "p = pb_cur b"
    "pb_cur b + pool_round n \<le> pb_end b" by (auto simp: takes_def)
  have "block_ok b" using assms(2) b(1) by (auto simp: pool_ok_def)
  then show ?thesis using 1 b pool_round_sane [OF assms(3)]
    by (intro exI [of _ b] exI [of _ "b\<lparr>pb_cur := pb_cur b + pool_round n\<rparr>"]) (auto simp: block_ok_def)
next
  case 2
  then show ?thesis by simp
next
  case (3 a g b)
  note c = alloc_some [OF assms(1) _ 3(4,2)]
  have "block_ok b" "block_chunk b = (a, g)" using new_block_ok [of a g] c 3 by (auto simp: chunk_ok_def)
  then show ?thesis using 3 c pool_round_sane [OF assms(3)]
    by (intro exI [of _ b] exI [of _ "b\<lparr>pb_cur := pb_cur b + pool_round n\<rparr>"]) (auto simp: block_ok_def)
qed

lemma alloc_grows:
  assumes "inv f" "pool_ok pool" "sane_size n" "pj_pool_alloc block_alloc f pool n = (r, pool', f')" "b \<in> set (po_block_list pool)"
  shows "\<exists>b' \<in> set (po_block_list pool'). pb_buf b' = pb_buf b \<and> pb_cur b \<le> pb_cur b'"
  by (rule alloc_cases [OF assms(1-4)]) (use assms(5) in \<open>auto simp: takes_def\<close>)

lemma create_keeps:
  assumes "inv f" "sane_size n" "sane_size inc" "pj_pool_create_int block_alloc f n inc = (r, f')"
  shows "case r of None \<Rightarrow> inv f' \<and> owned f' = owned f
    | Some pool \<Rightarrow> inv f' \<and> owned f' = add_mset (po_addr pool, n) (owned f) \<and> pool_ok pool \<and> pool_chunks pool = [(po_addr pool, n)] \<and>
        po_block_list pool = [(new_block (po_addr pool + 128) (n - 128))] \<and> po_capacity pool = n \<and> 168 \<le> n \<and>
        (\<forall>c \<in># owned f. apart (po_addr pool, n) c)"
proof (cases "n < 168")
  case True
  then show ?thesis using assms by (auto simp: pj_pool_create_int_def pool_sizeof)
next
  case False
  obtain ar f1 where ba: "block_alloc f n = (ar, f1)" by (metis surj_pair)
  show ?thesis
  proof (cases ar)
    case None
    then show ?thesis using assms False ba alloc_none [OF assms(1), of n f1] by (auto simp: pj_pool_create_int_def pool_sizeof)
  next
    case (Some a)
    have "n < 2 ^ 64" using assms(2) by (auto simp: sane_size_def)
    then have c: "inv f1 \<and> owned f1 = add_mset (a, n) (owned f) \<and> chunk_ok (a, n) \<and> (\<forall>c \<in># owned f. apart (a, n) c)"
      using alloc_some [OF assms(1), of n a f1] ba Some False by auto
    have b: "block_ok (new_block (a + 128) (n - 128))"
      using new_block_ok [of "a + 128" "n - 128"] c False by (auto simp: chunk_ok_def)
    have "ALIGN_PTR (168 + a) = 168 + a" using c by (intro ALIGN_PTR_aligned) (auto simp: chunk_ok_def)
    then have r: "r = Some \<lparr>po_addr = a, po_factory_data = 0, po_capacity = n, po_increment_size = inc, po_block_list = [new_block (a + 128) (n - 128)]\<rparr>" "f' = f1"
      using assms(4) ba Some False by (auto simp: pj_pool_create_int_def pj_pool_init_int_def new_block_def pool_sizeof Let_def)
    have "pool_ok (the r)" "pool_chunks (the r) = [(a, n)]"
      using r b assms(3) False by (auto simp: pool_ok_def pool_chunks_def sane_size_def new_block_def pool_sizeof)
    then show ?thesis using r c False by auto
  qed
qed

lemma free_blocks:
  "inv f \<Longrightarrow> mset (map block_chunk bs) \<subseteq># owned f \<Longrightarrow>
   inv (fold (free_block block_free) bs f) \<and> owned (fold (free_block block_free) bs f) = owned f - mset (map block_chunk bs)"
proof (induction bs arbitrary: f)
  case (Cons b bs)
  have "block_chunk b \<in># owned f" using Cons.prems(2) by (auto dest: mset_subset_eq_insertD)
  then have f: "inv (free_block block_free b f)" "owned (free_block block_free b f) = owned f - {#block_chunk b#}"
    using free_owned [OF Cons.prems(1)] by (auto simp: free_block_def block_chunk_def)
  have "mset (map block_chunk bs) \<subseteq># owned (free_block block_free b f)"
    using Cons.prems(2) f(2) by (simp add: insert_subset_eq_iff)
  from Cons.IH [OF f(1) this] f(2) show ?case by simp
qed simp

lemma reset_keeps:
  assumes "inv f" "pool_ok pool" "mset (pool_chunks pool) \<subseteq># owned f" "reset_pool block_free f pool = (pool', f')"
  defines "c \<equiv> (po_addr pool, pb_end (last (po_block_list pool)) - po_addr pool)"
  shows "inv f' \<and> pool_ok pool' \<and> owned f' + mset (pool_chunks pool) = owned f + mset (pool_chunks pool') \<and> pool_chunks pool' = [c] \<and>
    po_addr pool' = po_addr pool \<and> po_factory_data pool' = po_factory_data pool \<and> po_capacity pool' = snd c \<and>
    po_block_list pool' = [new_block (po_addr pool + 128) (snd c - 128)] \<and> pb_end (hd (po_block_list pool')) - po_addr pool' = snd c"
proof -
  let ?l = "last (po_block_list pool)"
  have ne: "po_block_list pool \<noteq> []" "block_ok ?l" "pb_addr ?l = po_addr pool + sizeof_pool" using assms(2) by (auto simp: pool_ok_def list_all_iff)
  have "ALIGN_PTR (pb_buf ?l) = pb_buf ?l" using ne(2) by (intro ALIGN_PTR_aligned) (auto simp: block_ok_def sizeof_block_def)
  then have p: "pool' = pool\<lparr>po_block_list := [?l\<lparr>pb_cur := pb_buf ?l\<rparr>], po_capacity := snd c\<rparr>"
    "f' = fold (free_block block_free) (rev (butlast (po_block_list pool))) f"
    using assms(4) ne(1) by (auto simp: reset_pool_def c_def Let_def)
  have b: "?l\<lparr>pb_cur := pb_buf ?l\<rparr> = new_block (po_addr pool + 128) (snd c - 128)"
    using ne(2,3) by (cases ?l) (auto simp: new_block_def block_ok_def c_def pool_sizeof)
  have "block_ok (?l\<lparr>pb_cur := pb_buf ?l\<rparr>)" using ne(2) by (auto simp: block_ok_def sizeof_block_def)
  then have ok: "pool_ok pool'" "pool_chunks pool' = [c]" using p(1) ne assms(2) by (auto simp: pool_ok_def pool_chunks_def c_def)
  have split: "pool_chunks pool = map block_chunk (butlast (po_block_list pool)) @ [c]" by (simp add: pool_chunks_def c_def)
  then have sub: "mset (map block_chunk (rev (butlast (po_block_list pool)))) \<subseteq># owned f"
    using assms(3) by (auto simp: rev_map [symmetric] dest: mset_subset_eq_insertD subset_mset.order_trans [rotated])
  have "inv f'" "owned f' = owned f - mset (map block_chunk (butlast (po_block_list pool)))"
    using free_blocks [OF assms(1) sub] p(2) by (auto simp: rev_map [symmetric])
  moreover have "owned f - mset (map block_chunk (butlast (po_block_list pool))) + mset (pool_chunks pool) = owned f + {#c#}"
    using sub split by (simp add: rev_map [symmetric])
  moreover have "po_block_list pool' = [new_block (po_addr pool + 128) (snd c - 128)]" using p(1) b by simp
  moreover have "pb_end (hd (po_block_list pool')) - po_addr pool' = snd c" using p(1) by (simp add: c_def)
  ultimately show ?thesis using ok p(1) by simp
qed

lemma destroy_keeps:
  assumes "inv f" "pool_ok pool" "mset (pool_chunks pool) \<subseteq># owned f"
  shows "inv (pj_pool_destroy_int block_free f pool) \<and>
    owned (pj_pool_destroy_int block_free f pool) + mset (pool_chunks pool) = owned f"
proof -
  obtain pool' f' where r: "reset_pool block_free f pool = (pool', f')" by (metis surj_pair)
  let ?c = "(po_addr pool, pb_end (last (po_block_list pool)) - po_addr pool)"
  note k = reset_keeps [OF assms r]
  have "pb_end (hd (po_block_list pool')) - po_addr pool' = snd ?c" "po_addr pool' = fst ?c" using k by (blast, simp)
  then have d: "pj_pool_destroy_int block_free f pool = block_free f' (fst ?c) (snd ?c)"
    unfolding pj_pool_destroy_int_def r by simp
  have eq: "owned f' + mset (pool_chunks pool) = add_mset ?c (owned f)" using k by simp
  obtain D where D: "owned f = mset (pool_chunks pool) + D" using assms(3) by (auto simp: mset_subset_eq_exists_conv)
  then have f': "owned f' = add_mset ?c D" using eq by simp
  have "inv (block_free f' (fst ?c) (snd ?c)) \<and> owned (block_free f' (fst ?c) (snd ?c)) = owned f' - {#?c#}"
    using free_owned [of f' "fst ?c" "snd ?c"] k f' by simp
  then show ?thesis using d f' D by simp
qed

end

end
