(* ===== verification/PJ_PoolCaching.thy ===== *)
theory PJ_PoolCaching
  imports PJ_Pool
begin

text \<open>
  The factory that nearly every pool comes from: the caching pool of \<^verbatim>\<open>pjlib/src/pj/pool_caching.c\<close> with the default
  policy of \<^verbatim>\<open>pool_policy_malloc.c\<close>. The heap of the C library is part of the state: the chunks that \<^verbatim>\<open>malloc\<close>
  has given out and that were not freed, and whether \<^verbatim>\<open>free\<close> was ever called with a pointer that is not one of them.
  Where \<^verbatim>\<open>malloc\<close> places a chunk is an argument of the model.
\<close>

section \<open>The code\<close>

record c_heap =
  hp_live :: "(nat \<times> nat) list"
  hp_bad_free :: bool

type_synonym malloc_fun = "(nat \<times> nat) list \<Rightarrow> nat \<Rightarrow> nat option"

definition c_malloc :: "malloc_fun \<Rightarrow> c_heap \<Rightarrow> nat \<Rightarrow> nat option \<times> c_heap" where
  "c_malloc m h n = (case m (hp_live h) n of None \<Rightarrow> (None, h) | Some a \<Rightarrow> (Some a, h\<lparr>hp_live := (a, n) # hp_live h\<rparr>))"

definition c_free :: "c_heap \<Rightarrow> nat \<Rightarrow> c_heap" where
  "c_free h a = (if list_ex (\<lambda>c. fst c = a) (hp_live h) then h\<lparr>hp_live := filter (\<lambda>c. fst c \<noteq> a) (hp_live h)\<rparr> else h\<lparr>hp_bad_free := True\<rparr>)"

record pj_caching_pool =
  cp_capacity :: nat
  cp_max_capacity :: nat
  cp_used_count :: nat
  cp_used_size :: nat
  cp_peak_used_size :: nat
  cp_free_list :: "pj_pool_t list list"
  cp_used_list :: "pj_pool_t list"
  cp_heap :: c_heap

definition PJ_CACHING_POOL_ARRAY_SIZE :: nat where "PJ_CACHING_POOL_ARRAY_SIZE = 16"

definition pool_sizes :: "nat list" where
  "pool_sizes = [256, 512, 1024, 2048, 4096, 8192, 12288, 16384, 20480, 24576, 28672, 32768, 40960, 49152, 57344, 65536]"

definition START_SIZE :: nat where "START_SIZE = 5"

text \<open>The policy, and the callbacks by which the factory counts.\<close>

definition cpool_on_block_alloc :: "pj_caching_pool \<Rightarrow> nat \<Rightarrow> pj_caching_pool" where
  "cpool_on_block_alloc cp sz =
     (let used = (cp_used_size cp + sz) mod 2 ^ 64
      in cp\<lparr>cp_used_size := used, cp_peak_used_size := (if used > cp_peak_used_size cp then used else cp_peak_used_size cp)\<rparr>)"

definition cpool_on_block_free :: "pj_caching_pool \<Rightarrow> nat \<Rightarrow> pj_caching_pool" where
  "cpool_on_block_free cp sz = cp\<lparr>cp_used_size := nat ((int (cp_used_size cp) - int sz) mod 2 ^ 64)\<rparr>"

definition default_block_alloc :: "malloc_fun \<Rightarrow> pj_caching_pool block_alloc" where
  "default_block_alloc m cp sz =
     (let cp = cpool_on_block_alloc cp sz
      in case c_malloc m (cp_heap cp) sz of
           (None, h) \<Rightarrow> (None, cpool_on_block_free (cp\<lparr>cp_heap := h\<rparr>) sz)
         | (Some p, h) \<Rightarrow> (Some p, cp\<lparr>cp_heap := h\<rparr>))"

definition default_block_free :: "pj_caching_pool block_free" where
  "default_block_free cp mem sz = (let cp = cpool_on_block_free cp sz in cp\<lparr>cp_heap := c_free (cp_heap cp) mem\<rparr>)"

definition pj_caching_pool_init :: "c_heap \<Rightarrow> nat \<Rightarrow> pj_caching_pool" where
  "pj_caching_pool_init h max_capacity =
     \<lparr>cp_capacity = 0, cp_max_capacity = max_capacity, cp_used_count = 0, cp_used_size = 0, cp_peak_used_size = 0,
      cp_free_list = replicate PJ_CACHING_POOL_ARRAY_SIZE [], cp_used_list = [], cp_heap = h\<rparr>"

definition destroy_pool :: "pj_pool_t \<Rightarrow> pj_caching_pool \<Rightarrow> pj_caching_pool" where
  "destroy_pool pool cp = pj_pool_destroy_int default_block_free cp pool"

definition pj_caching_pool_destroy :: "pj_caching_pool \<Rightarrow> pj_caching_pool" where
  "pj_caching_pool_destroy cp =
     (let cp = fold destroy_pool (concat (cp_free_list cp)) (cp\<lparr>cp_free_list := replicate PJ_CACHING_POOL_ARRAY_SIZE []\<rparr>)
      in fold destroy_pool (cp_used_list cp) (cp\<lparr>cp_used_list := []\<rparr>))"

text \<open>
  The two searches in the array of sizes: downwards, where the result is the index after the last one that was looked at,
  and upwards.
\<close>

fun size_down :: "nat \<Rightarrow> nat \<Rightarrow> nat" where
  "size_down initial_size 0 = 0"
| "size_down initial_size (Suc idx) = (if pool_sizes ! idx \<ge> initial_size then size_down initial_size idx else Suc idx)"

function size_up :: "nat \<Rightarrow> nat \<Rightarrow> nat" where
  "size_up initial_size idx =
     (if idx < PJ_CACHING_POOL_ARRAY_SIZE \<and> pool_sizes ! idx < initial_size then size_up initial_size (Suc idx) else idx)"
  by pat_completeness auto
termination by (relation "measure (\<lambda>(n, idx). PJ_CACHING_POOL_ARRAY_SIZE - idx)") auto

declare size_up.simps [simp del]

definition size_index :: "nat \<Rightarrow> nat" where
  "size_index initial_size = (if initial_size \<le> pool_sizes ! START_SIZE then size_down initial_size START_SIZE else size_up initial_size (START_SIZE + 1))"

definition cpool_create_pool :: "malloc_fun \<Rightarrow> pj_caching_pool \<Rightarrow> nat \<Rightarrow> nat \<Rightarrow> pj_pool_t option \<times> pj_caching_pool" where
  "cpool_create_pool m cp initial_size increment_sz =
     (let idx = size_index initial_size;
          (pool, cp) =
            (if idx = PJ_CACHING_POOL_ARRAY_SIZE \<or> cp_free_list cp ! idx = [] then
               let initial_size = (if idx < PJ_CACHING_POOL_ARRAY_SIZE then pool_sizes ! idx else initial_size)
               in pj_pool_create_int (default_block_alloc m) cp initial_size increment_sz
             else
               let pool = hd (cp_free_list cp ! idx);
                   cp = cp\<lparr>cp_free_list := (cp_free_list cp)[idx := tl (cp_free_list cp ! idx)]\<rparr>;
                   pool = pj_pool_init_int pool increment_sz
               in (Some pool, cp\<lparr>cp_capacity := (if cp_capacity cp > pj_pool_get_capacity pool
                     then cp_capacity cp - pj_pool_get_capacity pool else 0)\<rparr>))
      in case pool of
           None \<Rightarrow> (None, cp)
         | Some pool \<Rightarrow>
             let pool = pool\<lparr>po_factory_data := idx\<rparr>
             in (Some pool, cp\<lparr>cp_used_list := cp_used_list cp @ [pool], cp_used_count := (cp_used_count cp + 1) mod 2 ^ 64\<rparr>))"

text \<open>\<open>None\<close> is the failure of the assertion on the index.\<close>

definition cpool_release_pool :: "pj_caching_pool \<Rightarrow> pj_pool_t \<Rightarrow> pj_caching_pool option" where
  "cpool_release_pool cp pool =
     (let cp = cp\<lparr>cp_used_list := filter (\<lambda>q. po_addr q \<noteq> po_addr pool) (cp_used_list cp),
                  cp_used_count := nat ((int (cp_used_count cp) - 1) mod 2 ^ 64)\<rparr>;
          pool_capacity = pj_pool_get_capacity pool
      in if pool_capacity > pool_sizes ! (PJ_CACHING_POOL_ARRAY_SIZE - 1) \<or> (cp_capacity cp + pool_capacity) mod 2 ^ 64 > cp_max_capacity cp
         then Some (pj_pool_destroy_int default_block_free cp pool)
         else
           let (pool, cp) = pj_pool_reset default_block_free cp pool;
               pool_capacity = pj_pool_get_capacity pool;
               i = po_factory_data pool
           in if i \<ge> PJ_CACHING_POOL_ARRAY_SIZE then None
              else Some (cp\<lparr>cp_free_list := (cp_free_list cp)[i := pool # cp_free_list cp ! i],
                            cp_capacity := (cp_capacity cp + pool_capacity) mod 2 ^ 64\<rparr>))"

section \<open>The heap\<close>

text \<open>What \<^verbatim>\<open>malloc\<close> promises: a chunk that is aligned and apart from every chunk that is in use.\<close>

definition malloc_ok :: "malloc_fun \<Rightarrow> bool" where
  "malloc_ok m \<longleftrightarrow> (\<forall>live n a. 0 < n \<longrightarrow> m live n = Some a \<longrightarrow> chunk_ok (a, n) \<and> (\<forall>c \<in> set live. apart (a, n) c))"

definition heap_ok :: "c_heap \<Rightarrow> bool" where
  "heap_ok h \<longleftrightarrow> \<not> hp_bad_free h \<and> list_all chunk_ok (hp_live h) \<and> sorted_wrt apart (hp_live h)"

lemma apart_sym: "apart c d \<longleftrightarrow> apart d c"
  by (auto simp: apart_def)

lemma apart_addr: "apart c d \<Longrightarrow> chunk_ok c \<Longrightarrow> chunk_ok d \<Longrightarrow> fst c \<noteq> fst d"
  by (auto simp: apart_def chunk_ok_def)

lemma live_distinct: "list_all chunk_ok live \<Longrightarrow> sorted_wrt apart live \<Longrightarrow> distinct (map fst live)"
proof (induction live)
  case (Cons c live)
  then show ?case using apart_addr by (fastforce simp: list_all_iff)
qed simp

lemma mset_filter_addr:
  "distinct (map fst xs) \<Longrightarrow> (a, n) \<in> set xs \<Longrightarrow> mset (filter (\<lambda>c. fst c \<noteq> a) xs) = mset xs - {#(a, n)#}"
proof (induction xs)
  case (Cons x xs)
  show ?case
  proof (cases "x = (a, n)")
    case True
    then have "filter (\<lambda>c. fst c \<noteq> a) xs = xs" using Cons.prems(1) by (intro filter_True) force
    then show ?thesis using True by simp
  next
    case False
    then have i: "(a, n) \<in> set xs" using Cons.prems(2) by auto
    then have "a \<in> fst ` set xs" by (metis fst_conv image_eqI)
    then have "fst x \<noteq> a" using Cons.prems(1) by auto
    then show ?thesis using Cons False i by simp
  qed
qed simp

text \<open>Chunks that lie apart fit into the address space together, so that the sum of their sizes cannot wrap.\<close>

lemma total_cover:
  "list_all chunk_ok live \<Longrightarrow> sorted_wrt apart live \<Longrightarrow>
   total_size (mset live) = card (\<Union>c \<in> set live. {fst c ..< fst c + snd c})"
proof (induction live)
  case (Cons c live)
  have "{fst c ..< fst c + snd c} \<inter> (\<Union>d \<in> set live. {fst d ..< fst d + snd d}) = {}"
    using Cons.prems(2) by (fastforce simp: apart_def)
  then have "card ({fst c ..< fst c + snd c} \<union> (\<Union>d \<in> set live. {fst d ..< fst d + snd d})) =
      snd c + card (\<Union>d \<in> set live. {fst d ..< fst d + snd d})" by (subst card_Un_disjoint) auto
  then show ?case using Cons by simp
qed simp

lemma total_live: "heap_ok h \<Longrightarrow> total_size (mset (hp_live h)) < 2 ^ 64"
proof -
  assume h: "heap_ok h"
  have "(\<Union>c \<in> set (hp_live h). {fst c ..< fst c + snd c}) \<subseteq> {1 ..< 2 ^ 64}"
    using h by (fastforce simp: heap_ok_def list_all_iff chunk_ok_def)
  then have "card (\<Union>c \<in> set (hp_live h). {fst c ..< fst c + snd c}) \<le> card {1 ..< 2 ^ 64 :: nat}" by (intro card_mono) auto
  then show ?thesis using total_cover h by (auto simp: heap_ok_def)
qed


section \<open>The default policy is a factory\<close>

text \<open>The size that the factory counts is the total size of the chunks in use.\<close>

definition policy_inv :: "malloc_fun \<Rightarrow> pj_caching_pool \<Rightarrow> bool" where
  "policy_inv m cp \<longleftrightarrow> malloc_ok m \<and> heap_ok (cp_heap cp) \<and> cp_used_size cp = total_size (mset (hp_live (cp_heap cp)))"

definition cp_owned :: "pj_caching_pool \<Rightarrow> (nat \<times> nat) multiset" where
  "cp_owned cp = mset (hp_live (cp_heap cp))"

lemma policy_alloc_some:
  assumes "policy_inv m cp" "0 < n" "default_block_alloc m cp n = (Some a, cp')"
  shows "policy_inv m cp'" "cp_owned cp' = add_mset (a, n) (cp_owned cp)" "chunk_ok (a, n)" "\<forall>c \<in># cp_owned cp. apart (a, n) c"
proof -
  have m: "m (hp_live (cp_heap cp)) n = Some a"
    and cp': "cp' = (cpool_on_block_alloc cp n)\<lparr>cp_heap := (cp_heap cp)\<lparr>hp_live := (a, n) # hp_live (cp_heap cp)\<rparr>\<rparr>"
    using assms(3) by (auto simp: default_block_alloc_def c_malloc_def cpool_on_block_alloc_def Let_def split: option.splits)
  have new: "chunk_ok (a, n)" "\<forall>c \<in> set (hp_live (cp_heap cp)). apart (a, n) c"
    using assms(1,2) m by (auto simp: policy_inv_def malloc_ok_def)
  then show "chunk_ok (a, n)" "\<forall>c \<in># cp_owned cp. apart (a, n) c" by (auto simp: cp_owned_def)
  show "cp_owned cp' = add_mset (a, n) (cp_owned cp)" by (simp add: cp' cp_owned_def)
  have h: "heap_ok (cp_heap cp')" using assms(1) new by (simp add: cp' policy_inv_def heap_ok_def)
  from total_live [OF h] show "policy_inv m cp'"
    using h assms(1) by (simp add: cp' policy_inv_def cpool_on_block_alloc_def Let_def add.commute)
qed

lemma unwrap_size: "u < 2 ^ 64 \<Longrightarrow> nat ((int ((u + n) mod 2 ^ 64) - int n) mod 2 ^ 64) = u" for u n :: nat
proof -
  assume u: "u < 2 ^ 64"
  have "(int ((u + n) mod 2 ^ 64) - int n) mod 2 ^ 64 = (int (u + n) - int n) mod 2 ^ 64"
    by (simp only: of_nat_mod of_nat_power of_nat_numeral mod_diff_left_eq)
  also have "\<dots> = int u" using u by simp
  finally show ?thesis by simp
qed

lemma policy_alloc_none:
  assumes "policy_inv m cp" "default_block_alloc m cp n = (None, cp')"
  shows "policy_inv m cp'" "cp_owned cp' = cp_owned cp"
proof -
  have cp': "cp' = cpool_on_block_free (cpool_on_block_alloc cp n) n"
    using assms(2) by (auto simp: default_block_alloc_def c_malloc_def cpool_on_block_alloc_def Let_def split: option.splits)
  then show "cp_owned cp' = cp_owned cp" by (simp add: cp_owned_def cpool_on_block_free_def cpool_on_block_alloc_def Let_def)
  have "cp_used_size cp < 2 ^ 64" using assms(1) total_live by (auto simp: policy_inv_def)
  from unwrap_size [OF this, of n] show "policy_inv m cp'"
    using assms(1) by (simp add: cp' policy_inv_def cpool_on_block_free_def cpool_on_block_alloc_def Let_def)
qed

lemma policy_free:
  assumes "policy_inv m cp" "(a, n) \<in># cp_owned cp"
  shows "policy_inv m (default_block_free cp a n)" "cp_owned (default_block_free cp a n) = cp_owned cp - {#(a, n)#}"
proof -
  have i: "(a, n) \<in> set (hp_live (cp_heap cp))" using assms(2) by (simp add: cp_owned_def)
  then have "list_ex (\<lambda>c. fst c = a) (hp_live (cp_heap cp))" by (force simp: list_ex_iff)
  then have h: "cp_heap (default_block_free cp a n) = (cp_heap cp)\<lparr>hp_live := filter (\<lambda>c. fst c \<noteq> a) (hp_live (cp_heap cp))\<rparr>"
    by (simp add: default_block_free_def cpool_on_block_free_def c_free_def Let_def)
  have d: "distinct (map fst (hp_live (cp_heap cp)))" using assms(1) live_distinct by (auto simp: policy_inv_def heap_ok_def)
  from mset_filter_addr [OF d i] h show o: "cp_owned (default_block_free cp a n) = cp_owned cp - {#(a, n)#}" by (simp add: cp_owned_def)
  have hk: "heap_ok (cp_heap (default_block_free cp a n))"
    using assms(1) by (auto simp: h policy_inv_def heap_ok_def list_all_iff sorted_wrt_filter)
  have t: "total_size (cp_owned cp) = n + total_size (cp_owned (default_block_free cp a n))"
    using assms(2) o by (metis insert_DiffM snd_conv total_size_simps(2))
  have "cp_used_size cp = total_size (cp_owned cp)" "total_size (cp_owned cp) < 2 ^ 64"
    using assms(1) total_live by (auto simp: policy_inv_def cp_owned_def)
  then have "nat ((int (cp_used_size cp) - int n) mod 2 ^ 64) = total_size (cp_owned (default_block_free cp a n))" using t by simp
  then show "policy_inv m (default_block_free cp a n)"
    using assms(1) hk by (simp add: policy_inv_def cp_owned_def default_block_free_def cpool_on_block_free_def Let_def)
qed

interpretation cpf: pool_factory "policy_inv m" cp_owned "default_block_alloc m" default_block_free for m
proof
  fix f f' n a
  assume i: "policy_inv m f"
  show "policy_inv m f' \<and> cp_owned f' = add_mset (a, n) (cp_owned f) \<and> chunk_ok (a, n) \<and> (\<forall>c \<in># cp_owned f. apart (a, n) c)"
    if "0 < n" "default_block_alloc m f n = (Some a, f')" using policy_alloc_some [OF i that] by blast
  show "policy_inv m f' \<and> cp_owned f' = cp_owned f" if "default_block_alloc m f n = (None, f')"
    using policy_alloc_none [OF i that] by blast
  show "policy_inv m (default_block_free f a n) \<and> cp_owned (default_block_free f a n) = cp_owned f - {#(a, n)#}" if "(a, n) \<in># cp_owned f"
    using policy_free [OF i that] by blast
qed

section \<open>The pools of the factory\<close>

definition chunks_of :: "pj_pool_t multiset \<Rightarrow> (nat \<times> nat) multiset" where
  "chunks_of P = (\<Sum>p \<in># P. mset (pool_chunks p))"

definition cp_pools :: "pj_caching_pool \<Rightarrow> pj_pool_t multiset" where
  "cp_pools cp = mset (cp_used_list cp) + mset (concat (cp_free_list cp))"

text \<open>
  A pool in use counts the size of its chunks, and the size of its first chunk is that of its index, or larger than every
  size in the array. A pool in a free list has one block, nothing of which is in use.
\<close>

definition used_ok :: "pj_pool_t \<Rightarrow> bool" where
  "used_ok p \<longleftrightarrow> pool_ok p \<and> po_capacity p = total_size (mset (pool_chunks p)) mod 2 ^ 64 \<and>
     (if po_factory_data p < 16 then snd (last (pool_chunks p)) = pool_sizes ! po_factory_data p else 65536 < snd (last (pool_chunks p)))"

definition cached_ok :: "nat \<Rightarrow> pj_pool_t \<Rightarrow> bool" where
  "cached_ok n p \<longleftrightarrow> pool_ok p \<and> po_capacity p = n \<and> pool_chunks p = [(po_addr p, n)] \<and> po_block_list p = [new_block (po_addr p + 128) (n - 128)]"

definition cp_inv :: "malloc_fun \<Rightarrow> pj_caching_pool \<Rightarrow> bool" where
  "cp_inv m cp \<longleftrightarrow> policy_inv m cp \<and> cp_owned cp = chunks_of (cp_pools cp) \<and> list_all used_ok (cp_used_list cp) \<and>
     length (cp_free_list cp) = 16 \<and> (\<forall>i < 16. list_all (cached_ok (pool_sizes ! i)) (cp_free_list cp ! i)) \<and>
     cp_capacity cp = sum_list (map po_capacity (concat (cp_free_list cp))) \<and> cp_capacity cp \<le> cp_max_capacity cp \<and>
     cp_used_count cp = length (cp_used_list cp) mod 2 ^ 64"

lemma chunks_of_simps [simp]: "chunks_of {#} = {#}" "chunks_of (add_mset p P) = mset (pool_chunks p) + chunks_of P"
  "chunks_of (P + Q) = chunks_of P + chunks_of Q"
  by (simp_all add: chunks_of_def)

lemma chunks_of_list: "chunks_of (mset ps) = mset (concat (map pool_chunks ps))"
  by (induction ps) auto

lemma pool_chunk_of: "p \<in># P \<Longrightarrow> mset (pool_chunks p) \<subseteq># chunks_of P"
  by (metis chunks_of_simps(2) insert_DiffM mset_subset_eq_add_left)

lemma po_addr_chunk: "po_addr p \<in> fst ` set (pool_chunks p)"
  by (simp add: pool_chunks_def)

lemma distinct_pool_addrs: "distinct (map fst (concat (map pool_chunks ps))) \<Longrightarrow> distinct (map po_addr ps)"
proof (induction ps)
  case (Cons p ps)
  have "po_addr p \<noteq> po_addr q" if "q \<in> set ps" for q
  proof -
    have "po_addr q \<in> fst ` set (concat (map pool_chunks ps))" using that po_addr_chunk [of q] by auto
    moreover have "fst ` set (pool_chunks p) \<inter> fst ` set (concat (map pool_chunks ps)) = {}"
      using Cons.prems by (simp only: map_append list.map concat.simps distinct_append set_map)
    ultimately show ?thesis using po_addr_chunk [of p] by (metis disjoint_iff)
  qed
  then show ?case using Cons by auto
qed simp

lemma cp_inv_addrs:
  assumes "cp_inv m cp"
  shows "distinct (map po_addr (cp_used_list cp))"
proof -
  let ?c = "concat (map pool_chunks (cp_used_list cp @ concat (cp_free_list cp)))"
  have "mset (hp_live (cp_heap cp)) = mset ?c"
    using assms by (simp add: cp_inv_def cp_owned_def cp_pools_def chunks_of_list [symmetric])
  then have "mset (map fst (hp_live (cp_heap cp))) = mset (map fst ?c)" by (metis mset_map)
  moreover have "distinct (map fst (hp_live (cp_heap cp)))" using assms live_distinct by (auto simp: cp_inv_def policy_inv_def heap_ok_def)
  ultimately have "distinct (map fst ?c)" using mset_eq_imp_distinct_iff by blast
  from distinct_pool_addrs [OF this] show ?thesis by simp
qed

lemma block_alloc_frame:
  "cp_used_list (snd (default_block_alloc m cp n)) = cp_used_list cp"
  "cp_free_list (snd (default_block_alloc m cp n)) = cp_free_list cp"
  "cp_capacity (snd (default_block_alloc m cp n)) = cp_capacity cp"
  "cp_max_capacity (snd (default_block_alloc m cp n)) = cp_max_capacity cp"
  "cp_used_count (snd (default_block_alloc m cp n)) = cp_used_count cp"
  by (auto simp: default_block_alloc_def cpool_on_block_alloc_def cpool_on_block_free_def Let_def split: prod.splits option.splits)

lemma block_free_frame:
  "cp_used_list (default_block_free cp a n) = cp_used_list cp"
  "cp_free_list (default_block_free cp a n) = cp_free_list cp"
  "cp_capacity (default_block_free cp a n) = cp_capacity cp"
  "cp_max_capacity (default_block_free cp a n) = cp_max_capacity cp"
  "cp_used_count (default_block_free cp a n) = cp_used_count cp"
  by (auto simp: default_block_free_def cpool_on_block_free_def Let_def)

lemma cp_alloc_frame:
  assumes "pj_pool_alloc (default_block_alloc m) cp pool n = (r, pool', cp')"
  shows "cp_used_list cp' = cp_used_list cp" "cp_free_list cp' = cp_free_list cp" "cp_capacity cp' = cp_capacity cp"
    "cp_max_capacity cp' = cp_max_capacity cp" "cp_used_count cp' = cp_used_count cp"
  using alloc_frame [of cp_used_list "default_block_alloc m" cp pool n] alloc_frame [of cp_free_list "default_block_alloc m" cp pool n]
    alloc_frame [of cp_capacity "default_block_alloc m" cp pool n] alloc_frame [of cp_max_capacity "default_block_alloc m" cp pool n]
    alloc_frame [of cp_used_count "default_block_alloc m" cp pool n] assms
  by (simp_all add: block_alloc_frame)

lemma cp_create_frame:
  assumes "pj_pool_create_int (default_block_alloc m) cp n inc = (r, cp')"
  shows "cp_used_list cp' = cp_used_list cp" "cp_free_list cp' = cp_free_list cp" "cp_capacity cp' = cp_capacity cp"
    "cp_max_capacity cp' = cp_max_capacity cp" "cp_used_count cp' = cp_used_count cp"
  using create_frame [of cp_used_list "default_block_alloc m" cp n inc] create_frame [of cp_free_list "default_block_alloc m" cp n inc]
    create_frame [of cp_capacity "default_block_alloc m" cp n inc] create_frame [of cp_max_capacity "default_block_alloc m" cp n inc]
    create_frame [of cp_used_count "default_block_alloc m" cp n inc] assms
  by (simp_all add: block_alloc_frame)

lemma cp_reset_frame:
  assumes "reset_pool default_block_free cp pool = (pool', cp')"
  shows "cp_used_list cp' = cp_used_list cp" "cp_free_list cp' = cp_free_list cp" "cp_capacity cp' = cp_capacity cp"
    "cp_max_capacity cp' = cp_max_capacity cp" "cp_used_count cp' = cp_used_count cp"
  using reset_frame [of cp_used_list default_block_free cp pool] reset_frame [of cp_free_list default_block_free cp pool]
    reset_frame [of cp_capacity default_block_free cp pool] reset_frame [of cp_max_capacity default_block_free cp pool]
    reset_frame [of cp_used_count default_block_free cp pool] assms
  by (simp_all add: block_free_frame)

lemma cp_destroy_frame [simp]:
  "cp_used_list (pj_pool_destroy_int default_block_free cp pool) = cp_used_list cp"
  "cp_free_list (pj_pool_destroy_int default_block_free cp pool) = cp_free_list cp"
  "cp_capacity (pj_pool_destroy_int default_block_free cp pool) = cp_capacity cp"
  "cp_max_capacity (pj_pool_destroy_int default_block_free cp pool) = cp_max_capacity cp"
  "cp_used_count (pj_pool_destroy_int default_block_free cp pool) = cp_used_count cp"
  using destroy_frame [of cp_used_list default_block_free cp pool] destroy_frame [of cp_free_list default_block_free cp pool]
    destroy_frame [of cp_capacity default_block_free cp pool] destroy_frame [of cp_max_capacity default_block_free cp pool]
    destroy_frame [of cp_used_count default_block_free cp pool]
  by (simp_all add: block_free_frame)

text \<open>Exchanging a pool in use for its successor, which is known by its address.\<close>

definition replace_pool :: "pj_pool_t \<Rightarrow> pj_pool_t list \<Rightarrow> pj_pool_t list" where
  "replace_pool q ps = map (\<lambda>p. if po_addr p = po_addr q then q else p) ps"

lemma replace_pool_mset:
  assumes "distinct (map po_addr ps)" "p \<in> set ps" "po_addr q = po_addr p"
  shows "add_mset p (mset (replace_pool q ps)) = add_mset q (mset ps)"
  using assms(1,2)
proof (induction ps)
  case (Cons x ps)
  show ?case
  proof (cases "x = p")
    case True
    then have "map (\<lambda>p. if po_addr p = po_addr q then q else p) ps = ps"
      using Cons.prems(1) assms(3) by (intro map_idI) (force simp: image_iff)
    then show ?thesis using True assms(3) by (simp add: replace_pool_def)
  next
    case False
    then have "p \<in> set ps" "po_addr x \<noteq> po_addr q" using Cons.prems assms(3) by (force simp: image_iff)+
    then show ?thesis using Cons by (simp add: replace_pool_def add_mset_commute)
  qed
qed simp

lemma replace_pool_set: "distinct (map po_addr ps) \<Longrightarrow> p \<in> set ps \<Longrightarrow> po_addr q = po_addr p \<Longrightarrow>
    set (replace_pool q ps) = insert q (set ps - {p})"
  by (auto simp: replace_pool_def image_iff distinct_map inj_on_def)

lemma remove_pool_mset:
  assumes "distinct (map po_addr ps)" "p \<in> set ps"
  shows "add_mset p (mset (filter (\<lambda>q. po_addr q \<noteq> po_addr p) ps)) = mset ps"
  using assms
proof (induction ps)
  case (Cons x ps)
  show ?case
  proof (cases "x = p")
    case True
    then have "filter (\<lambda>q. po_addr q \<noteq> po_addr p) ps = ps" using Cons.prems(1) by (intro filter_True) (force simp: image_iff)
    then show ?thesis using True by simp
  next
    case False
    then have "p \<in> set ps" "po_addr x \<noteq> po_addr p" using Cons.prems by (force simp: image_iff)+
    then show ?thesis using Cons by (simp add: add_mset_commute)
  qed
qed simp

lemma policy_inv_frame [simp]:
  "policy_inv m (cp\<lparr>cp_used_list := u\<rparr>) = policy_inv m cp" "policy_inv m (cp\<lparr>cp_free_list := l\<rparr>) = policy_inv m cp"
  "policy_inv m (cp\<lparr>cp_capacity := c\<rparr>) = policy_inv m cp" "policy_inv m (cp\<lparr>cp_used_count := c\<rparr>) = policy_inv m cp"
  "cp_owned (cp\<lparr>cp_used_list := u\<rparr>) = cp_owned cp" "cp_owned (cp\<lparr>cp_free_list := l\<rparr>) = cp_owned cp"
  "cp_owned (cp\<lparr>cp_capacity := c\<rparr>) = cp_owned cp" "cp_owned (cp\<lparr>cp_used_count := c\<rparr>) = cp_owned cp"
  by (simp_all add: policy_inv_def cp_owned_def)

text \<open>A step on one pool in use that keeps the invariant of the policy and of the pool keeps that of the factory.\<close>

lemma cp_inv_replace:
  assumes "cp_inv m cp" "pool \<in> set (cp_used_list cp)" "policy_inv m cp'" "used_ok pool'" "po_addr pool' = po_addr pool"
    "cp_owned cp' + mset (pool_chunks pool) = cp_owned cp + mset (pool_chunks pool')"
    "cp_used_list cp' = cp_used_list cp" "cp_free_list cp' = cp_free_list cp" "cp_capacity cp' = cp_capacity cp"
    "cp_max_capacity cp' = cp_max_capacity cp" "cp_used_count cp' = cp_used_count cp"
  shows "cp_inv m (cp'\<lparr>cp_used_list := replace_pool pool' (cp_used_list cp)\<rparr>)"
proof -
  note d = cp_inv_addrs [OF assms(1)]
  have "add_mset pool (mset (replace_pool pool' (cp_used_list cp))) = add_mset pool' (mset (cp_used_list cp))"
    by (rule replace_pool_mset [OF d assms(2,5)])
  from arg_cong [OF this, of chunks_of] have "mset (pool_chunks pool) + chunks_of (mset (replace_pool pool' (cp_used_list cp))) =
      mset (pool_chunks pool') + chunks_of (mset (cp_used_list cp))" by simp
  moreover have "cp_owned cp' + mset (pool_chunks pool) = (mset (pool_chunks pool') + chunks_of (mset (cp_used_list cp))) + chunks_of (mset (concat (cp_free_list cp)))"
    using assms(1,6) by (simp add: cp_inv_def cp_pools_def)
  ultimately have "cp_owned cp' + mset (pool_chunks pool) =
      (mset (pool_chunks pool) + chunks_of (mset (replace_pool pool' (cp_used_list cp)))) + chunks_of (mset (concat (cp_free_list cp)))" by simp
  also have "\<dots> = (chunks_of (mset (replace_pool pool' (cp_used_list cp))) + chunks_of (mset (concat (cp_free_list cp)))) + mset (pool_chunks pool)"
    by (simp only: ac_simps)
  finally have "cp_owned cp' = chunks_of (mset (replace_pool pool' (cp_used_list cp))) + chunks_of (mset (concat (cp_free_list cp)))"
    by (simp only: add_right_cancel)
  moreover have "list_all used_ok (replace_pool pool' (cp_used_list cp))"
    using assms(1,4) replace_pool_set [OF d assms(2,5)] by (auto simp: cp_inv_def list_all_iff)
  moreover have "length (replace_pool pool' (cp_used_list cp)) = length (cp_used_list cp)" by (simp add: replace_pool_def)
  ultimately show ?thesis using assms(1,3,7-11) by (simp add: cp_inv_def cp_pools_def)
qed

lemma used_pool:
  assumes "cp_inv m cp" "pool \<in> set (cp_used_list cp)"
  shows "used_ok pool" "pool_ok pool" "mset (pool_chunks pool) \<subseteq># cp_owned cp" "policy_inv m cp"
proof -
  show "used_ok pool" using assms by (auto simp: cp_inv_def list_all_iff)
  then show "pool_ok pool" by (simp add: used_ok_def)
  show "mset (pool_chunks pool) \<subseteq># cp_owned cp" "policy_inv m cp"
    using assms pool_chunk_of [of pool "cp_pools cp"] by (auto simp: cp_inv_def cp_pools_def)
qed

lemma cp_alloc_inv:
  assumes "cp_inv m cp" "pool \<in> set (cp_used_list cp)" "sane_size n" "pj_pool_alloc (default_block_alloc m) cp pool n = (r, pool', cp')"
  shows "cp_inv m (cp'\<lparr>cp_used_list := replace_pool pool' (cp_used_list cp)\<rparr>)" "r \<noteq> PR_assert"
proof -
  note p = used_pool [OF assms(1,2)]
  note k = cpf.alloc_keeps [OF p(4,2) assms(3,4)]
  show "r \<noteq> PR_assert" using k by simp
  have "used_ok pool'" using k p(1) by (auto simp: used_ok_def)
  then show "cp_inv m (cp'\<lparr>cp_used_list := replace_pool pool' (cp_used_list cp)\<rparr>)"
    using k cp_alloc_frame [OF assms(4)] by (intro cp_inv_replace [OF assms(1,2)]) auto
qed

lemma cp_reset_inv:
  assumes "cp_inv m cp" "pool \<in> set (cp_used_list cp)" "pj_pool_reset default_block_free cp pool = (pool', cp')"
  shows "cp_inv m (cp'\<lparr>cp_used_list := replace_pool pool' (cp_used_list cp)\<rparr>)"
    "po_block_list pool' = [new_block (po_addr pool + 128) (snd (last (pool_chunks pool)) - 128)]"
proof -
  note p = used_pool [OF assms(1,2)]
  have r: "reset_pool default_block_free cp pool = (pool', cp')" using assms(3) by (simp add: pj_pool_reset_def)
  note k = cpf.reset_keeps [OF p(4,2,3) r]
  have "pb_end (last (po_block_list pool)) - po_addr pool < 2 ^ 64" using p(2) by (auto simp: pool_ok_def list_all_iff block_ok_def less_imp_diff_less)
  then have "used_ok pool'" using k p(1) by (auto simp: used_ok_def pool_chunks_def)
  then show "cp_inv m (cp'\<lparr>cp_used_list := replace_pool pool' (cp_used_list cp)\<rparr>)"
    using k cp_reset_frame [OF r] by (intro cp_inv_replace [OF assms(1,2)]) auto
  show "po_block_list pool' = [new_block (po_addr pool + 128) (snd (last (pool_chunks pool)) - 128)]"
    using k by (simp add: pool_chunks_def)
qed

text \<open>The search finds the smallest size that is large enough.\<close>

lemma size_down_spec:
  "size_down n i \<le> i \<and> (\<forall>j. size_down n i \<le> j \<and> j < i \<longrightarrow> n \<le> pool_sizes ! j) \<and>
   (0 < size_down n i \<longrightarrow> pool_sizes ! (size_down n i - 1) < n)"
  by (induction i) (auto simp: less_Suc_eq)

lemma size_up_spec:
  "i \<le> 16 \<Longrightarrow> i \<le> size_up n i \<and> size_up n i \<le> 16 \<and> (size_up n i < 16 \<longrightarrow> n \<le> pool_sizes ! size_up n i) \<and>
   (i < size_up n i \<longrightarrow> pool_sizes ! (size_up n i - 1) < n)"
proof (induction n i rule: size_up.induct)
  case (1 n i)
  show ?case
  proof (cases "i < 16 \<and> pool_sizes ! i < n")
    case True
    then have "size_up n i = size_up n (Suc i)" by (subst size_up.simps) (simp add: PJ_CACHING_POOL_ARRAY_SIZE_def)
    then show ?thesis using 1 True by (cases "Suc i < size_up n (Suc i)") (auto simp: PJ_CACHING_POOL_ARRAY_SIZE_def dest: le_antisym)
  next
    case False
    then have "size_up n i = i" by (subst size_up.simps) (auto simp: PJ_CACHING_POOL_ARRAY_SIZE_def)
    then show ?thesis using False 1 by auto
  qed
qed

lemma size_index_spec:
  "size_index n \<le> 16" "size_index n < 16 \<Longrightarrow> n \<le> pool_sizes ! size_index n" "0 < size_index n \<Longrightarrow> pool_sizes ! (size_index n - 1) < n"
proof -
  have five: "pool_sizes ! 5 = 8192" by (simp add: pool_sizes_def)
  have "size_index n \<le> 16 \<and> (size_index n < 16 \<longrightarrow> n \<le> pool_sizes ! size_index n) \<and> (0 < size_index n \<longrightarrow> pool_sizes ! (size_index n - 1) < n)"
  proof (cases "n \<le> 8192")
    case True
    then show ?thesis using size_down_spec [of n 5] five
      by (cases "size_down n 5 = 5") (auto simp: size_index_def START_SIZE_def)
  next
    case False
    then show ?thesis using size_up_spec [of 6 n] five
      by (cases "size_up n 6 = 6") (auto simp: size_index_def START_SIZE_def)
  qed
  then show "size_index n \<le> 16" "size_index n < 16 \<Longrightarrow> n \<le> pool_sizes ! size_index n" "0 < size_index n \<Longrightarrow> pool_sizes ! (size_index n - 1) < n" by auto
qed

lemma pool_sizes_range: "i < 16 \<Longrightarrow> 256 \<le> pool_sizes ! i \<and> pool_sizes ! i \<le> 65536"
proof -
  assume "i < 16"
  then have "pool_sizes ! i \<in> set pool_sizes" by (intro nth_mem) (simp add: pool_sizes_def)
  then show ?thesis by (auto simp: pool_sizes_def)
qed

lemma mset_concat_update: "i < length xs \<Longrightarrow> mset (concat (xs[i := y])) + mset (xs ! i) = mset (concat xs) + mset y"
proof (induction xs arbitrary: i)
  case (Cons x xs)
  then show ?case using Cons.IH [of "i - 1"] by (cases i) (auto simp: ac_simps)
qed simp

lemma sum_capacity_mset: "sum_list (map po_capacity ps) = (\<Sum>p \<in># mset ps. po_capacity p)"
  by (simp add: sum_mset_sum_list [symmetric])

text \<open>Creating a pool: it is new, or it is taken from the cache.\<close>

lemma fresh_used_ok:
  assumes "pool_ok p" "pool_chunks p = [(po_addr p, n)]" "po_capacity p = n" "n < 2 ^ 64" "if i < 16 then n = pool_sizes ! i else 65536 < n"
  shows "used_ok (p\<lparr>po_factory_data := i\<rparr>)" "mset (pool_chunks (p\<lparr>po_factory_data := i\<rparr>)) = {#(po_addr p, n)#}"
  using assms by (auto simp: used_ok_def pool_ok_def pool_chunks_def)

text \<open>What creating a pool gives.\<close>

definition created :: "malloc_fun \<Rightarrow> pj_caching_pool \<Rightarrow> nat \<Rightarrow> nat \<Rightarrow> pj_pool_t option \<Rightarrow> pj_caching_pool \<Rightarrow> bool" where
  "created m cp n inc r cp' \<longleftrightarrow> (case r of None \<Rightarrow> cp_inv m cp' \<and> cp_used_list cp' = cp_used_list cp
    | Some pool \<Rightarrow> cp_inv m cp' \<and> cp_used_list cp' = cp_used_list cp @ [pool] \<and> po_increment_size pool = inc \<and>
        (\<exists>k. po_block_list pool = [new_block (po_addr pool + 128) (k - 128)] \<and> n \<le> k \<and> 168 \<le> k))"

lemma cp_create_fresh:
  assumes "cp_inv m cp" "sane_size n" "sane_size inc" "cpool_create_pool m cp n inc = (r, cp')" "size_index n = 16 \<or> cp_free_list cp ! size_index n = []"
  shows "created m cp n inc r cp'"
proof -
  let ?i = "size_index n"
  note spec = size_index_spec [of n] and True = assms(5)
  define k where "k = (if ?i < 16 then pool_sizes ! ?i else n)"
  have big: "?i = 16 \<Longrightarrow> 65536 < n" using spec(3) by (auto simp: pool_sizes_def)
  have k: "sane_size k" "n \<le> k" "if ?i < 16 then k = pool_sizes ! ?i else 65536 < k"
    using spec big assms(2) pool_sizes_range [of ?i] by (auto simp: k_def sane_size_def)
  obtain r1 cp1 where c: "pj_pool_create_int (default_block_alloc m) cp k inc = (r1, cp1)" by (metis surj_pair)
  have pi: "policy_inv m cp" using assms(1) by (simp add: cp_inv_def)
  note keep = cpf.create_keeps [OF pi k(1) assms(3) c] and fr = cp_create_frame [OF c]
  show ?thesis
  proof (cases r1)
    case None
    then show ?thesis using assms(1,4) True c keep fr
      by (auto simp: cpool_create_pool_def PJ_CACHING_POOL_ARRAY_SIZE_def Let_def k_def created_def cp_inv_def cp_pools_def)
  next
    case (Some p)
    have "po_increment_size p = inc" using c Some
      by (auto simp: pj_pool_create_int_def pj_pool_init_int_def Let_def split: if_splits prod.splits option.splits)
    moreover have "k < 2 ^ 64" using k(1) by (auto simp: sane_size_def)
    moreover have "r = Some (p\<lparr>po_factory_data := ?i\<rparr>)"
      "cp' = cp1\<lparr>cp_used_list := cp_used_list cp @ [p\<lparr>po_factory_data := ?i\<rparr>], cp_used_count := (cp_used_count cp + 1) mod 2 ^ 64\<rparr>"
      using assms(4) True c Some fr by (auto simp: cpool_create_pool_def PJ_CACHING_POOL_ARRAY_SIZE_def Let_def k_def)
    ultimately show ?thesis using keep Some fr assms(1) k fresh_used_ok [of p k ?i]
      by (auto simp: created_def cp_inv_def cp_pools_def mod_Suc_eq intro!: exI [of _ k])
  qed
qed

lemma cp_create_cached:
  assumes "cp_inv m cp" "sane_size n" "sane_size inc" "cpool_create_pool m cp n inc = (r, cp')" "\<not> (size_index n = 16 \<or> cp_free_list cp ! size_index n = [])"
  shows "created m cp n inc r cp'"
proof -
  let ?i = "size_index n"
  note spec = size_index_spec [of n] and False = assms(5)
  have free: "length (cp_free_list cp) = 16" "\<And>i. i < 16 \<Longrightarrow> list_all (cached_ok (pool_sizes ! i)) (cp_free_list cp ! i)"
    using assms(1) by (auto simp: cp_inv_def)
  have i: "?i < 16" "?i < length (cp_free_list cp)" using spec(1) free False by auto
  obtain p ps where p: "cp_free_list cp ! ?i = p # ps" using False by (cases "cp_free_list cp ! ?i") auto
  have ok: "cached_ok (pool_sizes ! ?i) p" using free(2) [OF i(1)] p by auto
  let ?fl = "(cp_free_list cp)[?i := ps]"
  have ms: "mset (concat (cp_free_list cp)) = add_mset p (mset (concat ?fl))"
    using mset_concat_update [OF i(2), of ps] p by simp
  define q where "q = (pj_pool_init_int p inc)\<lparr>po_factory_data := ?i\<rparr>"
  have cap: "po_capacity p = pool_sizes ! ?i" "cp_capacity cp = po_capacity p + sum_list (map po_capacity (concat ?fl))"
    using ok assms(1) ms by (simp_all add: cached_ok_def cp_inv_def sum_capacity_mset)
  then have "r = Some q" "cp' = cp\<lparr>cp_free_list := ?fl, cp_capacity := sum_list (map po_capacity (concat ?fl)),
      cp_used_list := cp_used_list cp @ [q], cp_used_count := (cp_used_count cp + 1) mod 2 ^ 64\<rparr>"
    using assms(4) False p i by (auto simp: cpool_create_pool_def PJ_CACHING_POOL_ARRAY_SIZE_def Let_def q_def pj_pool_get_capacity_def pj_pool_init_int_def)
  moreover have "used_ok q" "pool_chunks q = pool_chunks p" "po_block_list q = po_block_list p" "po_addr q = po_addr p" "po_increment_size q = inc"
    using ok assms(3) pool_sizes_range [OF i(1)] i
    by (auto simp: q_def cached_ok_def used_ok_def pool_ok_def pool_chunks_def pj_pool_init_int_def sane_size_def)
  moreover have "\<forall>j < 16. list_all (cached_ok (pool_sizes ! j)) (?fl ! j)" using free free(2) [OF i(1)] i p by (auto simp: nth_list_update)
  ultimately show ?thesis using assms(1) ms cap spec(2) i ok pool_sizes_range [OF i(1)]
    by (auto simp: created_def cp_inv_def cp_pools_def mod_Suc_eq cached_ok_def intro!: exI [of _ "pool_sizes ! ?i"])
qed

lemma cp_create_inv:
  assumes "cp_inv m cp" "sane_size n" "sane_size inc" "cpool_create_pool m cp n inc = (r, cp')"
  shows "created m cp n inc r cp'"
  using cp_create_fresh [OF assms] cp_create_cached [OF assms] by blast

text \<open>Releasing a pool.\<close>

lemma cp_remove_used:
  assumes "cp_inv m cp" "pool \<in> set (cp_used_list cp)"
  defines "us \<equiv> filter (\<lambda>q. po_addr q \<noteq> po_addr pool) (cp_used_list cp)"
  shows "cp_owned cp = mset (pool_chunks pool) + chunks_of (mset us + mset (concat (cp_free_list cp)))"
    "nat ((int (cp_used_count cp) - 1) mod 2 ^ 64) = length us mod 2 ^ 64" "list_all used_ok us"
proof -
  have ms: "mset (cp_used_list cp) = add_mset pool (mset us)"
    using remove_pool_mset [OF cp_inv_addrs [OF assms(1)] assms(2)] by (simp add: us_def)
  then show "cp_owned cp = mset (pool_chunks pool) + chunks_of (mset us + mset (concat (cp_free_list cp)))"
    using assms(1) by (simp add: cp_inv_def cp_pools_def)
  show "list_all used_ok us" using assms(1) by (auto simp: us_def cp_inv_def list_all_iff)
  have "length (cp_used_list cp) = Suc (length us)" using arg_cong [OF ms, of size] by simp
  then have "(int (cp_used_count cp) - 1) mod 2 ^ 64 = (int (Suc (length us)) - 1) mod 2 ^ 64"
    using assms(1) by (simp only: cp_inv_def of_nat_mod of_nat_power of_nat_numeral mod_diff_left_eq)
  also have "\<dots> = int (length us mod 2 ^ 64)" by (simp add: of_nat_mod)
  finally show "nat ((int (cp_used_count cp) - 1) mod 2 ^ 64) = length us mod 2 ^ 64" by simp
qed

lemma total_free:
  assumes "cp_inv m cp"
  shows "total_size (chunks_of (mset (concat (cp_free_list cp)))) = cp_capacity cp"
proof -
  have "pool_chunks p = [(po_addr p, po_capacity p)]" if p: "p \<in> set (concat (cp_free_list cp))" for p
  proof -
    have "length (cp_free_list cp) = 16" using assms by (simp add: cp_inv_def)
    then obtain i where "i < 16" "p \<in> set (cp_free_list cp ! i)" using p by (auto simp: in_set_conv_nth [of _ "cp_free_list cp"])
    then show ?thesis using assms by (auto simp: cp_inv_def cached_ok_def list_all_iff)
  qed
  then have "total_size (chunks_of (mset ps)) = sum_list (map po_capacity ps)" if "set ps \<subseteq> set (concat (cp_free_list cp))" for ps
    using that by (induction ps) auto
  then show ?thesis using assms by (simp add: cp_inv_def)
qed

lemma total_size_member: "c \<in># M \<Longrightarrow> snd c \<le> total_size M"
  by (metis insert_DiffM le_add1 total_size_simps(2))

text \<open>The factory without the pool that is released; a pool that goes back to the cache goes where its size belongs.\<close>

definition cp_without :: "pj_pool_t \<Rightarrow> pj_caching_pool \<Rightarrow> pj_caching_pool" where
  "cp_without pool cp = cp\<lparr>cp_used_list := filter (\<lambda>q. po_addr q \<noteq> po_addr pool) (cp_used_list cp),
     cp_used_count := nat ((int (cp_used_count cp) - 1) mod 2 ^ 64)\<rparr>"

lemma cp_without_owned:
  assumes "cp_inv m cp" "pool \<in> set (cp_used_list cp)"
  shows "policy_inv m (cp_without pool cp)" "cp_owned (cp_without pool cp) = cp_owned cp"
    "mset (pool_chunks pool) \<subseteq># cp_owned (cp_without pool cp)"
    "total_size (mset (pool_chunks pool)) + cp_capacity cp < 2 ^ 64"
proof -
  note p = used_pool [OF assms]
  show "policy_inv m (cp_without pool cp)" "cp_owned (cp_without pool cp) = cp_owned cp"
    "mset (pool_chunks pool) \<subseteq># cp_owned (cp_without pool cp)" using p by (simp_all add: cp_without_def)
  have "total_size (cp_owned cp) < 2 ^ 64" using p(4) total_live by (auto simp: policy_inv_def cp_owned_def)
  then show "total_size (mset (pool_chunks pool)) + cp_capacity cp < 2 ^ 64"
    using cp_remove_used(1) [OF assms] total_free [OF assms(1)] by simp
qed

definition too_big :: "pj_caching_pool \<Rightarrow> pj_pool_t \<Rightarrow> bool" where
  "too_big cp pool \<longleftrightarrow> po_capacity pool > 65536 \<or> (cp_capacity cp + po_capacity pool) mod 2 ^ 64 > cp_max_capacity cp"

lemma cp_recycle_size:
  assumes "cp_inv m cp" "pool \<in> set (cp_used_list cp)" "\<not> too_big cp pool"
  defines "n \<equiv> snd (last (pool_chunks pool))"
  shows "cp_capacity cp + n \<le> cp_max_capacity cp" "(cp_capacity cp + n) mod 2 ^ 64 = cp_capacity cp + n"
    "po_factory_data pool < 16" "n = pool_sizes ! po_factory_data pool"
proof -
  note p = used_pool [OF assms(1,2)] and fit = cp_without_owned(4) [OF assms(1,2)]
  have "n \<le> total_size (mset (pool_chunks pool))" unfolding n_def by (intro total_size_member) (auto simp: pool_chunks_def)
  moreover have "po_capacity pool = total_size (mset (pool_chunks pool))" using p(1) fit by (simp add: used_ok_def)
  ultimately have n: "n \<le> po_capacity pool" "cp_capacity cp + n \<le> cp_max_capacity cp" "(cp_capacity cp + n) mod 2 ^ 64 = cp_capacity cp + n"
    using assms(3) fit by (auto simp: too_big_def)
  then show "cp_capacity cp + n \<le> cp_max_capacity cp" "(cp_capacity cp + n) mod 2 ^ 64 = cp_capacity cp + n" by auto
  show "po_factory_data pool < 16" "n = pool_sizes ! po_factory_data pool"
    using p(1) assms(3) n(1) by (auto simp: used_ok_def too_big_def n_def split: if_splits)
qed

lemma cp_recycle_inv:
  assumes "cp_inv m cp" "pool \<in> set (cp_used_list cp)" "\<not> too_big cp pool" "reset_pool default_block_free (cp_without pool cp) pool = (q, cp2)"
  defines "i \<equiv> po_factory_data pool"
  shows "po_factory_data q = i" "i < 16" "(cp_capacity cp + po_capacity q) mod 2 ^ 64 = cp_capacity cp + po_capacity q"
    "cp_inv m (cp2\<lparr>cp_free_list := (cp_free_list cp)[i := q # cp_free_list cp ! i], cp_capacity := cp_capacity cp + po_capacity q\<rparr>)"
    "cp_used_list cp2 = filter (\<lambda>q. po_addr q \<noteq> po_addr pool) (cp_used_list cp)"
proof -
  note p = used_pool [OF assms(1,2)] and rm = cp_remove_used [OF assms(1,2)] and w = cp_without_owned [OF assms(1,2)]
    and sz = cp_recycle_size [OF assms(1-3)]
  note k = cpf.reset_keeps [OF w(1) p(2) w(3) assms(4)] and fr = cp_reset_frame [OF assms(4)]
  let ?n = "snd (last (pool_chunks pool))"
  have q: "pool_chunks q = [(po_addr q, ?n)]" "po_capacity q = ?n" "po_block_list q = [new_block (po_addr q + 128) (?n - 128)]" "pool_ok q"
    "po_factory_data q = i" using k by (auto simp: pool_chunks_def i_def)
  then show "po_factory_data q = i" "i < 16" "(cp_capacity cp + po_capacity q) mod 2 ^ 64 = cp_capacity cp + po_capacity q"
    using sz by (simp_all add: i_def)
  have len: "length (cp_free_list cp) = 16" using assms(1) by (simp add: cp_inv_def)
  then have ms: "mset (concat ((cp_free_list cp)[i := q # cp_free_list cp ! i])) = add_mset q (mset (concat (cp_free_list cp)))"
    using mset_concat_update [of i "cp_free_list cp" "q # cp_free_list cp ! i"] \<open>i < 16\<close> by simp
  have "cp_owned cp2 = mset (pool_chunks q) + chunks_of (mset (filter (\<lambda>q. po_addr q \<noteq> po_addr pool) (cp_used_list cp)) + mset (concat (cp_free_list cp)))"
    using k rm(1) w(2) by (simp add: ac_simps)
  then show "cp_inv m (cp2\<lparr>cp_free_list := (cp_free_list cp)[i := q # cp_free_list cp ! i], cp_capacity := cp_capacity cp + po_capacity q\<rparr>)"
    using assms(1) rm(2,3) k fr ms q sz len
    by (auto simp: cp_inv_def cp_pools_def cp_without_def sum_capacity_mset cached_ok_def nth_list_update i_def)
  show "cp_used_list cp2 = filter (\<lambda>q. po_addr q \<noteq> po_addr pool) (cp_used_list cp)" using fr by (simp add: cp_without_def)
qed

lemma cp_release_inv:
  assumes "cp_inv m cp" "pool \<in> set (cp_used_list cp)"
  shows "\<exists>cp'. cpool_release_pool cp pool = Some cp' \<and> cp_inv m cp' \<and>
    cp_used_list cp' = filter (\<lambda>q. po_addr q \<noteq> po_addr pool) (cp_used_list cp)"
proof (cases "too_big cp pool")
  case True
  note p = used_pool [OF assms] and rm = cp_remove_used [OF assms] and w = cp_without_owned [OF assms]
  let ?cp' = "pj_pool_destroy_int default_block_free (cp_without pool cp) pool"
  have "policy_inv m ?cp'" "cp_owned ?cp' + mset (pool_chunks pool) = cp_owned cp"
    using cpf.destroy_keeps [OF w(1) p(2) w(3)] w(2) by auto
  then have "cp_inv m ?cp'" using assms(1) rm by (auto simp: cp_inv_def cp_pools_def cp_without_def)
  moreover have "cpool_release_pool cp pool = Some ?cp'"
    using True by (simp add: cpool_release_pool_def cp_without_def too_big_def Let_def PJ_CACHING_POOL_ARRAY_SIZE_def pj_pool_get_capacity_def pool_sizes_def)
  ultimately show ?thesis by (simp add: cp_without_def)
next
  case False
  obtain q cp2 where r: "reset_pool default_block_free (cp_without pool cp) pool = (q, cp2)" by (metis surj_pair)
  let ?i = "po_factory_data pool"
  let ?cp' = "cp2\<lparr>cp_free_list := (cp_free_list cp)[?i := q # cp_free_list cp ! ?i], cp_capacity := cp_capacity cp + po_capacity q\<rparr>"
  note k = cp_recycle_inv [OF assms False r] and fr = cp_reset_frame [OF r]
  have "cpool_release_pool cp pool = Some ?cp'"
    using False r [unfolded cp_without_def] k(1-3) fr(2,3)
    by (simp add: cpool_release_pool_def cp_without_def too_big_def pj_pool_reset_def Let_def PJ_CACHING_POOL_ARRAY_SIZE_def pj_pool_get_capacity_def pool_sizes_def)
  then show ?thesis using k(4,5) by simp
qed

text \<open>Destroying the factory gives all memory back.\<close>

lemma destroy_pools:
  assumes "policy_inv m cp" "list_all pool_ok ps" "chunks_of (mset ps) \<subseteq># cp_owned cp"
  shows "policy_inv m (fold destroy_pool ps cp) \<and> cp_owned (fold destroy_pool ps cp) + chunks_of (mset ps) = cp_owned cp"
  using assms
proof (induction ps arbitrary: cp)
  case (Cons p ps)
  have sub: "mset (pool_chunks p) \<subseteq># cp_owned cp" using Cons.prems(3)
    by (metis chunks_of_simps(2) mset.simps(2) mset_subset_eq_add_left subset_mset.order_trans)
  then have d: "policy_inv m (destroy_pool p cp)" "cp_owned (destroy_pool p cp) + mset (pool_chunks p) = cp_owned cp"
    using cpf.destroy_keeps [OF Cons.prems(1) _ sub] Cons.prems(2) by (auto simp: destroy_pool_def)
  then have "chunks_of (mset ps) \<subseteq># cp_owned (destroy_pool p cp)" using Cons.prems(3) by (metis add.commute chunks_of_simps(2) mset.simps(2) subset_mset.add_le_cancel_left)
  from Cons.IH [OF d(1) _ this] Cons.prems(2) d(2) show ?case by (simp add: ac_simps)
qed simp

lemma fold_destroy_frame: "cp_used_list (fold destroy_pool ps cp) = cp_used_list cp"
  by (induction ps arbitrary: cp) (auto simp: destroy_pool_def)

lemma cp_destroy_owned:
  assumes "cp_inv m cp"
  shows "policy_inv m (pj_caching_pool_destroy cp)" "cp_owned (pj_caching_pool_destroy cp) = {#}"
proof -
  let ?F = "concat (cp_free_list cp)"
  let ?c0 = "cp\<lparr>cp_free_list := replicate PJ_CACHING_POOL_ARRAY_SIZE []\<rparr>"
  let ?c1 = "fold destroy_pool ?F ?c0"
  have len: "length (cp_free_list cp) = 16" using assms by (simp add: cp_inv_def)
  have F: "list_all pool_ok ?F" using assms len by (auto simp: cp_inv_def list_all_iff cached_ok_def in_set_conv_nth [of _ "cp_free_list cp"])
  have U: "list_all pool_ok (cp_used_list cp)" using assms by (auto simp: cp_inv_def list_all_iff used_ok_def)
  have own: "cp_owned cp = chunks_of (mset (cp_used_list cp)) + chunks_of (mset ?F)" using assms by (simp add: cp_inv_def cp_pools_def)
  have 1: "policy_inv m ?c1" "cp_owned ?c1 + chunks_of (mset ?F) = cp_owned cp"
    using destroy_pools [of m ?c0 ?F] assms F own by (auto simp: cp_inv_def)
  then have o1: "cp_owned ?c1 = chunks_of (mset (cp_used_list cp))" using own by simp
  have "pj_caching_pool_destroy cp = fold destroy_pool (cp_used_list cp) (?c1\<lparr>cp_used_list := []\<rparr>)"
    by (simp add: pj_caching_pool_destroy_def Let_def fold_destroy_frame)
  then show "policy_inv m (pj_caching_pool_destroy cp)" "cp_owned (pj_caching_pool_destroy cp) = {#}"
    using destroy_pools [of m "?c1\<lparr>cp_used_list := []\<rparr>" "cp_used_list cp"] 1(1) o1 U by auto
qed

end
