(* ===== verification/PJ_PoolTrace.thy ===== *)
theory PJ_PoolTrace
  imports PJ_PoolCaching
begin

text \<open>
  Sequences of operations on a caching pool and its pools, with the memory that was handed out and is still in use. The
  properties of the allocator are stated for every such sequence.
\<close>

section \<open>Runs\<close>

datatype pool_op = PCreate nat nat | PAlloc nat nat | PReset nat | PRelease nat

text \<open>An allocation that is in use: the pool, the address and the size that was asked for.\<close>

type_synonym alloc_log = "(nat \<times> nat \<times> nat) list"

definition find_pool :: "pj_caching_pool \<Rightarrow> nat \<Rightarrow> pj_pool_t option" where
  "find_pool cp a = find (\<lambda>p. po_addr p = a) (cp_used_list cp)"

definition forget :: "nat \<Rightarrow> alloc_log \<Rightarrow> alloc_log" where
  "forget a log = filter (\<lambda>e. fst e \<noteq> a) log"

fun pool_step :: "malloc_fun \<Rightarrow> pool_op \<Rightarrow> pj_caching_pool \<times> alloc_log \<Rightarrow> (pj_caching_pool \<times> alloc_log) option" where
  "pool_step m (PCreate n inc) (cp, log) = Some (snd (cpool_create_pool m cp n inc), log)"
| "pool_step m (PAlloc a n) (cp, log) =
     (case find_pool cp a of None \<Rightarrow> Some (cp, log)
      | Some pool \<Rightarrow>
          let (r, pool, cp) = pj_pool_alloc (default_block_alloc m) cp pool n;
              cp = cp\<lparr>cp_used_list := replace_pool pool (cp_used_list cp)\<rparr>
          in case r of PR_assert \<Rightarrow> None | PR_null \<Rightarrow> Some (cp, log) | PR_ptr p \<Rightarrow> Some (cp, (a, p, n) # log))"
| "pool_step m (PReset a) (cp, log) =
     (case find_pool cp a of None \<Rightarrow> Some (cp, log)
      | Some pool \<Rightarrow>
          let (pool, cp) = pj_pool_reset default_block_free cp pool
          in Some (cp\<lparr>cp_used_list := replace_pool pool (cp_used_list cp)\<rparr>, forget a log))"
| "pool_step m (PRelease a) (cp, log) =
     (case find_pool cp a of None \<Rightarrow> Some (cp, log)
      | Some pool \<Rightarrow> (case cpool_release_pool cp pool of None \<Rightarrow> None | Some cp \<Rightarrow> Some (cp, forget a log)))"

fun pool_run :: "malloc_fun \<Rightarrow> pool_op list \<Rightarrow> pj_caching_pool \<times> alloc_log \<Rightarrow> (pj_caching_pool \<times> alloc_log) option" where
  "pool_run m [] s = Some s"
| "pool_run m (op # ops) s = (case pool_step m op s of None \<Rightarrow> None | Some s \<Rightarrow> pool_run m ops s)"

fun sane_op :: "pool_op \<Rightarrow> bool" where
  "sane_op (PCreate n inc) = (sane_size n \<and> sane_size inc)"
| "sane_op (PAlloc a n) = sane_size n"
| "sane_op (PReset a) = True"
| "sane_op (PRelease a) = True"

definition empty_heap :: c_heap where
  "empty_heap = \<lparr>hp_live = [], hp_bad_free = False\<rparr>"

section \<open>Blocks lie apart\<close>

lemma apart_list: "list_all chunk_ok xs \<Longrightarrow> sorted_wrt apart xs \<Longrightarrow> c \<in> set xs \<Longrightarrow> d \<in> set xs \<Longrightarrow> c \<noteq> d \<Longrightarrow> apart c d"
proof (induction xs)
  case (Cons x xs)
  then show ?case using apart_sym [of x d] apart_sym [of x c] by auto
qed simp

definition within :: "pj_pool_block \<Rightarrow> nat \<times> nat \<Rightarrow> bool" where
  "within b c \<longleftrightarrow> fst c \<le> pb_addr b \<and> pb_end b = fst c + snd c \<and> block_ok b"

lemma within_pool: "pool_ok p \<Longrightarrow> list_all2 within (po_block_list p) (pool_chunks p)"
proof -
  assume p: "pool_ok p"
  have "list_all2 within bs (map block_chunk bs)" if "list_all block_ok bs" for bs
    using that by (induction bs) (auto simp: within_def block_chunk_def block_ok_def)
  moreover have "list_all block_ok (butlast (po_block_list p))" using p by (auto simp: pool_ok_def list_all_iff dest: in_set_butlastD)
  moreover have "within (last (po_block_list p)) (po_addr p, pb_end (last (po_block_list p)) - po_addr p)"
  proof -
    have "block_ok (last (po_block_list p))" "pb_addr (last (po_block_list p)) = po_addr p + sizeof_pool" using p by (auto simp: pool_ok_def list_all_iff)
    then show ?thesis by (auto simp: within_def block_ok_def)
  qed
  moreover have "po_block_list p = butlast (po_block_list p) @ [last (po_block_list p)]" using p by (simp add: pool_ok_def)
  ultimately show ?thesis unfolding pool_chunks_def by (metis list_all2_Cons list_all2_Nil list_all2_appendI)
qed

lemma within_pools: "list_all pool_ok ps \<Longrightarrow> list_all2 within (concat (map po_block_list ps)) (concat (map pool_chunks ps))"
  by (induction ps) (auto intro: list_all2_appendI within_pool)

lemma within_apart: "within b c \<Longrightarrow> apart x c \<Longrightarrow> apart x (block_chunk b)"
  by (auto simp: within_def apart_def block_chunk_def block_ok_def)

definition used_blocks :: "pj_caching_pool \<Rightarrow> pj_pool_block list" where
  "used_blocks cp = concat (map po_block_list (cp_used_list cp))"

lemma used_chunks:
  assumes "cp_inv m cp"
  defines "cs \<equiv> concat (map pool_chunks (cp_used_list cp))"
  shows "list_all2 within (used_blocks cp) cs" "distinct cs" "set cs \<subseteq> set (hp_live (cp_heap cp))"
proof -
  have "list_all pool_ok (cp_used_list cp)" using assms by (auto simp: cp_inv_def list_all_iff used_ok_def)
  then show "list_all2 within (used_blocks cp) cs" unfolding used_blocks_def cs_def by (rule within_pools)
  let ?all = "cs @ concat (map pool_chunks (concat (cp_free_list cp)))"
  have ms: "mset (hp_live (cp_heap cp)) = mset ?all" using assms by (simp add: cp_inv_def cp_owned_def cp_pools_def chunks_of_list)
  have "distinct (hp_live (cp_heap cp))" using assms live_distinct by (auto simp: cp_inv_def policy_inv_def heap_ok_def distinct_map)
  then have "distinct ?all" using ms mset_eq_imp_distinct_iff by blast
  then show "distinct cs" by simp
  show "set cs \<subseteq> set (hp_live (cp_heap cp))" using mset_eq_setD [OF ms] by auto
qed

lemma block_within:
  assumes "cp_inv m cp" "b \<in> set (used_blocks cp)"
  shows "\<exists>c \<in> set (hp_live (cp_heap cp)). within b c"
proof -
  note u = used_chunks [OF assms(1)]
  obtain i where "i < length (used_blocks cp)" "b = used_blocks cp ! i" using assms(2) by (auto simp: in_set_conv_nth)
  then show ?thesis using u(1,3) by (metis (no_types, lifting) list_all2_conv_all_nth nth_mem subsetD)
qed

lemma blocks_apart:
  assumes "cp_inv m cp" "b \<in> set (used_blocks cp)" "c \<in> set (used_blocks cp)" "b \<noteq> c"
  shows "apart (block_chunk b) (block_chunk c)"
proof -
  let ?cs = "concat (map pool_chunks (cp_used_list cp))"
  note u = used_chunks [OF assms(1)]
  obtain i j where ij: "i < length (used_blocks cp)" "b = used_blocks cp ! i" "j < length (used_blocks cp)" "c = used_blocks cp ! j"
    using assms(2,3) by (auto simp: in_set_conv_nth)
  have len: "length ?cs = length (used_blocks cp)" using u(1) by (simp add: list_all2_lengthD)
  have "?cs ! i \<noteq> ?cs ! j" using ij assms(4) u(2) len by (auto simp: nth_eq_iff_index_eq)
  moreover have "?cs ! i \<in> set (hp_live (cp_heap cp))" "?cs ! j \<in> set (hp_live (cp_heap cp))" using ij len u(3) nth_mem by (metis subsetD)+
  moreover have "list_all chunk_ok (hp_live (cp_heap cp))" "sorted_wrt apart (hp_live (cp_heap cp))"
    using assms(1) by (auto simp: cp_inv_def policy_inv_def heap_ok_def)
  ultimately have "apart (?cs ! i) (?cs ! j)" using apart_list by blast
  moreover have "within b (?cs ! i)" "within c (?cs ! j)" using u(1) ij by (auto simp: list_all2_conv_all_nth)
  ultimately show ?thesis using within_apart apart_sym by metis
qed


section \<open>The memory in use\<close>

definition log_ok :: "pj_caching_pool \<Rightarrow> alloc_log \<Rightarrow> bool" where
  "log_ok cp log \<longleftrightarrow> sorted_wrt (\<lambda>e f. apart (snd e) (snd f)) log \<and>
     (\<forall>(a, p, n) \<in> set log. p mod 4 = 0 \<and> (\<exists>pool \<in> set (cp_used_list cp). po_addr pool = a \<and>
        (\<exists>b \<in> set (po_block_list pool). pb_buf b \<le> p \<and> p + n \<le> pb_cur b)))"

definition run_inv :: "malloc_fun \<Rightarrow> pj_caching_pool \<times> alloc_log \<Rightarrow> bool" where
  "run_inv m s \<longleftrightarrow> cp_inv m (fst s) \<and> log_ok (fst s) (snd s)"

lemma find_pool_Some: "find_pool cp a = Some pool \<Longrightarrow> pool \<in> set (cp_used_list cp) \<and> po_addr pool = a"
  by (auto simp: find_pool_def find_Some_iff)

lemma log_ok_more:
  assumes "log_ok cp log" "\<And>pool b. pool \<in> set (cp_used_list cp) \<Longrightarrow> b \<in> set (po_block_list pool) \<Longrightarrow>
    \<exists>pool' \<in> set (cp_used_list cp'). po_addr pool' = po_addr pool \<and> (\<exists>b' \<in> set (po_block_list pool'). pb_buf b' = pb_buf b \<and> pb_cur b \<le> pb_cur b')"
  shows "log_ok cp' log"
proof -
  have "\<exists>pool \<in> set (cp_used_list cp'). po_addr pool = a \<and> (\<exists>b \<in> set (po_block_list pool). pb_buf b \<le> p \<and> p + n \<le> pb_cur b)"
    if "(a, p, n) \<in> set log" for a p n
  proof -
    obtain pool b where e: "pool \<in> set (cp_used_list cp)" "po_addr pool = a" "b \<in> set (po_block_list pool)" "pb_buf b \<le> p" "p + n \<le> pb_cur b"
      using assms(1) \<open>(a, p, n) \<in> set log\<close> by (auto simp: log_ok_def dest!: bspec)
    then show ?thesis using assms(2) [OF e(1,3)] by (metis le_trans)
  qed
  then show ?thesis using assms(1) by (auto simp: log_ok_def)
qed

lemma log_ok_forget:
  assumes "log_ok cp log" "\<And>pool. pool \<in> set (cp_used_list cp) \<Longrightarrow> po_addr pool \<noteq> a \<Longrightarrow> pool \<in> set (cp_used_list cp')"
  shows "log_ok cp' (forget a log)"
  using assms by (auto simp: log_ok_def forget_def sorted_wrt_filter) fastforce

lemma log_entry_apart:
  assumes "cp_inv m cp" "log_ok cp log" "e \<in> set log" "pb_cur b = p" "pb_addr b \<le> p" "p + n \<le> pb_end b"
    "b \<in> set (used_blocks cp) \<or> (\<forall>c \<in># cp_owned cp. apart (block_chunk b) c)"
  shows "apart (p, n) (snd e)"
proof -
  obtain a2 p2 n2 where e: "e = (a2, p2, n2)" by (metis prod_cases3)
  obtain b2 where b2: "b2 \<in> set (used_blocks cp)" "pb_buf b2 \<le> p2" "p2 + n2 \<le> pb_cur b2"
    using assms(2,3) e by (auto simp: log_ok_def used_blocks_def dest!: bspec)
  obtain c where c: "c \<in> set (hp_live (cp_heap cp))" "within b2 c" using block_within [OF assms(1) b2(1)] by blast
  have ok: "block_ok b2" using c(2) by (simp add: within_def)
  show ?thesis
  proof (cases "b = b2")
    case True
    then show ?thesis using b2 assms(4) e by (auto simp: apart_def)
  next
    case False
    have "apart (block_chunk b) (block_chunk b2)"
      using assms(7) blocks_apart [OF assms(1) _ b2(1) False] within_apart [OF c(2), of "block_chunk b"] c(1) by (auto simp: cp_owned_def)
    then show ?thesis using ok b2 assms(4-6) e by (auto simp: apart_def block_chunk_def block_ok_def)
  qed
qed

lemma alloc_step:
  assumes "run_inv m (cp, log)" "pool \<in> set (cp_used_list cp)" "sane_size n"
    "pj_pool_alloc (default_block_alloc m) cp pool n = (r, pool', cp')"
  defines "cp1 \<equiv> cp'\<lparr>cp_used_list := replace_pool pool' (cp_used_list cp)\<rparr>"
  shows "r \<noteq> PR_assert" "run_inv m (cp1, log)" "r = PR_ptr p \<Longrightarrow> run_inv m (cp1, (po_addr pool, p, n) # log)"
proof -
  have inv: "cp_inv m cp" "log_ok cp log" using assms(1) by (simp_all add: run_inv_def)
  note u = used_pool [OF inv(1) assms(2)] and a = cp_alloc_inv [OF inv(1) assms(2-4)]
  note keep = cpf.alloc_keeps [OF u(4,2) assms(3,4)]
  show "r \<noteq> PR_assert" by (rule a(2))
  have used: "set (cp_used_list cp1) = insert pool' (set (cp_used_list cp) - {pool})" "po_addr pool' = po_addr pool"
    using replace_pool_set [OF cp_inv_addrs [OF inv(1)] assms(2)] keep by (simp_all add: cp1_def)
  have lg: "log_ok cp1 log"
  proof (rule log_ok_more [OF inv(2)])
    fix q b assume q: "q \<in> set (cp_used_list cp)" "b \<in> set (po_block_list q)"
    show "\<exists>q' \<in> set (cp_used_list cp1). po_addr q' = po_addr q \<and> (\<exists>b' \<in> set (po_block_list q'). pb_buf b' = pb_buf b \<and> pb_cur b \<le> pb_cur b')"
      using used q cpf.alloc_grows [OF u(4,2) assms(3,4)] by (cases "q = pool") auto
  qed
  then show "run_inv m (cp1, log)" using a(1) by (simp add: run_inv_def cp1_def)
  show "run_inv m (cp1, (po_addr pool, p, n) # log)" if r: "r = PR_ptr p"
  proof -
    obtain b b' where b: "b' \<in> set (po_block_list pool')" "pb_buf b' \<le> p" "p + n \<le> pb_cur b'" "p mod 4 = 0" "pb_cur b = p" "pb_addr b \<le> p"
      "p + n \<le> pb_end b" "b \<in> set (po_block_list pool) \<or> (\<forall>c \<in># cp_owned cp. apart (block_chunk b) c)"
      using cpf.alloc_region [OF u(4,2) assms(3) assms(4) [unfolded r]] by (elim exE conjE) (rule that)
    then have "b \<in> set (used_blocks cp) \<or> (\<forall>c \<in># cp_owned cp. apart (block_chunk b) c)" using assms(2) by (auto simp: used_blocks_def)
    from log_entry_apart [OF inv _ b(5-7) this] lg b(1-4) used a(1)
    show ?thesis by (auto simp: run_inv_def log_ok_def cp1_def)
  qed
qed

lemma create_step:
  assumes "run_inv m (cp, log)" "sane_size n" "sane_size inc"
  shows "run_inv m (snd (cpool_create_pool m cp n inc), log)"
proof -
  have inv: "cp_inv m cp" "log_ok cp log" using assms(1) by (simp_all add: run_inv_def)
  obtain r cp' where c: "cpool_create_pool m cp n inc = (r, cp')" by (metis surj_pair)
  have k: "cp_inv m cp'" "set (cp_used_list cp) \<subseteq> set (cp_used_list cp')"
    using cp_create_inv [OF inv(1) assms(2,3) c] by (auto simp: created_def split: option.splits)
  then have "log_ok cp' log" by (intro log_ok_more [OF inv(2)]) auto
  then show ?thesis using c k by (simp add: run_inv_def)
qed

lemma reset_step:
  assumes "run_inv m (cp, log)" "pool \<in> set (cp_used_list cp)" "pj_pool_reset default_block_free cp pool = (pool', cp')"
  shows "run_inv m (cp'\<lparr>cp_used_list := replace_pool pool' (cp_used_list cp')\<rparr>, forget (po_addr pool) log)"
proof -
  have inv: "cp_inv m cp" "log_ok cp log" using assms(1) by (simp_all add: run_inv_def)
  note k = cp_reset_inv(1) [OF inv(1) assms(2,3)] and fr = cp_reset_frame(1) [OF assms(3) [unfolded pj_pool_reset_def]]
  have "po_addr pool' = po_addr pool" using assms(3) by (auto simp: pj_pool_reset_def reset_pool_def Let_def split: if_splits)
  then have "log_ok (cp'\<lparr>cp_used_list := replace_pool pool' (cp_used_list cp)\<rparr>) (forget (po_addr pool) log)"
    by (intro log_ok_forget [OF inv(2)]) (auto simp: replace_pool_def)
  then show ?thesis using k fr by (simp add: run_inv_def)
qed

lemma release_step:
  assumes "run_inv m (cp, log)" "pool \<in> set (cp_used_list cp)"
  shows "\<exists>cp'. cpool_release_pool cp pool = Some cp' \<and> run_inv m (cp', forget (po_addr pool) log)"
proof -
  have inv: "cp_inv m cp" "log_ok cp log" using assms(1) by (simp_all add: run_inv_def)
  obtain cp' where k: "cpool_release_pool cp pool = Some cp'" "cp_inv m cp'"
    "cp_used_list cp' = filter (\<lambda>q. po_addr q \<noteq> po_addr pool) (cp_used_list cp)" using cp_release_inv [OF inv(1) assms(2)] by blast
  have "log_ok cp' (forget (po_addr pool) log)" using k(3) by (intro log_ok_forget [OF inv(2)]) auto
  then show ?thesis using k by (simp add: run_inv_def)
qed

lemma step_inv:
  assumes "run_inv m s" "sane_op op"
  shows "\<exists>s'. pool_step m op s = Some s' \<and> run_inv m s'"
proof -
  obtain cp log where s: "s = (cp, log)" by (metis surj_pair)
  note inv = assms(1) [unfolded s]
  show ?thesis
  proof (cases op)
    case (PCreate n inc)
    then show ?thesis using s create_step [OF inv] assms(2) by simp
  next
    case (PAlloc a n)
    show ?thesis
    proof (cases "find_pool cp a")
      case (Some pool)
      obtain r pool' cp' where c: "pj_pool_alloc (default_block_alloc m) cp pool n = (r, pool', cp')" by (metis prod_cases3)
      have "pool \<in> set (cp_used_list cp)" "po_addr pool = a" "sane_size n" using find_pool_Some [OF Some] assms(2) PAlloc by auto
      from alloc_step [OF inv this(1,3) c] this(2) cp_alloc_frame(1) [OF c] show ?thesis
        using s PAlloc Some c by (auto simp: Let_def split: pool_result.splits)
    qed (use s PAlloc assms(1) in simp)
  next
    case (PReset a)
    show ?thesis
    proof (cases "find_pool cp a")
      case (Some pool)
      obtain pool' cp' where c: "pj_pool_reset default_block_free cp pool = (pool', cp')" by (metis surj_pair)
      from reset_step [OF inv _ c] find_pool_Some [OF Some] show ?thesis using s PReset Some c by simp
    qed (use s PReset assms(1) in simp)
  next
    case (PRelease a)
    show ?thesis
    proof (cases "find_pool cp a")
      case (Some pool)
      from release_step [OF inv] find_pool_Some [OF Some] show ?thesis using s PRelease Some by fastforce
    qed (use s PRelease assms(1) in simp)
  qed
qed

lemma pool_run_inv: "run_inv m s \<Longrightarrow> list_all sane_op ops \<Longrightarrow> \<exists>s'. pool_run m ops s = Some s' \<and> run_inv m s'"
proof (induction ops arbitrary: s)
  case (Cons op ops)
  then obtain s' where "pool_step m op s = Some s'" "run_inv m s'" using step_inv by fastforce
  then show ?case using Cons by simp
qed simp

lemma init_inv: "malloc_ok m \<Longrightarrow> run_inv m (pj_caching_pool_init empty_heap max_capacity, [])"
  by (simp add: run_inv_def cp_inv_def log_ok_def policy_inv_def heap_ok_def cp_owned_def cp_pools_def pj_caching_pool_init_def empty_heap_def
    PJ_CACHING_POOL_ARRAY_SIZE_def nth_replicate)

lemma reachable_inv:
  assumes "malloc_ok m" "list_all sane_op ops" "pool_run m ops (pj_caching_pool_init empty_heap max_capacity, []) = Some (cp, log)"
  shows "cp_inv m cp" "log_ok cp log"
  using pool_run_inv [OF init_inv [OF assms(1)] assms(2), of max_capacity] assms(3) by (auto simp: run_inv_def)

lemma log_in_chunk:
  assumes "cp_inv m cp" "log_ok cp log" "(a, p, n) \<in> set log"
  shows "\<exists>(c, k) \<in> set (hp_live (cp_heap cp)). c + 40 \<le> p \<and> p + n \<le> c + k"
proof -
  obtain b where b: "b \<in> set (used_blocks cp)" "pb_buf b \<le> p" "p + n \<le> pb_cur b"
    using assms(2,3) by (auto simp: log_ok_def used_blocks_def dest!: bspec)
  obtain c where "c \<in> set (hp_live (cp_heap cp))" "within b c" using block_within [OF assms(1) b(1)] by blast
  then show ?thesis using b by (auto simp: within_def block_ok_def sizeof_block_def intro!: bexI [of _ c])
qed


section \<open>Properties\<close>

text \<open>An allocator that places every chunk behind all others, and a run on it.\<close>

definition bump_malloc :: malloc_fun where
  "bump_malloc live n =
     (let a = (foldr (\<lambda>c x. max (fst c + snd c) x) live 16 + 7) div 8 * 8 in if a + n < 2 ^ 64 then Some a else None)"

lemma bump_malloc_ok: "malloc_ok bump_malloc"
proof -
  have top: "fst c + snd c \<le> foldr (\<lambda>c x. max (fst c + snd c) x) live 16" if "c \<in> set live" for c :: "nat \<times> nat" and live
    using that by (induction live) auto
  have low: "16 \<le> foldr (\<lambda>c x. max (fst c + snd c) x) live 16" for live :: "(nat \<times> nat) list" by (induction live) auto
  have up: "x \<le> (x + 7) div 8 * 8" for x :: nat by presburger
  show ?thesis unfolding malloc_ok_def
  proof (intro allI impI)
    fix live n a assume n: "0 < n" and a: "bump_malloc live n = Some a"
    then have a': "a = (foldr (\<lambda>c x. max (fst c + snd c) x) live 16 + 7) div 8 * 8" "a + n < 2 ^ 64"
      by (auto simp: bump_malloc_def Let_def split: if_splits)
    then have "foldr (\<lambda>c x. max (fst c + snd c) x) live 16 \<le> a" using up by simp
    then show "chunk_ok (a, n) \<and> (\<forall>c \<in> set live. apart (a, n) c)"
      using a' n low [of live] top [of _ live] by (fastforce simp: chunk_ok_def apart_def)
  qed
qed

definition demo_ops :: "pool_op list" where
  "demo_ops = [PCreate 1000 1000, PAlloc 16 100, PAlloc 16 3, PAlloc 16 900, PCreate 300 0, PRelease 16, PCreate 600 0, PAlloc 16 7]"

lemma size_down_5: "size_down n 5 = (if n \<le> 4096 then if n \<le> 2048 then if n \<le> 1024 then if n \<le> 512 then if n \<le> 256 then 0 else 1 else 2 else 3 else 4 else 5)"
proof -
  have "size_down n 5 = size_down n (Suc (Suc (Suc (Suc (Suc 0)))))" by (simp only: numeral_eq_Suc pred_numeral_simps BitM.simps)
  then show ?thesis by (simp add: pool_sizes_def)
qed

lemma pool_sizes_nth: "pool_sizes ! 0 = 256" "pool_sizes ! 1 = 512" "pool_sizes ! 2 = 1024" "pool_sizes ! 5 = 8192" "pool_sizes ! 15 = 65536"
  by (simp_all add: pool_sizes_def)

lemmas pool_eval = pj_caching_pool_init_def cpool_create_pool_def size_index_def START_SIZE_def PJ_CACHING_POOL_ARRAY_SIZE_def
  pj_pool_create_int_def pj_pool_init_int_def default_block_alloc_def cpool_on_block_alloc_def cpool_on_block_free_def c_malloc_def bump_malloc_def
  pool_sizeof ALIGN_PTR_def pj_pool_alloc_def pj_pool_alloc_from_block_def pool_round_def pj_pool_allocate_find_def grow_size_def
  pj_pool_create_block_def find_pool_def replace_pool_def pj_pool_get_capacity_def cpool_release_pool_def pj_pool_destroy_int_def
  pj_pool_reset_def reset_pool_def free_block_def default_block_free_def c_free_def forget_def size_up.simps size_down_5 empty_heap_def pool_sizes_nth

lemma demo_run:
  "map_option snd (pool_run bump_malloc demo_ops (pj_caching_pool_init empty_heap 10000, [])) = Some [(16, 184, 7)]"
  by (simp add: demo_ops_def pool_eval Let_def)

lemma demo_sane: "list_all sane_op demo_ops"
  by (simp add: demo_ops_def sane_size_def)

lemma demo_state: "\<exists>cp. pool_run bump_malloc demo_ops (pj_caching_pool_init empty_heap 10000, []) = Some (cp, [(16, 184, 7)])"
proof -
  obtain s where "pool_run bump_malloc demo_ops (pj_caching_pool_init empty_heap 10000, []) = Some s" "snd s = [(16, 184, 7)]"
    using demo_run unfolding map_option_eq_Some by blast
  then show ?thesis by (cases s) auto
qed

text \<open>
  C10: Memory safety of the allocator. Whatever sequence of creating, allocating from, resetting and releasing pools is run on a
  caching pool, with sizes below 2^62, no assertion fails, and all allocations that are in use are aligned to four
  bytes, lie inside one chunk that malloc gave out, behind the header of the block, and do not overlap.
\<close>

theorem pool_memory_disjoint:
  assumes "malloc_ok m" "list_all sane_op ops"
  shows "\<exists>cp log. pool_run m ops (pj_caching_pool_init empty_heap max_capacity, []) = Some (cp, log) \<and>
    sorted_wrt (\<lambda>e f. apart (snd e) (snd f)) log \<and>
    (\<forall>(a, p, n) \<in> set log. p mod 4 = 0 \<and> (\<exists>(c, k) \<in> set (hp_live (cp_heap cp)). c + 40 \<le> p \<and> p + n \<le> c + k))"
proof -
  obtain cp log where r: "pool_run m ops (pj_caching_pool_init empty_heap max_capacity, []) = Some (cp, log)" "cp_inv m cp" "log_ok cp log"
    using pool_run_inv [OF init_inv [OF assms(1)] assms(2), of max_capacity] by (auto simp: run_inv_def)
  then show ?thesis using log_in_chunk [OF r(2,3)]
    by (intro exI [of _ cp] exI [of _ log]) (auto simp: log_ok_def)
qed

theorem pool_memory_disjoint_witness:
  "\<exists>cp log. pool_run bump_malloc demo_ops (pj_caching_pool_init empty_heap 10000, []) = Some (cp, log) \<and> log = [(16, 184, 7)] \<and>
    sorted_wrt (\<lambda>e f. apart (snd e) (snd f)) log"
  using pool_memory_disjoint [OF bump_malloc_ok demo_sane, of 10000] demo_state by fastforce

text \<open>
  C11: The caching pool keeps account of its memory. In every state that such a sequence reaches, the size in use
  that it counts is the size of all chunks taken from malloc, its capacity is that of the pools in the cache and within
  the maximum, and free was never called with anything but a chunk of malloc; destroying it gives every chunk back.
\<close>

theorem cpool_no_leak:
  assumes "malloc_ok m" "list_all sane_op ops" "pool_run m ops (pj_caching_pool_init empty_heap max_capacity, []) = Some (cp, log)"
  defines "cp' \<equiv> pj_caching_pool_destroy cp"
  shows "cp_used_size cp = total_size (mset (hp_live (cp_heap cp))) \<and> cp_capacity cp = sum_list (map po_capacity (concat (cp_free_list cp))) \<and>
    cp_capacity cp \<le> cp_max_capacity cp \<and> \<not> hp_bad_free (cp_heap cp) \<and>
    hp_live (cp_heap cp') = [] \<and> \<not> hp_bad_free (cp_heap cp') \<and> cp_used_size cp' = 0"
proof -
  note i = reachable_inv(1) [OF assms(1-3)]
  show ?thesis using i cp_destroy_owned [OF i]
    by (simp add: cp'_def cp_owned_def) (simp add: cp_inv_def policy_inv_def heap_ok_def)
qed

theorem cpool_no_leak_witness:
  "\<exists>cp. pool_run bump_malloc demo_ops (pj_caching_pool_init empty_heap 10000, []) = Some (cp, [(16, 184, 7)]) \<and>
    cp_used_size cp = total_size (mset (hp_live (cp_heap cp))) \<and> hp_live (cp_heap (pj_caching_pool_destroy cp)) = []"
  using demo_state cpool_no_leak [OF bump_malloc_ok demo_sane] by blast

text \<open>
  A pool that the caching pool creates, a new one or one from its cache, is empty and has room for the whole size that was
  asked for (less the two headers), grows by the increment that was asked for, and is in use at an address of its own.
\<close>

theorem cpool_create_room:
  assumes "malloc_ok m" "list_all sane_op ops" "pool_run m ops (pj_caching_pool_init empty_heap max_capacity, []) = Some (cp, log)"
    "sane_size n" "sane_size inc" "cpool_create_pool m cp n inc = (Some pool, cp')"
  shows "\<exists>b. po_block_list pool = [b] \<and> pb_cur b = po_addr pool + 168 \<and> po_addr pool + n \<le> pb_end b \<and> po_increment_size pool = inc \<and>
    cp_used_list cp' = cp_used_list cp @ [pool] \<and> po_addr pool \<notin> po_addr ` set (cp_used_list cp)"
proof -
  note c = cp_create_inv [OF reachable_inv(1) [OF assms(1-3)] assms(4-6)]
  then obtain k where k: "po_block_list pool = [new_block (po_addr pool + 128) (k - 128)]" "n \<le> k" "168 \<le> k" "po_increment_size pool = inc"
    "cp_used_list cp' = cp_used_list cp @ [pool]" "cp_inv m cp'" by (auto simp: created_def)
  have "po_addr pool \<notin> po_addr ` set (cp_used_list cp)" using cp_inv_addrs [OF k(6)] k(5) by auto
  then show ?thesis using k by (auto simp: new_block_def pool_sizeof)
qed

theorem cpool_create_room_witness:
  "\<exists>pool cp b. cpool_create_pool bump_malloc (pj_caching_pool_init empty_heap 10000) 1000 50 = (Some pool, cp) \<and>
    po_block_list pool = [b] \<and> pb_cur b = po_addr pool + 168 \<and> po_addr pool + 1000 \<le> pb_end b"
proof -
  obtain pool cp where c: "cpool_create_pool bump_malloc (pj_caching_pool_init empty_heap 10000) 1000 50 = (Some pool, cp)"
    by (simp add: pool_eval Let_def)
  show ?thesis using cpool_create_room [OF bump_malloc_ok _ _ _ _ c, of "[]"] c by (auto simp: sane_size_def)
qed

text \<open>
  C38: An allocation from a pool in use gives a pointer, unless the pool may not grow or malloc has no memory for the
  block that it would grow by; it never fails in another way.
\<close>

theorem pool_alloc_null_only:
  assumes "malloc_ok m" "list_all sane_op ops" "pool_run m ops (pj_caching_pool_init empty_heap max_capacity, []) = Some (cp, log)"
    "find_pool cp a = Some pool" "sane_size n" "pj_pool_alloc (default_block_alloc m) cp pool n = (r, pool', cp')"
  shows "if r = PR_null then po_increment_size pool = 0 \<or> m (hp_live (cp_heap cp)) (grow_size (po_increment_size pool) n) = None
    else (\<exists>p. r = PR_ptr p)"
proof -
  have "pool \<in> set (cp_used_list cp)" using find_pool_Some [OF assms(4)] by blast
  note u = used_pool [OF reachable_inv(1) [OF assms(1-3)] this]
  have none: "fst (default_block_alloc m cp k) = None \<longleftrightarrow> m (hp_live (cp_heap cp)) k = None" for k
    by (auto simp: default_block_alloc_def cpool_on_block_alloc_def c_malloc_def Let_def split: option.splits)
  show ?thesis by (rule cpf.alloc_cases [OF u(4,2) assms(5,6)]) (auto simp: none)
qed

theorem pool_alloc_null_only_witness:
  "\<exists>cp pool p. pool_run bump_malloc [PCreate 1000 50] (pj_caching_pool_init empty_heap 10000, []) = Some (cp, []) \<and> find_pool cp 16 = Some pool \<and>
    fst (pj_pool_alloc (default_block_alloc bump_malloc) cp pool 5000) = PR_ptr p"
proof -
  define cp where "cp = snd (cpool_create_pool bump_malloc (pj_caching_pool_init empty_heap 10000) 1000 50)"
  have run: "pool_run bump_malloc [PCreate 1000 50] (pj_caching_pool_init empty_heap 10000, []) = Some (cp, [])" by (simp add: cp_def)
  have live: "hp_live (cp_heap cp) = [(16, 1024)]" by (simp add: cp_def pool_eval Let_def)
  have "map_option po_increment_size (find_pool cp 16) = Some 50" by (simp add: cp_def pool_eval Let_def)
  then obtain pool where pool: "find_pool cp 16 = Some pool" "po_increment_size pool = 50" by auto
  obtain r pool' cp' where r: "pj_pool_alloc (default_block_alloc bump_malloc) cp pool 5000 = (r, pool', cp')" by (metis prod_cases3)
  have "bump_malloc [(16, 1024)] (grow_size 50 5000) \<noteq> None" by (simp add: pool_eval Let_def)
  then have "\<exists>p. r = PR_ptr p"
    using pool_alloc_null_only [OF bump_malloc_ok _ run pool(1) _ r] pool(2) live by (auto simp: sane_size_def split: if_splits)
  then show ?thesis using run pool r by auto
qed

text \<open>
  Flaws. A size close to 2^64 wraps to zero when it is rounded up, and the allocation succeeds without any memory. A pool on
  a buffer at an odd address is moved by the remainder of the address in place of its complement, so that the structure
  is not aligned; when the buffer is only as large as the headers, the next pointer is behind its end, and every
  allocation from it succeeds outside of the buffer.
\<close>

lemma pool_round_wraps: "pj_pool_alloc_from_block b (2 ^ 64 - 1) = (Some (pb_cur b), b)"
  by (simp add: pj_pool_alloc_from_block_def pool_round_def PJ_POOL_ALIGNMENT_def)

lemma pool_on_buf_misaligned: "map_option po_addr (fst (pj_pool_create_on_buf 1001 400)) = Some 1002"
  by (simp add: pj_pool_create_on_buf_def pj_pool_create_int_def stack_alloc_def pj_pool_init_int_def pool_sizeof Let_def)

lemma pool_on_buf_outside:
  "map_option (\<lambda>pool. fst (pj_pool_alloc stack_alloc None pool 5000)) (fst (pj_pool_create_on_buf 1001 169)) = Some (PR_ptr 1172)"
  by (simp add: pj_pool_create_on_buf_def pj_pool_create_int_def stack_alloc_def pj_pool_init_int_def pool_sizeof Let_def ALIGN_PTR_def
    pj_pool_alloc_def pj_pool_alloc_from_block_def pool_round_def)

end
