(* ===== verification/PJ_Dns.thy ===== *)
theory PJ_Dns
  imports PJ_String
begin

text \<open>
  DNS packets, \<^verbatim>\<open>pjlib-util/src/pjlib-util/dns.c\<close>: queries are made, and packets from the network are taken apart. The
  memory that holds a packet is a function from offsets to bytes, defined also behind the end of the packet, since the code
  reads there; how far it does is a property below. A pointer is an offset. Names are the bytes that are written
  to a buffer from the pool, which is taken to have memory.
\<close>

section \<open>Structures\<close>

abbreviation PJLIB_UTIL_EDNSQRYTOOSMALL :: pj_status_t where "PJLIB_UTIL_EDNSQRYTOOSMALL \<equiv> PJ_ECODE 320040"
abbreviation PJLIB_UTIL_EDNSINSIZE :: pj_status_t where "PJLIB_UTIL_EDNSINSIZE \<equiv> PJ_ECODE 320041"
abbreviation PJLIB_UTIL_EDNSINCLASS :: pj_status_t where "PJLIB_UTIL_EDNSINCLASS \<equiv> PJ_ECODE 320042"
abbreviation PJLIB_UTIL_EDNSINNAMEPTR :: pj_status_t where "PJLIB_UTIL_EDNSINNAMEPTR \<equiv> PJ_ECODE 320043"

type_synonym memory = "nat \<Rightarrow> pj_uint8_t"

record pj_dns_hdr =
  dh_id :: pj_uint16_t
  dh_flags :: pj_uint16_t
  dh_qdcount :: pj_uint16_t
  dh_anscount :: pj_uint16_t
  dh_nscount :: pj_uint16_t
  dh_arcount :: pj_uint16_t

record pj_dns_parsed_query =
  dq_name :: bytes
  dq_type :: pj_uint16_t
  dq_dnsclass :: pj_uint16_t

text \<open>The union of resource data. The names of CNAME, NS and PTR records share one place.\<close>

datatype dns_rdata =
    RD_none
  | RD_srv (rd_prio: pj_uint16_t) (rd_weight: pj_uint16_t) (rd_port: pj_uint16_t) (rd_target: bytes)
  | RD_name bytes
  | RD_a bytes
  | RD_aaaa bytes

record pj_dns_parsed_rr =
  rr_name :: bytes
  rr_type :: pj_uint16_t
  rr_dnsclass :: pj_uint16_t
  rr_ttl :: pj_uint32_t
  rr_rdlength :: pj_uint16_t
  rr_data :: "bytes option"
  rr_rdata :: dns_rdata

record pj_dns_parsed_packet =
  dp_hdr :: pj_dns_hdr
  dp_q :: "pj_dns_parsed_query list"
  dp_ans :: "pj_dns_parsed_rr list"
  dp_ns :: "pj_dns_parsed_rr list"
  dp_arr :: "pj_dns_parsed_rr list"

definition PJ_DNS_TYPE_A :: pj_uint16_t where "PJ_DNS_TYPE_A = 1"
definition PJ_DNS_TYPE_NS :: pj_uint16_t where "PJ_DNS_TYPE_NS = 2"
definition PJ_DNS_TYPE_CNAME :: pj_uint16_t where "PJ_DNS_TYPE_CNAME = 5"
definition PJ_DNS_TYPE_PTR :: pj_uint16_t where "PJ_DNS_TYPE_PTR = 12"
definition PJ_DNS_TYPE_AAAA :: pj_uint16_t where "PJ_DNS_TYPE_AAAA = 28"
definition PJ_DNS_TYPE_SRV :: pj_uint16_t where "PJ_DNS_TYPE_SRV = 33"

lemmas dns_types = PJ_DNS_TYPE_A_def PJ_DNS_TYPE_NS_def PJ_DNS_TYPE_CNAME_def PJ_DNS_TYPE_PTR_def PJ_DNS_TYPE_AAAA_def PJ_DNS_TYPE_SRV_def

section \<open>Queries\<close>

definition write16 :: "pj_uint16_t \<Rightarrow> bytes" where
  "write16 val = [ucast (drop_bit 8 val), ucast (val AND 0xFF)]"

text \<open>
  The labels of a name: each is written with its length, a byte, before it. A dot at the end of the name ends the last
  label; the loop runs once for every label and dot that is left.
\<close>

function write_labels :: "bytes \<Rightarrow> bytes" where
  "write_labels name =
     (if name = [] then []
      else
        let label = takeWhile (\<lambda>c. c \<noteq> 46) name; rest = dropWhile (\<lambda>c. c \<noteq> 46) name
        in of_nat (length label) # label @ write_labels (if rest \<noteq> [] then tl rest else []))"
  by pat_completeness auto
termination
proof (relation "measure length", goal_cases)
  case (2 name label rest)
  have "length (dropWhile (\<lambda>c. c \<noteq> 46) name) \<le> length name" by (rule length_dropWhile_le)
  then show ?case using 2 by (cases "dropWhile (\<lambda>c. c \<noteq> 46) name") auto
qed simp

declare write_labels.simps [simp del]

text \<open>The bytes that are written to the packet, also when they are more than its size.\<close>

definition pj_dns_make_query :: "nat \<Rightarrow> pj_uint16_t \<Rightarrow> int \<Rightarrow> bytes \<Rightarrow> pj_status_t \<times> bytes" where
  "pj_dns_make_query sz ident qtype name =
     (if qtype = 0 then (PJ_EINVAL, [])
      else if sz < 12 + length name + 4 then (PJLIB_UTIL_EDNSQRYTOOSMALL, [])
      else (PJ_SUCCESS, write16 ident @ write16 (push_bit 8 1) @ write16 1 @ replicate 6 0 @
                          write_labels name @ [0] @ write16 (word_of_int qtype) @ write16 1))"

section \<open>Parsing\<close>

definition read16 :: "memory \<Rightarrow> nat \<Rightarrow> pj_uint16_t" where
  "read16 m p = push_bit 8 (ucast (m p)) OR ucast (m (p + 1))"

definition read32 :: "memory \<Rightarrow> nat \<Rightarrow> pj_uint32_t" where
  "read32 m p = push_bit 16 (ucast (read16 m p)) OR ucast (read16 m (p + 2))"

definition read_bytes :: "memory \<Rightarrow> nat \<Rightarrow> nat \<Rightarrow> bytes" where
  "read_bytes m p n = map m [p..<p + n]"

text \<open>The offset of a compressed name.\<close>

definition name_offset :: "memory \<Rightarrow> nat \<Rightarrow> nat" where
  "name_offset m p = unat (read16 m p XOR 0xC000)"

definition is_ptr :: "pj_uint8_t \<Rightarrow> bool" where
  "is_ptr c \<longleftrightarrow> c AND 0xC0 = 0xC0"

text \<open>
  The loops over the labels; \<open>rec\<close> counts the pointers that were followed. The packet starts at offset 0 and ends at \<open>mx\<close>. The result
  is the status with the length of the name in the packet and the length of the name.
\<close>

function get_name_len :: "nat \<Rightarrow> memory \<Rightarrow> nat \<Rightarrow> nat \<Rightarrow> nat \<Rightarrow> nat \<Rightarrow> pj_status_t \<times> nat \<times> nat" where
  "get_name_len rec m mx p parsed_len name_len =
     (if rec > 10 then (PJLIB_UTIL_EDNSINNAMEPTR, 0, 0)
      else if m p = 0 then (PJ_SUCCESS, parsed_len + 1, name_len)
      else if is_ptr (m p) then
        if name_offset m p \<ge> mx then (PJLIB_UTIL_EDNSINNAMEPTR, parsed_len, name_len)
        else case get_name_len (rec + 1) m mx (name_offset m p) 0 0 of
               (status, dummy, ptr_len) \<Rightarrow>
                 if status \<noteq> PJ_SUCCESS then (status, parsed_len, name_len)
                 else (PJ_SUCCESS, parsed_len + 2, name_len + ptr_len)
      else
        let label_len = unat (m p)
        in if label_len > mx then (PJLIB_UTIL_EDNSINNAMEPTR, parsed_len, name_len)
           else
             let q = p + label_len + 1;
                 parsed_len = parsed_len + label_len + 1;
                 name_len = name_len + (if m q \<noteq> 0 then label_len + 1 else label_len)
             in if q \<ge> mx then (PJLIB_UTIL_EDNSINSIZE, parsed_len, name_len)
                else get_name_len rec m mx q parsed_len name_len)"
  by pat_completeness auto
termination by (relation "measures [\<lambda>(rec, m, mx, p, a, b). 11 - rec, \<lambda>(rec, m, mx, p, a, b). mx - p]") auto

declare get_name_len.simps [simp del]

text \<open>The name is appended to what the buffer holds.\<close>

function get_name :: "nat \<Rightarrow> memory \<Rightarrow> nat \<Rightarrow> nat \<Rightarrow> bytes \<Rightarrow> pj_status_t \<times> bytes" where
  "get_name rec m mx p name =
     (if rec > 10 then (PJLIB_UTIL_EDNSINNAMEPTR, name)
      else if m p = 0 then (PJ_SUCCESS, name)
      else if is_ptr (m p) then
        if name_offset m p \<ge> mx then (PJLIB_UTIL_EDNSINNAMEPTR, name)
        else get_name (rec + 1) m mx (name_offset m p) name
      else
        let label_len = unat (m p)
        in if label_len > mx then (PJLIB_UTIL_EDNSINNAMEPTR, name)
           else
             let name = name @ read_bytes m (p + 1) label_len;
                 q = p + label_len + 1;
                 name = (if m q \<noteq> 0 then name @ [46] else name)
             in if q \<ge> mx then (PJLIB_UTIL_EDNSINSIZE, name) else get_name rec m mx q name)"
  by pat_completeness auto
termination by (relation "measures [\<lambda>(rec, m, mx, p, a). 11 - rec, \<lambda>(rec, m, mx, p, a). mx - p]") auto

declare get_name.simps [simp del]

text \<open>A name with its length first, and the size of the buffer that is allocated for it.\<close>

definition parse_name :: "memory \<Rightarrow> nat \<Rightarrow> nat \<Rightarrow> pj_status_t \<times> nat \<times> nat \<times> bytes" where
  "parse_name m mx p =
     (case get_name_len 0 m mx p 0 0 of
        (status, name_part_len, name_len) \<Rightarrow>
          if status \<noteq> PJ_SUCCESS then (status, 0, 0, [])
          else case get_name 0 m mx p [] of (status, name) \<Rightarrow> (status, name_part_len, name_len, name))"

definition parse_query :: "memory \<Rightarrow> nat \<Rightarrow> nat \<Rightarrow> pj_status_t \<times> pj_dns_parsed_query option \<times> nat" where
  "parse_query m mx start =
     (case parse_name m mx start of
        (status, name_part_len, name_len, name) \<Rightarrow>
          if status \<noteq> PJ_SUCCESS then (status, None, 0)
          else
            let p = start + name_part_len
            in (PJ_SUCCESS, Some \<lparr>dq_name = name, dq_type = read16 m p, dq_dnsclass = read16 m (p + 2)\<rparr>, p + 4 - start))"

text \<open>The data of a record by its type, with the offset behind it.\<close>

definition parse_rdata :: "memory \<Rightarrow> nat \<Rightarrow> pj_uint16_t \<Rightarrow> pj_uint16_t \<Rightarrow> nat \<Rightarrow> pj_status_t \<times> bytes option \<times> dns_rdata \<times> nat" where
  "parse_rdata m mx type rdlength p =
     (if type = PJ_DNS_TYPE_A then (PJ_SUCCESS, None, RD_a (read_bytes m p 4), p + 4)
      else if type = PJ_DNS_TYPE_AAAA then (PJ_SUCCESS, None, RD_aaaa (read_bytes m p 16), p + 16)
      else if type = PJ_DNS_TYPE_CNAME \<or> type = PJ_DNS_TYPE_NS \<or> type = PJ_DNS_TYPE_PTR then
        (case parse_name m mx p of
           (status, name_part_len, name_len, name) \<Rightarrow>
             if status \<noteq> PJ_SUCCESS then (status, None, RD_none, p) else (PJ_SUCCESS, None, RD_name name, p + name_part_len))
      else if type = PJ_DNS_TYPE_SRV then
        (case parse_name m mx (p + 6) of
           (status, name_part_len, name_len, name) \<Rightarrow>
             if status \<noteq> PJ_SUCCESS then (status, None, RD_none, p)
             else (PJ_SUCCESS, None, RD_srv (read16 m p) (read16 m (p + 2)) (read16 m (p + 4)) name, p + 6 + name_part_len))
      else (PJ_SUCCESS, Some (read_bytes m p (unat rdlength)), RD_none, p + unat rdlength))"

definition parse_rr :: "memory \<Rightarrow> nat \<Rightarrow> nat \<Rightarrow> pj_status_t \<times> pj_dns_parsed_rr option \<times> nat" where
  "parse_rr m mx start =
     (case parse_name m mx start of
        (status, name_part_len, name_len, name) \<Rightarrow>
          if status \<noteq> PJ_SUCCESS then (status, None, 0)
          else
            let p = start + name_part_len
            in if p + 10 > mx then (PJLIB_UTIL_EDNSINSIZE, None, 0)
               else if read16 m (p + 2) \<noteq> 1 then (PJLIB_UTIL_EDNSINCLASS, None, 0)
               else
                 let rdlength = read16 m (p + 8)
                 in if p + 10 + unat rdlength > mx then (PJLIB_UTIL_EDNSINSIZE, None, 0)
                    else case parse_rdata m mx (read16 m p) rdlength (p + 10) of
                           (status, data, rdata, q) \<Rightarrow>
                             if status \<noteq> PJ_SUCCESS then (status, None, 0)
                             else (PJ_SUCCESS, Some \<lparr>rr_name = name, rr_type = read16 m p, rr_dnsclass = read16 m (p + 2),
                                     rr_ttl = read32 m (p + 4), rr_rdlength = rdlength, rr_data = data, rr_rdata = rdata\<rparr>, q - start))"

text \<open>A section of the packet: as many records as its count says, one after the other.\<close>

fun parse_section :: "(nat \<Rightarrow> pj_status_t \<times> 'r option \<times> nat) \<Rightarrow> nat \<Rightarrow> nat \<Rightarrow> pj_status_t \<times> 'r list \<times> nat" where
  "parse_section parse start 0 = (PJ_SUCCESS, [], start)"
| "parse_section parse start (Suc n) =
     (case parse start of
        (status, r, parsed_len) \<Rightarrow>
          if status \<noteq> PJ_SUCCESS then (status, [], start)
          else case parse_section parse (start + parsed_len) n of (status, rs, start) \<Rightarrow> (status, the r # rs, start))"

definition pj_dns_parse_packet :: "memory \<Rightarrow> nat \<Rightarrow> pj_status_t \<times> pj_dns_parsed_packet option" where
  "pj_dns_parse_packet m sz =
     (if sz = 0 then (PJ_EINVAL, None)
      else if sz < 12 then (PJLIB_UTIL_EDNSINSIZE, None)
      else
        let hdr = \<lparr>dh_id = read16 m 0, dh_flags = read16 m 2, dh_qdcount = read16 m 4, dh_anscount = read16 m 6, dh_nscount = read16 m 8,
                   dh_arcount = read16 m 10\<rparr>
        in case parse_section (parse_query m sz) 12 (unat (dh_qdcount hdr)) of
             (status, q, start) \<Rightarrow>
               if status \<noteq> PJ_SUCCESS then (status, None)
               else case parse_section (parse_rr m sz) start (unat (dh_anscount hdr)) of
                 (status, ans, start) \<Rightarrow>
                   if status \<noteq> PJ_SUCCESS then (status, None)
                   else case parse_section (parse_rr m sz) start (unat (dh_nscount hdr)) of
                     (status, ns, start) \<Rightarrow>
                       if status \<noteq> PJ_SUCCESS then (status, None)
                       else case parse_section (parse_rr m sz) start (unat (dh_arcount hdr)) of
                         (status, arr, start) \<Rightarrow>
                           if status \<noteq> PJ_SUCCESS then (status, None)
                           else (PJ_SUCCESS, Some \<lparr>dp_hdr = hdr, dp_q = q, dp_ans = ans, dp_ns = ns, dp_arr = arr\<rparr>))"

section \<open>Copies\<close>

definition PJ_DNS_MAX_NAMES_IN_NAMETABLE :: nat where "PJ_DNS_MAX_NAMES_IN_NAMETABLE = 16"

text \<open>A name that is in the table already, up to case, is shared with it.\<close>

definition apply_name_table :: "bytes list \<Rightarrow> bytes \<Rightarrow> bytes \<times> bytes list" where
  "apply_name_table nametable src =
     (case find (\<lambda>n. pj_stricmp n src = 0) nametable of
        Some n \<Rightarrow> (n, nametable)
      | None \<Rightarrow> (src, if length nametable < PJ_DNS_MAX_NAMES_IN_NAMETABLE then nametable @ [src] else nametable))"

definition copy_query :: "bytes list \<Rightarrow> pj_dns_parsed_query \<Rightarrow> pj_dns_parsed_query \<times> bytes list" where
  "copy_query nametable src = (let (name, nametable) = apply_name_table nametable (dq_name src) in (src\<lparr>dq_name := name\<rparr>, nametable))"

definition copy_rr :: "bytes list \<Rightarrow> pj_dns_parsed_rr \<Rightarrow> pj_dns_parsed_rr \<times> bytes list" where
  "copy_rr nametable src =
     (let (name, nametable) = apply_name_table nametable (rr_name src);
          dst = src\<lparr>rr_name := name, rr_data := map_option (take (unat (rr_rdlength src))) (rr_data src)\<rparr>
      in case rr_rdata src of
           RD_srv prio weight port target \<Rightarrow>
             (if rr_type src = PJ_DNS_TYPE_SRV
              then let (target, nametable) = apply_name_table nametable target in (dst\<lparr>rr_rdata := RD_srv prio weight port target\<rparr>, nametable)
              else (dst, nametable))
         | _ \<Rightarrow> (dst, nametable))"

fun copy_section :: "(bytes list \<Rightarrow> 'r \<Rightarrow> 'r \<times> bytes list) \<Rightarrow> bytes list \<Rightarrow> 'r list \<Rightarrow> 'r list \<times> bytes list" where
  "copy_section copy nametable [] = ([], nametable)"
| "copy_section copy nametable (r # rs) =
     (let (r, nametable) = copy nametable r; (rs, nametable) = copy_section copy nametable rs in (r # rs, nametable))"

text \<open>The sections that the options leave out stay empty; the arrays are as long as their counts say.\<close>

definition dup_section :: "(bytes list \<Rightarrow> 'r \<Rightarrow> 'r \<times> bytes list) \<Rightarrow> pj_uint32_t \<Rightarrow> nat \<Rightarrow> bytes list \<Rightarrow> pj_uint16_t \<Rightarrow> 'r list \<Rightarrow> 'r list \<times> bytes list" where
  "dup_section copy options b nametable cnt rs =
     (if cnt \<noteq> 0 \<and> \<not> bit options b then copy_section copy nametable (take (unat cnt) rs) else ([], nametable))"

definition pj_dns_packet_dup :: "pj_dns_parsed_packet \<Rightarrow> pj_uint32_t \<Rightarrow> pj_dns_parsed_packet" where
  "pj_dns_packet_dup p options =
     (let (q, nt) = dup_section copy_query options 0 [] (dh_qdcount (dp_hdr p)) (dp_q p);
          (ans, nt) = dup_section copy_rr options 1 nt (dh_anscount (dp_hdr p)) (dp_ans p);
          (ns, nt) = dup_section copy_rr options 2 nt (dh_nscount (dp_hdr p)) (dp_ns p);
          (arr, nt) = dup_section copy_rr options 3 nt (dh_arcount (dp_hdr p)) (dp_arr p)
      in \<lparr>dp_hdr = (dp_hdr p)\<lparr>dh_qdcount := of_nat (length q), dh_anscount := of_nat (length ans), dh_nscount := of_nat (length ns),
            dh_arcount := of_nat (length arr)\<rparr>, dp_q = q, dp_ans = ans, dp_ns = ns, dp_arr = arr\<rparr>)"

text \<open>Records made by the application.\<close>

definition blank_rr :: "bytes \<Rightarrow> pj_uint16_t \<Rightarrow> nat \<Rightarrow> nat \<Rightarrow> dns_rdata \<Rightarrow> pj_dns_parsed_rr" where
  "blank_rr name type dnsclass ttl rdata = \<lparr>rr_name = name, rr_type = type, rr_dnsclass = of_nat dnsclass, rr_ttl = of_nat ttl, rr_rdlength = 0,
     rr_data = None, rr_rdata = rdata\<rparr>"

definition pj_dns_init_srv_rr :: "bytes \<Rightarrow> nat \<Rightarrow> nat \<Rightarrow> nat \<Rightarrow> nat \<Rightarrow> nat \<Rightarrow> bytes \<Rightarrow> pj_dns_parsed_rr" where
  "pj_dns_init_srv_rr res_name dnsclass ttl prio weight port target =
     blank_rr res_name PJ_DNS_TYPE_SRV dnsclass ttl (RD_srv (of_nat prio) (of_nat weight) (of_nat port) target)"

definition pj_dns_init_cname_rr :: "bytes \<Rightarrow> nat \<Rightarrow> nat \<Rightarrow> bytes \<Rightarrow> pj_dns_parsed_rr" where
  "pj_dns_init_cname_rr res_name dnsclass ttl name = blank_rr res_name PJ_DNS_TYPE_CNAME dnsclass ttl (RD_name name)"

definition pj_dns_init_a_rr :: "bytes \<Rightarrow> nat \<Rightarrow> nat \<Rightarrow> bytes \<Rightarrow> pj_dns_parsed_rr" where
  "pj_dns_init_a_rr res_name dnsclass ttl ip_addr = blank_rr res_name PJ_DNS_TYPE_A dnsclass ttl (RD_a ip_addr)"

section \<open>A name fits its buffer\<close>

lemma not_ptr_small: "\<not> is_ptr c \<Longrightarrow> unat c < 192"
proof -
  have "\<forall>c :: pj_uint8_t. c AND 0xC0 = 0xC0 \<or> unat c < 192" unfolding all_bytes by code_simp
  then show "\<not> is_ptr c \<Longrightarrow> unat c < 192" by (auto simp: is_ptr_def)
qed

lemma small_not_ptr: "unat c < 64 \<Longrightarrow> \<not> is_ptr c"
proof -
  have "\<forall>c :: pj_uint8_t. \<not> (c AND 0xC0 = 0xC0) \<or> \<not> unat c < 64" unfolding all_bytes by code_simp
  then show "unat c < 64 \<Longrightarrow> \<not> is_ptr c" by (auto simp: is_ptr_def)
qed

text \<open>One round of each loop, by what it finds.\<close>

lemma name_len_deep: "10 < rec \<Longrightarrow> get_name_len rec m mx p a b = (PJLIB_UTIL_EDNSINNAMEPTR, 0, 0)"
  by (subst get_name_len.simps) simp

lemma name_len_stop: "rec \<le> 10 \<Longrightarrow> m p = 0 \<Longrightarrow> get_name_len rec m mx p a b = (PJ_SUCCESS, a + 1, b)"
  by (subst get_name_len.simps) simp

lemma name_len_ptr:
  "rec \<le> 10 \<Longrightarrow> m p \<noteq> 0 \<Longrightarrow> is_ptr (m p) \<Longrightarrow> get_name_len rec m mx p a b =
   (if name_offset m p \<ge> mx then (PJLIB_UTIL_EDNSINNAMEPTR, a, b)
    else case get_name_len (rec + 1) m mx (name_offset m p) 0 0 of
           (status, dummy, n) \<Rightarrow> if status \<noteq> PJ_SUCCESS then (status, a, b) else (PJ_SUCCESS, a + 2, b + n))"
  by (subst get_name_len.simps) simp

lemma name_len_label:
  "rec \<le> 10 \<Longrightarrow> m p \<noteq> 0 \<Longrightarrow> \<not> is_ptr (m p) \<Longrightarrow> get_name_len rec m mx p a b =
   (let l = unat (m p); q = p + l + 1; b' = b + (if m q \<noteq> 0 then l + 1 else l)
    in if l > mx then (PJLIB_UTIL_EDNSINNAMEPTR, a, b) else if q \<ge> mx then (PJLIB_UTIL_EDNSINSIZE, a + l + 1, b')
       else get_name_len rec m mx q (a + l + 1) b')"
  by (subst get_name_len.simps) (simp add: Let_def)

lemma name_stop: "rec \<le> 10 \<Longrightarrow> m p = 0 \<Longrightarrow> get_name rec m mx p name = (PJ_SUCCESS, name)"
  by (subst get_name.simps) simp

lemma name_ptr:
  "rec \<le> 10 \<Longrightarrow> m p \<noteq> 0 \<Longrightarrow> is_ptr (m p) \<Longrightarrow> get_name rec m mx p name =
   (if name_offset m p \<ge> mx then (PJLIB_UTIL_EDNSINNAMEPTR, name) else get_name (rec + 1) m mx (name_offset m p) name)"
  by (subst get_name.simps) simp

lemma name_label:
  "rec \<le> 10 \<Longrightarrow> m p \<noteq> 0 \<Longrightarrow> \<not> is_ptr (m p) \<Longrightarrow> get_name rec m mx p name =
   (let l = unat (m p); q = p + l + 1; name' = name @ read_bytes m (p + 1) l @ (if m q \<noteq> 0 then [46] else [])
    in if l > mx then (PJLIB_UTIL_EDNSINNAMEPTR, name) else if q \<ge> mx then (PJLIB_UTIL_EDNSINSIZE, name') else get_name rec m mx q name')"
  by (subst get_name.simps) (simp add: Let_def)

text \<open>An induction rule without the layers of the code.\<close>

lemma name_induct [case_names deep stop ptr label]:
  fixes P :: "nat \<Rightarrow> nat \<Rightarrow> bool" and m :: memory
  assumes "\<And>rec p. 10 < rec \<Longrightarrow> P rec p" "\<And>rec p. rec \<le> 10 \<Longrightarrow> m p = 0 \<Longrightarrow> P rec p"
    "\<And>rec p. rec \<le> 10 \<Longrightarrow> m p \<noteq> 0 \<Longrightarrow> is_ptr (m p) \<Longrightarrow> (name_offset m p < mx \<Longrightarrow> P (rec + 1) (name_offset m p)) \<Longrightarrow> P rec p"
    "\<And>rec p. rec \<le> 10 \<Longrightarrow> m p \<noteq> 0 \<Longrightarrow> \<not> is_ptr (m p) \<Longrightarrow> (p + unat (m p) + 1 < mx \<Longrightarrow> P rec (p + unat (m p) + 1)) \<Longrightarrow> P rec p"
  shows "P rec p"
proof (induction "(rec, p)" arbitrary: rec p rule: wf_induct_rule [OF wf_measures [of "[\<lambda>(rec, p). 11 - rec, \<lambda>(rec, p). mx - p]"]])
  case (1 rec p)
  show ?case
  proof (cases "10 < rec")
    case False
    then have r: "rec \<le> 10" by simp
    consider "m p = 0" | "m p \<noteq> 0" "is_ptr (m p)" | "m p \<noteq> 0" "\<not> is_ptr (m p)" by blast
    then show ?thesis
    proof cases
      case 2
      show ?thesis by (rule assms(3) [OF r 2]) (rule 1, use r in auto)
    next
      case 3
      show ?thesis by (rule assms(4) [OF r 3]) (rule 1, simp)
    qed (use assms(2) r in auto)
  qed (use assms(1) in auto)
qed

lemma get_name_follows:
  "get_name_len rec m mx p a b = (PJ_SUCCESS, a', b') \<Longrightarrow>
   \<exists>w. (\<forall>name. get_name rec m mx p name = (PJ_SUCCESS, name @ w)) \<and> b' = b + length w"
proof (induction rec p arbitrary: a b a' b' rule: name_induct [where m = m and mx = mx])
  case (ptr rec p)
  then obtain d n where rec: "get_name_len (rec + 1) m mx (name_offset m p) 0 0 = (PJ_SUCCESS, d, n)" "name_offset m p < mx" "b' = b + n"
    by (auto simp: name_len_ptr split: if_splits prod.splits)
  from ptr.IH [OF rec(2,1)] show ?case using rec ptr.hyps by (auto simp: name_ptr)
next
  case (label rec p)
  let ?q = "p + unat (m p) + 1"
  have rec: "get_name_len rec m mx ?q (a + unat (m p) + 1) (b + (if m ?q \<noteq> 0 then unat (m p) + 1 else unat (m p))) = (PJ_SUCCESS, a', b')"
    "\<not> unat (m p) > mx" "?q < mx"
    using label.prems label.hyps by (auto simp: name_len_label Let_def split: if_splits)
  from label.IH [OF rec(3,1)] obtain w where w: "\<And>name. get_name rec m mx ?q name = (PJ_SUCCESS, name @ w)"
    "b' = b + (if m ?q \<noteq> 0 then unat (m p) + 1 else unat (m p)) + length w" by blast
  show ?case using w rec label.hyps
    by (intro exI [of _ "read_bytes m (p + 1) (unat (m p)) @ (if m ?q \<noteq> 0 then [46] else []) @ w"]) (simp add: name_label Let_def read_bytes_def)
qed (auto simp: name_len_deep name_len_stop name_stop)

section \<open>How far the parser reads\<close>

text \<open>Two memories that hold the same bytes up to an offset. A label is shorter than 192 bytes, and is read before the check.\<close>

definition agree :: "nat \<Rightarrow> memory \<Rightarrow> memory \<Rightarrow> bool" where
  "agree n m m' \<longleftrightarrow> (\<forall>i < n. m i = m' i)"

lemma agree_mono: "agree n m m' \<Longrightarrow> k \<le> n \<Longrightarrow> agree k m m'"
  by (simp add: agree_def)

lemma agree_at: "agree n m m' \<Longrightarrow> i < n \<Longrightarrow> m i = m' i"
  by (simp add: agree_def)

lemma read16_agree: "agree n m m' \<Longrightarrow> p + 2 \<le> n \<Longrightarrow> read16 m p = read16 m' p"
  by (simp add: agree_def read16_def)

lemma read32_agree: "agree n m m' \<Longrightarrow> p + 4 \<le> n \<Longrightarrow> read32 m p = read32 m' p"
  using read16_agree [of n m m' p] read16_agree [of n m m' "p + 2"] by (simp add: read32_def)

lemma read_bytes_agree: "agree n m m' \<Longrightarrow> p + k \<le> n \<Longrightarrow> read_bytes m p k = read_bytes m' p k"
  by (simp add: agree_def read_bytes_def)

lemma name_offset_agree: "agree n m m' \<Longrightarrow> p + 2 \<le> n \<Longrightarrow> name_offset m p = name_offset m' p"
  using read16_agree [of n m m' p] by (simp add: name_offset_def)

lemma name_len_agree:
  "agree (max p mx + 193) m m' \<Longrightarrow> get_name_len rec m mx p a b = get_name_len rec m' mx p a b"
proof (induction rec p arbitrary: a b rule: name_induct [where m = m and mx = mx])
  case (stop rec p)
  then show ?case using agree_at [OF stop.prems, of p] by (simp add: name_len_stop)
next
  case (ptr rec p)
  have eq: "m' p = m p" "name_offset m' p = name_offset m p" using agree_at [OF ptr.prems, of p] name_offset_agree [OF ptr.prems, of p] by auto
  have "get_name_len (rec + 1) m mx (name_offset m p) 0 0 = get_name_len (rec + 1) m' mx (name_offset m p) 0 0" if "name_offset m p < mx"
    using ptr.IH [OF that] agree_mono [OF ptr.prems] that by simp
  then show ?case using ptr.hyps eq by (simp add: name_len_ptr)
next
  case (label rec p)
  let ?q = "p + unat (m p) + 1"
  have l: "unat (m p) < 192" using not_ptr_small label.hyps(3) .
  have eq: "m' p = m p" "m' ?q = m ?q" using agree_at [OF label.prems, of p] agree_at [OF label.prems, of ?q] l by auto
  have "get_name_len rec m mx ?q a b = get_name_len rec m' mx ?q a b" if "?q < mx" for a b
    using label.IH [OF that] agree_mono [OF label.prems] that by simp
  then show ?case using label.hyps eq by (simp add: name_len_label Let_def)
qed (simp add: name_len_deep)

lemma name_agree:
  "agree (max p mx + 193) m m' \<Longrightarrow> get_name rec m mx p name = get_name rec m' mx p name"
proof (induction rec p arbitrary: name rule: name_induct [where m = m and mx = mx])
  case (deep rec p)
  then show ?case by (simp add: get_name.simps [of rec])
next
  case (stop rec p)
  then show ?case using agree_at [OF stop.prems, of p] by (simp add: name_stop)
next
  case (ptr rec p)
  have eq: "m' p = m p" "name_offset m' p = name_offset m p" using agree_at [OF ptr.prems, of p] name_offset_agree [OF ptr.prems, of p] by auto
  have "get_name (rec + 1) m mx (name_offset m p) name = get_name (rec + 1) m' mx (name_offset m p) name" if "name_offset m p < mx"
    using ptr.IH [OF that] agree_mono [OF ptr.prems] that by simp
  then show ?case using ptr.hyps eq by (simp add: name_ptr)
next
  case (label rec p)
  let ?q = "p + unat (m p) + 1"
  have l: "unat (m p) < 192" using not_ptr_small label.hyps(3) .
  have eq: "m' p = m p" "m' ?q = m ?q" "read_bytes m' (p + 1) (unat (m p)) = read_bytes m (p + 1) (unat (m p))"
    using agree_at [OF label.prems, of p] agree_at [OF label.prems, of ?q] read_bytes_agree [OF label.prems, of "p + 1" "unat (m p)"] l by auto
  have "get_name rec m mx ?q name = get_name rec m' mx ?q name" if "?q < mx" for name
    using label.IH [OF that] agree_mono [OF label.prems] that by simp
  then show ?case using label.hyps eq by (simp add: name_label Let_def)
qed

lemma name_len_parsed:
  "get_name_len rec m mx p a b = (PJ_SUCCESS, a', b') \<Longrightarrow> a \<le> a' \<and> p + a' \<le> max (p + 2) (mx + 1) + a"
proof (induction rec p arbitrary: a b a' b' rule: name_induct [where m = m and mx = mx])
  case (label rec p)
  let ?q = "p + unat (m p) + 1"
  have "get_name_len rec m mx ?q (a + unat (m p) + 1) (b + (if m ?q \<noteq> 0 then unat (m p) + 1 else unat (m p))) = (PJ_SUCCESS, a', b')" "?q < mx"
    using label.prems label.hyps by (auto simp: name_len_label Let_def split: if_splits)
  from label.IH [OF this(2,1)] this(2) show ?case by (auto simp: max_def split: if_splits)
next
  case (ptr rec p)
  have "a' = a + 2" using ptr.prems unfolding name_len_ptr [of rec m p, OF ptr.hyps] by (auto split: if_splits prod.splits)
  then show ?case by simp
qed (simp_all add: name_len_deep name_len_stop)

lemma parse_name_agree: "agree (max p mx + 193) m m' \<Longrightarrow> parse_name m mx p = parse_name m' mx p"
  using name_len_agree [of p mx m m' 0 0 0] name_agree [of p mx m m' 0 "[]"] by (auto simp: parse_name_def split: prod.splits)

lemma parse_name_end: "parse_name m mx p = (PJ_SUCCESS, k, n, name) \<Longrightarrow> p + k \<le> max (p + 2) (mx + 1) \<and> length name = n"
  using name_len_parsed [of 0 m mx p 0 0] get_name_follows [of 0 m mx p 0 0]
  by (auto simp: parse_name_def split: prod.splits if_splits)


lemma parse_query_agree: "agree (max p mx + 193) m m' \<Longrightarrow> parse_query m mx p = parse_query m' mx p"
proof -
  assume ag: "agree (max p mx + 193) m m'"
  obtain st k n name where pn: "parse_name m mx p = (st, k, n, name)" by (metis prod_cases4)
  have "read16 m (p + k) = read16 m' (p + k) \<and> read16 m (p + k + 2) = read16 m' (p + k + 2)" if "st = PJ_SUCCESS"
    using read16_agree [OF ag, of "p + k"] read16_agree [OF ag, of "p + k + 2"] parse_name_end [OF pn [unfolded that]] by auto
  moreover have "parse_name m' mx p = (st, k, n, name)" using parse_name_agree [OF ag] pn by simp
  ultimately show ?thesis using pn by (auto simp: parse_query_def Let_def)
qed

lemma parse_query_end: "parse_query m mx p = (PJ_SUCCESS, r, k) \<Longrightarrow> p + k \<le> max (p + 6) (mx + 5)"
  using parse_name_end [of m mx p] by (auto simp: parse_query_def Let_def split: prod.splits if_splits)

lemma parse_rdata_agree:
  assumes "agree (mx + 199) m m'" "p + unat rdlength \<le> mx"
  shows "parse_rdata m mx type rdlength p = parse_rdata m' mx type rdlength p"
  using parse_name_agree [OF agree_mono [OF assms(1)], of p mx] parse_name_agree [OF agree_mono [OF assms(1)], of "p + 6" mx]
    read_bytes_agree [OF assms(1), of p 4] read_bytes_agree [OF assms(1), of p 16] read_bytes_agree [OF assms(1), of p "unat rdlength"]
    read16_agree [OF assms(1), of p] read16_agree [OF assms(1), of "p + 2"] read16_agree [OF assms(1), of "p + 4"] assms(2)
  by (auto simp: parse_rdata_def split: prod.splits)

lemma parse_rdata_end:
  assumes "parse_rdata m mx type rdlength p = (PJ_SUCCESS, data, rdata, q)" "p + unat rdlength \<le> mx"
  shows "p \<le> q \<and> q \<le> mx + 16"
  using assms parse_name_end [of m mx p] parse_name_end [of m mx "p + 6"]
  by (fastforce simp: parse_rdata_def split: prod.splits if_splits)

lemma parse_rr_agree:
  assumes ag: "agree (max p mx + 199) m m'"
  shows "parse_rr m mx p = parse_rr m' mx p"
proof -
  obtain st k n name where pn: "parse_name m mx p = (st, k, n, name)" by (metis prod_cases4)
  let ?p = "p + k"
  have "read16 m ?p = read16 m' ?p" "read16 m (?p + 2) = read16 m' (?p + 2)" "read16 m (?p + 8) = read16 m' (?p + 8)"
    "read32 m (?p + 4) = read32 m' (?p + 4)" if "?p + 10 \<le> mx"
    using that by (auto intro!: read16_agree [OF ag] read32_agree [OF ag])
  moreover have "parse_rdata m mx t rd (?p + 10) = parse_rdata m' mx t rd (?p + 10)" if "?p + 10 + unat rd \<le> mx" for t rd
    using parse_rdata_agree [OF agree_mono [OF ag], of mx "?p + 10" rd t] that by simp
  moreover have "parse_name m' mx p = (st, k, n, name)" using parse_name_agree [OF agree_mono [OF ag], of p mx] pn by simp
  ultimately show ?thesis using pn by (auto simp: parse_rr_def Let_def split: prod.splits)
qed

lemma parse_rr_end: "parse_rr m mx p = (PJ_SUCCESS, r, k) \<Longrightarrow> p + k \<le> mx + 16"
proof -
  assume e: "parse_rr m mx p = (PJ_SUCCESS, r, k)"
  obtain l n name where pn: "parse_name m mx p = (PJ_SUCCESS, l, n, name)" using e by (auto simp: parse_rr_def split: prod.splits if_splits)
  let ?p = "p + l + 10"
  obtain data rdata q where "parse_rdata m mx (read16 m (p + l)) (read16 m (p + l + 8)) ?p = (PJ_SUCCESS, data, rdata, q)"
    "?p + unat (read16 m (p + l + 8)) \<le> mx" "k = q - p"
    using e pn by (auto simp: parse_rr_def Let_def split: prod.splits if_splits)
  then show ?thesis using parse_rdata_end by fastforce
qed


lemma query_section_agree:
  "agree (max p mx + 6 * n + 199) m m' \<Longrightarrow> parse_section (parse_query m mx) p n = parse_section (parse_query m' mx) p n \<and>
   (\<forall>qs q. parse_section (parse_query m mx) p n = (PJ_SUCCESS, qs, q) \<longrightarrow> q \<le> max p mx + 6 * n)"
proof (induction n arbitrary: p)
  case (Suc n)
  obtain st r k where pq: "parse_query m mx p = (st, r, k)" by (metis prod_cases3)
  have pq': "parse_query m' mx p = (st, r, k)" using parse_query_agree [OF agree_mono [OF Suc.prems], of p mx] pq by simp
  show ?case
  proof (cases "st = PJ_SUCCESS")
    case True
    have e: "max (p + k) mx \<le> max p mx + 6" using parse_query_end [OF pq [unfolded True]] by auto
    have "agree (max (p + k) mx + 6 * n + 199) m m'" using e by (intro agree_mono [OF Suc.prems]) auto
    from Suc.IH [OF this] show ?thesis using pq pq' True e by (fastforce split: prod.splits)
  qed (use pq pq' in simp)
qed simp

lemma rr_section_agree:
  "agree (max p (mx + 16) + 199) m m' \<Longrightarrow> parse_section (parse_rr m mx) p n = parse_section (parse_rr m' mx) p n \<and>
   (\<forall>rs q. parse_section (parse_rr m mx) p n = (PJ_SUCCESS, rs, q) \<longrightarrow> q \<le> max p (mx + 16))"
proof (induction n arbitrary: p)
  case (Suc n)
  obtain st r k where pq: "parse_rr m mx p = (st, r, k)" by (metis prod_cases3)
  have pq': "parse_rr m' mx p = (st, r, k)" using parse_rr_agree [OF agree_mono [OF Suc.prems], of p mx] pq by simp
  show ?case
  proof (cases "st = PJ_SUCCESS")
    case True
    have e: "p + k \<le> mx + 16" using parse_rr_end [OF pq [unfolded True]] .
    have "agree (max (p + k) (mx + 16) + 199) m m'" using e by (intro agree_mono [OF Suc.prems]) auto
    from Suc.IH [OF this] show ?thesis using pq pq' True e by (fastforce split: prod.splits)
  qed (use pq pq' in simp)
qed simp

section \<open>Queries are read back\<close>

fun dotted :: "bytes list \<Rightarrow> bytes" where
  "dotted [] = []"
| "dotted [l] = l"
| "dotted (l # ls) = l @ 46 # dotted ls"

definition label_ok :: "bytes \<Rightarrow> bool" where
  "label_ok l \<longleftrightarrow> l \<noteq> [] \<and> length l < 64 \<and> 46 \<notin> set l"

definition packed :: "bytes list \<Rightarrow> bytes" where
  "packed ls = concat (map (\<lambda>l. of_nat (length l) # l) ls)"

lemma packed_simps [simp]: "packed [] = []" "packed (l # ls) = of_nat (length l) # l @ packed ls"
  by (simp_all add: packed_def)

lemma no_dot: "46 \<notin> set l \<Longrightarrow> takeWhile (\<lambda>c. c \<noteq> 46) (l @ r) = l @ takeWhile (\<lambda>c. c \<noteq> 46) r \<and>
    dropWhile (\<lambda>c. c \<noteq> 46) (l @ r) = dropWhile (\<lambda>c. c \<noteq> 46) r" for l :: bytes
  by (induction l) auto

lemma write_labels_dotted: "list_all label_ok ls \<Longrightarrow> write_labels (dotted ls) = packed ls"
proof (induction ls rule: dotted.induct)
  case 1
  then show ?case by (simp add: write_labels.simps)
next
  case (2 l)
  then have t: "takeWhile (\<lambda>c. c \<noteq> 46) l = l" "dropWhile (\<lambda>c. c \<noteq> 46) l = []"
    by (auto simp: label_ok_def takeWhile_eq_all_conv dropWhile_eq_Nil_conv)
  have "write_labels l = of_nat (length l) # l @ write_labels []"
    using 2 by (subst write_labels.simps) (simp add: label_ok_def t)
  then show ?case by (simp add: write_labels.simps [of "[]"])
next
  case (3 l l2 ls)
  then show ?case
    using no_dot [of l "46 # dotted (l2 # ls)"] by (subst write_labels.simps) (auto simp: label_ok_def Let_def)
qed

lemma length_packed: "ls \<noteq> [] \<Longrightarrow> length (packed ls) = length (dotted ls) + 1"
  by (induction ls rule: dotted.induct) auto

definition holds :: "memory \<Rightarrow> nat \<Rightarrow> bytes \<Rightarrow> bool" where
  "holds m p xs \<longleftrightarrow> (\<forall>i < length xs. m (p + i) = xs ! i)"

lemma holds_Cons: "holds m p (x # xs) \<longleftrightarrow> m p = x \<and> holds m (p + 1) xs"
  by (auto simp: holds_def nth_Cons split: nat.splits)

lemma holds_append: "holds m p (xs @ ys) \<longleftrightarrow> holds m p xs \<and> holds m (p + length xs) ys"
proof (induction xs arbitrary: p)
  case Nil
  then show ?case by (simp add: holds_def)
qed (simp add: holds_Cons)

lemma holds_read: "holds m p xs \<Longrightarrow> read_bytes m p (length xs) = xs"
  by (intro nth_equalityI) (auto simp: holds_def read_bytes_def)

lemma label_len: "label_ok l \<Longrightarrow> unat (of_nat (length l) :: pj_uint8_t) = length l \<and> (of_nat (length l) :: pj_uint8_t) \<noteq> 0"
proof -
  assume l: "label_ok l"
  have "unat (of_nat (length l) :: pj_uint8_t) = length l" using l by (simp add: unat_of_nat label_ok_def)
  then show ?thesis using l by (auto simp: label_ok_def)
qed

lemma name_at:
  assumes "list_all label_ok ls" "holds m p (packed ls @ [0])" "p + length (packed ls) < mx" "rec \<le> 10"
  shows "get_name_len rec m mx p a b = (PJ_SUCCESS, a + length (packed ls) + 1, b + length (dotted ls)) \<and>
    get_name rec m mx p name = (PJ_SUCCESS, name @ dotted ls)"
  using assms
proof (induction ls arbitrary: p a b name)
  case Nil
  then show ?case by (simp add: holds_Cons name_len_stop name_stop)
next
  case (Cons l ls)
  have l: "unat (m p) = length l" "m p \<noteq> 0" "\<not> is_ptr (m p)"
    using Cons.prems(1,2) label_len [of l] small_not_ptr [of "m p"] by (auto simp: holds_Cons label_ok_def)
  let ?q = "p + length l + 1"
  have h: "holds m ?q (packed ls @ [0])" "read_bytes m (p + 1) (length l) = l"
    using Cons.prems(2) holds_read [of m "p + 1" l] by (auto simp: holds_Cons holds_append)
  have q: "m ?q \<noteq> 0 \<longleftrightarrow> ls \<noteq> []" using h(1) Cons.prems(1) label_len by (cases ls) (auto simp: holds_Cons)
  have "?q + length (packed ls) < mx" using Cons.prems(3) by simp
  note IH = Cons.IH [OF _ h(1) this Cons.prems(4)]
  have "\<not> length l > mx" "\<not> mx \<le> ?q" using Cons.prems(3) by auto
  then show ?case using l h(2) q Cons.prems(1,4) IH
    by (cases ls) (auto simp: name_len_label name_label Let_def)
qed

lemma read16_write16: "holds m p (write16 v) \<Longrightarrow> read16 m p = v"
proof -
  have "push_bit 8 (ucast (ucast (drop_bit 8 v) :: pj_uint8_t)) OR ucast (ucast (v AND 0xFF) :: pj_uint8_t) = v"
  proof -
    have ff: "(0xFF :: pj_uint16_t) = mask 8" by (simp add: mask_eq_exp_minus_1)
    show ?thesis unfolding ff by (intro bit_word_eqI) (auto simp: bit_simps)
  qed
  then show "holds m p (write16 v) \<Longrightarrow> read16 m p = v" by (simp add: write16_def read16_def holds_Cons)
qed


section \<open>A copy is the same packet\<close>

text \<open>Up to the case of names, which are shared with the first that is equal in this sense.\<close>

definition same_name :: "bytes \<Rightarrow> bytes \<Rightarrow> bool" where
  "same_name a b \<longleftrightarrow> pj_stricmp a b = 0"

definition same_query :: "pj_dns_parsed_query \<Rightarrow> pj_dns_parsed_query \<Rightarrow> bool" where
  "same_query a b \<longleftrightarrow> same_name (dq_name a) (dq_name b) \<and> a = b\<lparr>dq_name := dq_name a\<rparr>"

fun same_rdata :: "dns_rdata \<Rightarrow> dns_rdata \<Rightarrow> bool" where
  "same_rdata (RD_srv p w r t) (RD_srv p' w' r' t') = (p = p' \<and> w = w' \<and> r = r' \<and> same_name t t')"
| "same_rdata a b = (a = b)"

definition same_rr :: "pj_dns_parsed_rr \<Rightarrow> pj_dns_parsed_rr \<Rightarrow> bool" where
  "same_rr a b \<longleftrightarrow> same_name (rr_name a) (rr_name b) \<and> same_rdata (rr_rdata a) (rr_rdata b) \<and> a = b\<lparr>rr_name := rr_name a, rr_rdata := rr_rdata a\<rparr>"

definition rr_data_ok :: "pj_dns_parsed_rr \<Rightarrow> bool" where
  "rr_data_ok r \<longleftrightarrow> (case rr_data r of None \<Rightarrow> True | Some d \<Rightarrow> length d = unat (rr_rdlength r))"

lemma name_table_same: "apply_name_table nt src = (name, nt') \<Longrightarrow> same_name name src"
  by (auto simp: apply_name_table_def same_name_def find_Some_iff split: option.splits)

lemma copy_query_same: "same_query (fst (copy_query nt q)) q"
  using name_table_same [of nt "dq_name q"] by (cases q) (auto simp: copy_query_def same_query_def split: prod.splits)

lemma same_rdata_refl: "same_rdata d d"
  by (cases d) (auto simp: same_name_def)

lemma copy_rr_same:
  assumes "rr_data_ok r"
  shows "same_rr (fst (copy_rr nt r)) r"
proof -
  have d: "map_option (take (unat (rr_rdlength r))) (rr_data r) = rr_data r" using assms by (auto simp: rr_data_ok_def split: option.splits)
  obtain name nt1 where n: "apply_name_table nt (rr_name r) = (name, nt1)" by (metis surj_pair)
  show ?thesis using name_table_same [OF n] same_rdata_refl [of "rr_rdata r"]
    by (cases "rr_rdata r") (auto simp: copy_rr_def same_rr_def d n Let_def split: prod.splits dest: name_table_same)
qed

lemma copy_section_same:
  assumes "\<And>nt r. r \<in> set rs \<Longrightarrow> R (fst (copy nt r)) r"
  shows "list_all2 R (fst (copy_section copy nt rs)) rs"
  using assms by (induction rs arbitrary: nt) (auto simp: Let_def split: prod.splits, metis fst_conv, metis fst_conv)

lemma dup_section_same:
  assumes "length rs = unat cnt" "\<And>nt r. r \<in> set rs \<Longrightarrow> R (fst (copy nt r)) r" "dup_section copy 0 b nt cnt rs = (rs', nt')"
  shows "list_all2 R rs' rs" "of_nat (length rs') = cnt"
proof -
  show l: "list_all2 R rs' rs"
  proof (cases "cnt = 0")
    case False
    then have "copy_section copy nt rs = (rs', nt')" using assms(1,3) by (simp add: dup_section_def)
    then show ?thesis using copy_section_same [of rs R copy nt] assms(2) by simp
  qed (use assms in \<open>simp add: dup_section_def\<close>)
  show "of_nat (length rs') = cnt" using list_all2_lengthD [OF l] assms(1) by simp
qed

definition packet_ok :: "pj_dns_parsed_packet \<Rightarrow> bool" where
  "packet_ok p \<longleftrightarrow> length (dp_q p) = unat (dh_qdcount (dp_hdr p)) \<and> length (dp_ans p) = unat (dh_anscount (dp_hdr p)) \<and>
     length (dp_ns p) = unat (dh_nscount (dp_hdr p)) \<and> length (dp_arr p) = unat (dh_arcount (dp_hdr p)) \<and>
     list_all rr_data_ok (dp_ans p @ dp_ns p @ dp_arr p)"

text \<open>Without options a copy has the header of the packet and all of its records.\<close>

theorem dns_dup_same:
  assumes "packet_ok p"
  shows "dp_hdr (pj_dns_packet_dup p 0) = dp_hdr p \<and> list_all2 same_query (dp_q (pj_dns_packet_dup p 0)) (dp_q p) \<and>
    list_all2 same_rr (dp_ans (pj_dns_packet_dup p 0)) (dp_ans p) \<and> list_all2 same_rr (dp_ns (pj_dns_packet_dup p 0)) (dp_ns p) \<and>
    list_all2 same_rr (dp_arr (pj_dns_packet_dup p 0)) (dp_arr p)"
proof -
  obtain q n1 where 1: "dup_section copy_query 0 0 [] (dh_qdcount (dp_hdr p)) (dp_q p) = (q, n1)" by (metis surj_pair)
  obtain ans n2 where 2: "dup_section copy_rr 0 1 n1 (dh_anscount (dp_hdr p)) (dp_ans p) = (ans, n2)" by (metis surj_pair)
  obtain ns n3 where 3: "dup_section copy_rr 0 2 n2 (dh_nscount (dp_hdr p)) (dp_ns p) = (ns, n3)" by (metis surj_pair)
  obtain arr n4 where 4: "dup_section copy_rr 0 3 n3 (dh_arcount (dp_hdr p)) (dp_arr p) = (arr, n4)" by (metis surj_pair)
  have ok: "r \<in> set (dp_ans p) \<union> set (dp_ns p) \<union> set (dp_arr p) \<Longrightarrow> same_rr (fst (copy_rr nt r)) r" for r nt
    using assms copy_rr_same by (auto simp: packet_ok_def list_all_iff)
  have "list_all2 same_query q (dp_q p)" "of_nat (length q) = dh_qdcount (dp_hdr p)"
    using dup_section_same [OF _ _ 1, of same_query] assms copy_query_same by (auto simp: packet_ok_def)
  moreover have "list_all2 same_rr ans (dp_ans p)" "of_nat (length ans) = dh_anscount (dp_hdr p)"
    using dup_section_same [OF _ _ 2, of same_rr] assms ok by (auto simp: packet_ok_def)
  moreover have "list_all2 same_rr ns (dp_ns p)" "of_nat (length ns) = dh_nscount (dp_hdr p)"
    using dup_section_same [OF _ _ 3, of same_rr] assms ok by (auto simp: packet_ok_def)
  moreover have "list_all2 same_rr arr (dp_arr p)" "of_nat (length arr) = dh_arcount (dp_hdr p)"
    using dup_section_same [OF _ _ 4, of same_rr] assms ok by (auto simp: packet_ok_def)
  ultimately show ?thesis unfolding pj_dns_packet_dup_def Let_def 1 2 3 4 prod.case by simp
qed

section \<open>Properties\<close>

text \<open>
  C18: A name from the network never overruns the buffer that is allocated for it: whenever the first pass over a name, which
  computes its length, succeeds, the second pass, which copies it, succeeds too and writes exactly that many
  bytes, for every packet and every chain of compressed names.
\<close>

theorem dns_name_fits:
  assumes "get_name_len 0 m mx p 0 0 = (PJ_SUCCESS, parsed_len, name_len)"
  shows "\<exists>name. get_name 0 m mx p [] = (PJ_SUCCESS, name) \<and> length name = name_len"
  using get_name_follows [OF assms] by auto



text \<open>A packet in memory, with zeros behind it.\<close>

definition in_memory :: "bytes \<Rightarrow> memory" where
  "in_memory pkt = (\<lambda>i. if i < length pkt then pkt ! i else 0)"

lemma in_memory_holds: "holds (in_memory pkt) 0 pkt"
  by (simp add: holds_def in_memory_def)


theorem dns_name_fits_witness:
  "\<exists>name. get_name 0 (in_memory [1, 97, 0xC0, 6, 0, 0, 2, 98, 99, 0]) 10 0 [] = (PJ_SUCCESS, name) \<and> length name = 4"
proof -
  let ?m = "in_memory [1, 97, 0xC0, 6, 0, 0, 2, 98, 99, 0]"
  have "get_name_len 0 ?m 10 0 0 0 = (PJ_SUCCESS, 4, 4)" by code_simp
  from dns_name_fits [OF this] show ?thesis .
qed


text \<open>
  Flaws. The check of the size of the packet in \<^verbatim>\<open>pj_dns_make_query\<close> leaves out the length byte of the first label and the final
  zero, so that two bytes are written behind a buffer of the size that it accepts. The parser does not check a
  query against the end of the packet: a header of twelve bytes that announces queries is parsed from the memory
  behind it. A label that is longer than the packet's rest is copied before the check.
\<close>

lemma dns_make_query_overrun:
  assumes "list_all label_ok ls" "ls \<noteq> []" "qtype \<noteq> 0"
  shows "\<exists>pkt. pj_dns_make_query (length (dotted ls) + 16) ident qtype (dotted ls) = (PJ_SUCCESS, pkt) \<and> length pkt = length (dotted ls) + 18"
  using assms(3) length_packed [OF assms(2)] by (auto simp: pj_dns_make_query_def write_labels_dotted [OF assms(1)] write16_def)

lemma dns_reads_behind:
  assumes "\<And>i. i \<ge> 12 \<Longrightarrow> m i = 0" "read16 m 6 = 0" "read16 m 8 = 0" "read16 m 10 = 0"
  shows "\<exists>p. pj_dns_parse_packet m 12 = (PJ_SUCCESS, Some p) \<and> length (dp_q p) = unat (read16 m 4)"
proof -
  have q: "parse_query m 12 p = (PJ_SUCCESS, Some \<lparr>dq_name = [], dq_type = 0, dq_dnsclass = 0\<rparr>, 5)" if "p \<ge> 12" for p
    using that assms(1) by (simp add: parse_query_def parse_name_def name_len_stop name_stop read16_def Let_def)
  have "p \<ge> 12 \<Longrightarrow> \<exists>qs s. parse_section (parse_query m 12) p n = (PJ_SUCCESS, qs, s) \<and> length qs = n" for p n
  proof (induction n arbitrary: p)
    case (Suc n)
    obtain qs s where "parse_section (parse_query m 12) (p + 5) n = (PJ_SUCCESS, qs, s)" "length qs = n"
      using Suc.IH [of "p + 5"] Suc.prems by auto
    then show ?case using q [OF Suc.prems] by simp
  qed simp
  from this [of 12 "unat (read16 m 4)"] show ?thesis using assms(2-4) by (auto simp: pj_dns_parse_packet_def Let_def)
qed

end
