(* ===== verification/Spec2Isabelle.thy ===== *)
theory Spec2Isabelle
  imports PJ_Timer PJ_TsxLayer PJ_JbufTrace PJ_Base64 PJ_Rtp PJ_SdpText PJ_SdpNegDemo PJ_Circbuf PJ_PoolTrace PJ_Dns
begin

text \<open>
  A verification library for PJPROJECT 2.4, the SIP and media stack in \<^verbatim>\<open>src/\<close>.

  \<^bold>\<open>The program.\<close> PJLIB (\<^verbatim>\<open>pjlib\<close>) holds the containers, the memory pools and the timer heap on which everything else is built;
  PJLIB-UTIL (\<^verbatim>\<open>pjlib-util\<close>) holds text utilities; PJSIP (\<^verbatim>\<open>pjsip\<close>) is the SIP stack, whose core is the
  transaction layer; PJMEDIA (\<^verbatim>\<open>pjmedia\<close>) negotiates sessions by SDP and carries media by RTP. An incoming message
  passes from a transport to the transaction layer, which finds the transaction in a hash table under its key and hands the
  message to the handler of the transaction's state; the transaction schedules its retransmission and timeout timers
  in the timer heap. A call's offer and answer are parsed with the text scanner, negotiated, and printed. Received RTP
  packets are checked by the RTP session and put into the jitter buffer, from which the playback takes frames; samples wait
  in circular buffers. All objects live in memory pools of the caching pool.

  \<^bold>\<open>Conventions.\<close> Each theory models one part in the order of its source, with the names of the source. A structure is a
  record, a union or enumeration a datatype. Integers have their width where the code relies on it or can overflow
  (\<open>n word\<close>, or natural numbers with \<open>mod\<close> written out); a \<^verbatim>\<open>pj_str_t\<close> is the list of its bytes. Objects
  that the code shares by pointer live in a store indexed by address (timer entries, transactions); arrays that are
  written by index are lists, and a read or write outside of one is a result of its own. Status codes are the datatype
  \<open>pj_status_t\<close> of \<open>PJ_Prelude\<close>. A failed assertion and a NULL dereference are results too, so that their
  absence is something to prove. Code outside of the modelled part (a callback, a transport, \<^verbatim>\<open>malloc\<close>, a random number, the
  clock) is an argument; what is assumed of it is a hypothesis with a name. The configuration is the default one on a
  64-bit little-endian host.

  \<^bold>\<open>PJLIB.\<close>
  \<^item> \<open>PJ_Time\<close>: \<^verbatim>\<open>pj_time_val\<close> and its macros (\<^verbatim>\<open>types.h\<close>), normalisation (\<^verbatim>\<open>types.c\<close>).
  \<^item> \<open>PJ_Timer\<close>: the timer heap (\<^verbatim>\<open>timer.c\<close>): the binary heap in an array, the free list of ids threaded through a second
    array, schedule, cancel, poll, growth, and the group lock of an entry. Any sequence of calls refines a finite
    map from entries to times (locale \<open>timer_service\<close>, interpreted on the heap); a poll fires all due entries in order up to
    its limit and leaves none behind; references on group locks balance.
  \<^item> \<open>PJ_Hash\<close>: the hash table (\<^verbatim>\<open>hash.c\<close>) with its buckets, allocated or caller-owned entries, and iterator. The locale
    \<open>pj_dict\<close> is a dictionary up to an equivalence of keys; the table is one under equality and one under equality up to case.
  \<^item> \<open>PJ_Pool\<close>, \<open>PJ_PoolCaching\<close>, \<open>PJ_PoolTrace\<close>: pools (\<^verbatim>\<open>pool.c\<close>, \<^verbatim>\<open>pool_i.h\<close>, \<^verbatim>\<open>pool_buf.c\<close>) and
    the caching pool with its policy on \<^verbatim>\<open>malloc\<close> (\<^verbatim>\<open>pool_caching.c\<close>, \<^verbatim>\<open>pool_policy_malloc.c\<close>). The locale \<open>pool_factory\<close> is
    what a factory promises to a pool; the policy is an interpretation of it, for every \<^verbatim>\<open>malloc\<close> that hands out
    disjoint chunks (\<open>malloc_ok\<close>). Over any sequence of operations allocations never overlap, memory is counted and given back,
    and allocation fails only for want of memory. Sizes are taken below \<open>2^62\<close>; what happens beyond is stated as a flaw.
  \<^item> \<open>PJ_Math\<close>: integer square root and running statistics (\<^verbatim>\<open>math.h\<close>). \<open>PJ_String\<close>: comparison and numbers (\<^verbatim>\<open>string.c\<close>).

  \<^bold>\<open>PJLIB-UTIL.\<close> \<open>PJ_Base64\<close>: both directions and the round trip (\<^verbatim>\<open>base64.c\<close>). \<open>PJ_Scanner\<close>: the scanner
  (\<^verbatim>\<open>scanner.c\<close>) with its character sets; no operation leaves the text. \<open>PJ_Dns\<close>: DNS packets (\<^verbatim>\<open>dns.c\<close>): queries, the parser with
  compressed names, copies; a name never overruns its buffer, a query is read back, and how far the parser reads
  behind the end of a packet.

  \<^bold>\<open>PJSIP.\<close> All of \<^verbatim>\<open>sip_transaction.c\<close>:
  \<^item> \<open>PJ_TsxKey\<close>: transaction keys of RFC 3261 and RFC 2543 and the buffer they are written to; uniqueness, and the exact
    condition under which the old form overruns its buffer.
  \<^item> \<open>PJ_Transaction\<close>: the state machine: every state handler, the timers, sending with its callbacks, creation,
    termination and destruction, as functions on one world of transactions, timers, transports and locks.
  \<^item> \<open>PJ_TsxSafety\<close>, \<open>PJ_TsxRefs\<close>: over all sequences of events no NULL handler or message is used and no state is left
    backwards; references to transports, listeners and locks balance (locale \<open>tsx_conserved\<close>, interpreted once for each
    kind), destruction gives all of them back, and the retransmission interval doubles as it should.
  \<^item> \<open>PJ_TsxLayer\<close>: the layer on top of the keys, the hash table (by its dictionary interface) and the state machine:
    registration, lookup, and that a response reaches the transaction of its request.

  \<^bold>\<open>PJMEDIA.\<close>
  \<^item> \<open>PJ_Framelist\<close>, \<open>PJ_Jbuf\<close>, \<open>PJ_JbufTrace\<close>: the jitter buffer (\<^verbatim>\<open>jbuf.c\<close>): the ring of slots refines a window of
    slots; prefetch, adaptation and the three discard algorithms; over any sequence of calls the buffer stays well formed, no call
    hangs, and frames come out in order and unchanged (locale \<open>window_property\<close> for what every operation keeps of the window).
  \<^item> \<open>PJ_Rtp\<close>: RTP sessions (\<^verbatim>\<open>rtp.c\<close>): headers, sequence numbers and their extension, sender to receiver round trip.
  \<^item> \<open>PJ_Circbuf\<close>: the circular buffer (\<^verbatim>\<open>circbuf.h\<close>) refines a queue of samples (locale \<open>sample_fifo\<close>); packing in place.
  \<^item> \<open>PJ_Sdp\<close>, \<open>PJ_SdpText\<close>: session descriptions (\<^verbatim>\<open>sdp.c\<close>): data, attributes, validation; the printer with its checks
    of the room left and the parser on the scanner, and their round trip.
  \<^item> \<open>PJ_SdpNeg\<close>: the offer/answer negotiator (\<^verbatim>\<open>sdp_neg.c\<close>). \<open>PJ_SdpNegProofs\<close>: its state machine, directions, modified
    offers. \<open>PJ_SdpNegAnswer\<close>: the answer to an offer. \<open>PJ_SdpNegRemote\<close>: the processing of an answer.
    \<open>PJ_SdpNegDemo\<close>: complete negotiations, as witnesses and as examples of the flaws.
  \<^bold>\<open>Bounds.\<close> No function needs fuel to be defined: loops are structural or have a measure. Loops that the code can be
  stuck in return \<open>None\<close> there (the discard loop of the jitter buffer, packing without a gap), and that they are not
  stuck is proved. Hypotheses on sizes are those that keep C's arithmetic from overflowing: capacities below \<open>2^31\<close> for
  samples, sizes below \<open>2^62\<close> for pools, frames of at most 200 ms for the jitter buffer.

  \<^bold>\<open>Flaws.\<close> Inputs on which the code does not do what it means to are stated as theorems of their own next to the properties that
  they limit: among them the overrun of the RFC 2543 key, the fifth bandwidth line of a session description, a transaction that is
  never destroyed, the wrong sequence number of a peek, the negotiator's missing check of the active description, and the
  misaligned pool on a buffer, and the DNS parser's reads behind the packet.

  \<^bold>\<open>Not modelled.\<close> Concurrency inside a call: a public operation holds its lock and is one step; what other threads can do is the
  interleaving of these steps. Messages and their parser beyond what the transactions read; dialogs, call control, presence and the
  application interfaces above them; STUN, TURN and ICE; RTCP; sockets, threads and files; signal processing, codecs and
  devices; third-party code. These are mostly input and output, glue over the modelled parts, or
  numerical code with no specification in the repository; NAT traversal and the SIP parser would be the next parts to take.
\<close>

end
